(* ===== verification/Base.thy ===== *)
theory Base
  imports Main
begin

text \<open>
  The base crate (\<open>base/src/lib.rs\<close>): the append-only interner that gives every definition its id, and
  the escaping of Sky text into Go string literals. The interner's \<open>IndexSet\<close> is the list of its
  items in insertion order; \<open>idx as u32\<close> truncates. A text is the list of its Unicode scalar values.
\<close>

section \<open>The interner\<close>

definition to_u32 :: "nat \<Rightarrow> nat" where
  "to_u32 n = n mod 2 ^ 32"

fun index_of :: "'a \<Rightarrow> 'a list \<Rightarrow> nat option" where
  "index_of x [] = None"
| "index_of x (y # ys) = (if y = x then Some 0 else map_option Suc (index_of x ys))"

text \<open>\<open>IndexSet::insert_full\<close>: the index of the item, which is appended when it is new.\<close>

definition insert_full :: "'a list \<Rightarrow> 'a \<Rightarrow> 'a list \<times> nat" where
  "insert_full items v = (case index_of v items of Some i \<Rightarrow> (items, i) | None \<Rightarrow> (items @ [v], length items))"

definition intern :: "'a list \<Rightarrow> 'a \<Rightarrow> 'a list \<times> nat" where
  "intern items v = (let (items', idx) = insert_full items v in (items', to_u32 idx))"

definition lookup :: "'a list \<Rightarrow> nat \<Rightarrow> 'a option" where
  "lookup items i = (if i < length items then Some (items ! i) else None)"

lemma index_of_Some: "index_of x xs = Some i \<Longrightarrow> i < length xs \<and> xs ! i = x"
  by (induction xs arbitrary: i) (auto split: if_splits)

lemma index_of_None: "index_of x xs = None \<longleftrightarrow> x \<notin> set xs"
  by (induction xs) auto

lemma index_of_append: "index_of x (xs @ ys) =
    (case index_of x xs of Some i \<Rightarrow> Some i | None \<Rightarrow> map_option ((+) (length xs)) (index_of x ys))"
  by (cases "index_of x ys"; induction xs) (auto split: option.splits)

text \<open>Ids are stable and name their value. Interning keeps the items distinct, returns an id that
  looks up to the value, leaves every id given before unchanged, and gives the value the same id
  again: two values have the same id exactly when they are equal. This holds while the interner
  holds fewer than \<open>2 ^ 32\<close> items, the range of the id.\<close>

theorem interner_stable:
  assumes "distinct items" "length items < 2 ^ 32" "intern items v = (items', i)"
  shows "distinct items' \<and> lookup items' i = Some v \<and> intern items' v = (items', i) \<and>
    (\<forall>j. lookup items j \<noteq> None \<longrightarrow> lookup items' j = lookup items j) \<and>
    (lookup items' j = Some v \<longleftrightarrow> j = i)"
proof (cases "index_of v items")
  case None
  then have "items' = items @ [v]" "i = length items" "v \<notin> set items"
    using assms by (auto simp: None intern_def insert_full_def to_u32_def simp flip: index_of_None)
  moreover from this have "index_of v (items @ [v]) = Some (length items)"
    by (simp add: index_of_append None)
  ultimately show ?thesis using assms(1,2)
    by (auto simp: intern_def insert_full_def to_u32_def lookup_def nth_append in_set_conv_nth split: if_splits)
next
  case (Some k)
  note k = index_of_Some[OF Some]
  then have "items' = items" "i = k"
    using assms Some by (auto simp: intern_def insert_full_def to_u32_def)
  with k Some assms show ?thesis
    by (auto simp: intern_def insert_full_def lookup_def nth_eq_iff_index_eq)
qed

section \<open>Go string literals\<close>

definition scalar :: "char \<Rightarrow> nat" where
  "scalar c = of_char c"

definition hex_digit :: "nat \<Rightarrow> nat" where
  "hex_digit d = (if d < 10 then scalar CHR ''0'' + d else scalar CHR ''a'' + (d - 10))"

text \<open>\<open>{:02x}\<close> of a value below 256 and \<open>{:04x}\<close> of a value below 65536.\<close>

definition hex2 :: "nat \<Rightarrow> nat list" where
  "hex2 c = [hex_digit (c div 16), hex_digit (c mod 16)]"

definition hex4 :: "nat \<Rightarrow> nat list" where
  "hex4 c = [hex_digit (c div 4096), hex_digit (c div 256 mod 16), hex_digit (c div 16 mod 16), hex_digit (c mod 16)]"

definition go_escape_char :: "nat \<Rightarrow> nat list" where
  "go_escape_char c =
     (if c = scalar CHR 0x22 then [scalar CHR 0x5C, scalar CHR 0x22]
      else if c = scalar CHR 0x5C then [scalar CHR 0x5C, scalar CHR 0x5C]
      else if c = scalar CHR 0x0A then [scalar CHR 0x5C, scalar CHR ''n'']
      else if c = scalar CHR 0x09 then [scalar CHR 0x5C, scalar CHR ''t'']
      else if c = scalar CHR 0x0D then [scalar CHR 0x5C, scalar CHR ''r'']
      else if c < 0x20 \<or> c = 0x7F then [scalar CHR 0x5C, scalar CHR ''x''] @ hex2 c
      else if 0x80 \<le> c \<and> c \<le> 0x9F \<or> c = 0xFEFF then [scalar CHR 0x5C, scalar CHR ''u''] @ hex4 c
      else [c])"

definition go_escape_string :: "nat list \<Rightarrow> nat list" where
  "go_escape_string s = concat (map go_escape_char s)"

definition go_string_literal :: "nat list \<Rightarrow> nat list" where
  "go_string_literal s = [scalar CHR 0x22] @ go_escape_string s @ [scalar CHR 0x22]"

text \<open>The Go lexer's reading of an interpreted string literal, for the escapes it has.\<close>

definition hex_value :: "nat \<Rightarrow> nat option" where
  "hex_value c =
     (if scalar CHR ''0'' \<le> c \<and> c \<le> scalar CHR ''9'' then Some (c - scalar CHR ''0'')
      else if scalar CHR ''a'' \<le> c \<and> c \<le> scalar CHR ''f'' then Some (c - scalar CHR ''a'' + 10)
      else None)"

fun hex_number :: "nat \<Rightarrow> nat list \<Rightarrow> nat option" where
  "hex_number acc [] = Some acc"
| "hex_number acc (c # cs) = (case hex_value c of None \<Rightarrow> None | Some v \<Rightarrow> hex_number (16 * acc + v) cs)"

text \<open>The characters a Go source file cannot hold inside the literal, or would hide in it.\<close>

definition refused :: "nat \<Rightarrow> bool" where
  "refused c \<longleftrightarrow> c < 0x20 \<or> 0x7F \<le> c \<and> c \<le> 0x9F \<or> c = 0xFEFF"

fun read_go :: "nat list \<Rightarrow> (nat list \<times> nat list) option" where
  "read_go [] = None"
| "read_go (c # cs) =
     (if c = scalar CHR 0x22 then Some ([], cs)
      else if refused c then None
      else if c \<noteq> scalar CHR 0x5C then map_option (apfst (Cons c)) (read_go cs)
      else (case cs of
              [] \<Rightarrow> None
            | k # ds \<Rightarrow>
                (if k = scalar CHR ''n'' then map_option (apfst (Cons 10)) (read_go ds)
                 else if k = scalar CHR ''t'' then map_option (apfst (Cons 9)) (read_go ds)
                 else if k = scalar CHR ''r'' then map_option (apfst (Cons 13)) (read_go ds)
                 else if k = scalar CHR 0x22 \<or> k = scalar CHR 0x5C then map_option (apfst (Cons k)) (read_go ds)
                 else if k = scalar CHR ''x'' then
                   (case hex_number 0 (take 2 ds) of
                      None \<Rightarrow> None | Some v \<Rightarrow> map_option (apfst (Cons v)) (read_go (drop 2 ds)))
                 else if k = scalar CHR ''u'' then
                   (case hex_number 0 (take 4 ds) of
                      None \<Rightarrow> None | Some v \<Rightarrow> map_option (apfst (Cons v)) (read_go (drop 4 ds)))
                 else None)))"

lemma hex_value_digit: "d < 16 \<Longrightarrow> hex_value (hex_digit d) = Some d"
  by (auto simp: hex_value_def hex_digit_def scalar_def)

lemma hex2_number: "c < 256 \<Longrightarrow> hex_number 0 (hex2 c) = Some c"
  by (simp add: hex2_def hex_value_digit div_less)

lemma hex4_number:
  assumes "c < 65536"
  shows "hex_number 0 (hex4 c) = Some c"
proof -
  have "c div 4096 < 16" using assms by (simp add: less_mult_imp_div_less)
  moreover have "16 * (16 * (16 * (c div 4096) + c div 256 mod 16) + c div 16 mod 16) + c mod 16 = c"
    using div_mult2_eq[of c 16 16] div_mult2_eq[of c 256 16] mult_div_mod_eq[of 16 c]
      mult_div_mod_eq[of 16 "c div 16"] mult_div_mod_eq[of 16 "c div 256"] by simp
  ultimately show ?thesis by (simp add: hex4_def hex_value_digit)
qed

lemma read_go_char: "read_go (go_escape_char c @ rest) = map_option (apfst (Cons c)) (read_go rest)"
proof -
  have len: "length (hex2 c) = 2" "length (hex4 c) = 4" for c by (simp_all add: hex2_def hex4_def)
  consider "c < 0x20 \<or> c = 0x7F" "c \<notin> {9, 10, 13}" | "0x80 \<le> c \<and> c \<le> 0x9F \<or> c = 0xFEFF"
    | "c \<in> {9, 10, 13}" | "\<not> refused c"
    by (cases "c < 0x20 \<or> c = 0x7F"; cases "c \<in> {9, 10, 13}"; cases "0x80 \<le> c \<and> c \<le> 0x9F \<or> c = 0xFEFF")
      (auto simp: refused_def)
  then show ?thesis
  proof cases
    case 1
    then have "go_escape_char c = [scalar CHR 0x5C, scalar CHR ''x''] @ hex2 c"
      by (auto simp: go_escape_char_def scalar_def)
    with 1 show ?thesis by (auto simp: len hex2_number refused_def scalar_def)
  next
    case 2
    then have "go_escape_char c = [scalar CHR 0x5C, scalar CHR ''u''] @ hex4 c"
      by (auto simp: go_escape_char_def scalar_def)
    with 2 show ?thesis by (auto simp: len hex4_number refused_def scalar_def)
  next
    case 3
    then show ?thesis by (auto simp: go_escape_char_def refused_def scalar_def)
  next
    case 4
    then show ?thesis by (auto simp: go_escape_char_def refused_def scalar_def)
  qed
qed

lemma read_go_escaped: "read_go (go_escape_string s @ rest) = map_option (apfst ((@) s)) (read_go rest)"
proof (induction s)
  case (Cons c s)
  have "go_escape_string (c # s) @ rest = go_escape_char c @ go_escape_string s @ rest"
    by (simp add: go_escape_string_def)
  then show ?case by (simp only: read_go_char Cons.IH) (simp add: option.map_comp o_def apfst_compose)
qed (simp add: go_escape_string_def option.map_ident apfst_def map_prod_def case_prod_unfold)

text \<open>C15: A Sky text survives its Go literal. For every text and whatever source follows it, the Go lexer
  reads the emitted literal back as exactly that text and stops right after its closing quote; it
  never meets a control character, a byte order mark or a newline inside the literal, each of which
  it would refuse.\<close>

theorem go_literal_roundtrip: "read_go (tl (go_string_literal s) @ rest) = Some (s, rest)"
proof -
  have "tl (go_string_literal s) @ rest = go_escape_string s @ scalar CHR 0x22 # rest"
    by (simp add: go_string_literal_def)
  then show ?thesis by (simp only: read_go_escaped) simp
qed

end
