(* ===== verification/Prelude.thy ===== *)
theory Prelude
  imports Main "HOL-Library.State_Monad" "HOL-Library.Sublist" "HOL-Library.Word"
begin

text \<open>
  What every component of the development shares: Rust's byte strings (a \<open>str\<close> is the list of
  its UTF-8 bytes, so offsets are byte offsets as in the source), the state monad helpers in
  which the code that mutates a state is written, and the list lemmas the proofs use.
\<close>

section \<open>Byte strings\<close>

text \<open>
  \<open>slice s a b\<close> is \<open>&s[a..b]\<close>. Rust panics when the range is not inside the string; each
  component states the bounds under which it slices.
\<close>

definition slice :: "string \<Rightarrow> nat \<Rightarrow> nat \<Rightarrow> string" where
  "slice s a b = take (b - a) (drop a s)"

lemma slice_refl [simp]: "slice s a a = []"
  by (simp add: slice_def)

lemma length_slice [simp]: "a \<le> b \<Longrightarrow> b \<le> length s \<Longrightarrow> length (slice s a b) = b - a"
  by (simp add: slice_def)

lemma slice_append:
  assumes "a \<le> b" "b \<le> c"
  shows "slice s a b @ slice s b c = slice s a c"
proof -
  have "take ((b - a) + (c - b)) (drop a s) =
      take (b - a) (drop a s) @ take (c - b) (drop (b - a) (drop a s))"
    by (rule take_add)
  with assms show ?thesis by (simp add: slice_def)
qed

lemma slice_full [simp]: "slice s 0 (length s) = s"
  by (simp add: slice_def)

lemma slice_slice:
  "a + d \<le> b \<Longrightarrow> slice (slice s a b) c d = slice s (a + c) (a + d)"
  by (simp add: slice_def drop_take add.commute min_def)

lemma slice_drop: "slice (drop a s) c d = slice s (a + c) (a + d)"
  by (simp add: slice_def add.commute)

text \<open>The characters of a (valid UTF-8) string, each as its own bytes; \<open>s.chars()\<close>.\<close>

definition utf8_width :: "char \<Rightarrow> nat" where
  "utf8_width c = (let b = (of_char c :: nat) in
     if b < 128 then 1 else if b < 224 then 2 else if b < 240 then 3 else 4)"

lemma utf8_width_pos [simp]: "0 < utf8_width c"
  by (simp add: utf8_width_def Let_def)

fun chars :: "string \<Rightarrow> string list" where
  "chars [] = []"
| "chars (c # cs) = take (utf8_width c) (c # cs) # chars (drop (utf8_width c - 1) cs)"

lemma concat_chars [simp]: "concat (chars s) = s"
proof (induction s rule: chars.induct)
  case (2 c cs)
  have "take (utf8_width c) (c # cs) @ drop (utf8_width c - 1) cs = c # cs"
    by (cases "utf8_width c") (use utf8_width_pos[of c] in auto)
  with 2 show ?case by simp
qed simp

lemma chars_nonempty: "c \<in> set (chars s) \<Longrightarrow> c \<noteq> []"
  by (induction s rule: chars.induct) (auto simp: less_imp_neq[THEN not_sym])

lemma length_chars_le: "length (chars s) \<le> length s"
  by (induction s rule: chars.induct) (auto intro: le_trans[OF _ diff_le_self])

lemma chars_eq_Nil [simp]: "chars s = [] \<longleftrightarrow> s = []"
  by (cases s) auto

abbreviation newline :: char where "newline \<equiv> CHR 0x0A"
abbreviation tab :: char where "tab \<equiv> CHR 0x09"
abbreviation carriage_return :: char where "carriage_return \<equiv> CHR 0x0D"
abbreviation dquote :: char where "dquote \<equiv> CHR 0x22"
abbreviation squote :: char where "squote \<equiv> CHR 0x27"
abbreviation backslash :: char where "backslash \<equiv> CHR 0x5C"

section \<open>The state monad\<close>

definition gets :: "('s \<Rightarrow> 'a) \<Rightarrow> ('s, 'a) state" where
  "gets f = State (\<lambda>s. (f s, s))"

definition updates :: "('s \<Rightarrow> 's) \<Rightarrow> ('s, unit) state" where
  "updates f = State (\<lambda>s. ((), f s))"

abbreviation ret :: "'a \<Rightarrow> ('s, 'a) state" where
  "ret \<equiv> State_Monad.return"

definition whenM :: "bool \<Rightarrow> ('s, unit) state \<Rightarrow> ('s, unit) state" where
  "whenM b m = (if b then m else ret ())"

lemma run_gets [simp]: "run_state (gets f) s = (f s, s)"
  by (simp add: gets_def)

lemma run_updates [simp]: "run_state (updates f) s = ((), f s)"
  by (simp add: updates_def)

abbreviation result :: "('s, 'a) state \<Rightarrow> 's \<Rightarrow> 'a" where
  "result m s \<equiv> fst (run_state m s)"

abbreviation final :: "('s, 'a) state \<Rightarrow> 's \<Rightarrow> 's" where
  "final m s \<equiv> snd (run_state m s)"

lemma result_bind [simp]:
  "result (State_Monad.bind m f) s = result (f (result m s)) (final m s)"
  by (simp split: prod.splits)

lemma final_bind [simp]:
  "final (State_Monad.bind m f) s = final (f (result m s)) (final m s)"
  by (simp split: prod.splits)

lemma run_bind [simp]:
  "run_state (State_Monad.bind m f) s = run_state (f (result m s)) (final m s)"
  by (simp split: prod.splits)

declare State_Monad.run_state_bind [simp del]

lemma run_if [simp]: "run_state (if b then m else n) s = (if b then run_state m s else run_state n s)"
  by simp

text \<open>A decimal number and \<open>[&str]::join\<close>.\<close>

fun show_nat :: "nat \<Rightarrow> string" where
  "show_nat n = (if n < 10 then [char_of (48 + n)] else show_nat (n div 10) @ [char_of (48 + n mod 10)])"

declare show_nat.simps [simp del]

fun join :: "'a list \<Rightarrow> 'a list list \<Rightarrow> 'a list" where
  "join sep [] = []"
| "join sep [x] = x"
| "join sep (x # y # xs) = x @ sep @ join sep (y # xs)"

section \<open>Lists\<close>

lemma nth_append_length_plus [simp]: "(xs @ ys) ! (length xs + n) = ys ! n"
  by (simp add: nth_append)

lemma list_update_append_length_plus:
  "(xs @ ys)[length xs + n := z] = xs @ ys[n := z]"
  by (simp add: list_update_append)

lemma filter_snoc_if: "filter P (xs @ [x]) = filter P xs @ (if P x then [x] else [])"
  by simp

end
