(* ===== verification/Rust_Text.thy ===== *)
theory Rust_Text
  imports Base Prelude "HOL-Library.Sublist"
begin

text \<open>
  Rust's text operations, for the components that read a text by characters: a text is the list of its
  Unicode scalar values, so \<open>find\<close>, \<open>trim\<close> and slicing at a found position are list operations. The
  Unicode tables of the standard library that the code consults are parameters where they are used;
  white space is the fixed set of the Unicode standard.
\<close>

section \<open>Literals\<close>

abbreviation chr :: "char \<Rightarrow> nat" where
  "chr c \<equiv> scalar c"

definition codes :: "string \<Rightarrow> nat list" where
  "codes s = map scalar s"

section \<open>Searching and trimming\<close>

text \<open>\<open>s.find(pat)\<close> for a text and for a predicate, and \<open>str::trim\<close>.\<close>

fun find_text :: "nat list \<Rightarrow> nat list \<Rightarrow> nat option" where
  "find_text pat [] = (if pat = [] then Some 0 else None)"
| "find_text pat (c # cs) =
     (if take (length pat) (c # cs) = pat then Some 0 else map_option Suc (find_text pat cs))"

fun find_where :: "(nat \<Rightarrow> bool) \<Rightarrow> nat list \<Rightarrow> nat option" where
  "find_where f [] = None"
| "find_where f (c # cs) = (if f c then Some 0 else map_option Suc (find_where f cs))"

definition or_end :: "nat option \<Rightarrow> nat list \<Rightarrow> nat" where
  "or_end i s = (case i of Some n \<Rightarrow> n | None \<Rightarrow> length s)"

definition is_white :: "nat \<Rightarrow> bool" where
  "is_white c \<longleftrightarrow> 9 \<le> c \<and> c \<le> 13 \<or> c = 32 \<or> c = 0x85 \<or> c = 0xA0 \<or> c = 0x1680 \<or>
     0x2000 \<le> c \<and> c \<le> 0x200A \<or> c = 0x2028 \<or> c = 0x2029 \<or> c = 0x202F \<or> c = 0x205F \<or> c = 0x3000"

definition trim_start :: "nat list \<Rightarrow> nat list" where
  "trim_start = dropWhile is_white"

definition trim :: "nat list \<Rightarrow> nat list" where
  "trim s = rev (trim_start (rev (trim_start s)))"

text \<open>\<open>str::lines\<close> and \<open>str::split_whitespace\<close>; the first argument is the current piece, reversed.\<close>

fun lines_from :: "nat list \<Rightarrow> nat list \<Rightarrow> nat list list" where
  "lines_from cur [] = (if cur = [] then [] else [rev cur])"
| "lines_from cur (c # cs) =
     (if c = 10 then rev (if cur \<noteq> [] \<and> hd cur = 13 then tl cur else cur) # lines_from [] cs
      else lines_from (c # cur) cs)"

definition text_lines :: "nat list \<Rightarrow> nat list list" where
  "text_lines s = lines_from [] s"

fun words_from :: "nat list \<Rightarrow> nat list \<Rightarrow> nat list list" where
  "words_from cur [] = (if cur = [] then [] else [rev cur])"
| "words_from cur (c # cs) =
     (if is_white c then (if cur = [] then words_from [] cs else rev cur # words_from [] cs)
      else words_from (c # cur) cs)"

definition split_whitespace :: "nat list \<Rightarrow> nat list list" where
  "split_whitespace s = words_from [] s"

text \<open>\<open>split_once\<close>, \<open>trim_end_matches\<close> and \<open>trim_matches\<close> with a character.\<close>

definition split_once :: "nat \<Rightarrow> nat list \<Rightarrow> (nat list \<times> nat list) option" where
  "split_once d s = map_option (\<lambda>i. (take i s, drop (i + 1) s)) (find_where (\<lambda>c. c = d) s)"

definition trim_end_matches :: "nat \<Rightarrow> nat list \<Rightarrow> nat list" where
  "trim_end_matches d s = rev (dropWhile (\<lambda>c. c = d) (rev s))"

definition trim_matches :: "nat \<Rightarrow> nat list \<Rightarrow> nat list" where
  "trim_matches d s = trim_end_matches d (dropWhile (\<lambda>c. c = d) s)"

section \<open>Numbers\<close>

text \<open>\<open>from_str_radix\<close> of an unsigned type with the given bound (\<open>parse\<close> is radix 10) and of \<open>i64\<close>
  and \<open>char::from_u32\<close>.\<close>

definition digit_value :: "nat \<Rightarrow> nat option" where
  "digit_value c =
     (if chr CHR ''0'' \<le> c \<and> c \<le> chr CHR ''9'' then Some (c - chr CHR ''0'')
      else if chr CHR ''a'' \<le> c \<and> c \<le> chr CHR ''f'' then Some (c - chr CHR ''a'' + 10)
      else if chr CHR ''A'' \<le> c \<and> c \<le> chr CHR ''F'' then Some (c - chr CHR ''A'' + 10)
      else None)"

fun digits_in :: "nat \<Rightarrow> nat \<Rightarrow> nat \<Rightarrow> nat list \<Rightarrow> nat option" where
  "digits_in bound radix acc [] = Some acc"
| "digits_in bound radix acc (c # cs) = (case digit_value c of
     Some d \<Rightarrow> (if d < radix \<and> acc * radix + d < bound then digits_in bound radix (acc * radix + d) cs else None)
   | None \<Rightarrow> None)"

definition from_str_radix :: "nat \<Rightarrow> nat \<Rightarrow> nat list \<Rightarrow> nat option" where
  "from_str_radix bound radix s =
     (let digits = (case s of c # cs \<Rightarrow> (if c = chr CHR ''+'' then cs else s) | [] \<Rightarrow> []) in
      if digits = [] then None else digits_in bound radix 0 digits)"

definition i64_radix :: "nat \<Rightarrow> nat list \<Rightarrow> int option" where
  "i64_radix radix s = (case s of
     c # cs \<Rightarrow>
       (if c = chr CHR ''-'' then
          (if cs = [] then None else map_option (\<lambda>n. - int n) (digits_in (2 ^ 63 + 1) radix 0 cs))
        else map_option int (from_str_radix (2 ^ 63) radix s))
   | [] \<Rightarrow> None)"

definition parse_i64 :: "nat list \<Rightarrow> int option" where
  "parse_i64 s = i64_radix 10 s"

definition char_from_u32 :: "nat \<Rightarrow> nat option" where
  "char_from_u32 n = (if n < 0xD800 \<or> 0xE000 \<le> n \<and> n < 0x110000 then Some n else None)"

section \<open>Debug output\<close>

text \<open>\<open>{s:?}\<close>; \<open>plain\<close> are the characters the standard library prints as they are (printable and no
  grapheme extension).\<close>

fun hex_text :: "nat \<Rightarrow> nat list" where
  "hex_text n = (if n < 16 then [hex_digit n] else hex_text (n div 16) @ [hex_digit (n mod 16)])"

declare hex_text.simps [simp del]

definition debug_char :: "(nat \<Rightarrow> bool) \<Rightarrow> nat \<Rightarrow> nat list" where
  "debug_char plain c =
     (if c = 0 then codes [CHR 0x5C, CHR ''0'']
      else if c = 9 then codes [CHR 0x5C, CHR ''t'']
      else if c = 13 then codes [CHR 0x5C, CHR ''r'']
      else if c = 10 then codes [CHR 0x5C, CHR ''n'']
      else if c = chr CHR 0x5C then codes [CHR 0x5C, CHR 0x5C]
      else if c = chr CHR 0x22 then codes [CHR 0x5C, CHR 0x22]
      else if plain c then [c]
      else codes [CHR 0x5C, CHR ''u'', CHR ''{''] @ hex_text c @ codes ''}'')"

definition debug_text :: "(nat \<Rightarrow> bool) \<Rightarrow> nat list \<Rightarrow> nat list" where
  "debug_text plain s = codes [CHR 0x22] @ concat (map (debug_char plain) s) @ codes [CHR 0x22]"

section \<open>Results\<close>

text \<open>The \<open>?\<close> operator, and \<open>collect\<close> into a result.\<close>

definition try_text :: "nat list + 'a \<Rightarrow> ('a \<Rightarrow> nat list + 'b) \<Rightarrow> nat list + 'b" where
  "try_text m k = (case m of Inl e \<Rightarrow> Inl e | Inr x \<Rightarrow> k x)"

fun all_ok :: "(nat list + 'a) list \<Rightarrow> nat list + 'a list" where
  "all_ok [] = Inr []"
| "all_ok (Inl e # ms) = Inl e"
| "all_ok (Inr x # ms) = try_text (all_ok ms) (\<lambda>xs. Inr (x # xs))"

section \<open>Lemmas\<close>

lemma codes_simps [simp]: "codes [] = []" "codes (c # cs) = scalar c # codes cs" "codes (s @ t) = codes s @ codes t"
  by (simp_all add: codes_def)

lemma decimal_digits: "c \<in> set (codes (show_nat n)) \<Longrightarrow> 48 \<le> c \<and> c \<le> 57"
proof (induction n rule: show_nat.induct)
  case (1 n)
  then show ?case by (cases "n < 10") (auto simp: show_nat.simps[of n] scalar_def)
qed

lemma find_where_Some:
  "find_where f s = Some n \<Longrightarrow> n < length s \<and> f (s ! n) \<and> (\<forall>i < n. \<not> f (s ! i))"
proof (induction s arbitrary: n)
  case (Cons c cs)
  then show ?case by (auto split: if_splits simp: nth_Cons')
qed simp

lemma find_where_None: "find_where f s = None \<longleftrightarrow> (\<forall>c \<in> set s. \<not> f c)"
  by (induction s) auto

lemma find_where_append:
  "\<forall>c \<in> set s. \<not> f c \<Longrightarrow> find_where f (s @ t) = map_option ((+) (length s)) (find_where f t)"
  by (induction s) (auto simp: option.map_comp comp_def map_option_case split: option.splits)

lemma or_end_le: "or_end (find_where f s) s \<le> length s"
  by (auto simp: or_end_def dest!: find_where_Some split: option.splits)

lemma find_text_Some: "find_text pat s = Some n \<Longrightarrow> n + length pat \<le> length s"
proof (induction s arbitrary: n)
  case (Cons c cs)
  show ?case
  proof (cases "take (length pat) (c # cs) = pat")
    case True
    from arg_cong[OF this, of length] have "length pat \<le> length (c # cs)" by simp
    with Cons.prems True show ?thesis by simp
  qed (use Cons in auto)
qed (auto split: if_splits)

lemma trim_start_ends: "trim_start s = s \<longleftrightarrow> s = [] \<or> \<not> is_white (hd s)"
proof (cases s)
  case (Cons c cs)
  have "length (dropWhile is_white cs) \<le> length cs" by (rule length_dropWhile_le)
  then have "dropWhile is_white cs \<noteq> c # cs" by (metis impossible_Cons)
  then show ?thesis by (simp add: trim_start_def Cons)
qed (simp add: trim_start_def)

lemma all_ok_map: "all_ok (map Inr xs) = Inr xs"
  by (induction xs) (simp_all add: try_text_def)

section \<open>Character classes\<close>

text \<open>What the code relies on in \<open>char::is_alphanumeric\<close>: on ASCII it is letters and digits, and it holds
  for no white space.\<close>

definition ascii_alphanumeric :: "nat \<Rightarrow> bool" where
  "ascii_alphanumeric c \<longleftrightarrow> 48 \<le> c \<and> c \<le> 57 \<or> 65 \<le> c \<and> c \<le> 90 \<or> 97 \<le> c \<and> c \<le> 122"

locale char_classes =
  fixes alnum :: "nat \<Rightarrow> bool"
  assumes ascii: "c < 128 \<Longrightarrow> alnum c \<longleftrightarrow> ascii_alphanumeric c"
    and not_white: "alnum c \<Longrightarrow> \<not> is_white c"

interpretation ascii_classes: char_classes ascii_alphanumeric
  by unfold_locales (auto simp: ascii_alphanumeric_def is_white_def)

end
