(* ===== verification/Go_Ir.thy ===== *)
theory Go_Ir
  imports Rust_Text "HOL-Library.Word"
begin

text \<open>
  The typed Go-IR of \<open>lower/src/ir.rs\<close>: the types, expressions, statements and items that lowering builds
  and \<open>codegen\<close> prints. A \<open>String\<close> is the list of its scalar values, an \<open>i64\<close> a 64-bit word and an \<open>f64\<close> the word of its
  bits.
\<close>

type_synonym go_text = "nat list"

datatype prim = PrimInt | PrimStr | PrimBool | PrimFloat | PrimRune | PrimBytes

fun prim_go_name :: "prim \<Rightarrow> go_text" where
  "prim_go_name PrimInt = codes ''int''"
| "prim_go_name PrimStr = codes ''string''"
| "prim_go_name PrimBool = codes ''bool''"
| "prim_go_name PrimFloat = codes ''float64''"
| "prim_go_name PrimRune = codes ''rune''"
| "prim_go_name PrimBytes = codes ''[]byte''"

datatype go_ty =
    GoBare prim
  | GoUnit
  | GoAny
  | GoFuncTy "go_ty list" go_ty
  | GoNamed go_text "go_ty list"
  | GoSlice go_ty
  | GoMap go_ty go_ty
  | GoStructTy "(go_text \<times> go_ty) list"
  | GoTuple "go_ty list"
  | GoTyVar go_text

fun into_func :: "go_ty \<Rightarrow> go_ty + (go_ty list \<times> go_ty)" where
  "into_func (GoFuncTy ps r) = Inr (ps, r)"
| "into_func t = Inl t"

fun into_slice :: "go_ty \<Rightarrow> go_ty + go_ty" where
  "into_slice (GoSlice t) = Inr t"
| "into_slice t = Inl t"

fun elem_ty :: "go_ty \<Rightarrow> go_ty" where
  "elem_ty (GoSlice t) = t"
| "elem_ty (GoNamed n [t]) = (if n = codes ''rt.SkyList'' then t else GoAny)"
| "elem_ty t = GoAny"

datatype coerce_reason = FfiReturn | WireDecode | TeaDispatch | PrimitiveJoin | GenericErase

fun reason_comment :: "coerce_reason \<Rightarrow> go_text" where
  "reason_comment FfiReturn = codes ''FFI return''"
| "reason_comment WireDecode = codes ''wire decode''"
| "reason_comment TeaDispatch = codes ''TEA dispatch''"
| "reason_comment PrimitiveJoin = codes ''primitive join''"
| "reason_comment GenericErase = codes ''generic erase''"

datatype go_bin = BinAdd | BinSub | BinMul | BinEq | BinNe | BinLt | BinGt | BinLe | BinGe | BinAnd | BinOr

record go_param =
  gp_name :: go_text
  gp_ty :: go_ty

datatype go_expr = GoExpr go_kind go_ty
  and go_kind =
    GoIdent go_text
  | GoIntLit "64 word"
  | GoFloatLit "64 word"
  | GoStrLit go_text
  | GoBoolLit bool
  | GoNil
  | GoCall go_expr "go_expr list"
  | GoGenericCall go_text "go_ty list" "go_expr list"
  | GoSelector go_expr go_text
  | GoTypeAssert go_expr go_ty
  | GoIndex go_expr go_expr
  | GoSliceLit go_ty "go_expr list"
  | GoStructLit go_text "(go_text \<times> go_expr) list"
  | GoFuncLit "go_param list" go_ty "go_stmt list"
  | GoBinary go_bin go_expr go_expr
  | GoBlock "go_stmt list"
  | GoCoerce go_expr go_ty go_ty coerce_reason
  | GoWiden go_expr
  and go_stmt =
    GoExprStmt go_expr
  | GoShort go_text go_expr
  | GoDiscard go_expr
  | GoAssignField go_expr go_text go_expr
  | GoAssign go_text go_expr
  | GoVarDecl go_text go_ty
  | GoLoop "go_stmt list"
  | GoContinue
  | GoReturn "go_expr option"
  | GoIf go_expr "go_stmt list" "go_stmt list"
  | GoIfTypeAssert go_text go_text go_expr go_ty "go_stmt list"
  | GoComment go_text
  | GoScope "go_stmt list"

fun expr_kind :: "go_expr \<Rightarrow> go_kind" where
  "expr_kind (GoExpr k t) = k"

fun expr_ty :: "go_expr \<Rightarrow> go_ty" where
  "expr_ty (GoExpr k t) = t"

datatype go_type_def =
    AdtAlias
  | SealedIface "(go_text \<times> nat \<times> go_ty list) list"
  | IotaEnum "go_text list"
  | StructDef "(go_text \<times> go_ty) list"
  | RuntimeAlias go_text
  | AliasDef go_ty

record go_func_decl =
  gf_name :: go_text
  gf_type_params :: "(go_text \<times> go_ty) list"
  gf_params :: "go_param list"
  gf_ret :: go_ty
  gf_body :: "go_stmt list"
  gf_doc :: "go_text option"

datatype go_item =
    ItemFunc go_func_decl
  | ItemType go_text go_type_def
  | ItemVar go_text go_ty "go_expr option"
  | ItemInit "go_stmt list"
  | ItemRaw go_text

end
