(* ===== verification/Go_Semantics.thy ===== *)
theory Go_Semantics
  imports Go_Ir "HOL-Library.While_Combinator"
begin

text \<open>
  A denotational semantics of the Go-IR, the specification of the passes over it. Control flow, scopes,
  closures (which capture variables by reference) and evaluation order are spelled out as in the Go
  specification; the meaning of constants, operators, calls, conversions and of the runtime is the parameter
  \<open>go_ops\<close>. A closure is given to \<open>go_ops\<close> as the function it computes, so two programs
  with the same denotation cannot be told apart by what they call.
\<close>

section \<open>Results and states\<close>

text \<open>Evaluation gives a value, panics, gets stuck (what the Go compiler refuses: a body that falls off its end)
  or does not end.\<close>

datatype ('a, 's) ev = EvVal 'a 's | EvPanic 's | EvStuck | EvDiverge

definition ev_bind :: "('a, 's) ev \<Rightarrow> ('a \<Rightarrow> 's \<Rightarrow> ('b, 's) ev) \<Rightarrow> ('b, 's) ev" where
  "ev_bind m k = (case m of EvVal a s \<Rightarrow> k a s | EvPanic s \<Rightarrow> EvPanic s | EvStuck \<Rightarrow> EvStuck | EvDiverge \<Rightarrow> EvDiverge)"

text \<open>Every variable is a cell; the world is the rest of the state.\<close>

record ('v, 'w) go_state =
  gs_cells :: "'v list"
  gs_world :: 'w

type_synonym go_env = "go_text \<Rightarrow> nat option"

datatype 'v ctrl = CtFall go_env | CtContinue | CtReturn "'v option"

record ('v, 'w) go_ops =
  op_ident :: "go_text \<Rightarrow> ('v, 'w) go_state \<Rightarrow> ('v, ('v, 'w) go_state) ev"
  op_const :: "go_kind \<Rightarrow> go_ty \<Rightarrow> 'v"
  op_zero :: "go_ty \<Rightarrow> 'v"
  op_true :: "'v \<Rightarrow> bool"
  op_call :: "'v \<Rightarrow> 'v list \<Rightarrow> ('v, 'w) go_state \<Rightarrow> ('v, ('v, 'w) go_state) ev"
  op_generic :: "go_text \<Rightarrow> go_ty list \<Rightarrow> 'v list \<Rightarrow> ('v, 'w) go_state \<Rightarrow> ('v, ('v, 'w) go_state) ev"
  op_select :: "'v \<Rightarrow> go_text \<Rightarrow> ('v, 'w) go_state \<Rightarrow> ('v, ('v, 'w) go_state) ev"
  op_assert :: "'v \<Rightarrow> go_ty \<Rightarrow> ('v, 'w) go_state \<Rightarrow> ('v, ('v, 'w) go_state) ev"
  op_index :: "'v \<Rightarrow> 'v \<Rightarrow> ('v, 'w) go_state \<Rightarrow> ('v, ('v, 'w) go_state) ev"
  op_slice :: "go_ty \<Rightarrow> 'v list \<Rightarrow> ('v, 'w) go_state \<Rightarrow> ('v, ('v, 'w) go_state) ev"
  op_struct :: "go_text \<Rightarrow> (go_text \<times> 'v) list \<Rightarrow> ('v, 'w) go_state \<Rightarrow> ('v, ('v, 'w) go_state) ev"
  op_binary :: "go_bin \<Rightarrow> 'v \<Rightarrow> 'v \<Rightarrow> ('v, 'w) go_state \<Rightarrow> ('v, ('v, 'w) go_state) ev"
  op_coerce :: "go_ty \<Rightarrow> go_ty \<Rightarrow> 'v \<Rightarrow> ('v, 'w) go_state \<Rightarrow> ('v, ('v, 'w) go_state) ev"
  op_widen :: "go_ty \<Rightarrow> 'v \<Rightarrow> 'v"
  op_convert :: "go_ty \<Rightarrow> go_ty \<Rightarrow> 'v \<Rightarrow> 'v"
  op_comma_ok :: "'v \<Rightarrow> go_ty \<Rightarrow> ('v, 'w) go_state \<Rightarrow> 'v \<times> bool"
  op_bool :: "bool \<Rightarrow> 'v"
  op_set_local :: "'v \<Rightarrow> go_text \<Rightarrow> 'v \<Rightarrow> 'v"
  op_set_field :: "'v \<Rightarrow> go_text \<Rightarrow> 'v \<Rightarrow> ('v, 'w) go_state \<Rightarrow> (unit, ('v, 'w) go_state) ev"
  op_set_global :: "go_text \<Rightarrow> 'v \<Rightarrow> ('v, 'w) go_state \<Rightarrow> (unit, ('v, 'w) go_state) ev"
  op_close :: "go_ty list \<Rightarrow> go_ty \<Rightarrow> ('v list \<Rightarrow> ('v, 'w) go_state \<Rightarrow> ('v, ('v, 'w) go_state) ev) \<Rightarrow> 'v"

text \<open>A returned value is converted to the result type of the function, and converting a type to itself does
  nothing.\<close>

definition lawful :: "('v, 'w) go_ops \<Rightarrow> bool" where
  "lawful ops \<longleftrightarrow> (\<forall>t v. op_convert ops t t v = v)"

section \<open>Variables, scopes and loops\<close>

definition bind_var :: "go_text \<Rightarrow> 'v \<Rightarrow> go_env \<Rightarrow> ('v, 'w) go_state \<Rightarrow> go_env \<times> ('v, 'w) go_state" where
  "bind_var n v env s = (env(n \<mapsto> length (gs_cells s)), s\<lparr>gs_cells := gs_cells s @ [v]\<rparr>)"

fun bind_vars :: "go_text list \<Rightarrow> 'v list \<Rightarrow> go_env \<Rightarrow> ('v, 'w) go_state \<Rightarrow> go_env \<times> ('v, 'w) go_state" where
  "bind_vars (n # ns) (v # vs) env s = (case bind_var n v env s of (env, s) \<Rightarrow> bind_vars ns vs env s)"
| "bind_vars ns vs env s = (env, s)"

text \<open>A panic is emitted as the text of its call.\<close>

definition is_panic :: "go_text \<Rightarrow> bool" where
  "is_panic n \<longleftrightarrow> take 6 n = codes ''panic(''"

definition leave_scope :: "go_env \<Rightarrow> ('v ctrl, 's) ev \<Rightarrow> ('v ctrl, 's) ev" where
  "leave_scope env r = (case r of EvVal (CtFall _) s \<Rightarrow> EvVal (CtFall env) s | _ \<Rightarrow> r)"

definition body_value :: "('v ctrl, 's) ev \<Rightarrow> ('v, 's) ev" where
  "body_value r = ev_bind r (\<lambda>c s. case c of CtReturn (Some v) \<Rightarrow> EvVal v s | _ \<Rightarrow> EvStuck)"

definition loop_step :: "('s \<Rightarrow> ('v ctrl, 's) ev) \<Rightarrow> 's + ('v ctrl, 's) ev \<Rightarrow> 's + ('v ctrl, 's) ev" where
  "loop_step body x = (case x of
     Inr r \<Rightarrow> Inr r
   | Inl s \<Rightarrow> (case body s of
       EvVal (CtFall _) s \<Rightarrow> Inl s
     | EvVal CtContinue s \<Rightarrow> Inl s
     | r \<Rightarrow> Inr r))"

definition run_loop :: "('s \<Rightarrow> ('v ctrl, 's) ev) \<Rightarrow> 's \<Rightarrow> ('v ctrl, 's) ev" where
  "run_loop body s = (case while_option isl (loop_step body) (Inl s) of Some (Inr r) \<Rightarrow> r | _ \<Rightarrow> EvDiverge)"

section \<open>Meaning\<close>

text \<open>The result type of the enclosing body is \<open>None\<close> for a body without a result.\<close>

primrec den_expr :: "('v, 'w) go_ops \<Rightarrow> go_expr \<Rightarrow> go_env \<Rightarrow> ('v, 'w) go_state \<Rightarrow> ('v, ('v, 'w) go_state) ev"
and den_kind :: "('v, 'w) go_ops \<Rightarrow> go_ty \<Rightarrow> go_kind \<Rightarrow> go_env \<Rightarrow> ('v, 'w) go_state \<Rightarrow> ('v, ('v, 'w) go_state) ev"
and den_exprs :: "('v, 'w) go_ops \<Rightarrow> go_expr list \<Rightarrow> go_env \<Rightarrow> ('v, 'w) go_state \<Rightarrow> ('v list, ('v, 'w) go_state) ev"
and den_fields :: "('v, 'w) go_ops \<Rightarrow> (go_text \<times> go_expr) list \<Rightarrow> go_env \<Rightarrow> ('v, 'w) go_state \<Rightarrow>
    ((go_text \<times> 'v) list, ('v, 'w) go_state) ev"
and den_field :: "('v, 'w) go_ops \<Rightarrow> go_text \<times> go_expr \<Rightarrow> go_env \<Rightarrow> ('v, 'w) go_state \<Rightarrow>
    (go_text \<times> 'v, ('v, 'w) go_state) ev"
and den_return :: "('v, 'w) go_ops \<Rightarrow> go_ty option \<Rightarrow> go_expr option \<Rightarrow> go_env \<Rightarrow> ('v, 'w) go_state \<Rightarrow>
    ('v ctrl, ('v, 'w) go_state) ev"
and den_stmts :: "('v, 'w) go_ops \<Rightarrow> go_ty option \<Rightarrow> go_stmt list \<Rightarrow> go_env \<Rightarrow> ('v, 'w) go_state \<Rightarrow>
    ('v ctrl, ('v, 'w) go_state) ev"
and den_stmt :: "('v, 'w) go_ops \<Rightarrow> go_ty option \<Rightarrow> go_stmt \<Rightarrow> go_env \<Rightarrow> ('v, 'w) go_state \<Rightarrow>
    ('v ctrl, ('v, 'w) go_state) ev" where
  "den_expr ops (GoExpr k t) env s = den_kind ops t k env s"
| "den_kind ops t (GoIdent n) env s =
     (if is_panic n then EvPanic s
      else case env n of Some l \<Rightarrow> EvVal (gs_cells s ! l) s | None \<Rightarrow> op_ident ops n s)"
| "den_kind ops t (GoIntLit n) env s = EvVal (op_const ops (GoIntLit n) t) s"
| "den_kind ops t (GoFloatLit n) env s = EvVal (op_const ops (GoFloatLit n) t) s"
| "den_kind ops t (GoStrLit x) env s = EvVal (op_const ops (GoStrLit x) t) s"
| "den_kind ops t (GoBoolLit b) env s = EvVal (op_bool ops b) s"
| "den_kind ops t GoNil env s = EvVal (op_const ops GoNil t) s"
| "den_kind ops t (GoCall f args) env s =
     ev_bind (den_expr ops f env s) (\<lambda>fv s. ev_bind (den_exprs ops args env s) (\<lambda>vs s. op_call ops fv vs s))"
| "den_kind ops t (GoGenericCall n ts args) env s = ev_bind (den_exprs ops args env s) (\<lambda>vs s. op_generic ops n ts vs s)"
| "den_kind ops t (GoSelector b f) env s = ev_bind (den_expr ops b env s) (\<lambda>v s. op_select ops v f s)"
| "den_kind ops t (GoTypeAssert b ty) env s = ev_bind (den_expr ops b env s) (\<lambda>v s. op_assert ops v ty s)"
| "den_kind ops t (GoIndex b i) env s =
     ev_bind (den_expr ops b env s) (\<lambda>bv s. ev_bind (den_expr ops i env s) (\<lambda>iv s. op_index ops bv iv s))"
| "den_kind ops t (GoSliceLit ty args) env s = ev_bind (den_exprs ops args env s) (\<lambda>vs s. op_slice ops ty vs s)"
| "den_kind ops t (GoStructLit n fs) env s = ev_bind (den_fields ops fs env s) (\<lambda>vs s. op_struct ops n vs s)"
| "den_kind ops t (GoFuncLit ps r body) env s =
     EvVal (op_close ops (map gp_ty ps) r (\<lambda>vs s. case bind_vars (map gp_name ps) vs env s of
       (env, s) \<Rightarrow> body_value (den_stmts ops (Some r) body env s))) s"
| "den_kind ops t (GoBinary op l r) env s =
     ev_bind (den_expr ops l env s) (\<lambda>lv s.
       if op = BinAnd \<and> \<not> op_true ops lv \<or> op = BinOr \<and> op_true ops lv then EvVal lv s
       else ev_bind (den_expr ops r env s) (\<lambda>rv s. op_binary ops op lv rv s))"
| "den_kind ops t (GoBlock body) env s = body_value (den_stmts ops (Some t) body env s)"
| "den_kind ops t (GoCoerce e from to reason) env s = ev_bind (den_expr ops e env s) (\<lambda>v s. op_coerce ops from to v s)"
| "den_kind ops t (GoWiden e) env s = ev_bind (den_expr ops e env s) (\<lambda>v s. EvVal (op_widen ops (expr_ty e) v) s)"
| "den_exprs ops [] env s = EvVal [] s"
| "den_exprs ops (e # es) env s =
     ev_bind (den_expr ops e env s) (\<lambda>v s. ev_bind (den_exprs ops es env s) (\<lambda>vs s. EvVal (v # vs) s))"
| "den_fields ops [] env s = EvVal [] s"
| "den_fields ops (f # fs) env s =
     ev_bind (den_field ops f env s) (\<lambda>v s. ev_bind (den_fields ops fs env s) (\<lambda>vs s. EvVal (v # vs) s))"
| "den_field ops (f, e) env s = ev_bind (den_expr ops e env s) (\<lambda>v s. EvVal (f, v) s)"
| "den_return ops r None env s = EvVal (CtReturn None) s"
| "den_return ops r (Some e) env s = ev_bind (den_expr ops e env s) (\<lambda>v s.
     EvVal (CtReturn (Some (case r of Some t \<Rightarrow> op_convert ops (expr_ty e) t v | None \<Rightarrow> v))) s)"
| "den_stmts ops r [] env s = EvVal (CtFall env) s"
| "den_stmts ops r (st # ss) env s =
     ev_bind (den_stmt ops r st env s) (\<lambda>c s. case c of CtFall env \<Rightarrow> den_stmts ops r ss env s | _ \<Rightarrow> EvVal c s)"
| "den_stmt ops r (GoExprStmt e) env s = ev_bind (den_expr ops e env s) (\<lambda>v s. EvVal (CtFall env) s)"
| "den_stmt ops r (GoDiscard e) env s = ev_bind (den_expr ops e env s) (\<lambda>v s. EvVal (CtFall env) s)"
| "den_stmt ops r (GoShort n e) env s =
     ev_bind (den_expr ops e env s) (\<lambda>v s. case bind_var n v env s of (env, s) \<Rightarrow> EvVal (CtFall env) s)"
| "den_stmt ops r (GoVarDecl n t) env s =
     (case bind_var n (op_zero ops t) env s of (env, s) \<Rightarrow> EvVal (CtFall env) s)"
| "den_stmt ops r (GoAssign n e) env s =
     ev_bind (den_expr ops e env s) (\<lambda>v s. case env n of
       Some l \<Rightarrow> EvVal (CtFall env) (s\<lparr>gs_cells := (gs_cells s)[l := v]\<rparr>)
     | None \<Rightarrow> ev_bind (op_set_global ops n v s) (\<lambda>u s. EvVal (CtFall env) s))"
| "den_stmt ops r (GoAssignField b f e) env s =
     (case (case b of GoExpr (GoIdent n) t \<Rightarrow> env n | _ \<Rightarrow> None) of
        Some l \<Rightarrow> ev_bind (den_expr ops e env s) (\<lambda>v s.
          EvVal (CtFall env) (s\<lparr>gs_cells := (gs_cells s)[l := op_set_local ops (gs_cells s ! l) f v]\<rparr>))
      | None \<Rightarrow> ev_bind (den_expr ops b env s) (\<lambda>bv s. ev_bind (den_expr ops e env s) (\<lambda>v s.
          ev_bind (op_set_field ops bv f v s) (\<lambda>u s. EvVal (CtFall env) s))))"
| "den_stmt ops r (GoLoop body) env s = run_loop (\<lambda>s. den_stmts ops r body env s) s"
| "den_stmt ops r GoContinue env s = EvVal CtContinue s"
| "den_stmt ops r (GoReturn e) env s = den_return ops r e env s"
| "den_stmt ops r (GoIf c t e) env s = ev_bind (den_expr ops c env s) (\<lambda>v s.
     leave_scope env (if op_true ops v then den_stmts ops r t env s else den_stmts ops r e env s))"
| "den_stmt ops r (GoIfTypeAssert binder ok subj ty body) env s = ev_bind (den_expr ops subj env s) (\<lambda>v s.
     case op_comma_ok ops v ty s of (w, b) \<Rightarrow>
       (case bind_vars [binder, ok] [w, op_bool ops b] env s of (env', s) \<Rightarrow>
          if b then leave_scope env (den_stmts ops r body env' s) else EvVal (CtFall env) s))"
| "den_stmt ops r (GoComment c) env s = EvVal (CtFall env) s"
| "den_stmt ops r (GoScope body) env s = leave_scope env (den_stmts ops r body env s)"

text \<open>The meaning of a top-level item: a function's is what a call of it does, from an empty environment.\<close>

datatype ('v, 'w) item_den =
    DenFunc go_text "go_ty list" go_ty "'v list \<Rightarrow> ('v, 'w) go_state \<Rightarrow> ('v ctrl, ('v, 'w) go_state) ev"
  | DenVar go_text go_ty "('v, 'w) go_state \<Rightarrow> ('v, ('v, 'w) go_state) ev"
  | DenInit "('v, 'w) go_state \<Rightarrow> ('v ctrl, ('v, 'w) go_state) ev"
  | DenText go_item

definition result_type :: "go_func_decl \<Rightarrow> go_ty option" where
  "result_type f = (if gf_name f \<noteq> codes ''main'' then Some (gf_ret f) else None)"

definition den_item :: "('v, 'w) go_ops \<Rightarrow> go_item \<Rightarrow> ('v, 'w) item_den" where
  "den_item ops it = (case it of
     ItemFunc f \<Rightarrow> DenFunc (gf_name f) (map gp_ty (gf_params f)) (gf_ret f)
       (\<lambda>vs s. case bind_vars (map gp_name (gf_params f)) vs Map.empty s of
          (env, s) \<Rightarrow> den_stmts ops (result_type f) (gf_body f) env s)
   | ItemVar n t (Some e) \<Rightarrow> DenVar n t (\<lambda>s. den_expr ops e Map.empty s)
   | ItemInit ss \<Rightarrow> DenInit (\<lambda>s. den_stmts ops None ss Map.empty s)
   | _ \<Rightarrow> DenText it)"

end
