(* ===== verification/Go_Shape.thy ===== *)
theory Go_Shape
  imports Go_Semantics
begin

text \<open>
  The shape pass of \<open>lower/src/shape.rs\<close>: a closure called on the spot in tail position
  (\<open>return func() T { ... }()\<close>) is replaced by its statements.
\<close>

definition is_decl :: "go_stmt \<Rightarrow> bool" where
  "is_decl s = (case s of GoShort n e \<Rightarrow> True | GoVarDecl n t \<Rightarrow> True | _ \<Rightarrow> False)"

definition declares :: "go_stmt list \<Rightarrow> bool" where
  "declares body = list_ex is_decl body"

text \<open>\<open>stmt\<close> gives the statements it pushes.\<close>

fun shape_expr :: "go_expr \<Rightarrow> go_expr"
and shape_kind :: "go_ty \<Rightarrow> go_kind \<Rightarrow> go_kind"
and shape_stmts :: "go_ty option \<Rightarrow> go_stmt list \<Rightarrow> go_stmt list"
and shape_stmt :: "go_ty option \<Rightarrow> go_stmt \<Rightarrow> go_stmt list" where
  "shape_expr (GoExpr k ty) = GoExpr (shape_kind ty k) ty"
| "shape_kind ty (GoFuncLit ps rt body) = GoFuncLit ps rt (shape_stmts (Some rt) body)"
| "shape_kind ty (GoBlock body) = GoBlock (shape_stmts (Some ty) body)"
| "shape_kind ty (GoCall f args) = GoCall (shape_expr f) (map shape_expr args)"
| "shape_kind ty (GoGenericCall n ts args) = GoGenericCall n ts (map shape_expr args)"
| "shape_kind ty (GoSliceLit t args) = GoSliceLit t (map shape_expr args)"
| "shape_kind ty (GoStructLit n fs) = GoStructLit n (map (\<lambda>(f, v). (f, shape_expr v)) fs)"
| "shape_kind ty (GoSelector b f) = GoSelector (shape_expr b) f"
| "shape_kind ty (GoTypeAssert b t) = GoTypeAssert (shape_expr b) t"
| "shape_kind ty (GoWiden b) = GoWiden (shape_expr b)"
| "shape_kind ty (GoIndex b i) = GoIndex (shape_expr b) (shape_expr i)"
| "shape_kind ty (GoBinary op l r) = GoBinary op (shape_expr l) (shape_expr r)"
| "shape_kind ty (GoCoerce inner from to reason) = GoCoerce (shape_expr inner) from to reason"
| "shape_kind ty (GoIdent n) = GoIdent n"
| "shape_kind ty (GoIntLit n) = GoIntLit n"
| "shape_kind ty (GoFloatLit n) = GoFloatLit n"
| "shape_kind ty (GoStrLit s) = GoStrLit s"
| "shape_kind ty (GoBoolLit b) = GoBoolLit b"
| "shape_kind ty GoNil = GoNil"
| "shape_stmts rt [] = []"
| "shape_stmts rt (s # body) = shape_stmt rt s @ shape_stmts rt body"
| "shape_stmt rt (GoReturn (Some (GoExpr k ty))) =
     (case k of
        GoBlock inner \<Rightarrow>
          (if rt = Some ty then
             (let inner = shape_stmts rt inner in if declares inner then [GoScope inner] else inner)
           else [GoReturn (Some (GoExpr (GoBlock (shape_stmts (Some ty) inner)) ty))])
      | _ \<Rightarrow> [GoReturn (Some (GoExpr (shape_kind ty k) ty))])"
| "shape_stmt rt (GoExprStmt e) = [GoExprStmt (shape_expr e)]"
| "shape_stmt rt (GoShort n e) = [GoShort n (shape_expr e)]"
| "shape_stmt rt (GoDiscard e) = [GoDiscard (shape_expr e)]"
| "shape_stmt rt (GoAssignField b f v) = [GoAssignField (shape_expr b) f (shape_expr v)]"
| "shape_stmt rt (GoAssign n e) = [GoAssign n (shape_expr e)]"
| "shape_stmt rt (GoLoop b) = [GoLoop (shape_stmts rt b)]"
| "shape_stmt rt (GoIf c t e) = [GoIf (shape_expr c) (shape_stmts rt t) (shape_stmts rt e)]"
| "shape_stmt rt (GoIfTypeAssert binder ok subj ty body) =
     [GoIfTypeAssert binder ok (shape_expr subj) ty (shape_stmts rt body)]"
| "shape_stmt rt (GoScope b) = [GoScope (shape_stmts rt b)]"
| "shape_stmt rt (GoVarDecl n t) = [GoVarDecl n t]"
| "shape_stmt rt GoContinue = [GoContinue]"
| "shape_stmt rt (GoReturn None) = [GoReturn None]"
| "shape_stmt rt (GoComment c) = [GoComment c]"

definition shape_item :: "go_item \<Rightarrow> go_item" where
  "shape_item it = (case it of
     ItemFunc f \<Rightarrow>
       (let rt = (if gf_name f \<noteq> codes ''main'' then Some (gf_ret f) else None) in
        ItemFunc (f\<lparr>gf_body := shape_stmts rt (gf_body f)\<rparr>))
   | ItemVar n t (Some e) \<Rightarrow> ItemVar n t (Some (shape_expr e))
   | ItemInit ss \<Rightarrow> ItemInit (shape_stmts None ss)
   | _ \<Rightarrow> it)"

definition flatten_tail_blocks :: "go_item list \<Rightarrow> go_item list" where
  "flatten_tail_blocks items = map shape_item items"

section \<open>What Go accepts\<close>

text \<open>What the Go compiler demands of the body of a function with a result, as far as the pass relies on it: it cannot
  fall off its end (one of its statements never completes; Go asks it of the last one), it does not
  continue a loop around it, and every \<open>return\<close> has a value.\<close>

primrec leaves :: "go_stmt \<Rightarrow> bool" and leaves_list :: "go_stmt list \<Rightarrow> bool" where
  "leaves_list [] = False"
| "leaves_list (s # ss) = (leaves s \<or> leaves_list ss)"
| "leaves (GoExprStmt e) = (case e of GoExpr (GoIdent n) t \<Rightarrow> is_panic n | _ \<Rightarrow> False)"
| "leaves (GoShort n e) = False"
| "leaves (GoDiscard e) = False"
| "leaves (GoAssignField b f e) = False"
| "leaves (GoAssign n e) = False"
| "leaves (GoVarDecl n t) = False"
| "leaves (GoLoop b) = True"
| "leaves GoContinue = True"
| "leaves (GoReturn e) = True"
| "leaves (GoIf c t e) = (leaves_list t \<and> leaves_list e)"
| "leaves (GoIfTypeAssert binder ok subj ty b) = False"
| "leaves (GoComment c) = False"
| "leaves (GoScope b) = leaves_list b"


primrec continues :: "go_stmt \<Rightarrow> bool" and continues_list :: "go_stmt list \<Rightarrow> bool" where
  "continues_list [] = False"
| "continues_list (s # ss) = (continues s \<or> continues_list ss)"
| "continues (GoExprStmt e) = False"
| "continues (GoShort n e) = False"
| "continues (GoDiscard e) = False"
| "continues (GoAssignField b f e) = False"
| "continues (GoAssign n e) = False"
| "continues (GoVarDecl n t) = False"
| "continues (GoLoop b) = False"
| "continues GoContinue = True"
| "continues (GoReturn e) = False"
| "continues (GoIf c t e) = (continues_list t \<or> continues_list e)"
| "continues (GoIfTypeAssert binder ok subj ty b) = continues_list b"
| "continues (GoComment c) = False"
| "continues (GoScope b) = continues_list b"

primrec returns_bare :: "go_stmt \<Rightarrow> bool" and returns_bare_list :: "go_stmt list \<Rightarrow> bool" where
  "returns_bare_list [] = False"
| "returns_bare_list (s # ss) = (returns_bare s \<or> returns_bare_list ss)"
| "returns_bare (GoExprStmt e) = False"
| "returns_bare (GoShort n e) = False"
| "returns_bare (GoDiscard e) = False"
| "returns_bare (GoAssignField b f e) = False"
| "returns_bare (GoAssign n e) = False"
| "returns_bare (GoVarDecl n t) = False"
| "returns_bare (GoLoop b) = returns_bare_list b"
| "returns_bare GoContinue = False"
| "returns_bare (GoReturn e) = (e = None)"
| "returns_bare (GoIf c t e) = (returns_bare_list t \<or> returns_bare_list e)"
| "returns_bare (GoIfTypeAssert binder ok subj ty b) = returns_bare_list b"
| "returns_bare (GoComment c) = False"
| "returns_bare (GoScope b) = returns_bare_list b"

definition value_body :: "go_stmt list \<Rightarrow> bool" where
  "value_body body \<longleftrightarrow> leaves_list body \<and> \<not> continues_list body \<and> \<not> returns_bare_list body"

text \<open>Every closure and every closure called on the spot, at any depth, has such a body.\<close>

primrec bodies_expr :: "go_expr \<Rightarrow> bool"
and bodies_kind :: "go_kind \<Rightarrow> bool"
and bodies_stmt :: "go_stmt \<Rightarrow> bool"
and bodies_exprs :: "go_expr list \<Rightarrow> bool"
and bodies_fields :: "(go_text \<times> go_expr) list \<Rightarrow> bool"
and bodies_field :: "go_text \<times> go_expr \<Rightarrow> bool"
and bodies_option :: "go_expr option \<Rightarrow> bool"
and bodies_stmts :: "go_stmt list \<Rightarrow> bool" where
  "bodies_expr (GoExpr k t) = bodies_kind k"
| "bodies_kind (GoIdent n) = True"
| "bodies_kind (GoIntLit i) = True"
| "bodies_kind (GoFloatLit x) = True"
| "bodies_kind (GoStrLit x) = True"
| "bodies_kind (GoBoolLit b) = True"
| "bodies_kind GoNil = True"
| "bodies_kind (GoCall f args) = (bodies_expr f \<and> bodies_exprs args)"
| "bodies_kind (GoGenericCall n ts args) = bodies_exprs args"
| "bodies_kind (GoSelector b f) = bodies_expr b"
| "bodies_kind (GoTypeAssert b t) = bodies_expr b"
| "bodies_kind (GoIndex b i) = (bodies_expr b \<and> bodies_expr i)"
| "bodies_kind (GoSliceLit t args) = bodies_exprs args"
| "bodies_kind (GoStructLit n fs) = bodies_fields fs"
| "bodies_kind (GoFuncLit ps r body) = (value_body body \<and> bodies_stmts body)"
| "bodies_kind (GoBinary op l r) = (bodies_expr l \<and> bodies_expr r)"
| "bodies_kind (GoBlock body) = (value_body body \<and> bodies_stmts body)"
| "bodies_kind (GoCoerce e from to reason) = bodies_expr e"
| "bodies_kind (GoWiden e) = bodies_expr e"
| "bodies_exprs [] = True"
| "bodies_exprs (e # es) = (bodies_expr e \<and> bodies_exprs es)"
| "bodies_fields [] = True"
| "bodies_fields (f # fs) = (bodies_field f \<and> bodies_fields fs)"
| "bodies_field (f, e) = bodies_expr e"
| "bodies_option None = True"
| "bodies_option (Some e) = bodies_expr e"
| "bodies_stmts [] = True"
| "bodies_stmts (s # ss) = (bodies_stmt s \<and> bodies_stmts ss)"
| "bodies_stmt (GoExprStmt e) = bodies_expr e"
| "bodies_stmt (GoShort n e) = bodies_expr e"
| "bodies_stmt (GoDiscard e) = bodies_expr e"
| "bodies_stmt (GoAssignField b f e) = (bodies_expr b \<and> bodies_expr e)"
| "bodies_stmt (GoAssign n e) = bodies_expr e"
| "bodies_stmt (GoVarDecl n t) = True"
| "bodies_stmt (GoLoop b) = bodies_stmts b"
| "bodies_stmt GoContinue = True"
| "bodies_stmt (GoReturn e) = bodies_option e"
| "bodies_stmt (GoIf c t e) = (bodies_expr c \<and> bodies_stmts t \<and> bodies_stmts e)"
| "bodies_stmt (GoIfTypeAssert binder ok subj ty b) = (bodies_expr subj \<and> bodies_stmts b)"
| "bodies_stmt (GoComment c) = True"
| "bodies_stmt (GoScope b) = bodies_stmts b"

definition bodies_item :: "go_item \<Rightarrow> bool" where
  "bodies_item it = (case it of
     ItemFunc f \<Rightarrow> bodies_stmts (gf_body f)
   | ItemVar n t (Some e) \<Rightarrow> bodies_expr e
   | ItemInit ss \<Rightarrow> bodies_stmts ss
   | _ \<Rightarrow> True)"

section \<open>Control flow\<close>

definition falls :: "('v ctrl, 's) ev \<Rightarrow> bool" where
  "falls r \<longleftrightarrow> (\<exists>env s. r = EvVal (CtFall env) s)"

definition skips :: "('v ctrl, 's) ev \<Rightarrow> bool" where
  "skips r \<longleftrightarrow> (\<exists>s. r = EvVal CtContinue s)"

definition empty_handed :: "('v ctrl, 's) ev \<Rightarrow> bool" where
  "empty_handed r \<longleftrightarrow> (\<exists>s. r = EvVal (CtReturn None) s)"

lemma ev_bind_value: "ev_bind m k = EvVal a s \<longleftrightarrow> (\<exists>b s'. m = EvVal b s' \<and> k b s' = EvVal a s)"
  by (cases m) (auto simp: ev_bind_def)

lemma leave_scope_value:
  "leave_scope env r = EvVal (CtFall env') s \<longleftrightarrow> env' = env \<and> (\<exists>env'. r = EvVal (CtFall env') s)"
  "leave_scope env r = EvVal CtContinue s \<longleftrightarrow> r = EvVal CtContinue s"
  "leave_scope env r = EvVal (CtReturn v) s \<longleftrightarrow> r = EvVal (CtReturn v) s"
  by (auto simp: leave_scope_def split: ev.splits ctrl.splits)

lemma if_fall_value: "(case c of CtFall env \<Rightarrow> f env | _ \<Rightarrow> EvVal c s) = EvVal d s' \<longleftrightarrow>
    (\<exists>env. c = CtFall env \<and> f env = EvVal d s') \<or> (\<forall>env. c \<noteq> CtFall env) \<and> c = d \<and> s = s'"
  by (cases c) auto

lemmas flow_defs = falls_def skips_def empty_handed_def ev_bind_value leave_scope_value if_fall_value

text \<open>Induction over the blocks nested in a statement, not into its expressions.\<close>

definition is_leaf :: "go_stmt \<Rightarrow> bool" where
  "is_leaf s = (case s of GoLoop b \<Rightarrow> False | GoIf c t e \<Rightarrow> False | GoIfTypeAssert n k e t b \<Rightarrow> False | GoScope b \<Rightarrow> False | _ \<Rightarrow> True)"

lemma control_induct:
  assumes nil: "Q []" and cons: "\<And>s ss. P s \<Longrightarrow> Q ss \<Longrightarrow> Q (s # ss)"
    and leaf: "\<And>s. is_leaf s \<Longrightarrow> P s"
    and loop: "\<And>b. Q b \<Longrightarrow> P (GoLoop b)"
    and "if": "\<And>c t e. Q t \<Longrightarrow> Q e \<Longrightarrow> P (GoIf c t e)"
    and assert: "\<And>n k e t b. Q b \<Longrightarrow> P (GoIfTypeAssert n k e t b)"
    and scope: "\<And>b. Q b \<Longrightarrow> P (GoScope b)"
  shows "P st" and "Q ss"
proof -
  have lists: "\<forall>s \<in> set ss. P s \<Longrightarrow> Q ss" for ss
    by (induction ss) (auto intro: nil cons)
  show stmt: "P st" for st
    by (induction st rule: go_stmt.induct[where ?P1.0 = "\<lambda>_. True" and ?P2.0 = "\<lambda>_. True"])
      (simp | (rule loop, rule lists, blast) | (rule "if"; rule lists; blast) | (rule assert, rule lists, blast)
        | (rule scope, rule lists, blast) | (rule leaf, simp add: is_leaf_def))+
  show "Q ss" using lists stmt by blast
qed

lemma run_loop_cases:
  obtains s' where "run_loop body s = body s'" "\<not> falls (body s')" "\<not> skips (body s')" | "run_loop body s = EvDiverge"
proof (cases "while_option isl (loop_step body) (Inl s)")
  case None
  then show thesis using that(2) by (simp add: run_loop_def)
next
  case (Some x)
  let ?inv = "\<lambda>x. case x of Inl s \<Rightarrow> True | Inr r \<Rightarrow> (\<exists>s'. body s' = r \<and> \<not> falls r \<and> \<not> skips r)"
  have "?inv (loop_step body y)" if "isl y" for y
    using that by (auto simp: loop_step_def falls_def skips_def split: sum.splits ev.splits ctrl.splits)
  then have "?inv x" using while_option_rule[where P = ?inv, OF _ Some] by simp
  moreover have "\<not> isl x" using while_option_stop[OF Some] .
  ultimately show thesis using that(1) Some by (cases x) (auto simp: run_loop_def)
qed

lemma run_loop_ends: "\<not> falls (run_loop body s) \<and> \<not> skips (run_loop body s)"
  by (rule run_loop_cases[of body s]) (auto simp: falls_def skips_def)

lemma run_loop_bare: "(\<And>s. \<not> empty_handed (body s)) \<Longrightarrow> \<not> empty_handed (run_loop body s)"
  by (rule run_loop_cases[of body s]) (auto simp: empty_handed_def)

lemma den_return_gives [simp]:
  "den_return ops r e env s \<noteq> EvVal (CtFall env') s'" "den_return ops r e env s \<noteq> EvVal CtContinue s'"
  "e \<noteq> None \<Longrightarrow> den_return ops r e env s \<noteq> EvVal (CtReturn None) s'"
  by (cases e; auto simp: ev_bind_value)+

lemma leaves_never_falls:
  "leaves st \<longrightarrow> (\<forall>env s. \<not> falls (den_stmt ops r st env s))"
  "leaves_list ss \<longrightarrow> (\<forall>env s. \<not> falls (den_stmts ops r ss env s))"
proof (induction st and ss rule: control_induct)
  case 1
  then show ?case by simp
next
  case (2 s ss)
  then show ?case by (auto simp: flow_defs split: if_splits)
next
  case (3 s)
  then show ?case
    by (cases s)
      (auto simp: flow_defs is_leaf_def split: go_expr.splits go_kind.splits option.splits)
next
  case (4 b)
  then show ?case by (simp add: run_loop_ends)
next
  case (5 c t e)
  then show ?case by (auto simp: flow_defs split: if_splits)
next
  case (6 n k e t b)
  then show ?case by simp
next
  case (7 b)
  then show ?case by (auto simp: flow_defs split: if_splits)
qed

lemma continues_skips:
  "\<not> continues st \<longrightarrow> (\<forall>env s. \<not> skips (den_stmt ops r st env s))"
  "\<not> continues_list ss \<longrightarrow> (\<forall>env s. \<not> skips (den_stmts ops r ss env s))"
proof (induction st and ss rule: control_induct)
  case 1
  then show ?case by (simp add: skips_def)
next
  case (2 s ss)
  then show ?case by (auto simp: flow_defs split: if_splits)
next
  case (3 s)
  then show ?case
    by (cases s) (auto simp: flow_defs is_leaf_def bind_var_def split: option.splits go_expr.splits go_kind.splits)
next
  case (4 b)
  then show ?case by (simp add: run_loop_ends)
next
  case (5 c t e)
  then show ?case by (auto simp: flow_defs split: if_splits)
next
  case (6 n k e t b)
  then show ?case by (auto simp: flow_defs split: prod.splits if_splits)
next
  case (7 b)
  then show ?case by (auto simp: flow_defs split: if_splits)
qed

lemma bare_empty_handed:
  "\<not> returns_bare st \<longrightarrow> (\<forall>env s. \<not> empty_handed (den_stmt ops r st env s))"
  "\<not> returns_bare_list ss \<longrightarrow> (\<forall>env s. \<not> empty_handed (den_stmts ops r ss env s))"
proof (induction st and ss rule: control_induct)
  case 1
  then show ?case by (simp add: empty_handed_def)
next
  case (2 s ss)
  then show ?case by (auto simp: flow_defs split: if_splits)
next
  case (3 s)
  then show ?case
    by (cases s) (auto simp: flow_defs is_leaf_def bind_var_def split: option.splits go_expr.splits go_kind.splits)
next
  case (4 b)
  then show ?case by (simp add: run_loop_bare)
next
  case (5 c t e)
  then show ?case by (auto simp: flow_defs split: if_splits)
next
  case (6 n k e t b)
  then show ?case by (auto simp: flow_defs split: prod.splits if_splits)
next
  case (7 b)
  then show ?case by (auto simp: flow_defs split: if_splits)
qed

text \<open>So a body with a result gives a value, panics or does not end.\<close>

lemma value_body_returns:
  assumes "value_body body"
  obtains v s' where "den_stmts ops r body env s = EvVal (CtReturn (Some v)) s'"
    | s' where "den_stmts ops r body env s = EvPanic s'"
    | "den_stmts ops r body env s = EvStuck" | "den_stmts ops r body env s = EvDiverge"
proof (cases "den_stmts ops r body env s")
  case (EvVal c s')
  moreover have "\<not> falls (den_stmts ops r body env s)" "\<not> skips (den_stmts ops r body env s)"
      "\<not> empty_handed (den_stmts ops r body env s)"
    using assms by (simp_all add: value_body_def leaves_never_falls continues_skips bare_empty_handed)
  ultimately show thesis using that(1) by (cases c) (auto simp: falls_def skips_def empty_handed_def)
qed (use that in auto)

section \<open>The pass preserves meaning\<close>

lemma den_stmts_append:
  "den_stmts ops r (xs @ ys) env s =
     ev_bind (den_stmts ops r xs env s) (\<lambda>c s. case c of CtFall env \<Rightarrow> den_stmts ops r ys env s | _ \<Rightarrow> EvVal c s)"
  by (induction xs arbitrary: env s) (auto simp: ev_bind_def split: ev.splits ctrl.splits)

text \<open>A value body in place of the \<open>return\<close> of its call: the step that the pass takes.\<close>

lemma splice:
  assumes "lawful ops" and "value_body body" and "\<And>env s. den_stmts ops (Some t) body' env s = den_stmts ops (Some t) body env s"
  shows "den_stmt ops (Some t) (GoReturn (Some (GoExpr (GoBlock body) t))) env s =
    den_stmts ops (Some t) (if declares body' then [GoScope body'] else body') env s"
  using assms(1) by (rule_tac value_body_returns[OF assms(2), of ops "Some t" env s])
    (auto simp: assms(3) lawful_def body_value_def ev_bind_def leave_scope_def)

lemma bodies_lists [simp]:
  "bodies_exprs es \<longleftrightarrow> list_all bodies_expr es" "bodies_fields fs \<longleftrightarrow> list_all (\<lambda>(f, e). bodies_expr e) fs"
  by (induction es, simp_all) (induction fs, auto)

lemma den_exprs_map:
  "\<forall>e \<in> set es. den_expr ops (f e) = den_expr ops e \<Longrightarrow> den_exprs ops (map f es) env s = den_exprs ops es env s"
  by (induction es arbitrary: env s) auto

lemma den_fields_map:
  "\<forall>(n, e) \<in> set fs. den_expr ops (f e) = den_expr ops e \<Longrightarrow>
   den_fields ops (map (\<lambda>(n, e). (n, f e)) fs) env s = den_fields ops fs env s"
  by (induction fs arbitrary: env s) auto

lemma expr_ty_shape [simp]: "expr_ty (shape_expr e) = expr_ty e"
  by (cases e) simp

lemma shape_ident: "(case shape_expr b of GoExpr (GoIdent n) t \<Rightarrow> env n | _ \<Rightarrow> None) = (case b of GoExpr (GoIdent n) t \<Rightarrow> env n | _ \<Rightarrow> None)"
  by (cases b rule: shape_expr.cases) (auto split: go_kind.splits)

lemma den_single: "den_stmts ops r [st] = den_stmt ops r st"
  by (auto simp: ev_bind_def fun_eq_iff split: ev.splits ctrl.splits)

lemma den_stmts_cons: "den_stmts ops r (st # ss) = den_stmts ops r ([st] @ ss)"
  by simp

lemma den_stmts_cong:
  "den_stmts ops r xs = den_stmts ops r xs' \<Longrightarrow> den_stmts ops r ys = den_stmts ops r ys' \<Longrightarrow>
   den_stmts ops r (xs @ ys) = den_stmts ops r (xs' @ ys')"
  by (intro ext) (simp add: den_stmts_append cong: ctrl.case_cong)

lemma shape_preserves:
  fixes ops :: "('v, 'w) go_ops"
  assumes "lawful ops"
  shows "bodies_expr e \<Longrightarrow> den_expr ops (shape_expr e) = den_expr ops e"
    and "bodies_kind k \<Longrightarrow> den_kind ops t (shape_kind t k) = den_kind ops t k"
    and "bodies_stmts ss \<Longrightarrow> den_stmts ops r (shape_stmts r ss) = den_stmts ops r ss"
    and "bodies_stmt st \<Longrightarrow> den_stmts ops r (shape_stmt r st) = den_stmts ops r [st]"
proof (induction e and t k and r ss and r st rule: shape_expr_shape_kind_shape_stmts_shape_stmt.induct)
  case (7 ty n fs)
  then have "\<forall>(m, e) \<in> set fs. den_expr ops (shape_expr e) = den_expr ops e"
    by (fastforce simp: list_all_iff)
  then show ?case by (intro ext) (simp add: den_fields_map)
next
  case (21 rt s body)
  then have "den_stmts ops rt (shape_stmt rt s @ shape_stmts rt body) = den_stmts ops rt ([s] @ body)"
    by (intro den_stmts_cong) (simp_all del: den_stmts.simps)
  then show ?case by simp
next
  case (22 rt k ty)
  show ?case
  proof (cases "\<exists>inner. k = GoBlock inner")
    case True
    then obtain inner where k: "k = GoBlock inner" ..
    then have ok: "value_body inner" "bodies_stmts inner" using "22.prems" by auto
    show ?thesis
    proof (cases "rt = Some ty")
      case True
      have "den_stmts ops (Some ty) (shape_stmts rt inner) = den_stmts ops (Some ty) inner"
        using "22.IH" k True ok(2) by simp
      from splice[OF assms ok(1) fun_cong[OF fun_cong[OF this]]] show ?thesis
        using True by (intro ext) (simp add: k den_single Let_def del: den_stmt.simps)
    next
      case False
      then show ?thesis using "22.IH" k ok by (intro ext) (simp add: den_single cong: option.case_cong)
    qed
  next
    case False
    have "shape_stmt rt (GoReturn (Some (GoExpr k ty))) = [GoReturn (Some (GoExpr (shape_kind ty k) ty))]"
      using False by (cases k) auto
    moreover have "bodies_kind k" using "22.prems" by simp
    then have "den_kind ops ty (shape_kind ty k) = den_kind ops ty k" using False
      by (cases k) ((rule "22.IH", assumption, assumption) | simp)+
    ultimately show ?thesis by (intro ext) (simp add: den_single cong: option.case_cong)
  qed
qed (intro ext; simp add: den_single den_exprs_map shape_ident list_all_iff del: den_stmts.simps(2)
    cong: if_cong ctrl.case_cong prod.case_cong option.case_cong; fail)+

section \<open>The pass leaves nothing to splice\<close>

definition is_tail_block :: "go_ty option \<Rightarrow> go_expr \<Rightarrow> bool" where
  "is_tail_block r e = (case e of GoExpr (GoBlock b) t \<Rightarrow> r = Some t | _ \<Rightarrow> False)"

text \<open>In every body, at any depth: no \<open>return\<close> of a closure called on the spot with the body's result type.\<close>

primrec flat_expr :: "go_expr \<Rightarrow> bool"
and flat_kind :: "go_ty \<Rightarrow> go_kind \<Rightarrow> bool"
and flat_stmt :: "go_ty option \<Rightarrow> go_stmt \<Rightarrow> bool"
and flat_exprs :: "go_expr list \<Rightarrow> bool"
and flat_fields :: "(go_text \<times> go_expr) list \<Rightarrow> bool"
and flat_field :: "go_text \<times> go_expr \<Rightarrow> bool"
and flat_option :: "go_ty option \<Rightarrow> go_expr option \<Rightarrow> bool"
and flat_stmts :: "go_ty option \<Rightarrow> go_stmt list \<Rightarrow> bool" where
  "flat_expr (GoExpr k t) = flat_kind t k"
| "flat_kind t (GoIdent n) = True"
| "flat_kind t (GoIntLit i) = True"
| "flat_kind t (GoFloatLit x) = True"
| "flat_kind t (GoStrLit x) = True"
| "flat_kind t (GoBoolLit b) = True"
| "flat_kind t GoNil = True"
| "flat_kind t (GoCall f args) = (flat_expr f \<and> flat_exprs args)"
| "flat_kind t (GoGenericCall n ts args) = flat_exprs args"
| "flat_kind t (GoSelector b f) = flat_expr b"
| "flat_kind t (GoTypeAssert b ty) = flat_expr b"
| "flat_kind t (GoIndex b i) = (flat_expr b \<and> flat_expr i)"
| "flat_kind t (GoSliceLit ty args) = flat_exprs args"
| "flat_kind t (GoStructLit n fs) = flat_fields fs"
| "flat_kind t (GoFuncLit ps r body) = flat_stmts (Some r) body"
| "flat_kind t (GoBinary op l r) = (flat_expr l \<and> flat_expr r)"
| "flat_kind t (GoBlock body) = flat_stmts (Some t) body"
| "flat_kind t (GoCoerce e from to reason) = flat_expr e"
| "flat_kind t (GoWiden e) = flat_expr e"
| "flat_exprs [] = True"
| "flat_exprs (e # es) = (flat_expr e \<and> flat_exprs es)"
| "flat_fields [] = True"
| "flat_fields (f # fs) = (flat_field f \<and> flat_fields fs)"
| "flat_field (f, e) = flat_expr e"
| "flat_option r None = True"
| "flat_option r (Some e) = (\<not> is_tail_block r e \<and> flat_expr e)"
| "flat_stmts r [] = True"
| "flat_stmts r (s # ss) = (flat_stmt r s \<and> flat_stmts r ss)"
| "flat_stmt r (GoExprStmt e) = flat_expr e"
| "flat_stmt r (GoShort n e) = flat_expr e"
| "flat_stmt r (GoDiscard e) = flat_expr e"
| "flat_stmt r (GoAssignField b f e) = (flat_expr b \<and> flat_expr e)"
| "flat_stmt r (GoAssign n e) = flat_expr e"
| "flat_stmt r (GoVarDecl n t) = True"
| "flat_stmt r (GoLoop b) = flat_stmts r b"
| "flat_stmt r GoContinue = True"
| "flat_stmt r (GoReturn e) = flat_option r e"
| "flat_stmt r (GoIf c t e) = (flat_expr c \<and> flat_stmts r t \<and> flat_stmts r e)"
| "flat_stmt r (GoIfTypeAssert binder ok subj ty b) = (flat_expr subj \<and> flat_stmts r b)"
| "flat_stmt r (GoComment c) = True"
| "flat_stmt r (GoScope b) = flat_stmts r b"

lemma flat_lists [simp]:
  "flat_exprs es \<longleftrightarrow> list_all flat_expr es" "flat_fields fs \<longleftrightarrow> list_all (\<lambda>(f, e). flat_expr e) fs"
  by (induction es, simp_all) (induction fs, auto)

lemma flat_stmts_append [simp]: "flat_stmts r (xs @ ys) \<longleftrightarrow> flat_stmts r xs \<and> flat_stmts r ys"
  by (induction xs) auto

lemma shape_flat:
  "flat_expr (shape_expr e)"
  "flat_kind t (shape_kind t k)"
  "flat_stmts r (shape_stmts r ss)"
  "flat_stmts r (shape_stmt r st)"
  by (induction e and t k and r ss and r st rule: shape_expr_shape_kind_shape_stmts_shape_stmt.induct)
    (auto simp: list_all_iff is_tail_block_def Let_def split: go_kind.splits go_expr.splits)

lemma flat_shape_id:
  "flat_expr e \<Longrightarrow> shape_expr e = e"
  "flat_kind t k \<Longrightarrow> shape_kind t k = k"
  "flat_stmts r ss \<Longrightarrow> shape_stmts r ss = ss"
  "flat_stmt r st \<Longrightarrow> shape_stmt r st = [st]"
  by (induction e and t k and r ss and r st rule: shape_expr_shape_kind_shape_stmts_shape_stmt.induct)
    (auto simp: list_all_iff is_tail_block_def intro!: map_idI split: go_kind.splits go_expr.splits)

section \<open>Declarations\<close>

text \<open>The names a list declares in its own scope.\<close>

fun declared :: "go_stmt \<Rightarrow> go_text list" where
  "declared (GoShort n e) = [n]"
| "declared (GoVarDecl n t) = [n]"
| "declared s = []"

lemma declares_declared: "declares ss \<longleftrightarrow> concat (map declared ss) \<noteq> []"
proof -
  have "is_decl s \<longleftrightarrow> declared s \<noteq> []" for s by (cases s) (auto simp: is_decl_def)
  then show ?thesis by (induction ss) (auto simp: declares_def)
qed

lemma shape_declared: "concat (map declared (shape_stmts r ss)) = concat (map declared ss)"
proof (induction ss)
  case (Cons s ss)
  have "concat (map declared (shape_stmt r s)) = declared s"
    by (cases "(r, s)" rule: shape_stmt.cases) (auto simp: declares_declared Let_def split: go_kind.splits)
  then show ?case using Cons by simp
qed simp

section \<open>Properties\<close>

definition flat_item :: "go_item \<Rightarrow> bool" where
  "flat_item it = (case it of
     ItemFunc f \<Rightarrow> flat_stmts (result_type f) (gf_body f)
   | ItemVar n t (Some e) \<Rightarrow> flat_expr e
   | ItemInit ss \<Rightarrow> flat_stmts None ss
   | _ \<Rightarrow> True)"

text \<open>C37: The shape pass changes only the shape of a program, never its meaning. For every meaning of the runtime, of
  calls and of operators in which a conversion to a value's own type does nothing, each item of the rewritten
  program denotes what it denoted before: functions give the same result, panic or do not end on the same arguments and
  states, with the same effects. The program must be one that Go accepts: the bodies of closures with a result do not fall off
  their end, continue an outer loop or return nothing.\<close>

theorem flatten_preserves_meaning:
  assumes "lawful ops" and "\<forall>it \<in> set items. bodies_item it"
  shows "map (den_item ops) (flatten_tail_blocks items) = map (den_item ops) items"
proof -
  have "den_item ops (shape_item it) = den_item ops it" if "bodies_item it" for it
    using that shape_preserves[OF assms(1)]
    by (cases it) (auto simp: den_item_def shape_item_def bodies_item_def result_type_def Let_def split: option.splits)
  then show ?thesis using assms(2) by (simp add: flatten_tail_blocks_def)
qed

text \<open>A meaning over integers, and a function with a conditional in tail position.\<close>

definition int_ops :: "(int, unit) go_ops" where
  "int_ops = \<lparr>op_ident = (\<lambda>n s. EvPanic s), op_const = (\<lambda>k t. case k of GoIntLit n \<Rightarrow> sint n | _ \<Rightarrow> 0), op_zero = (\<lambda>t. 0),
     op_true = (\<lambda>v. v \<noteq> 0), op_call = (\<lambda>f vs s. EvPanic s), op_generic = (\<lambda>n ts vs s. EvPanic s),
     op_select = (\<lambda>v f s. EvVal v s), op_assert = (\<lambda>v t s. EvVal v s), op_index = (\<lambda>v i s. EvVal v s),
     op_slice = (\<lambda>t vs s. EvVal (int (length vs)) s), op_struct = (\<lambda>n vs s. EvVal (int (length vs)) s),
     op_binary = (\<lambda>b l r s. EvVal (case b of BinAdd \<Rightarrow> l + r | BinSub \<Rightarrow> l - r | BinMul \<Rightarrow> l * r | BinEq \<Rightarrow> of_bool (l = r) | _ \<Rightarrow> r) s),
     op_coerce = (\<lambda>t u v s. EvVal v s), op_widen = (\<lambda>t v. v), op_convert = (\<lambda>t u v. v), op_comma_ok = (\<lambda>v t s. (v, True)),
     op_bool = of_bool, op_set_local = (\<lambda>v f w. w), op_set_field = (\<lambda>v f w s. EvVal () s), op_set_global = (\<lambda>n v s. EvVal () s),
     op_close = (\<lambda>ts t f. 0)\<rparr>"

definition sample_block :: go_expr where
  "sample_block = (let int_expr = (\<lambda>k. GoExpr k (GoBare PrimInt)) in
     int_expr (GoBlock
       [GoIf (GoExpr (GoBinary BinEq (int_expr (GoIdent (codes ''x''))) (int_expr (GoIntLit 0))) (GoBare PrimBool))
          [GoReturn (Some (int_expr (GoIntLit 7)))] [GoReturn (Some (int_expr (GoIdent (codes ''x''))))]]))"

definition sample_func :: "go_stmt list \<Rightarrow> go_item" where
  "sample_func body = ItemFunc \<lparr>gf_name = codes ''F'', gf_type_params = [], gf_params = [\<lparr>gp_name = codes ''x'', gp_ty = GoBare PrimInt\<rparr>],
     gf_ret = GoBare PrimInt, gf_body = body, gf_doc = None\<rparr>"

theorem flatten_preserves_meaning_witness:
  "(case sample_block of GoExpr (GoBlock inner) t \<Rightarrow>
      flatten_tail_blocks [sample_func [GoReturn (Some sample_block)]] = [sample_func inner] \<and>
      den_item int_ops (sample_func inner) = den_item int_ops (sample_func [GoReturn (Some sample_block)])
    | _ \<Rightarrow> False)"
proof -
  have "lawful int_ops" by (simp add: lawful_def int_ops_def)
  moreover have "\<forall>it \<in> set [sample_func [GoReturn (Some sample_block)]]. bodies_item it"
    by (simp add: bodies_item_def sample_func_def sample_block_def value_body_def)
  ultimately have "map (den_item int_ops) (flatten_tail_blocks [sample_func [GoReturn (Some sample_block)]]) =
      map (den_item int_ops) [sample_func [GoReturn (Some sample_block)]]"
    by (rule flatten_preserves_meaning)
  then show ?thesis
    by (simp add: flatten_tail_blocks_def shape_item_def sample_func_def sample_block_def declares_def is_decl_def)
qed

text \<open>C38: After the pass no closure is called on the spot in tail position with the result type of the body around it,
  in any function, initialiser or closure of the program, so a second run changes nothing; and every function body
  declares in its own scope exactly the names it declared before, so no spliced declaration can collide with one of
  the list around it.\<close>

theorem flatten_complete:
  "list_all flat_item (flatten_tail_blocks items) \<and>
   flatten_tail_blocks (flatten_tail_blocks items) = flatten_tail_blocks items \<and>
   (\<forall>r ss. concat (map declared (shape_stmts r ss)) = concat (map declared ss))"
proof (intro conjI)
  have flat: "flat_item (shape_item it)" for it
    by (cases it) (auto simp: flat_item_def shape_item_def result_type_def shape_flat Let_def split: option.splits)
  then show "list_all flat_item (flatten_tail_blocks items)" by (simp add: flatten_tail_blocks_def list_all_iff)
  have "shape_item it = it" if "flat_item it" for it
    using that by (cases it) (auto simp: flat_item_def shape_item_def result_type_def flat_shape_id Let_def split: option.splits if_splits)
  then show "flatten_tail_blocks (flatten_tail_blocks items) = flatten_tail_blocks items"
    using flat by (simp add: flatten_tail_blocks_def)
qed (simp add: shape_declared)

end
