(* ===== verification/Go_Emit.thy ===== *)
theory Go_Emit
  imports Go_Ir "HOL-Library.List_Lexorder"
begin

text \<open>
  The emission of Go source (\<open>codegen/src/lib.rs\<close>). The writer's buffer only grows, so an operation on it
  is the text it appends at an indentation. The decimal form of a floating point number and the lower case of a
  character come from the standard library and are parameters (\<open>fl\<close>, \<open>lower\<close>).
\<close>

section \<open>Writing\<close>

definition dquote :: go_text where "dquote = [chr CHR 0x22]"
definition backtick :: go_text where "backtick = [chr CHR 0x60]"

definition w_line :: "nat \<Rightarrow> go_text \<Rightarrow> go_text" where
  "w_line n s = replicate n 9 @ s @ [10]"

definition comma :: go_text where "comma = codes '', ''"
definition semi :: go_text where "semi = codes ''; ''"

section \<open>Types\<close>

fun render_ty :: "go_ty \<Rightarrow> go_text" where
  "render_ty (GoBare p) = prim_go_name p"
| "render_ty GoUnit = codes ''struct{}''"
| "render_ty GoAny = codes ''any''"
| "render_ty (GoNamed n args) =
     (if args = [] then n else n @ codes ''['' @ join comma (map render_ty args) @ codes '']'')"
| "render_ty (GoSlice t) = codes ''[]'' @ render_ty t"
| "render_ty (GoMap k v) = codes ''rt.SkyDict['' @ render_ty v @ codes '']''"
| "render_ty (GoFuncTy ps r) = codes ''func('' @ join comma (map render_ty ps) @ codes '') '' @ render_ty r"
| "render_ty (GoTuple xs) =
     (if 2 \<le> length xs \<and> length xs \<le> 9
      then codes ''rt.T'' @ codes (show_nat (length xs)) @ codes ''['' @ join comma (map render_ty xs) @ codes '']''
      else codes ''rt.SkyTupleN'')"
| "render_ty (GoTyVar n) = n"
| "render_ty (GoStructTy fs) =
     codes ''struct{ '' @ join semi (map (\<lambda>(n, t). n @ codes '' '' @ render_ty t) fs) @ codes '' }''"

section \<open>Narrowing an \<open>any\<close>\<close>

text \<open>The application of a boxed curried function to the parameters \<open>_a0 .. _a(n-1)\<close>.\<close>

fun curried_app :: "nat \<Rightarrow> go_text" where
  "curried_app 0 = codes ''_c''"
| "curried_app (Suc i) =
     (if i = 0 then curried_app i @ codes ''(any(_a0))''
      else codes ''('' @ curried_app i @ codes '').(func(any) any)(any(_a'' @ codes (show_nat i) @ codes ''))'')"

definition coerce_to :: "go_ty \<Rightarrow> go_text \<Rightarrow> go_text" where
  "coerce_to to inner = codes ''rt.Coerce['' @ render_ty to @ codes ''](''  @ inner @ codes '')''"

text \<open>\<open>func() T { _s := any(x); if _f, _ok := _s.(T); _ok { return _f }; if _b, _ok := _s.(func(any) any); _ok { return
  func(ps) R { return narrowed } }; return rt.CoerceFuncSlot[T](_s) }()\<close>\<close>

definition func_adapter :: "go_text \<Rightarrow> go_text \<Rightarrow> go_text \<Rightarrow> go_text \<Rightarrow> go_text \<Rightarrow> go_text \<Rightarrow> go_text" where
  "func_adapter tgt inner b params rty narrowed =
     codes ''func() '' @ tgt @ codes '' { _s := any('' @ inner @ codes ''); if _f, _ok := _s.('' @ tgt @
     codes ''); _ok { return _f }; if '' @ b @ codes '', _ok := _s.(func(any) any); _ok { return func('' @ params @ codes '') '' @ rty @
     codes '' { return '' @ narrowed @ codes '' } }; return rt.CoerceFuncSlot['' @ tgt @ codes ''](_s) }()''"

fun narrow_call :: "go_ty \<Rightarrow> go_text \<Rightarrow> go_text" where
  "narrow_call GoAny inner = codes ''any('' @ inner @ codes '')''"
| "narrow_call (GoNamed n args) inner =
     (case args of
        [a] \<Rightarrow>
          (if n = codes ''rt.SkyMaybe'' then codes ''rt.MaybeCoerce['' @ render_ty a @ codes ''](''  @ inner @ codes '')''
           else coerce_to (GoNamed n args) inner)
      | [a, b] \<Rightarrow>
          (if n = codes ''rt.SkyTask'' then
             codes ''rt.TaskCoerceT['' @ render_ty a @ comma @ render_ty b @ codes ''](''  @ inner @ codes '')''
           else if n = codes ''rt.SkyResult'' then
             (if b = GoAny then codes ''rt.ResultCoerce['' @ render_ty a @ comma @ render_ty b @ codes ''](''  @ inner @ codes '')''
              else codes ''rt.ResultCoerceOk['' @ render_ty a @ comma @ render_ty b @ codes ''](''  @ inner @
                codes '', func(_v any) '' @ render_ty b @ codes '' { return '' @ narrow_call b (codes ''_v'') @ codes '' })'')
           else coerce_to (GoNamed n args) inner)
      | _ \<Rightarrow> coerce_to (GoNamed n args) inner)"
| "narrow_call (GoSlice t) inner = codes ''rt.AsListT['' @ render_ty t @ codes ''](''  @ inner @ codes '')''"
| "narrow_call (GoMap k v) inner = codes ''rt.AsMapT['' @ render_ty v @ codes ''](''  @ inner @ codes '')''"
| "narrow_call (GoBare p) inner =
     (case p of
        PrimStr \<Rightarrow> codes ''rt.AsString('' @ inner @ codes '')''
      | PrimInt \<Rightarrow> codes ''rt.AsInt('' @ inner @ codes '')''
      | PrimBool \<Rightarrow> codes ''rt.AsBool('' @ inner @ codes '')''
      | PrimFloat \<Rightarrow> codes ''rt.AsFloat('' @ inner @ codes '')''
      | _ \<Rightarrow> coerce_to (GoBare p) inner)"
| "narrow_call (GoFuncTy ps r) inner =
     (let tgt = render_ty (GoFuncTy ps r) in
      case ps of
        [] \<Rightarrow> codes ''func() '' @ tgt @ codes '' { if _f, _ok := (any('' @ inner @ codes '')).('' @ tgt @
          codes ''); _ok { return _f }; return rt.CoerceFuncSlot['' @ tgt @ codes ''](''  @ inner @ codes '') }()''
      | [p] \<Rightarrow> func_adapter tgt inner (codes ''_g'') (codes ''_a0 '' @ render_ty p) (render_ty r) (narrow_call r (codes ''_g(any(_a0))''))
      | _ \<Rightarrow> func_adapter tgt inner (codes ''_c'')
          (join comma (map (\<lambda>(i, p). codes ''_a'' @ codes (show_nat i) @ codes '' '' @ render_ty p) (enumerate 0 ps)))
          (render_ty r) (narrow_call r (curried_app (length ps))))"
| "narrow_call (GoStructTy fs) inner =
     (if fs = [] then coerce_to (GoStructTy fs) inner
      else
        (let tgt = render_ty (GoStructTy fs);
             src_fields = join semi (map (\<lambda>n. n @ codes '' any'') (sort (map fst fs)));
             assigns = join comma (map (\<lambda>(n, t). n @ codes '': '' @ narrow_call t (codes ''_m.'' @ n)) fs) in
         codes ''func(_s any) '' @ tgt @ codes '' { if _m, _ok := _s.(struct{ '' @ src_fields @ codes '' }); _ok { return '' @ tgt @
         codes ''{'' @ assigns @ codes ''} }; return rt.Coerce['' @ tgt @ codes ''](_s) }(''  @ inner @ codes '')''))"
| "narrow_call to inner = coerce_to to inner"

section \<open>Expressions\<close>

fun render_bin :: "go_bin \<Rightarrow> go_text" where
  "render_bin BinAdd = codes ''+''"
| "render_bin BinSub = codes ''-''"
| "render_bin BinMul = codes ''*''"
| "render_bin BinEq = codes ''==''"
| "render_bin BinNe = codes ''!=''"
| "render_bin BinLt = codes ''<''"
| "render_bin BinGt = codes ''>''"
| "render_bin BinLe = codes ''<=''"
| "render_bin BinGe = codes ''>=''"
| "render_bin BinAnd = codes ''&&''"
| "render_bin BinOr = codes ''||''"

definition render_params :: "go_param list \<Rightarrow> go_text" where
  "render_params ps = join comma (map (\<lambda>p. gp_name p @ codes '' '' @ render_ty (gp_ty p)) ps)"

definition show_int :: "int \<Rightarrow> go_text" where
  "show_int i = (if i < 0 then codes ''-'' @ codes (show_nat (nat (- i))) else codes (show_nat (nat i)))"

definition float_lit :: "go_text \<Rightarrow> go_text" where
  "float_lit s = (if chr CHR ''.'' \<in> set s \<or> chr CHR ''e'' \<in> set s then s else s @ codes ''.0'')"

fun render_expr :: "(64 word \<Rightarrow> go_text) \<Rightarrow> go_expr \<Rightarrow> go_text"
and render_kind :: "(64 word \<Rightarrow> go_text) \<Rightarrow> go_ty \<Rightarrow> go_kind \<Rightarrow> go_text"
and render_inline :: "(64 word \<Rightarrow> go_text) \<Rightarrow> go_stmt \<Rightarrow> go_text" where
  "render_expr fl (GoExpr k ty) = render_kind fl ty k"
| "render_kind fl ty (GoIdent n) = n"
| "render_kind fl ty (GoIntLit n) = show_int (sint n)"
| "render_kind fl ty (GoFloatLit f) = float_lit (fl f)"
| "render_kind fl ty (GoStrLit s) = dquote @ go_escape_string s @ dquote"
| "render_kind fl ty (GoBoolLit b) = (if b then codes ''true'' else codes ''false'')"
| "render_kind fl ty GoNil = codes ''nil''"
| "render_kind fl ty (GoCall f args) = render_expr fl f @ codes ''('' @ join comma (map (render_expr fl) args) @ codes '')''"
| "render_kind fl ty (GoGenericCall f ts args) =
     f @ codes ''['' @ join comma (map render_ty ts) @ codes ''](''  @ join comma (map (render_expr fl) args) @ codes '')''"
| "render_kind fl ty (GoSelector b f) = render_expr fl b @ codes ''.'' @ f"
| "render_kind fl ty (GoTypeAssert b t) = render_expr fl b @ codes ''.('' @ render_ty t @ codes '')''"
| "render_kind fl ty (GoIndex b i) = render_expr fl b @ codes ''['' @ render_expr fl i @ codes '']''"
| "render_kind fl ty (GoSliceLit elem xs) =
     codes ''[]'' @ render_ty elem @ codes ''{'' @ join comma (map (render_expr fl) xs) @ codes ''}''"
| "render_kind fl ty (GoStructLit n fs) =
     n @ codes ''{'' @ join comma (map (\<lambda>(m, v). m @ codes '': '' @ render_expr fl v) fs) @ codes ''}''"
| "render_kind fl ty (GoFuncLit ps r body) =
     codes ''func('' @ render_params ps @ codes '') '' @ render_ty r @ codes '' { '' @ join semi (map (render_inline fl) body) @ codes '' }''"
| "render_kind fl ty (GoBinary op l r) =
     codes ''('' @ render_expr fl l @ codes '' '' @ render_bin op @ codes '' '' @ render_expr fl r @ codes '')''"
| "render_kind fl ty (GoBlock body) =
     codes ''func() '' @ render_ty ty @ codes '' { '' @ join semi (map (render_inline fl) body) @ codes '' }()''"
| "render_kind fl ty (GoCoerce inner from to reason) =
     (if from = to then render_expr fl inner
      else codes ''/* '' @ reason_comment reason @ codes '' */ '' @ narrow_call to (render_expr fl inner))"
| "render_kind fl ty (GoWiden inner) = codes ''any('' @ render_expr fl inner @ codes '')''"
| "render_inline fl (GoExprStmt e) = render_expr fl e"
| "render_inline fl (GoShort n e) = n @ codes '' := '' @ render_expr fl e"
| "render_inline fl (GoDiscard e) = codes ''_ = '' @ render_expr fl e"
| "render_inline fl (GoAssignField b f v) = render_expr fl b @ codes ''.'' @ f @ codes '' = '' @ render_expr fl v"
| "render_inline fl (GoAssign n e) = n @ codes '' = '' @ render_expr fl e"
| "render_inline fl (GoVarDecl n t) = codes ''var '' @ n @ codes '' '' @ render_ty t"
| "render_inline fl (GoLoop body) = codes ''for { '' @ join semi (map (render_inline fl) body) @ codes '' }''"
| "render_inline fl GoContinue = codes ''continue''"
| "render_inline fl (GoReturn None) = codes ''return''"
| "render_inline fl (GoReturn (Some e)) = codes ''return '' @ render_expr fl e"
| "render_inline fl (GoComment c) = codes ''/* '' @ c @ codes '' */''"
| "render_inline fl (GoScope body) = codes ''{ '' @ join semi (map (render_inline fl) body) @ codes '' }''"
| "render_inline fl (GoIf c t e) =
     codes ''if '' @ render_expr fl c @ codes '' { '' @ join semi (map (render_inline fl) t) @ codes '' }'' @
     (if e = [] then [] else codes '' else { '' @ join semi (map (render_inline fl) e) @ codes '' }'')"
| "render_inline fl (GoIfTypeAssert binder ok subj ty body) =
     codes ''if '' @ binder @ comma @ ok @ codes '' := '' @ render_expr fl subj @ codes ''.('' @ render_ty ty @ codes ''); '' @ ok @
     codes '' { '' @ join semi (map (render_inline fl) body) @ codes '' }''"

section \<open>Statements\<close>

fun emit_stmt :: "(64 word \<Rightarrow> go_text) \<Rightarrow> nat \<Rightarrow> go_stmt \<Rightarrow> go_text" where
  "emit_stmt fl n (GoExprStmt e) = w_line n (render_expr fl e)"
| "emit_stmt fl n (GoShort m e) = w_line n (m @ codes '' := '' @ render_expr fl e)"
| "emit_stmt fl n (GoDiscard e) = w_line n (codes ''_ = '' @ render_expr fl e)"
| "emit_stmt fl n (GoAssignField b f v) = w_line n (render_expr fl b @ codes ''.'' @ f @ codes '' = '' @ render_expr fl v)"
| "emit_stmt fl n (GoAssign m e) = w_line n (m @ codes '' = '' @ render_expr fl e)"
| "emit_stmt fl n (GoVarDecl m t) = w_line n (codes ''var '' @ m @ codes '' '' @ render_ty t)"
| "emit_stmt fl n (GoLoop body) = w_line n (codes ''for {'') @ concat (map (emit_stmt fl (n + 1)) body) @ w_line n (codes ''}'')"
| "emit_stmt fl n GoContinue = w_line n (codes ''continue'')"
| "emit_stmt fl n (GoReturn None) = w_line n (codes ''return'')"
| "emit_stmt fl n (GoReturn (Some e)) = w_line n (codes ''return '' @ render_expr fl e)"
| "emit_stmt fl n (GoComment c) = w_line n (codes ''// '' @ c)"
| "emit_stmt fl n (GoScope body) = w_line n (codes ''{'') @ concat (map (emit_stmt fl (n + 1)) body) @ w_line n (codes ''}'')"
| "emit_stmt fl n (GoIfTypeAssert binder ok subj ty body) =
     w_line n (codes ''if '' @ binder @ comma @ ok @ codes '' := '' @ render_expr fl subj @ codes ''.('' @ render_ty ty @ codes ''); '' @
       ok @ codes '' {'') @ concat (map (emit_stmt fl (n + 1)) body) @ w_line n (codes ''}'')"
| "emit_stmt fl n (GoIf c t e) =
     w_line n (codes ''if '' @ render_expr fl c @ codes '' {'') @ concat (map (emit_stmt fl (n + 1)) t) @
     (if e = [] then w_line n (codes ''}'')
      else w_line n (codes ''} else {'') @ concat (map (emit_stmt fl (n + 1)) e) @ w_line n (codes ''}''))"

section \<open>Items\<close>

definition sky_field_name :: "(nat \<Rightarrow> nat list) \<Rightarrow> go_text \<Rightarrow> go_text" where
  "sky_field_name lower name = (case name of [] \<Rightarrow> [] | c # cs \<Rightarrow> lower c @ cs)"

definition quoted_text :: "go_text \<Rightarrow> go_text" where
  "quoted_text s = dquote @ s @ dquote"

definition emit_variant :: "go_text \<Rightarrow> go_text \<times> nat \<times> go_ty list \<Rightarrow> go_text" where
  "emit_variant name v = (case v of (ctor, tag, fs) \<Rightarrow>
     (let vstruct = name @ codes ''_'' @ ctor @ codes ''_V'' in
      w_line 0 (if fs = [] then codes ''type '' @ vstruct @ codes '' struct {}''
        else codes ''type '' @ vstruct @ codes '' struct { '' @
          join semi (map (\<lambda>(i, t). codes ''V'' @ codes (show_nat i) @ codes '' '' @ render_ty t) (enumerate 0 fs)) @ codes '' }'') @
      w_line 0 (codes ''func ('' @ vstruct @ codes '') SkyVariantTag() int { return '' @ codes (show_nat tag) @ codes '' }'') @
      w_line 0 (codes ''func ('' @ vstruct @ codes '') SkyVariantName() string { return '' @ quoted_text ctor @ codes '' }'')))"

fun emit_type :: "(nat \<Rightarrow> nat list) \<Rightarrow> go_text \<Rightarrow> go_type_def \<Rightarrow> go_text" where
  "emit_type lower name AdtAlias = w_line 0 (codes ''type '' @ name @ codes '' = rt.SkyADT'')"
| "emit_type lower name (RuntimeAlias rt_ty) = w_line 0 (codes ''type '' @ name @ codes '' = '' @ rt_ty)"
| "emit_type lower name (SealedIface variants) =
     w_line 0 (codes ''type '' @ name @ codes '' interface {'') @
     w_line 1 (codes ''SkyVariantTag() int'') @ w_line 1 (codes ''SkyVariantName() string'') @ w_line 0 (codes ''}'') @
     concat (map (emit_variant name) variants)"
| "emit_type lower name (IotaEnum variants) =
     w_line 0 (codes ''type '' @ name @ codes '' int'') @ w_line 0 (codes ''const ('') @
     concat (map (\<lambda>(i, v). w_line 1 (if i = 0 then name @ codes ''_'' @ v @ codes '' '' @ name @ codes '' = iota'' else name @ codes ''_'' @ v))
       (enumerate 0 variants)) @
     w_line 0 (codes '')'') @
     w_line 0 (codes ''func init() { rt.RegisterEnum('' @ quoted_text name @ codes '', []string{'' @ join comma (map quoted_text variants) @
       codes ''}); rt.GobRegister('' @ name @ codes ''(0)) }'') @
     w_line 0 (codes ''func (v '' @ name @ codes '') SkyEnumName() string { return rt.EnumName('' @ quoted_text name @ codes '', int(v)) }'')"
| "emit_type lower name (StructDef fs) =
     w_line 0 (codes ''type '' @ name @ codes '' struct { '' @
       join semi (map (\<lambda>(n, t). let ty = render_ty t in
         n @ codes '' '' @ ty @ codes '' '' @ backtick @ codes ''sky:'' @ quoted_text (sky_field_name lower n @ codes '','' @ ty) @ backtick) fs) @
       codes '' }'')"
| "emit_type lower name (AliasDef t) = w_line 0 (codes ''type '' @ name @ codes '' = '' @ render_ty t)"

definition emit_func :: "(64 word \<Rightarrow> go_text) \<Rightarrow> go_func_decl \<Rightarrow> go_text" where
  "emit_func fl f =
     (case gf_doc f of Some doc \<Rightarrow> concat (map (\<lambda>l. w_line 0 (codes ''// '' @ l)) (text_lines doc)) | None \<Rightarrow> []) @
     w_line 0 (codes ''func '' @ gf_name f @
       (if gf_type_params f = [] then []
        else codes ''['' @ join comma (map (\<lambda>(n, c). n @ codes '' '' @ render_ty c) (gf_type_params f)) @ codes '']'') @
       codes ''('' @ render_params (gf_params f) @ codes '')'' @
       (if gf_name f \<noteq> codes ''main'' then codes '' '' @ render_ty (gf_ret f) else []) @ codes '' {'') @
     concat (map (emit_stmt fl 1) (gf_body f)) @ w_line 0 (codes ''}'')"

definition emit_item :: "(64 word \<Rightarrow> go_text) \<Rightarrow> (nat \<Rightarrow> nat list) \<Rightarrow> go_item \<Rightarrow> go_text" where
  "emit_item fl lower it = (case it of
     ItemFunc f \<Rightarrow> emit_func fl f
   | ItemType name def \<Rightarrow> emit_type lower name def
   | ItemVar name ty init \<Rightarrow> w_line 0 (codes ''var '' @ name @ codes '' '' @ render_ty ty @
       (case init of Some e \<Rightarrow> codes '' = '' @ render_expr fl e | None \<Rightarrow> []))
   | ItemInit stmts \<Rightarrow> w_line 0 (codes ''func init() {'') @ concat (map (emit_stmt fl 1) stmts) @ w_line 0 (codes ''}'')
   | ItemRaw s \<Rightarrow> w_line 0 s)"

text \<open>The types that every process registers for its session store: sorted, each once.\<close>

definition item_gob_types :: "go_item \<Rightarrow> go_text list" where
  "item_gob_types it = (case it of
     ItemType name def \<Rightarrow>
       (if chr CHR ''['' \<in> set name then []
        else (case def of
          StructDef fs \<Rightarrow> [name]
        | SealedIface variants \<Rightarrow> map (\<lambda>(ctor, tag, fs). name @ codes ''_'' @ ctor @ codes ''_V'') variants
        | _ \<Rightarrow> []))
   | _ \<Rightarrow> [])"

definition gob_types :: "go_item list \<Rightarrow> go_text list" where
  "gob_types items = remdups_adj (sort (concat (map item_gob_types items)))"

definition emit_body :: "(64 word \<Rightarrow> go_text) \<Rightarrow> (nat \<Rightarrow> nat list) \<Rightarrow> go_item list \<Rightarrow> go_text" where
  "emit_body fl lower items =
     concat (map (\<lambda>it. emit_item fl lower it @ [10]) items) @
     (let gob = gob_types items in
      if gob = [] then []
      else w_line 0 (codes ''func init() { rt.RegisterSkyGobTypes([]any{'' @ join comma (map (\<lambda>n. n @ codes ''{}'') gob) @ codes ''}) }'') @ [10])"

definition emit_program :: "(64 word \<Rightarrow> go_text) \<Rightarrow> (nat \<Rightarrow> nat list) \<Rightarrow> go_item list \<Rightarrow> bool \<Rightarrow> go_text" where
  "emit_program fl lower items console_needed =
     (let body = emit_body fl lower items;
          ffi_used = find_text (codes ''skyffi.'') body \<noteq> None in
      w_line 0 (codes ''package main'') @ [10] @
      (if console_needed \<or> ffi_used
       then w_line 0 (codes ''import ('') @ w_line 0 ([9] @ codes ''rt '' @ quoted_text (codes ''sky-app/rt'')) @
         (if console_needed then w_line 0 ([9] @ codes ''_ '' @ quoted_text (codes ''sky-app/rt/console_app'')) else []) @
         (if ffi_used then w_line 0 ([9] @ codes ''skyffi '' @ quoted_text (codes ''sky-app/skyffi'')) else []) @ w_line 0 (codes '')'')
       else w_line 0 (codes ''import rt '' @ quoted_text (codes ''sky-app/rt''))) @
      [10] @ w_line 0 (codes ''var _ = rt.AsInt'') @ [10] @ body)"

end
