(* ===== verification/Go_Emit_Ok.thy ===== *)
theory Go_Emit_Ok
  imports Go_Emit
begin

text \<open>
  What the emitted Go is as a text: its brackets match and its string and raw literals are closed, whatever the
  program, when the names and raw texts that lowering put into the IR are so themselves; and the
  registration of the session types.
\<close>

section \<open>A scanner of Go's brackets and literals\<close>

datatype scan_mode = InCode | InString | InRaw

definition opens :: "nat \<Rightarrow> nat option" where
  "opens c = (if c = 40 then Some 41 else if c = 91 then Some 93 else if c = 123 then Some 125 else None)"

definition closes :: "nat \<Rightarrow> bool" where
  "closes c \<longleftrightarrow> c = 41 \<or> c = 93 \<or> c = 125"

text \<open>The stack holds the brackets to close. A string ends at its first unescaped quote and not at a line break; a raw
  literal ends at its first backtick.\<close>

fun scan_go :: "nat list \<Rightarrow> scan_mode \<Rightarrow> nat list \<Rightarrow> (nat list \<times> scan_mode) option" where
  "scan_go st m [] = Some (st, m)"
| "scan_go st InCode (c # cs) =
     (if c = 34 then scan_go st InString cs
      else if c = 96 then scan_go st InRaw cs
      else if closes c then (case st of d # st \<Rightarrow> (if c = d then scan_go st InCode cs else None) | [] \<Rightarrow> None)
      else (case opens c of Some d \<Rightarrow> scan_go (d # st) InCode cs | None \<Rightarrow> scan_go st InCode cs))"
| "scan_go st InString (c # cs) =
     (if c = 10 then None
      else if c = 34 then scan_go st InCode cs
      else if c = 92 then (case cs of [] \<Rightarrow> None | d # cs \<Rightarrow> (if d = 10 then None else scan_go st InString cs))
      else scan_go st InString cs)"
| "scan_go st InRaw (c # cs) = scan_go st (if c = 96 then InCode else InRaw) cs"

definition neutral :: "nat list \<Rightarrow> bool" where
  "neutral t \<longleftrightarrow> (\<forall>st k. scan_go st InCode (t @ k) = scan_go st InCode k)"

text \<open>A text of the IR: neutral, and without the backtick that would end a field's tag.\<close>

definition clean :: "nat list \<Rightarrow> bool" where
  "clean t \<longleftrightarrow> neutral t \<and> 96 \<notin> set t"

text \<open>A name: none of the characters that the scanner knows.\<close>

definition plain_name :: "nat list \<Rightarrow> bool" where
  "plain_name t \<longleftrightarrow> (\<forall>c \<in> set t. c \<notin> {10, 34, 92, 96} \<and> opens c = None \<and> \<not> closes c)"

lemma neutral_scan: "neutral t \<Longrightarrow> scan_go st InCode (t @ k) = scan_go st InCode k"
  by (simp add: neutral_def)

lemma neutral_scan_end: "neutral t \<Longrightarrow> scan_go st InCode t = Some (st, InCode)"
  using neutral_scan[of t st "[]"] by simp

named_theorems scans

lemma scan_name:
  "plain_name t \<Longrightarrow> scan_go st InString (t @ k) = scan_go st InString k" "plain_name t \<Longrightarrow> neutral t" "plain_name t \<Longrightarrow> clean t"
proof -
  assume t: "plain_name t"
  then show "scan_go st InString (t @ k) = scan_go st InString k" by (induction t) (auto simp: plain_name_def)
  from t show n: "neutral t"
    unfolding neutral_def by (induction t) (auto simp: plain_name_def)
  show "clean t" using n t by (auto simp: clean_def plain_name_def)
qed

lemma scan_raw: "96 \<notin> set t \<Longrightarrow> scan_go st InRaw (t @ k) = scan_go st InRaw k"
  by (induction t) auto

lemma neutral_empty: "neutral []" by (simp add: neutral_def)

lemma neutral_append: "neutral a \<Longrightarrow> neutral b \<Longrightarrow> neutral (a @ b)"
  by (simp add: neutral_def)

lemma neutral_join: "neutral sep \<Longrightarrow> \<forall>x \<in> set xs. neutral x \<Longrightarrow> neutral (join sep xs)"
  by (induction sep xs rule: join.induct) (auto simp: neutral_empty intro!: neutral_append)

lemma neutral_concat: "\<forall>x \<in> set xs. neutral x \<Longrightarrow> neutral (concat xs)"
  by (induction xs) (auto simp: neutral_empty intro!: neutral_append)

lemmas scan_step = opens_def closes_def scalar_def

lemma neutral_digits: "neutral (codes (show_nat n))"
proof -
  have "\<forall>c \<in> set (codes (show_nat n)). 48 \<le> c \<and> c \<le> 57"
    using decimal_digits by blast
  then have "plain_name (codes (show_nat n))" by (fastforce simp: plain_name_def opens_def closes_def)
  then show ?thesis by (rule scan_name)
qed

lemma neutral_line: "neutral s \<Longrightarrow> neutral (w_line n s)"
proof -
  assume s: "neutral s"
  have "neutral (replicate n 9)" by (rule scan_name(2)) (auto simp: plain_name_def opens_def closes_def)
  then show ?thesis using s unfolding w_line_def
    by (intro neutral_append) (simp_all add: neutral_def scan_step)
qed

text \<open>A string literal: the escaped text leaves the scanner in the string.\<close>

lemma scan_escape_char: "scan_go st InString (go_escape_char c @ k) = scan_go st InString k"
proof -
  have digit: "scan_go st InString (hex_digit d # k) = scan_go st InString k" for d k
    by (simp add: hex_digit_def scalar_def)
  consider "c = 34" | "c = 92" | "c = 10" | "c \<noteq> 34" "c \<noteq> 92" "c \<noteq> 10" by blast
  moreover have "scan_go st InString (hex2 c @ k) = scan_go st InString k" "scan_go st InString (hex4 c @ k) = scan_go st InString k" for k
    by (simp_all only: hex2_def hex4_def append_Cons append_Nil digit)
  ultimately show ?thesis by cases (simp_all add: go_escape_char_def scalar_def)
qed

lemma scan_escape: "scan_go st InString (go_escape_string s @ k) = scan_go st InString k"
  by (induction s) (auto simp: go_escape_string_def scan_escape_char)

lemma neutral_string: "neutral (dquote @ go_escape_string s @ dquote)"
  by (simp add: neutral_def dquote_def scalar_def scan_escape)

lemma scan_literal: "scan_go st InCode (dquote @ go_escape_string s @ dquote @ k) = scan_go st InCode k"
  by (simp add: dquote_def scalar_def scan_escape)

lemma neutral_quoted: "plain_name s \<Longrightarrow> neutral (quoted_text s)"
  by (simp add: neutral_def quoted_text_def dquote_def scalar_def scan_name)

lemma neutral_name_go: "neutral (prim_go_name p)"
  by (cases p) (simp_all add: neutral_def scan_step)

section \<open>Types\<close>

primrec texts_ty :: "(go_text \<Rightarrow> bool) \<Rightarrow> go_ty \<Rightarrow> bool"
and texts_tys :: "(go_text \<Rightarrow> bool) \<Rightarrow> go_ty list \<Rightarrow> bool"
and texts_fields :: "(go_text \<Rightarrow> bool) \<Rightarrow> (go_text \<times> go_ty) list \<Rightarrow> bool"
and texts_field :: "(go_text \<Rightarrow> bool) \<Rightarrow> go_text \<times> go_ty \<Rightarrow> bool" where
  "texts_ty q (GoBare p) = True"
| "texts_ty q GoUnit = True"
| "texts_ty q GoAny = True"
| "texts_ty q (GoFuncTy ps r) = (texts_tys q ps \<and> texts_ty q r)"
| "texts_ty q (GoNamed n args) = (q n \<and> texts_tys q args)"
| "texts_ty q (GoSlice t) = texts_ty q t"
| "texts_ty q (GoMap k v) = texts_ty q v"
| "texts_ty q (GoStructTy fs) = texts_fields q fs"
| "texts_ty q (GoTuple ts) = texts_tys q ts"
| "texts_ty q (GoTyVar n) = q n"
| "texts_tys q [] = True"
| "texts_tys q (t # ts) = (texts_ty q t \<and> texts_tys q ts)"
| "texts_fields q [] = True"
| "texts_fields q (f # fs) = (texts_field q f \<and> texts_fields q fs)"
| "texts_field q (n, t) = (q n \<and> texts_ty q t)"

lemma texts_ty_lists [simp]:
  "texts_tys q ts \<longleftrightarrow> (\<forall>t \<in> set ts. texts_ty q t)" "texts_fields q fs \<longleftrightarrow> (\<forall>(n, t) \<in> set fs. q n \<and> texts_ty q t)"
  by (induction ts, simp_all) (induction fs, auto)

lemma neutral_comma [simp]: "neutral comma" "neutral semi"
  by (simp_all add: neutral_def comma_def semi_def scan_step)

lemma neutral_ty: "texts_ty clean t \<Longrightarrow> neutral (render_ty t)"
proof (induction t rule: render_ty.induct)
  case (4 n args)
  have "neutral (join comma (map render_ty args))" if "args \<noteq> []" using 4 that by (intro neutral_join) auto
  then show ?case using 4 by (auto simp: neutral_def scan_step clean_def)
next
  case (7 ps r)
  have "neutral (join comma (map render_ty ps))" using 7 by (intro neutral_join) auto
  then show ?case using 7 by (auto simp: neutral_def scan_step)
next
  case (8 xs)
  have "neutral (join comma (map render_ty xs))" if "2 \<le> length xs \<and> length xs \<le> 9" using 8 that by (intro neutral_join) auto
  then show ?case using neutral_digits[of "length xs"] by (auto simp: neutral_def scan_step)
next
  case (10 fs)
  have "neutral (join semi (map (\<lambda>(n, t). n @ codes '' '' @ render_ty t) fs))"
  proof (intro neutral_join ballI)
    fix x assume "x \<in> set (map (\<lambda>(n, t). n @ codes '' '' @ render_ty t) fs)"
    then obtain n t where x: "x = n @ codes '' '' @ render_ty t" "(n, t) \<in> set fs" by auto
    then have "neutral n" "neutral (render_ty t)" using 10 by (auto simp: clean_def)
    then show "neutral x" by (simp add: x neutral_def scan_step)
  qed simp
  then show ?case by (auto simp: neutral_def scan_step)
qed (auto simp: neutral_scan[OF neutral_name_go] neutral_def scan_step clean_def)

lemma no_backtick_join: "96 \<notin> set sep \<Longrightarrow> \<forall>x \<in> set xs. 96 \<notin> set x \<Longrightarrow> 96 \<notin> set (join sep xs)"
  by (induction sep xs rule: join.induct) auto

lemma no_backtick_ty: "texts_ty clean t \<Longrightarrow> 96 \<notin> set (render_ty t)"
proof (induction t rule: render_ty.induct)
  case (1 p)
  then show ?case by (cases p) (auto simp: scalar_def)
next
  case (4 n args)
  have "96 \<notin> set (join comma (map render_ty args))" if "args \<noteq> []"
    using 4 that by (intro no_backtick_join) (auto simp: comma_def scalar_def)
  then show ?case using 4 by (auto simp: clean_def scalar_def)
next
  case (7 ps r)
  have "96 \<notin> set (join comma (map render_ty ps))" using 7 by (intro no_backtick_join) (auto simp: comma_def scalar_def)
  then show ?case using 7 by (auto simp: scalar_def)
next
  case (8 xs)
  have "96 \<notin> set (join comma (map render_ty xs))" if "2 \<le> length xs \<and> length xs \<le> 9"
    using 8 that by (intro no_backtick_join) (auto simp: comma_def scalar_def)
  then show ?case using decimal_digits[of 96 "length xs"] by (auto simp: scalar_def)
next
  case (10 fs)
  have "96 \<notin> set (join semi (map (\<lambda>(n, t). n @ codes '' '' @ render_ty t) fs))"
  proof (intro no_backtick_join ballI)
    fix x assume "x \<in> set (map (\<lambda>(n, t). n @ codes '' '' @ render_ty t) fs)"
    then obtain n t where x: "x = n @ codes '' '' @ render_ty t" "(n, t) \<in> set fs" by auto
    then have "96 \<notin> set n" "96 \<notin> set (render_ty t)" using 10 by (auto simp: clean_def)
    then show "96 \<notin> set x" by (simp add: x scalar_def)
  qed (simp add: semi_def scalar_def)
  then show ?case by (auto simp: scalar_def)
qed (auto simp: scalar_def clean_def)

section \<open>Narrowing\<close>

lemma neutral_curried: "neutral (curried_app n)"
  by (induction n) (auto simp: neutral_def scan_step neutral_scan[OF neutral_digits])

declare curried_app.simps [simp del]

lemma neutral_coerce: "texts_ty clean t \<Longrightarrow> neutral inner \<Longrightarrow> neutral (coerce_to t inner)"
  by (auto simp: neutral_def scan_step coerce_to_def neutral_scan[OF neutral_ty])

lemma neutral_adapter:
  "neutral tgt \<Longrightarrow> neutral inner \<Longrightarrow> neutral b \<Longrightarrow> neutral params \<Longrightarrow> neutral rty \<Longrightarrow> neutral narrowed \<Longrightarrow>
   neutral (func_adapter tgt inner b params rty narrowed)"
  by (simp add: neutral_def scan_step func_adapter_def)

lemma neutral_narrow: "texts_ty clean t \<Longrightarrow> neutral inner \<Longrightarrow> neutral (narrow_call t inner)"
proof (induction t inner rule: narrow_call.induct)
  case (2 n args inner)
  then show ?case
    by (auto simp: neutral_def scan_step neutral_scan[OF neutral_ty] neutral_scan[OF neutral_coerce] comma_def split: list.split)
next
  case (6 ps r inner)
  let ?tgt = "render_ty (GoFuncTy ps r)"
  have tgt: "neutral ?tgt" "neutral (render_ty r)" using "6.prems" by (auto intro!: neutral_ty simp del: render_ty.simps)
  have "neutral (codes ''_c'')" "neutral (codes ''_g'')" "neutral (codes ''_g(any(_a0))'')" by (simp_all add: neutral_def scan_step)
  note pieces = this
  consider "ps = []" | p where "ps = [p]" | p q rs where "ps = p # q # rs" by (metis list.exhaust)
  then show ?case
  proof cases
    case 1
    then show ?thesis using "6.prems" neutral_scan[OF tgt(1)]
      by (simp add: neutral_def scan_step Let_def del: render_ty.simps)
  next
    case 2
    have "neutral (render_ty p)" using "6.prems" 2 neutral_ty by simp
    then have "neutral (codes ''_a0 '' @ render_ty p)" by (simp add: neutral_def scan_step)
    moreover have "neutral (narrow_call r (codes ''_g(any(_a0))''))" using "6.IH" 2 "6.prems" pieces by simp
    ultimately show ?thesis using 2 tgt pieces "6.prems"
      by (simp add: Let_def neutral_adapter del: render_ty.simps)
  next
    case 3
    have "neutral (join comma (map (\<lambda>(i, p). codes ''_a'' @ codes (show_nat i) @ codes '' '' @ render_ty p) (enumerate 0 ps)))"
    proof (intro neutral_join ballI)
      fix x assume "x \<in> set (map (\<lambda>(i, p). codes ''_a'' @ codes (show_nat i) @ codes '' '' @ render_ty p) (enumerate 0 ps))"
      then obtain i p where x: "x = codes ''_a'' @ codes (show_nat i) @ codes '' '' @ render_ty p" "p \<in> set ps"
        by (auto simp: in_set_enumerate_eq)
      then have "neutral (render_ty p)" using "6.prems" neutral_ty by auto
      then show "neutral x" unfolding x by (simp add: neutral_def scan_step neutral_scan[OF neutral_digits])
    qed simp
    moreover have "neutral (narrow_call r (curried_app (length ps)))" using "6.IH" 3 "6.prems" neutral_curried by simp
    ultimately show ?thesis using 3 tgt pieces "6.prems"
      by (simp add: Let_def neutral_adapter del: render_ty.simps enumerate_Suc_eq enumerate_simps)
  qed
next
  case (7 fs inner)
  have fs: "neutral n" "texts_ty clean t" if "(n, t) \<in> set fs" for n t
  proof -
    have "clean n \<and> texts_ty clean t" using "7.prems" that by auto
    then show "neutral n" "texts_ty clean t" by (simp_all add: clean_def)
  qed
  show ?case
  proof (cases "fs = []")
    case True
    then show ?thesis using "7.prems" neutral_coerce by simp
  next
    case False
    have "neutral (join semi (map (\<lambda>n. n @ codes '' any'') (sort (map fst fs))))"
    proof (intro neutral_join ballI)
      fix x assume "x \<in> set (map (\<lambda>n. n @ codes '' any'') (sort (map fst fs)))"
      then obtain n t where "x = n @ codes '' any''" "(n, t) \<in> set fs" by auto
      then show "neutral x" using fs by (simp add: neutral_def scan_step)
    qed simp
    moreover have "neutral (join comma (map (\<lambda>(n, t). n @ codes '': '' @ narrow_call t (codes ''_m.'' @ n)) fs))"
    proof (intro neutral_join ballI)
      fix x assume "x \<in> set (map (\<lambda>(n, t). n @ codes '': '' @ narrow_call t (codes ''_m.'' @ n)) fs)"
      then obtain n t where x: "x = n @ codes '': '' @ narrow_call t (codes ''_m.'' @ n)" "(n, t) \<in> set fs" by auto
      then have "neutral (codes ''_m.'' @ n)" using fs by (simp add: neutral_def scan_step)
      then have "neutral (narrow_call t (codes ''_m.'' @ n))" using "7.IH"[OF False refl refl x(2) refl] fs x(2) by simp
      then show "neutral x" unfolding x using fs[OF x(2)] by (simp add: neutral_def scan_step)
    qed simp
    moreover have "neutral (render_ty (GoStructTy fs))" using "7.prems" by (intro neutral_ty)
    ultimately show ?thesis using False "7.prems"
      by (simp add: neutral_def scan_step Let_def del: render_ty.simps)
  qed
qed (auto simp: neutral_def scan_step neutral_scan[OF neutral_ty] neutral_scan[OF neutral_coerce] split: prim.split)

section \<open>Expressions and statements\<close>

text \<open>A condition on every name, type and raw text of a piece of IR; string literals are free.\<close>

primrec texts_expr :: "(go_text \<Rightarrow> bool) \<Rightarrow> go_expr \<Rightarrow> bool"
and texts_kind :: "(go_text \<Rightarrow> bool) \<Rightarrow> go_ty \<Rightarrow> go_kind \<Rightarrow> bool"
and texts_stmt :: "(go_text \<Rightarrow> bool) \<Rightarrow> go_stmt \<Rightarrow> bool"
and texts_exprs :: "(go_text \<Rightarrow> bool) \<Rightarrow> go_expr list \<Rightarrow> bool"
and texts_values :: "(go_text \<Rightarrow> bool) \<Rightarrow> (go_text \<times> go_expr) list \<Rightarrow> bool"
and texts_value :: "(go_text \<Rightarrow> bool) \<Rightarrow> go_text \<times> go_expr \<Rightarrow> bool"
and texts_option :: "(go_text \<Rightarrow> bool) \<Rightarrow> go_expr option \<Rightarrow> bool"
and texts_stmts :: "(go_text \<Rightarrow> bool) \<Rightarrow> go_stmt list \<Rightarrow> bool" where
  "texts_expr q (GoExpr k t) = texts_kind q t k"
| "texts_kind q t (GoIdent n) = q n"
| "texts_kind q t (GoIntLit i) = True"
| "texts_kind q t (GoFloatLit x) = True"
| "texts_kind q t (GoStrLit x) = True"
| "texts_kind q t (GoBoolLit b) = True"
| "texts_kind q t GoNil = True"
| "texts_kind q t (GoCall f args) = (texts_expr q f \<and> texts_exprs q args)"
| "texts_kind q t (GoGenericCall n ts args) = (q n \<and> texts_tys q ts \<and> texts_exprs q args)"
| "texts_kind q t (GoSelector b f) = (texts_expr q b \<and> q f)"
| "texts_kind q t (GoTypeAssert b ty) = (texts_expr q b \<and> texts_ty q ty)"
| "texts_kind q t (GoIndex b i) = (texts_expr q b \<and> texts_expr q i)"
| "texts_kind q t (GoSliceLit ty args) = (texts_ty q ty \<and> texts_exprs q args)"
| "texts_kind q t (GoStructLit n fs) = (q n \<and> texts_values q fs)"
| "texts_kind q t (GoFuncLit ps r body) = ((\<forall>p \<in> set ps. q (gp_name p) \<and> texts_ty q (gp_ty p)) \<and> texts_ty q r \<and> texts_stmts q body)"
| "texts_kind q t (GoBinary op l r) = (texts_expr q l \<and> texts_expr q r)"
| "texts_kind q t (GoBlock body) = (texts_ty q t \<and> texts_stmts q body)"
| "texts_kind q t (GoCoerce e from to reason) = (texts_expr q e \<and> texts_ty q to)"
| "texts_kind q t (GoWiden e) = texts_expr q e"
| "texts_exprs q [] = True"
| "texts_exprs q (e # es) = (texts_expr q e \<and> texts_exprs q es)"
| "texts_values q [] = True"
| "texts_values q (f # fs) = (texts_value q f \<and> texts_values q fs)"
| "texts_value q (f, e) = (q f \<and> texts_expr q e)"
| "texts_option q None = True"
| "texts_option q (Some e) = texts_expr q e"
| "texts_stmts q [] = True"
| "texts_stmts q (s # ss) = (texts_stmt q s \<and> texts_stmts q ss)"
| "texts_stmt q (GoExprStmt e) = texts_expr q e"
| "texts_stmt q (GoShort n e) = (q n \<and> texts_expr q e)"
| "texts_stmt q (GoDiscard e) = texts_expr q e"
| "texts_stmt q (GoAssignField b f e) = (texts_expr q b \<and> q f \<and> texts_expr q e)"
| "texts_stmt q (GoAssign n e) = (q n \<and> texts_expr q e)"
| "texts_stmt q (GoVarDecl n t) = (q n \<and> texts_ty q t)"
| "texts_stmt q (GoLoop b) = texts_stmts q b"
| "texts_stmt q GoContinue = True"
| "texts_stmt q (GoReturn e) = texts_option q e"
| "texts_stmt q (GoIf c t e) = (texts_expr q c \<and> texts_stmts q t \<and> texts_stmts q e)"
| "texts_stmt q (GoIfTypeAssert binder ok subj ty b) = (q binder \<and> q ok \<and> texts_expr q subj \<and> texts_ty q ty \<and> texts_stmts q b)"
| "texts_stmt q (GoComment c) = q c"
| "texts_stmt q (GoScope b) = texts_stmts q b"

lemma texts_lists [simp]:
  "texts_exprs q es \<longleftrightarrow> (\<forall>e \<in> set es. texts_expr q e)" "texts_values q fs \<longleftrightarrow> (\<forall>(f, e) \<in> set fs. q f \<and> texts_expr q e)"
  "texts_stmts q ss \<longleftrightarrow> (\<forall>s \<in> set ss. texts_stmt q s)"
  by (induction es; simp; fail) ((induction fs; auto; fail), (induction ss; auto; fail))

lemma neutral_show_int: "neutral (show_int i)"
  by (simp add: show_int_def neutral_def scan_step neutral_scan[OF neutral_digits])

lemma neutral_float: "neutral s \<Longrightarrow> neutral (float_lit s)"
  by (simp add: float_lit_def neutral_def scan_step)

lemma neutralI: "(\<And>st k. scan_go st InCode (t @ k) = scan_go st InCode k) \<Longrightarrow> neutral t"
  by (simp add: neutral_def)

lemma clean_neutral: "clean t \<Longrightarrow> neutral t"
  by (simp add: clean_def)

lemma neutral_joins:
  "\<forall>x \<in> set xs. neutral (f x) \<Longrightarrow> neutral (join comma (map f xs))"
  "\<forall>x \<in> set xs. neutral (f x) \<Longrightarrow> neutral (join semi (map f xs))"
  by (auto intro!: neutral_join)

lemma neutral_pair: "neutral n \<Longrightarrow> neutral v \<Longrightarrow> neutral (n @ codes '': '' @ v)" "neutral n \<Longrightarrow> neutral v \<Longrightarrow> neutral (n @ codes '' '' @ v)"
  by (simp_all add: neutral_def scan_step)

lemma neutral_params:
  "\<forall>p \<in> set ps. clean (gp_name p) \<and> texts_ty clean (gp_ty p) \<Longrightarrow> neutral (render_params ps)"
  unfolding render_params_def by (intro neutral_joins ballI neutral_pair) (auto intro: clean_neutral neutral_ty)

lemma neutral_bin: "neutral (render_bin op)"
  by (cases op) (simp_all add: neutral_def scan_step)

lemma neutral_comment: "neutral (reason_comment r)"
  by (cases r) (simp_all add: neutral_def scan_step)

lemmas neutral_pieces = neutral_scan neutral_joins neutral_ty neutral_narrow neutral_params neutral_bin neutral_comment
  neutral_show_int neutral_float scan_literal clean_neutral neutral_empty

lemma neutral_render:
  assumes fl: "\<forall>w. neutral (fl w)"
  shows "texts_expr clean e \<Longrightarrow> neutral (render_expr fl e)"
    and "texts_kind clean t k \<Longrightarrow> neutral (render_kind fl t k)"
    and "texts_stmt clean st \<Longrightarrow> neutral (render_inline fl st)"
  using fl
proof (induction fl e and fl t k and fl st rule: render_expr_render_kind_render_inline.induct)
  case (14 fl ty n fs)
  then have "neutral (join comma (map (\<lambda>(m, v). m @ codes '': '' @ render_expr fl v) fs))"
    by (intro neutral_joins) (fastforce intro: neutral_pair(1)[simplified] clean_neutral)
  then show ?case using "14.prems" by (intro neutralI) (simp add: scan_step neutral_pieces)
qed (rule neutralI, simp add: scan_step neutral_pieces; fail)+

lemma scan_line: "scan_go st InCode (w_line n s @ k) = scan_go st InCode (s @ 10 # k)"
proof -
  have "neutral (replicate n 9)" by (rule scan_name(2)) (auto simp: plain_name_def opens_def closes_def)
  then show ?thesis by (simp add: w_line_def neutral_scan)
qed

lemma neutral_concat_map: "\<forall>x \<in> set xs. neutral (f x) \<Longrightarrow> neutral (concat (map f xs))"
  by (rule neutral_concat) auto

lemma neutral_stmt: "texts_stmt clean st \<Longrightarrow> \<forall>w. neutral (fl w) \<Longrightarrow> neutral (emit_stmt fl n st)"
  by (induction fl n st rule: emit_stmt.induct)
    (rule neutralI, simp add: scan_step scan_line neutral_pieces neutral_concat_map neutral_render comma_def; fail)+

section \<open>Items\<close>

text \<open>The constructors of types and the names of enumerations, which also appear in strings, are names; every other text
  is clean, and a raw item and each line of a comment are neutral.\<close>

fun texts_def :: "go_text \<Rightarrow> go_type_def \<Rightarrow> bool" where
  "texts_def name (SealedIface variants) \<longleftrightarrow>
     (\<forall>(ctor, tag, ts) \<in> set variants. plain_name ctor \<and> (\<forall>t \<in> set ts. texts_ty clean t))"
| "texts_def name (IotaEnum variants) \<longleftrightarrow> plain_name name \<and> (\<forall>v \<in> set variants. plain_name v)"
| "texts_def name (StructDef fs) \<longleftrightarrow> (\<forall>(n, t) \<in> set fs. clean n \<and> texts_ty clean t)"
| "texts_def name (RuntimeAlias n) \<longleftrightarrow> neutral n"
| "texts_def name (AliasDef t) \<longleftrightarrow> texts_ty clean t"
| "texts_def name AdtAlias \<longleftrightarrow> True"

definition texts_func :: "go_func_decl \<Rightarrow> bool" where
  "texts_func f \<longleftrightarrow> neutral (gf_name f) \<and> (\<forall>(n, c) \<in> set (gf_type_params f). clean n \<and> texts_ty clean c) \<and>
     (\<forall>p \<in> set (gf_params f). clean (gp_name p) \<and> texts_ty clean (gp_ty p)) \<and> texts_ty clean (gf_ret f) \<and>
     texts_stmts clean (gf_body f) \<and> (case gf_doc f of Some doc \<Rightarrow> \<forall>l \<in> set (text_lines doc). neutral l | None \<Rightarrow> True)"

definition texts_item :: "go_item \<Rightarrow> bool" where
  "texts_item it \<longleftrightarrow> (case it of
     ItemFunc f \<Rightarrow> texts_func f
   | ItemType name def \<Rightarrow> neutral name \<and> texts_def name def
   | ItemVar name ty init \<Rightarrow> neutral name \<and> texts_ty clean ty \<and> (case init of Some e \<Rightarrow> texts_expr clean e | None \<Rightarrow> True)
   | ItemInit stmts \<Rightarrow> texts_stmts clean stmts
   | ItemRaw s \<Rightarrow> neutral s)"

lemmas scan_quoted = neutral_scan[OF neutral_quoted]

lemma neutral_numbered:
  "\<forall>t \<in> set ts. texts_ty clean t \<Longrightarrow>
   neutral (join semi (map (\<lambda>(i, t). codes ''V'' @ codes (show_nat i) @ codes '' '' @ render_ty t) (enumerate 0 ts)))"
  by (intro neutral_joins) (auto simp: in_set_enumerate_eq scan_step neutral_scan neutral_ty neutral_digits intro!: neutralI)

lemma neutral_variant:
  assumes "neutral name" "plain_name ctor" "\<forall>t \<in> set ts. texts_ty clean t"
  shows "neutral (emit_variant name (ctor, tag, ts))"
  using assms neutral_numbered[OF assms(3)]
  by (intro neutralI)
    (simp add: emit_variant_def Let_def scan_step scan_line neutral_scan scan_name neutral_digits scan_quoted del: enumerate_simps)

lemma neutral_fields:
  assumes lower: "\<And>c. 96 \<in> set (lower c) \<Longrightarrow> c = 96" and fs: "\<forall>(n, t) \<in> set fs. clean n \<and> texts_ty clean t"
  shows "neutral (join semi (map (\<lambda>(n, t). let ty = render_ty t in
     n @ codes '' '' @ ty @ codes '' '' @ backtick @ codes ''sky:'' @ quoted_text (sky_field_name lower n @ codes '','' @ ty) @ backtick) fs))"
proof (intro neutral_joins ballI)
  fix f assume f: "f \<in> set fs"
  obtain n t where nt: "f = (n, t)" by (cases f)
  then have t: "neutral (render_ty t)" "96 \<notin> set (render_ty t)" using f fs neutral_ty no_backtick_ty by auto
  have n: "neutral n" "96 \<notin> set n" using f fs nt by (auto simp: clean_def)
  have "96 \<notin> set (sky_field_name lower n)" using n(2) lower by (cases n) (auto simp: sky_field_name_def)
  with t(2) have "96 \<notin> set (codes ''sky:'' @ quoted_text (sky_field_name lower n @ codes '','' @ render_ty t))"
    by (auto simp: quoted_text_def dquote_def scalar_def)
  note raw = scan_raw[OF this]
  show "neutral (case f of (n, t) \<Rightarrow> let ty = render_ty t in
     n @ codes '' '' @ ty @ codes '' '' @ backtick @ codes ''sky:'' @ quoted_text (sky_field_name lower n @ codes '','' @ ty) @ backtick)"
    using t(1) n(1) raw by (intro neutralI) (simp add: nt Let_def scan_step neutral_scan backtick_def)
qed

lemma neutral_type:
  assumes "\<And>c. 96 \<in> set (lower c) \<Longrightarrow> c = 96" and "texts_item (ItemType name def)"
  shows "neutral (emit_type lower name def)"
proof (cases def)
  case (SealedIface variants)
  then have "neutral (concat (map (emit_variant name) variants))"
    using assms(2) by (intro neutral_concat_map) (auto simp: texts_item_def intro: neutral_variant)
  then show ?thesis using assms(2) SealedIface
    by (intro neutralI) (simp add: texts_item_def scan_step scan_line neutral_scan)
next
  case (IotaEnum variants)
  let ?rows = "concat (map (\<lambda>(i, v). w_line 1 (if i = 0 then name @ codes ''_'' @ v @ codes '' '' @ name @ codes '' = iota''
     else name @ codes ''_'' @ v)) (enumerate 0 variants))"
  have names: "plain_name name" "\<forall>v \<in> set variants. plain_name v" using assms(2) IotaEnum by (auto simp: texts_item_def)
  then have "neutral ?rows"
    by (intro neutral_concat_map)
      (auto simp: in_set_enumerate_eq scan_step scan_line neutral_scan scan_name(2) intro!: neutralI simp del: enumerate_simps)
  moreover have "neutral (join comma (map quoted_text variants))"
    using names by (intro neutral_joins) (auto intro: neutral_quoted)
  ultimately show ?thesis using names IotaEnum
    by (intro neutralI) (simp add: scan_step scan_line neutral_scan scan_name(2) scan_quoted del: enumerate_simps)
next
  case (StructDef fs)
  then have "\<forall>(n, t) \<in> set fs. clean n \<and> texts_ty clean t" using assms(2) by (simp add: texts_item_def)
  from neutral_fields[OF assms(1) this] show ?thesis using assms(2) StructDef
    by (intro neutralI) (simp add: texts_item_def scan_step scan_line neutral_scan)
qed (use assms(2) in \<open>simp_all add: texts_item_def scan_step scan_line neutral_scan neutral_ty neutral_def[of "w_line _ _"]\<close>)

lemma neutral_func:
  assumes "\<forall>w. neutral (fl w)" and "texts_func f"
  shows "neutral (emit_func fl f)"
proof -
  have "neutral (case gf_doc f of Some doc \<Rightarrow> concat (map (\<lambda>l. w_line 0 (codes ''// '' @ l)) (text_lines doc)) | None \<Rightarrow> [])"
    using assms(2) by (auto simp: texts_func_def neutral_empty scan_step scan_line neutral_scan split: option.splits
      intro!: neutral_concat_map neutralI[of "w_line _ _"])
  moreover have "neutral (join comma (map (\<lambda>(n, c). n @ codes '' '' @ render_ty c) (gf_type_params f)))"
    using assms(2) by (intro neutral_joins)
      (auto simp: texts_func_def scan_step neutral_scan neutral_ty clean_neutral intro!: neutralI)
  moreover have "neutral (concat (map (emit_stmt fl 1) (gf_body f)))"
    using assms by (intro neutral_concat_map) (auto simp: texts_func_def intro: neutral_stmt)
  ultimately show ?thesis using assms(2)
    by (intro neutralI) (simp add: emit_func_def texts_func_def scan_step scan_line neutral_pieces)
qed

lemma neutral_item:
  assumes "\<forall>w. neutral (fl w)" and "\<And>c. 96 \<in> set (lower c) \<Longrightarrow> c = 96" and "texts_item it"
  shows "neutral (emit_item fl lower it)"
proof (cases it)
  case (ItemFunc f)
  then show ?thesis using assms neutral_func by (simp add: emit_item_def texts_item_def)
next
  case (ItemType name def)
  then show ?thesis using assms neutral_type by (simp add: emit_item_def)
next
  case (ItemVar name ty init)
  then show ?thesis using assms(1,3)
    by (intro neutralI) (auto simp: emit_item_def texts_item_def scan_step scan_line neutral_pieces neutral_render split: option.splits)
next
  case (ItemInit stmts)
  then have "neutral (concat (map (emit_stmt fl 1) stmts))"
    using assms by (intro neutral_concat_map) (auto simp: texts_item_def intro: neutral_stmt)
  then show ?thesis using ItemInit by (intro neutralI) (simp add: emit_item_def scan_step scan_line neutral_scan)
next
  case (ItemRaw s)
  then show ?thesis using assms(3) by (intro neutralI) (simp add: emit_item_def texts_item_def scan_step scan_line neutral_scan)
qed

section \<open>Properties\<close>

lemma gob_type_origin:
  "n \<in> set (gob_types items) \<longleftrightarrow>
   (\<exists>name def. ItemType name def \<in> set items \<and> chr CHR ''['' \<notin> set name \<and>
     ((\<exists>fs. def = StructDef fs) \<and> n = name \<or>
      (\<exists>variants ctor tag fs. def = SealedIface variants \<and> (ctor, tag, fs) \<in> set variants \<and> n = name @ codes ''_'' @ ctor @ codes ''_V'')))"
proof -
  have item: "n \<in> set (item_gob_types it) \<longleftrightarrow> (\<exists>name def. it = ItemType name def \<and> chr CHR ''['' \<notin> set name \<and>
     ((\<exists>fs. def = StructDef fs) \<and> n = name \<or>
      (\<exists>variants ctor tag fs. def = SealedIface variants \<and> (ctor, tag, fs) \<in> set variants \<and> n = name @ codes ''_'' @ ctor @ codes ''_V'')))" for it
  proof (cases it)
    case (ItemType name def)
    then show ?thesis by (cases def) (auto simp: item_gob_types_def simp del: codes_simps intro!: rev_image_eqI)
  qed (simp_all add: item_gob_types_def)
  have "n \<in> set (gob_types items) \<longleftrightarrow> (\<exists>it \<in> set items. n \<in> set (item_gob_types it))" by (simp add: gob_types_def)
  then show ?thesis unfolding item by metis
qed

lemma strict_remdups: "sorted xs \<Longrightarrow> sorted_wrt (<) (remdups_adj xs)" for xs :: "'a::linorder list"
  by (induction xs rule: remdups_adj.induct) (fastforce simp: less_le)+

text \<open>C40: The registration that lets a restarted process read its stored sessions names every type that needs it: the
  list is strictly sorted, so it has no duplicates and depends only on which items the program has, not on their order, and it
  holds exactly the record structures without type parameters and the structure of each variant of a union without type
  parameters.\<close>

theorem registration_exact:
  "sorted_wrt (<) (gob_types items) \<and>
   (n \<in> set (gob_types items) \<longleftrightarrow>
     (\<exists>name def. ItemType name def \<in> set items \<and> chr CHR ''['' \<notin> set name \<and>
       ((\<exists>fs. def = StructDef fs) \<and> n = name \<or>
        (\<exists>variants ctor tag fs. def = SealedIface variants \<and> (ctor, tag, fs) \<in> set variants \<and> n = name @ codes ''_'' @ ctor @ codes ''_V''))))"
  by (intro conjI gob_type_origin) (simp add: gob_types_def strict_remdups)

lemma registration_order: "set items = set items' \<Longrightarrow> gob_types items = gob_types items'"
proof -
  assume "set items = set items'"
  then have "set (gob_types items) = set (gob_types items')" by (simp add: gob_types_def)
  moreover have "sorted_wrt (<) (gob_types items)" for items by (simp add: gob_types_def strict_remdups)
  ultimately show ?thesis using strict_sorted_equal by metis
qed

lemma neutral_gob: "\<forall>it \<in> set items. texts_item it \<Longrightarrow> n \<in> set (gob_types items) \<Longrightarrow> neutral n"
proof -
  assume items: "\<forall>it \<in> set items. texts_item it" and n: "n \<in> set (gob_types items)"
  from n obtain name def where it: "ItemType name def \<in> set items"
    and shape: "(\<exists>fs. def = StructDef fs) \<and> n = name \<or>
      (\<exists>variants ctor tag fs. def = SealedIface variants \<and> (ctor, tag, fs) \<in> set variants \<and> n = name @ codes ''_'' @ ctor @ codes ''_V'')"
    unfolding gob_type_origin by blast
  from items it have ok: "neutral name" "texts_def name def" by (auto simp: texts_item_def)
  from shape show "neutral n"
  proof
    assume "\<exists>variants ctor tag fs. def = SealedIface variants \<and> (ctor, tag, fs) \<in> set variants \<and> n = name @ codes ''_'' @ ctor @ codes ''_V''"
    then obtain variants ctor tag fs where v: "def = SealedIface variants" "(ctor, tag, fs) \<in> set variants"
      "n = name @ codes ''_'' @ ctor @ codes ''_V''" by blast
    then have "plain_name ctor" using ok(2) by auto
    then show ?thesis using ok(1) v(3) by (intro neutralI) (simp add: scan_step neutral_scan scan_name(2))
  qed (use ok in simp)
qed

text \<open>C39: The Go that is emitted has matching brackets and closes every string and raw literal, for every program whose names,
  types and raw texts do so by themselves. Whatever the Sky program's string literals contain, their emitted form ends at its own
  closing quote. Field tags hold field names and rendered types without a backtick, and indentation, comments and the generated
  conversions of functions and records are part of the claim.\<close>

theorem emitted_balanced:
  assumes "\<forall>w. neutral (fl w)" and "\<forall>c. 96 \<in> set (lower c) \<longrightarrow> c = 96" and "\<forall>it \<in> set items. texts_item it"
  shows "scan_go [] InCode (emit_program fl lower items console) = Some ([], InCode)"
proof -
  have "neutral (concat (map (\<lambda>it. emit_item fl lower it @ [10]) items))"
    using assms by (intro neutral_concat_map) (auto simp: neutral_scan neutral_item scan_step intro!: neutralI)
  moreover have "neutral (join comma (map (\<lambda>n. n @ codes ''{}'') (gob_types items)))"
    using neutral_gob[OF assms(3)] by (intro neutral_joins) (auto simp: neutral_scan scan_step intro!: neutralI)
  ultimately have "neutral (emit_body fl lower items)"
    by (intro neutralI) (simp add: emit_body_def Let_def scan_step scan_line neutral_scan)
  moreover have "neutral (quoted_text (codes ''sky-app/rt''))" "neutral (quoted_text (codes ''sky-app/rt/console_app''))"
      "neutral (quoted_text (codes ''sky-app/skyffi''))"
    by (rule neutral_quoted, simp add: plain_name_def scan_step)+
  ultimately have "neutral (emit_program fl lower items console)"
    by (intro neutralI) (simp add: emit_program_def Let_def scan_step scan_line neutral_scan)
  then show ?thesis by (rule neutral_scan_end)
qed

text \<open>A program whose string literal is full of brackets and quotes.\<close>

definition sample_items :: "go_item list" where
  "sample_items =
     [ItemType (codes ''Main_Msg'') (SealedIface [(codes ''Go'', 0, [GoBare PrimInt])]),
      ItemFunc \<lparr>gf_name = codes ''main'', gf_type_params = [], gf_params = [], gf_ret = GoUnit, gf_body =
        [GoExprStmt (GoExpr (GoCall (GoExpr (GoIdent (codes ''rt.Log_println'')) GoAny)
          [GoExpr (GoStrLit (codes [CHR 0x22, CHR ''('', CHR 0x5C, CHR 0x0A, CHR ''}''])) (GoBare PrimStr)]) GoAny)], gf_doc = None\<rparr>]"

theorem emitted_balanced_witness:
  "scan_go [] InCode (emit_program (\<lambda>w. []) (\<lambda>c. [c]) sample_items True) = Some ([], InCode)"
proof (rule emitted_balanced)
  have "neutral (codes ''rt.Log_println'')" "plain_name (codes ''Go'')" "neutral (codes ''Main_Msg'')" "neutral (codes ''main'')"
    by (simp_all add: neutral_def plain_name_def scan_step)
  then show "\<forall>it \<in> set sample_items. texts_item it"
    by (auto simp: sample_items_def texts_item_def texts_func_def clean_def scalar_def)
qed (simp_all add: neutral_empty)

end
