(* ===== verification/Xml_Mini.thy ===== *)
theory Xml_Mini
  imports Rust_Text
begin

text \<open>
  The strict XML reader and writer of the native shells, \<open>sky/src/xmlmini.rs\<close>. The reader's position is
  the rest of the source that is not read yet; \<open>src\<close> is only needed for the line in a message.
  \<open>content\<close> and \<open>element\<close> call each other: \<open>content\<close> carries fuel, one unit for each node, comment or
  text it passes, and \<open>None\<close> is the fuel's end, which \<open>parse_nodes\<close> never meets. The parameter \<open>alnum\<close> is
  \<open>char::is_alphanumeric\<close>.
\<close>

section \<open>Trees\<close>

datatype 'e node_of = Element 'e | Text "nat list"

datatype element = Elem (el_name: "nat list") (el_attrs: "(nat list \<times> nat list) list") (el_children: "element node_of list")

type_synonym node = "element node_of"

definition el_attr :: "element \<Rightarrow> nat list \<Rightarrow> nat list option" where
  "el_attr e name = map_of (el_attrs e) name"

fun elements_of :: "'e node_of list \<Rightarrow> 'e list" where
  "elements_of [] = []"
| "elements_of (Element e # ns) = e # elements_of ns"
| "elements_of (Text t # ns) = elements_of ns"

definition elements :: "element \<Rightarrow> element list" where
  "elements e = elements_of (el_children e)"

fun texts_of :: "'e node_of list \<Rightarrow> nat list" where
  "texts_of [] = []"
| "texts_of (Element e # ns) = texts_of ns"
| "texts_of (Text t # ns) = t @ texts_of ns"

definition el_text :: "element \<Rightarrow> nat list" where
  "el_text e = texts_of (el_children e)"

section \<open>Writing\<close>

definition escape_char :: "nat \<Rightarrow> nat list" where
  "escape_char c =
     (if c = chr CHR ''&'' then codes ''&amp;''
      else if c = chr CHR ''<'' then codes ''&lt;''
      else if c = chr CHR ''>'' then codes ''&gt;''
      else if c = chr CHR 0x22 then codes ''&quot;''
      else if c = chr CHR 0x27 then codes ''&apos;''
      else [c])"

definition escape :: "nat list \<Rightarrow> nat list" where
  "escape s = concat (map escape_char s)"

definition render_attr :: "nat list \<times> nat list \<Rightarrow> nat list" where
  "render_attr a = codes '' '' @ fst a @ codes [CHR ''='', CHR 0x22] @ escape (snd a) @ codes [CHR 0x22]"

fun render_node :: "nat list node_of \<Rightarrow> nat list" where
  "render_node (Element r) = r"
| "render_node (Text t) = escape t"

primrec render_element :: "element \<Rightarrow> nat list" where
  "render_element (Elem name attrs children) =
     codes ''<'' @ name @ concat (map render_attr attrs) @
     (if children = [] then codes '' />''
      else codes ''>'' @ concat (map render_node (map (map_node_of render_element) children)) @
        codes ''</'' @ name @ codes ''>'')"

section \<open>Reading\<close>

text \<open>\<open>Parser::err\<close>, with the rest at which the error is raised.\<close>

definition xml_err :: "nat list \<Rightarrow> nat list \<Rightarrow> nat list \<Rightarrow> nat list" where
  "xml_err src rest what =
     (let line = count_list (take (length src - length rest) src) (chr newline) + 1 in
      codes ''line '' @ codes (show_nat line) @ codes '': '' @ what)"

definition quoted :: "string \<Rightarrow> nat list \<Rightarrow> string \<Rightarrow> nat list" where
  "quoted a s b = codes a @ s @ codes b"

definition entity :: "nat list \<Rightarrow> nat list + nat" where
  "entity ent =
     (if ent = codes ''amp'' then Inr (chr CHR ''&'')
      else if ent = codes ''lt'' then Inr (chr CHR ''<'')
      else if ent = codes ''gt'' then Inr (chr CHR ''>'')
      else if ent = codes ''quot'' then Inr (chr CHR 0x22)
      else if ent = codes ''apos'' then Inr (chr CHR 0x27)
      else if prefix (codes ''#x'') ent \<or> prefix (codes ''#X'') ent then
        (case Option.bind (from_str_radix (2 ^ 32) 16 (drop 2 ent)) char_from_u32 of
           Some c \<Rightarrow> Inr c | None \<Rightarrow> Inl (quoted ''`&'' ent '';` is not a character''))
      else if prefix (codes ''#'') ent then
        (case Option.bind (from_str_radix (2 ^ 32) 10 (drop 1 ent)) char_from_u32 of
           Some c \<Rightarrow> Inr c | None \<Rightarrow> Inl (quoted ''`&'' ent '';` is not a character''))
      else Inl (quoted ''the entity `&'' ent '';` is not one XML defines''))"

text \<open>The loop of \<open>decode_entities\<close>; a text without \<open>&\<close> is returned as it is.\<close>

function decode_entities :: "nat list \<Rightarrow> nat list + nat list" where
  "decode_entities s = (case find_where (\<lambda>c. c = chr CHR ''&'') s of
     None \<Rightarrow> Inr s
   | Some i \<Rightarrow>
       (let after = drop (i + 1) s in
        case find_where (\<lambda>c. c = chr CHR '';'') after of
          None \<Rightarrow> Inl (codes ''a bare `&` (write `&amp;`)'')
        | Some semi \<Rightarrow> try_text (entity (take semi after)) (\<lambda>c.
            try_text (decode_entities (drop (semi + 1) after)) (\<lambda>out. Inr (take i s @ c # out)))))"
  by auto

termination
  by (relation "measure length") (auto dest!: find_where_Some)

declare decode_entities.simps [simp del]

definition is_name_char :: "(nat \<Rightarrow> bool) \<Rightarrow> nat \<Rightarrow> bool" where
  "is_name_char alnum c \<longleftrightarrow> alnum c \<or> c \<in> set (codes '':_-.'')"

definition name_ok :: "(nat \<Rightarrow> bool) \<Rightarrow> nat list \<Rightarrow> bool" where
  "name_ok alnum s \<longleftrightarrow> s \<noteq> [] \<and> list_all (is_name_char alnum) s"

text \<open>One attribute of \<open>element\<close>, from its name on: key, value and the rest after the closing quote. The
  messages name the element.\<close>

definition read_attr :: "(nat \<Rightarrow> bool) \<Rightarrow> nat list \<Rightarrow> nat list \<Rightarrow> (nat list \<times> nat list) list \<Rightarrow> nat list \<Rightarrow>
    nat list + (nat list \<times> nat list) \<times> nat list" where
  "read_attr alnum src name attrs rest =
     (let klen = or_end (find_where (\<lambda>c. c = chr CHR ''='' \<or> is_white c) rest) rest;
          key = take klen rest in
      if \<not> name_ok alnum key then Inl (xml_err src rest (quoted ''a malformed attribute in `<'' name ''>`''))
      else
        (let rest = trim_start (drop klen rest);
             named = codes ''attribute `'' @ key @ codes ''` in `<'' @ name in
         if \<not> prefix (codes ''='') rest then Inl (xml_err src rest (named @ codes ''>` has no value''))
         else
           (let rest = trim_start (drop 1 rest) in
            case rest of
              q # rest' \<Rightarrow>
                (if q \<noteq> chr CHR 0x22 \<and> q \<noteq> chr CHR 0x27 then Inl (xml_err src rest (named @ codes ''>` is not quoted''))
                 else (case find_where (\<lambda>c. c = q) rest' of
                     None \<Rightarrow> Inl (xml_err src rest' (quoted ''attribute `'' key ''` is never closed''))
                   | Some end \<Rightarrow>
                       (case decode_entities (take end rest') of
                          Inl e \<Rightarrow> Inl (xml_err src rest' e)
                        | Inr value \<Rightarrow>
                            (let rest = drop (end + 1) rest' in
                             if key \<in> fst ` set attrs then
                               Inl (xml_err src rest (codes ''attribute `'' @ key @ codes ''` appears twice in `<'' @ name @ codes ''>`''))
                             else Inr ((key, value), rest)))))
            | [] \<Rightarrow> Inl (xml_err src rest (named @ codes ''>` is not quoted'')))))"

lemma read_attr_shorter: "read_attr alnum src name attrs rest = Inr (a, rest') \<Longrightarrow> length rest' < length rest"
proof -
  have t: "length (trim_start s) \<le> length s" for s by (simp add: trim_start_def length_dropWhile_le)
  have d: "length (drop n s) \<le> length s" for n and s :: "nat list" by simp
  assume "read_attr alnum src name attrs rest = Inr (a, rest')"
  then obtain k q r i where r: "trim_start (drop 1 (trim_start (drop k rest))) = q # r" "rest' = drop (i + 1) r"
    by (auto simp: read_attr_def Let_def split: if_splits list.splits option.splits sum.splits)
  have "length (q # r) \<le> length rest" unfolding r(1)[symmetric] by (meson t d order_trans)
  with r(2) show ?thesis by simp
qed

text \<open>The loop of \<open>element\<close> after the name: the attributes, whether the element closed itself, and the rest.\<close>

function read_attrs :: "(nat \<Rightarrow> bool) \<Rightarrow> nat list \<Rightarrow> nat list \<Rightarrow> (nat list \<times> nat list) list \<Rightarrow> nat list \<Rightarrow>
    nat list + (nat list \<times> nat list) list \<times> bool \<times> nat list" where
  "read_attrs alnum src name attrs rest0 =
     (let rest = trim_start rest0 in
      if prefix (codes ''/>'') rest then Inr (attrs, True, drop 2 rest)
      else if prefix (codes ''>'') rest then Inr (attrs, False, drop 1 rest)
      else if rest = [] then Inl (xml_err src rest (quoted ''`<'' name ''>` is never closed''))
      else (case read_attr alnum src name attrs rest of
          Inl e \<Rightarrow> Inl e
        | Inr (a, rest') \<Rightarrow> read_attrs alnum src name (attrs @ [a]) rest'))"
  by auto

termination
proof (relation "measure (\<lambda>(alnum, src, name, attrs, rest). length rest)")
  fix alnum :: "nat \<Rightarrow> bool" and src name :: "nat list" and attrs and rest0 x b a rest'
  assume x: "x = trim_start rest0" "read_attr alnum src name attrs x = Inr b" "(a, rest') = b"
  have "length x \<le> length rest0" by (simp add: x trim_start_def length_dropWhile_le)
  with read_attr_shorter[of alnum src name attrs x a rest'] x(2,3)
  show "((alnum, src, name, attrs @ [a], rest'), alnum, src, name, attrs, rest0)
      \<in> measure (\<lambda>(alnum, src, name, attrs, rest). length rest)" by simp
qed simp

declare read_attrs.simps [simp del]

text \<open>\<open>Parser::element\<close>, at the opening \<open><\<close>; \<open>rd\<close> is \<open>content\<close> with the name it must close.\<close>

definition read_element :: "(nat \<Rightarrow> bool) \<Rightarrow> (nat list \<Rightarrow> nat list \<Rightarrow> (nat list + node list \<times> nat list) option) \<Rightarrow>
    nat list \<Rightarrow> nat list \<Rightarrow> (nat list + element \<times> nat list) option" where
  "read_element alnum rd src rest =
     (let rest = drop 1 rest;
          n = or_end (find_where (\<lambda>c. is_white c \<or> c = chr CHR ''>'' \<or> c = chr CHR ''/'') rest) rest;
          name = take n rest in
      if \<not> name_ok alnum name then Some (Inl (xml_err src rest (quoted ''`<'' name ''` is not an element name'')))
      else (case read_attrs alnum src name [] (drop n rest) of
          Inl e \<Rightarrow> Some (Inl e)
        | Inr (attrs, True, rest) \<Rightarrow> Some (Inr (Elem name attrs [], rest))
        | Inr (attrs, False, rest) \<Rightarrow> (case rd name rest of
            None \<Rightarrow> None
          | Some (Inl e) \<Rightarrow> Some (Inl e)
          | Some (Inr (children, rest)) \<Rightarrow> Some (Inr (Elem name attrs children, rest)))))"

definition flush :: "node list \<Rightarrow> nat list \<Rightarrow> node list" where
  "flush nodes text = (if text = [] then nodes else nodes @ [Text text])"

text \<open>\<open>Parser::content\<close>.\<close>

primrec content :: "nat \<Rightarrow> (nat \<Rightarrow> bool) \<Rightarrow> nat list \<Rightarrow> nat list option \<Rightarrow> nat list \<Rightarrow> node list \<Rightarrow> nat list \<Rightarrow>
    (nat list + node list \<times> nat list) option" where
  "content 0 alnum src close rest nodes text = None"
| "content (Suc fuel) alnum src close rest nodes text =
     (if rest = [] then
        (case close of
           Some name \<Rightarrow> Some (Inl (xml_err src rest (quoted ''`<'' name ''>` is never closed'')))
         | None \<Rightarrow> Some (Inr (flush nodes text, rest)))
      else if prefix (codes ''<!--'') rest then
        (case find_text (codes ''-->'') rest of
           Some end \<Rightarrow> content fuel alnum src close (drop (end + 3) rest) nodes text
         | None \<Rightarrow> Some (Inl (xml_err src rest (codes ''an unterminated comment''))))
      else if prefix (codes ''<?'') rest then
        (case find_text (codes ''?>'') rest of
           Some end \<Rightarrow> content fuel alnum src close (drop (end + 2) rest) nodes text
         | None \<Rightarrow> Some (Inl (xml_err src rest (quoted ''an unterminated `<?'' [0x2026] ''?>`''))))
      else if prefix (codes ''<!DOCTYPE'') rest then
        (case find_where (\<lambda>c. c = chr CHR ''>'') rest of
           Some end \<Rightarrow> content fuel alnum src close (drop (end + 1) rest) nodes text
         | None \<Rightarrow> Some (Inl (xml_err src rest (codes ''an unterminated DOCTYPE''))))
      else if prefix (codes ''<![CDATA['') rest then
        Some (Inl (xml_err src rest (codes ''a CDATA section, which these files do not use'')))
      else if prefix (codes ''</'') rest then
        (case find_where (\<lambda>c. c = chr CHR ''>'') rest of
           None \<Rightarrow> Some (Inl (xml_err src rest (codes ''an unterminated close tag'')))
         | Some end \<Rightarrow>
             (let name = trim (drop 2 (take end rest)) in
              case close of
                Some want \<Rightarrow>
                  (if want = name then Some (Inr (flush nodes text, drop (end + 1) rest))
                   else Some (Inl (xml_err src rest (codes ''`</'' @ name @ codes ''>` closes `<'' @ want @ codes ''>`''))))
              | None \<Rightarrow> Some (Inl (xml_err src rest (quoted ''`</'' name ''>` has no open tag'')))))
      else if prefix (codes ''<'') rest then
        (case read_element alnum (\<lambda>name rest. content fuel alnum src (Some name) rest [] []) src rest of
           None \<Rightarrow> None
         | Some (Inl e) \<Rightarrow> Some (Inl e)
         | Some (Inr (el, rest)) \<Rightarrow> content fuel alnum src close rest (flush nodes text @ [Element el]) [])
      else
        (let end = or_end (find_where (\<lambda>c. c = chr CHR ''<'') rest) rest in
         case decode_entities (take end rest) of
           Inl e \<Rightarrow> Some (Inl (xml_err src rest e))
         | Inr chunk \<Rightarrow> content fuel alnum src close (drop end rest) nodes (text @ chunk)))"

definition blank :: "node \<Rightarrow> bool" where
  "blank n \<longleftrightarrow> (case n of Text t \<Rightarrow> trim t = [] | Element e \<Rightarrow> False)"

definition parse_nodes :: "(nat \<Rightarrow> bool) \<Rightarrow> nat list \<Rightarrow> (nat list + node list) option" where
  "parse_nodes alnum src = (case content (Suc (length src)) alnum src None src [] [] of
     None \<Rightarrow> None
   | Some (Inl e) \<Rightarrow> Some (Inl e)
   | Some (Inr (nodes, rest)) \<Rightarrow> Some (Inr (filter (\<lambda>n. \<not> blank n) nodes)))"

section \<open>Reading ends\<close>

lemma trim_start_le: "length (trim_start s) \<le> length s"
  by (simp add: trim_start_def length_dropWhile_le)

lemma read_attrs_shorter:
  "read_attrs alnum src name attrs rest = Inr (as, closed, rest') \<Longrightarrow> length rest' < length rest"
proof (induction alnum src name attrs rest rule: read_attrs.induct)
  case (1 alnum src name attrs rest0)
  show ?case
  proof (cases "prefix (codes ''/>'') (trim_start rest0) \<or> prefix (codes ''>'') (trim_start rest0)")
    case True
    then have "trim_start rest0 \<noteq> []" by (cases "trim_start rest0") auto
    then obtain c cs where c: "trim_start rest0 = c # cs" by (cases "trim_start rest0") auto
    have "rest' = drop 2 (c # cs) \<or> rest' = cs"
      using 1(2) True c by (subst (asm) read_attrs.simps) (auto simp: Let_def split: if_splits)
    with trim_start_le[of rest0] c show ?thesis by auto
  next
    case False
    with 1(2) obtain a r where r: "read_attr alnum src name attrs (trim_start rest0) = Inr (a, r)"
      "trim_start rest0 \<noteq> []" "read_attrs alnum src name (attrs @ [a]) r = Inr (as, closed, rest')"
      by (subst (asm) read_attrs.simps) (auto simp: Let_def split: if_splits sum.splits)
    have "length rest' < length r" by (rule 1(1)[OF refl _ _ r(2,1) refl r(3)]) (use False in auto)
    with read_attr_shorter[OF r(1)] trim_start_le[of rest0] show ?thesis by simp
  qed
qed

lemma read_elementE:
  assumes "rest \<noteq> []"
  obtains y where "\<And>rd. read_element alnum rd src rest = Some y" "\<And>el r. y = Inr (el, r) \<Longrightarrow> length r < length rest"
  | name attrs rest' where "length rest' < length rest"
      "\<And>rd. read_element alnum rd src rest = (case rd name rest' of
            None \<Rightarrow> None
          | Some (Inl e) \<Rightarrow> Some (Inl e)
          | Some (Inr (children, rest)) \<Rightarrow> Some (Inr (Elem name attrs children, rest)))"
proof -
  let ?r = "drop 1 rest"
  let ?n = "or_end (find_where (\<lambda>c. is_white c \<or> c = chr CHR ''>'' \<or> c = chr CHR ''/'') ?r) ?r"
  have len: "length (drop ?n ?r) < length rest" using assms by (cases rest) auto
  show thesis
  proof (cases "name_ok alnum (take ?n ?r)")
    case False
    then show thesis by (intro that(1)) (auto simp: read_element_def Let_def)
  next
    case ok: True
    show thesis
    proof (cases "read_attrs alnum src (take ?n ?r) [] (drop ?n ?r)")
      case (Inl e)
      then show thesis using that(1)[of "Inl e"] ok by (simp add: read_element_def Let_def)
    next
      case (Inr b)
      obtain as closed r where b: "b = (as, closed, r)" by (cases b) auto
      from read_attrs_shorter[OF Inr[unfolded b]] len have r: "length r < length rest" by simp
      show thesis
      proof (cases closed)
        case True
        then show thesis using that(1)[of "Inr (Elem (take ?n ?r) as [], r)"] r Inr b ok
          by (simp add: read_element_def Let_def)
      next
        case False
        show thesis
          by (rule that(2)[OF r, of "take ?n ?r" as])
            (use Inr b False ok in \<open>simp add: read_element_def Let_def del: One_nat_def\<close>)
      qed
    qed
  qed
qed

text \<open>One step of the reader: it stops, goes on with a shorter rest, or reads an element.\<close>

lemma content_step:
  obtains x where "\<And>fuel. content (Suc fuel) alnum src close rest nodes text = Some x" "\<And>ns r. x = Inr (ns, r) \<Longrightarrow> length r \<le> length rest"
  | rest' nodes' text' where "length rest' < length rest"
      "\<And>fuel. content (Suc fuel) alnum src close rest nodes text = content fuel alnum src close rest' nodes' text'"
  | "rest \<noteq> []" "\<And>fuel. content (Suc fuel) alnum src close rest nodes text =
        (case read_element alnum (\<lambda>name rest. content fuel alnum src (Some name) rest [] []) src rest of
           None \<Rightarrow> None
         | Some (Inl e) \<Rightarrow> Some (Inl e)
         | Some (Inr (el, rest)) \<Rightarrow> content fuel alnum src close rest (flush nodes text @ [Element el]) [])"
proof -
  consider "rest = []" | "rest \<noteq> []" "prefix (codes ''<!--'') rest"
    | "rest \<noteq> []" "\<not> prefix (codes ''<!--'') rest" "prefix (codes ''<?'') rest"
    | "rest \<noteq> []" "\<not> prefix (codes ''<!--'') rest" "\<not> prefix (codes ''<?'') rest" "prefix (codes ''<!DOCTYPE'') rest"
    | "rest \<noteq> []" "\<not> prefix (codes ''<!--'') rest" "\<not> prefix (codes ''<?'') rest" "\<not> prefix (codes ''<!DOCTYPE'') rest"
        "prefix (codes ''<![CDATA['') rest"
    | "rest \<noteq> []" "\<not> prefix (codes ''<!--'') rest" "\<not> prefix (codes ''<?'') rest" "\<not> prefix (codes ''<!DOCTYPE'') rest"
        "\<not> prefix (codes ''<![CDATA['') rest" "prefix (codes ''</'') rest"
    | "rest \<noteq> []" "\<not> prefix (codes ''<!--'') rest" "\<not> prefix (codes ''<?'') rest" "\<not> prefix (codes ''<!DOCTYPE'') rest"
        "\<not> prefix (codes ''<![CDATA['') rest" "\<not> prefix (codes ''</'') rest" "prefix (codes ''<'') rest"
    | "rest \<noteq> []" "\<not> prefix (codes ''<!--'') rest" "\<not> prefix (codes ''<?'') rest" "\<not> prefix (codes ''<!DOCTYPE'') rest"
        "\<not> prefix (codes ''<![CDATA['') rest" "\<not> prefix (codes ''</'') rest" "\<not> prefix (codes ''<'') rest"
    by blast
  then show thesis
  proof cases
    case 1
    then show thesis using that(1) by (cases close) auto
  next
    case 2
    then show thesis using that(1) that(2)[of "drop (the (find_text (codes ''-->'') rest) + 3) rest" nodes "text"]
      by (cases "find_text (codes ''-->'') rest") (auto simp del: codes_simps)
  next
    case 3
    then show thesis using that(1) that(2)[of "drop (the (find_text (codes ''?>'') rest) + 2) rest" nodes "text"]
      by (cases "find_text (codes ''?>'') rest") (auto simp del: codes_simps)
  next
    case 4
    then show thesis using that(1) that(2)[of "drop (the (find_where (\<lambda>c. c = chr CHR ''>'') rest) + 1) rest" nodes "text"]
      by (cases "find_where (\<lambda>c. c = chr CHR ''>'') rest") (auto simp del: codes_simps)
  next
    case 5
    then show thesis using that(1) by (auto simp del: codes_simps)
  next
    case 6
    then show thesis using that(1)
      by (cases "find_where (\<lambda>c. c = chr CHR ''>'') rest"; cases close;
          cases "close = Some (trim (drop 2 (take (the (find_where (\<lambda>c. c = chr CHR ''>'') rest)) rest)))")
        (auto simp: Let_def simp del: codes_simps)
  next
    case 7
    then show thesis using that(3) by (auto simp del: codes_simps)
  next
    case 8
    let ?n = "or_end (find_where (\<lambda>c. c = chr CHR ''<'') rest) rest"
    have "0 < ?n" using 8(1,7) by (cases rest) (auto simp: or_end_def split: option.splits)
    moreover have "0 < length rest" using 8(1) by simp
    ultimately have "length (drop ?n rest) < length rest" by simp
    with 8 show thesis using that(1) that(2)[of "drop ?n rest" nodes "text @ projr (decode_entities (take ?n rest))"]
      by (cases "decode_entities (take ?n rest)") (auto simp: Let_def simp del: codes_simps)
  qed
qed

lemma content_shorter:
  "content fuel alnum src close rest nodes text = Some (Inr (ns, r)) \<Longrightarrow> length r \<le> length rest"
proof (induction fuel arbitrary: close rest nodes "text" ns r)
  case (Suc fuel)
  show ?case
  proof (rule content_step[of alnum src close rest nodes "text"])
    fix rest' nodes' text'
    assume "length rest' < length rest" "\<And>fuel. content (Suc fuel) alnum src close rest nodes text = content fuel alnum src close rest' nodes' text'"
    with Suc show ?thesis by (metis less_imp_le order_trans)
  next
    assume "rest \<noteq> []" and step: "\<And>fuel. content (Suc fuel) alnum src close rest nodes text =
        (case read_element alnum (\<lambda>name rest. content fuel alnum src (Some name) rest [] []) src rest of
           None \<Rightarrow> None
         | Some (Inl e) \<Rightarrow> Some (Inl e)
         | Some (Inr (el, rest)) \<Rightarrow> content fuel alnum src close rest (flush nodes text @ [Element el]) [])"
    let ?rd = "\<lambda>name rest. content fuel alnum src (Some name) rest [] []"
    from Suc.prems obtain el rest' where el: "read_element alnum ?rd src rest = Some (Inr (el, rest'))"
      "content fuel alnum src close rest' (flush nodes text @ [Element el]) [] = Some (Inr (ns, r))"
      unfolding step by (auto split: option.splits sum.splits)
    have "length rest' \<le> length rest"
    proof (rule read_elementE[OF \<open>rest \<noteq> []\<close>, of alnum src])
      fix y
      assume "\<And>rd. read_element alnum rd src rest = Some y" "\<And>el r. y = Inr (el, r) \<Longrightarrow> length r < length rest"
      then show ?thesis using el(1) by force
    next
      fix name attrs and rest1 :: "nat list"
      assume "length rest1 < length rest" "\<And>rd. read_element alnum rd src rest = (case rd name rest1 of None \<Rightarrow> None
          | Some (Inl e) \<Rightarrow> Some (Inl e) | Some (Inr (children, rest)) \<Rightarrow> Some (Inr (Elem name attrs children, rest)))"
      with el(1) Suc.IH[of "Some name" rest1 "[]" "[]"] show ?thesis by (fastforce split: option.splits sum.splits)
    qed
    with Suc.IH[OF el(2)] show ?thesis by simp
  qed (use Suc.prems in simp)
qed simp

text \<open>Enough fuel: one unit more than there are characters left. Then more fuel changes nothing.\<close>

lemma content_enough:
  "length rest < m \<Longrightarrow> content (Suc (length rest)) alnum src close rest nodes text \<noteq> None \<and>
    content m alnum src close rest nodes text = content (Suc (length rest)) alnum src close rest nodes text"
proof (induction "length rest" arbitrary: m close rest nodes "text" rule: less_induct)
  case less
  obtain k where k: "m = Suc k" "length rest \<le> k" using less.prems by (cases m) auto
  show ?case
  proof (rule content_step[of alnum src close rest nodes "text"])
    fix rest' nodes' text'
    assume l: "length rest' < length rest"
      and eq: "\<And>fuel. content (Suc fuel) alnum src close rest nodes text = content fuel alnum src close rest' nodes' text'"
    show ?thesis unfolding eq k
      using less.hyps[OF l, of "length rest"] less.hyps[OF l, of k] l k by auto
  next
    assume ne: "rest \<noteq> []" and step: "\<And>fuel. content (Suc fuel) alnum src close rest nodes text =
        (case read_element alnum (\<lambda>name rest. content fuel alnum src (Some name) rest [] []) src rest of
           None \<Rightarrow> None
         | Some (Inl e) \<Rightarrow> Some (Inl e)
         | Some (Inr (el, rest)) \<Rightarrow> content fuel alnum src close rest (flush nodes text @ [Element el]) [])"
    let ?rd = "\<lambda>fuel name rest. content fuel alnum src (Some name) rest [] []"
    have "read_element alnum (?rd (length rest)) src rest \<noteq> None \<and>
        read_element alnum (?rd k) src rest = read_element alnum (?rd (length rest)) src rest \<and>
        (\<forall>el r. read_element alnum (?rd (length rest)) src rest = Some (Inr (el, r)) \<longrightarrow> length r < length rest)"
    proof (rule read_elementE[OF ne, of alnum src])
      fix y
      assume "\<And>rd. read_element alnum rd src rest = Some y" "\<And>el r. y = Inr (el, r) \<Longrightarrow> length r < length rest"
      then show ?thesis by auto
    next
      fix name attrs and rest1 :: "nat list"
      assume l: "length rest1 < length rest" and eq: "\<And>rd. read_element alnum rd src rest = (case rd name rest1 of None \<Rightarrow> None
          | Some (Inl e) \<Rightarrow> Some (Inl e) | Some (Inr (children, rest)) \<Rightarrow> Some (Inr (Elem name attrs children, rest)))"
      from less.hyps[OF l, of "length rest" "Some name" "[]" "[]"] less.hyps[OF l, of k "Some name" "[]" "[]"] l k
      have same: "?rd (length rest) name rest1 \<noteq> None" "?rd k name rest1 = ?rd (length rest) name rest1" by auto
      then show ?thesis unfolding eq using content_shorter[of "length rest" alnum src "Some name" rest1 "[]" "[]"] l
        by (fastforce split: option.splits sum.splits)
    qed
    then show ?thesis unfolding step k
      using less.hyps[of _ "length rest"] less.hyps[of _ k] k
      by (auto split: option.splits sum.splits)
  qed (auto simp: k)
qed

section \<open>Reading what was written\<close>

definition reads :: "(nat \<Rightarrow> bool) \<Rightarrow> nat list \<Rightarrow> nat list option \<Rightarrow> nat list \<Rightarrow> node list \<Rightarrow> nat list \<Rightarrow>
    (nat list + node list \<times> nat list) option" where
  "reads alnum src close rest = content (Suc (length rest)) alnum src close rest"

lemma reads_total: "reads alnum src close rest nodes text \<noteq> None"
  unfolding reads_def using content_enough[OF lessI] by blast

lemma content_reads: "length rest < m \<Longrightarrow> content m alnum src close rest nodes text = reads alnum src close rest nodes text"
  unfolding reads_def using content_enough by blast

lemma decode_plain: "c \<noteq> 38 \<Longrightarrow> decode_entities (c # s) = try_text (decode_entities s) (\<lambda>t. Inr (c # t))"
proof -
  assume c: "c \<noteq> 38"
  show ?thesis
  proof (cases "find_where (\<lambda>c. c = chr CHR ''&'') s")
    case None
    with c show ?thesis by (simp add: decode_entities.simps[of "c # s"] decode_entities.simps[of s] scalar_def try_text_def)
  next
    case (Some i)
    let ?semi = "find_where (\<lambda>c. c = chr CHR '';'') (drop (Suc i) s)"
    from Some c show ?thesis
      by (subst (1 2) decode_entities.simps)
        (simp add: scalar_def try_text_def Let_def split: option.splits sum.splits)
  qed
qed

lemma decode_entity:
  "59 \<notin> set ent \<Longrightarrow> decode_entities (38 # ent @ 59 # s) =
    try_text (entity ent) (\<lambda>c. try_text (decode_entities s) (\<lambda>t. Inr (c # t)))"
proof -
  assume "59 \<notin> set ent"
  then have "find_where (\<lambda>c. c = chr CHR '';'') (ent @ 59 # s) = Some (length ent)"
    by (subst find_where_append) (auto simp: scalar_def)
  then show ?thesis by (subst decode_entities.simps) (simp add: scalar_def)
qed

lemma decode_escape: "decode_entities (escape s) = Inr s"
proof (induction s)
  case Nil
  then show ?case by (simp add: escape_def decode_entities.simps)
next
  case (Cons c s)
  have esc: "escape (c # s) = escape_char c @ escape s" by (simp add: escape_def)
  note ents = decode_entity[of "codes ''amp''"] decode_entity[of "codes ''lt''"] decode_entity[of "codes ''gt''"]
    decode_entity[of "codes ''quot''"] decode_entity[of "codes ''apos''"]
  show ?case
  proof (cases "c \<in> {38, 60, 62, 34, 39}")
    case True
    then show ?thesis using Cons unfolding esc
      by (auto simp: escape_char_def entity_def scalar_def try_text_def ents[unfolded scalar_def, simplified, unfolded scalar_def, simplified])
  next
    case False
    then show ?thesis using Cons unfolding esc
      by (simp add: escape_char_def scalar_def decode_plain try_text_def)
  qed
qed

lemma escape_no_open: "60 \<notin> set (escape s)"
  by (auto simp: escape_def escape_char_def scalar_def)

lemma escape_no_quote: "34 \<notin> set (escape s)"
  by (auto simp: escape_def escape_char_def scalar_def)

lemma escape_eq_Nil [simp]: "escape s = [] \<longleftrightarrow> s = []"
  by (cases s) (auto simp: escape_def escape_char_def)

lemma decode_no_entity: "38 \<notin> set s \<Longrightarrow> decode_entities s = Inr s"
  by (induction s) (simp_all add: decode_plain try_text_def decode_entities.simps[of "[]"])

text \<open>A text before the next tag, a closing tag, and the prologue.\<close>

lemma reads_chunk:
  assumes "60 \<notin> set w" "w \<noteq> []" "decode_entities w = Inr t" "rest = [] \<or> hd rest = 60"
  shows "reads alnum src close (w @ rest) nodes text = reads alnum src close rest nodes (text @ t)"
proof -
  obtain c cs where w: "w = c # cs" "c \<noteq> 60" using assms(1,2) by (cases w) auto
  have "find_where (\<lambda>c. c = chr CHR ''<'') (w @ rest) = (if rest = [] then None else Some (length w))"
    using assms(1,4) by (subst find_where_append) (auto simp: scalar_def neq_Nil_conv)
  then have "or_end (find_where (\<lambda>c. c = chr CHR ''<'') (w @ rest)) (w @ rest) = length w"
    by (simp add: or_end_def)
  then have "content (Suc (length (w @ rest))) alnum src close (w @ rest) nodes text =
      content (length (w @ rest)) alnum src close rest nodes (text @ t)"
    using w assms(3) by (simp add: scalar_def)
  moreover have "length rest < length (w @ rest)" using assms(2) by simp
  ultimately show ?thesis using content_reads by (simp add: reads_def)
qed

lemma reads_text: "s \<noteq> [] \<Longrightarrow> rest = [] \<or> hd rest = 60 \<Longrightarrow>
    reads alnum src close (escape s @ rest) nodes text = reads alnum src close rest nodes (text @ s)"
  by (intro reads_chunk) (simp_all add: escape_no_open decode_escape)

lemma reads_close:
  assumes "62 \<notin> set name" "trim name = name"
  shows "reads alnum src (Some name) (codes ''</'' @ name @ codes ''>'' @ rest) nodes text = Some (Inr (flush nodes text, rest))"
proof -
  have "find_where (\<lambda>c. c = chr CHR ''>'') (codes ''</'' @ name @ codes ''>'' @ rest) = Some (length name + 2)"
    using assms(1) by (subst append.assoc[symmetric], subst find_where_append) (auto simp: scalar_def)
  with assms(2) show ?thesis by (simp add: reads_def scalar_def)
qed

lemma reads_end: "reads alnum src None [] nodes text = Some (Inr (flush nodes text, []))"
  by (simp add: reads_def)

lemma reads_doctype:
  assumes "62 \<notin> set d"
  shows "reads alnum src close (codes ''<!DOCTYPE'' @ d @ codes ''>'' @ rest) nodes text = reads alnum src close rest nodes text"
proof -
  have "find_where (\<lambda>c. c = chr CHR ''>'') (codes ''<!DOCTYPE'' @ d @ codes ''>'' @ rest) = Some (length d + 9)"
    using assms by (subst append.assoc[symmetric], subst find_where_append) (auto simp: scalar_def)
  then have "content (Suc n) alnum src close (codes ''<!DOCTYPE'' @ d @ codes ''>'' @ rest) nodes text =
      content n alnum src close rest nodes text" for n by (simp add: scalar_def)
  moreover have "length rest < length (codes ''<!DOCTYPE'' @ d @ codes ''>'' @ rest)" by simp
  ultimately show ?thesis using content_reads unfolding reads_def by metis
qed

lemma trim_ends: "s = [] \<or> \<not> is_white (hd s) \<and> \<not> is_white (last s) \<Longrightarrow> trim s = s"
proof -
  assume a: "s = [] \<or> \<not> is_white (hd s) \<and> \<not> is_white (last s)"
  then have "trim_start s = s" by (auto simp: trim_start_ends)
  moreover have "trim_start (rev s) = rev s" using a by (auto simp: trim_start_ends hd_rev)
  ultimately show ?thesis by (simp add: trim_def)
qed

text \<open>Names and attributes.\<close>

context char_classes
begin

lemma name_char:
  "is_name_char alnum c \<Longrightarrow> \<not> is_white c \<and> c \<notin> {33, 34, 38, 39, 47, 60, 61, 62, 63}"
proof -
  assume c: "is_name_char alnum c"
  show ?thesis
  proof (cases "alnum c")
    case True
    have "c < 128 \<Longrightarrow> ascii_alphanumeric c" using ascii[of c] True by simp
    then show ?thesis using not_white[OF True] by (auto simp: ascii_alphanumeric_def)
  next
    case False
    with c have "c = 58 \<or> c = 95 \<or> c = 45 \<or> c = 46" by (auto simp: is_name_char_def scalar_def)
    then show ?thesis by (auto simp: is_white_def)
  qed
qed

lemma name_chars: "name_ok alnum s \<Longrightarrow> c \<in> set s \<Longrightarrow> \<not> is_white c \<and> c \<notin> {33, 34, 38, 39, 47, 60, 61, 62, 63}"
  using name_char by (auto simp: name_ok_def list_all_iff)

lemma name_ends: "name_ok alnum s \<Longrightarrow> s \<noteq> [] \<and> \<not> is_white (hd s) \<and> \<not> is_white (last s)"
  using name_chars[of s "hd s"] name_chars[of s "last s"] by (auto simp: name_ok_def)

lemma trim_name: "name_ok alnum s \<Longrightarrow> trim s = s"
  by (rule trim_ends) (simp add: name_ends)

lemma name_until:
  assumes "name_ok alnum s" "f d" "\<And>c. is_name_char alnum c \<Longrightarrow> \<not> f c"
  shows "find_where f (s @ d # r) = Some (length s)"
  using assms by (subst find_where_append) (auto simp: name_ok_def list_all_iff)

lemma trim_start_name: "name_ok alnum s \<Longrightarrow> trim_start (s @ r) = s @ r"
  by (simp add: trim_start_ends name_ends)

lemma read_attr_rendered:
  assumes "name_ok alnum k" "k \<notin> fst ` set attrs"
  shows "read_attr alnum src name attrs (k @ codes [CHR ''='', CHR 0x22] @ escape v @ codes [CHR 0x22] @ r) = Inr ((k, v), r)"
proof -
  let ?v = "codes [CHR 0x22] @ escape v @ codes [CHR 0x22] @ r"
  have key: "find_where (\<lambda>c. c = chr CHR ''='' \<or> is_white c) (k @ chr CHR ''='' # ?v) = Some (length k)"
    by (rule name_until[OF assms(1)]) (use name_char in \<open>auto simp: scalar_def\<close>)
  have val: "find_where (\<lambda>c. c = 34) (escape v @ 34 # r) = Some (length (escape v))"
    using escape_no_quote[of v] by (subst find_where_append) auto
  have t: "trim_start (61 # s) = 61 # s" "trim_start (34 # s) = 34 # s" for s by (simp_all add: trim_start_ends is_white_def)
  show ?thesis using key val assms
    by (simp add: read_attr_def or_end_def scalar_def t decode_escape Let_def)
qed

lemma read_attrs_rendered:
  assumes "list_all (\<lambda>(k, v). name_ok alnum k) as" "distinct (map fst (attrs @ as))"
    "tail \<in> {codes '' />'' @ r, codes ''/>'' @ r} \<and> closed \<or> tail = codes ''>'' @ r \<and> \<not> closed"
  shows "read_attrs alnum src name attrs (concat (map render_attr as) @ tail) = Inr (attrs @ as, closed, r)"
  using assms(1,2)
proof (induction as arbitrary: attrs)
  case Nil
  then show ?case using assms(3)
    by (subst read_attrs.simps) (auto simp: trim_start_def is_white_def scalar_def)
next
  case (Cons a as)
  obtain k v where a: "a = (k, v)" by (cases a) auto
  let ?s = "k @ codes [CHR ''='', CHR 0x22] @ escape v @ codes [CHR 0x22] @ concat (map render_attr as) @ tail"
  have k: "name_ok alnum k" "k \<notin> fst ` set attrs" using Cons.prems by (auto simp: a)
  have shape: "concat (map render_attr (a # as)) @ tail = 32 # ?s" by (simp add: render_attr_def a scalar_def)
  have t: "trim_start (32 # ?s) = ?s" using trim_start_name[OF k(1)] by (simp add: trim_start_def is_white_def)
  obtain c cs where c: "k = c # cs" "c \<noteq> 47" "c \<noteq> 62" using name_ends[OF k(1)] name_chars[OF k(1)] by (cases k) auto
  have "read_attrs alnum src name attrs (32 # ?s) =
      read_attrs alnum src name (attrs @ [(k, v)]) (concat (map render_attr as) @ tail)"
    using c unfolding read_attrs.simps[of _ _ _ _ "32 # ?s"] t Let_def read_attr_rendered[OF k]
    by (simp add: scalar_def)
  moreover have "\<dots> = Inr (attrs @ a # as, closed, r)"
    using Cons.IH[of "attrs @ [(k, v)]"] Cons.prems by (simp add: a)
  ultimately show ?case unfolding shape by simp
qed

lemma read_element_opened:
  assumes "name_ok alnum name" "tail \<noteq> []" "hd tail \<in> {32, 47, 62}"
  shows "read_element alnum rd src (codes ''<'' @ name @ tail) = (case read_attrs alnum src name [] tail of
          Inl e \<Rightarrow> Some (Inl e)
        | Inr (attrs, True, rest) \<Rightarrow> Some (Inr (Elem name attrs [], rest))
        | Inr (attrs, False, rest) \<Rightarrow> (case rd name rest of
            None \<Rightarrow> None
          | Some (Inl e) \<Rightarrow> Some (Inl e)
          | Some (Inr (children, rest)) \<Rightarrow> Some (Inr (Elem name attrs children, rest))))"
proof -
  obtain d r where tail: "tail = d # r" "d \<in> {32, 47, 62}" using assms(2,3) by (cases tail) auto
  have "find_where (\<lambda>c. is_white c \<or> c = chr CHR ''>'' \<or> c = chr CHR ''/'') (name @ d # r) = Some (length name)"
    by (rule name_until[OF assms(1)]) (use tail name_char in \<open>auto simp: scalar_def is_white_def\<close>)
  then show ?thesis using assms(1) by (simp add: read_element_def tail or_end_def)
qed

lemma reads_element:
  assumes "name_ok alnum name" "tail \<noteq> []" "hd tail \<in> {32, 47, 62}"
  shows "reads alnum src close (codes ''<'' @ name @ tail) nodes text =
    (case read_attrs alnum src name [] tail of
       Inl e \<Rightarrow> Some (Inl e)
     | Inr (attrs, True, rest) \<Rightarrow> reads alnum src close rest (flush nodes text @ [Element (Elem name attrs [])]) []
     | Inr (attrs, False, rest) \<Rightarrow> (case reads alnum src (Some name) rest [] [] of
         None \<Rightarrow> None
       | Some (Inl e) \<Rightarrow> Some (Inl e)
       | Some (Inr (children, rest)) \<Rightarrow> reads alnum src close rest (flush nodes text @ [Element (Elem name attrs children)]) []))"
proof -
  let ?s = "codes ''<'' @ name @ tail"
  let ?rd = "\<lambda>name rest. content (length ?s) alnum src (Some name) rest [] []"
  obtain c cs where c: "name = c # cs" "c \<noteq> 33" "c \<noteq> 63" "c \<noteq> 47"
    using name_ends[OF assms(1)] name_chars[OF assms(1)] by (cases name) auto
  have step: "content (Suc n) alnum src close ?s nodes text =
      (case read_element alnum (\<lambda>name rest. content n alnum src (Some name) rest [] []) src ?s of
           None \<Rightarrow> None
         | Some (Inl e) \<Rightarrow> Some (Inl e)
         | Some (Inr (el, rest)) \<Rightarrow> content n alnum src close rest (flush nodes text @ [Element el]) [])" for n
    using c by (simp add: scalar_def)
  show ?thesis
  proof (cases "read_attrs alnum src name [] tail")
    case (Inl e)
    then show ?thesis unfolding reads_def step read_element_opened[OF assms] by simp
  next
    case (Inr b)
    obtain as closed r where b: "b = (as, closed, r)" by (cases b) auto
    have r: "length r < length ?s" using read_attrs_shorter[OF Inr[unfolded b]] by simp
    define m where "m = length ?s"
    have read: "reads alnum src close ?s nodes text = content (Suc m) alnum src close ?s nodes text"
      by (simp add: reads_def m_def)
    have same: "content m alnum src k r' n t = reads alnum src k r' n t" if "length r' \<le> length r" for k r' n t
      by (rule content_reads) (use r that m_def in linarith)
    note reading = read step[of m] read_element_opened[OF assms] Inr b
    show ?thesis
    proof (cases closed)
      case True
      then show ?thesis unfolding reading by (simp add: same)
    next
      case False
      show ?thesis
      proof (cases "reads alnum src (Some name) r [] []")
        case None
        with False show ?thesis unfolding reading by (simp add: same)
      next
        case (Some res)
        show ?thesis
        proof (cases res)
          case (Inl e)
          with Some False show ?thesis unfolding reading by (simp add: same)
        next
          case (Inr p)
          obtain ns r' where p: "p = (ns, r')" by (cases p) auto
          have "length r' \<le> length r"
            using content_shorter Some[unfolded Inr p reads_def] by blast
          with Some Inr p False show ?thesis unfolding reading by (simp add: same)
        qed
      qed
    qed
  qed
qed

end

text \<open>A whole tree that \<open>render_element\<close> writes: names are names, no attribute repeats, and texts are not
  empty and not next to each other, which is how the reader itself builds them.\<close>

fun tidy :: "bool \<Rightarrow> 'e node_of list \<Rightarrow> bool" where
  "tidy after_text [] = True"
| "tidy after_text (Element e # ns) = tidy False ns"
| "tidy after_text (Text t # ns) = (\<not> after_text \<and> t \<noteq> [] \<and> tidy True ns)"

lemma elements_of_map: "set (elements_of (map (map_node_of f) ns)) = f ` {e. Element e \<in> set ns}"
proof (induction ns)
  case (Cons n ns)
  then show ?case by (cases n) auto
qed simp

primrec el_ok :: "(nat \<Rightarrow> bool) \<Rightarrow> element \<Rightarrow> bool" where
  "el_ok alnum (Elem name attrs children) \<longleftrightarrow>
     name_ok alnum name \<and> list_all (\<lambda>(k, v). name_ok alnum k) attrs \<and> distinct (map fst attrs) \<and>
     tidy False children \<and> list_all id (elements_of (map (map_node_of (el_ok alnum)) children))"

context char_classes
begin

lemma reads_rendered:
  "el_ok alnum e \<Longrightarrow> reads alnum src close (render_element e @ rest) nodes text =
     reads alnum src close rest (flush nodes text @ [Element e]) []"
proof (induction e arbitrary: close rest nodes "text")
  case (Elem name attrs children)
  have ok: "name_ok alnum name" "list_all (\<lambda>(k, v). name_ok alnum k) attrs" "distinct (map fst attrs)"
    and tidy: "tidy False children" and kids: "list_all id (elements_of (map (map_node_of (el_ok alnum)) children))"
    using Elem.prems by auto
  let ?as = "concat (map render_attr attrs)"
  have as: "?as @ tail \<noteq> [] \<and> hd (?as @ tail) \<in> {32, 47, 62}" if "hd tail \<in> {32, 47, 62}" "tail \<noteq> []" for tail
    using that by (cases attrs) (auto simp: render_attr_def scalar_def)
  show ?case
  proof (cases "children = []")
    case True
    have "reads alnum src close (codes ''<'' @ name @ ?as @ codes '' />'' @ rest) nodes text =
        reads alnum src close rest (flush nodes text @ [Element (Elem name attrs [])]) []"
      using as[of "codes '' />'' @ rest"] read_attrs_rendered[OF ok(2), of "[]" "codes '' />'' @ rest" rest True src name] ok
      by (subst reads_element[OF ok(1)]) (auto simp: scalar_def)
    with True show ?thesis by simp
  next
    case False
    let ?cs = "concat (map render_node (map (map_node_of render_element) children))"
    let ?body = "?cs @ codes ''</'' @ name @ codes ''>'' @ rest"
    have name: "trim name = name" "62 \<notin> set name" using trim_name[OF ok(1)] name_chars[OF ok(1)] by auto
    have inner: "reads alnum src (Some name) (concat (map render_node (map (map_node_of render_element) cs)) @
          codes ''</'' @ name @ codes ''>'' @ rest) ns t = Some (Inr (flush ns t @ cs, rest))"
      if "set cs \<subseteq> set children" "tidy (t \<noteq> []) cs" for cs ns t
      using that
    proof (induction cs arbitrary: ns t)
      case Nil
      show ?case using reads_close[OF name(2,1)] by simp
    next
      case (Cons c cs)
      show ?case
      proof (cases c)
        case (Element e)
        have "el_ok alnum e" using kids Cons.prems(1) Element elements_of_map[of "el_ok alnum" children] by (auto simp: list_all_iff)
        moreover have "c \<in> set children" "e \<in> set_node_of c" using Cons.prems(1) Element by auto
        ultimately have "reads alnum src (Some name) (render_element e @ r) ns t =
            reads alnum src (Some name) r (flush ns t @ [Element e]) []" for r using Elem.IH by blast
        moreover have "tidy False cs" "set cs \<subseteq> set children" using Cons.prems Element by auto
        ultimately show ?thesis using Cons.IH[of "[]" "flush ns t @ [Element e]"] Element by (simp add: flush_def)
      next
        case (Text s)
        let ?r = "concat (map render_node (map (map_node_of render_element) cs)) @ codes ''</'' @ name @ codes ''>'' @ rest"
        have "hd ?r = 60"
        proof (cases cs)
          case (Cons d ds)
          with Cons.prems Text obtain e where "d = Element e" by (cases d) auto
          with Cons show ?thesis by (cases e) (simp add: scalar_def)
        qed (simp add: scalar_def)
        with Cons.prems Text have "reads alnum src (Some name) (escape s @ ?r) ns t = reads alnum src (Some name) ?r ns (t @ s)"
          by (intro reads_text) auto
        then show ?thesis using Cons.IH[of "t @ s" ns] Cons.prems Text by (simp add: flush_def)
      qed
    qed
    have "reads alnum src close (codes ''<'' @ name @ ?as @ codes ''>'' @ ?body) nodes text =
        reads alnum src close rest (flush nodes text @ [Element (Elem name attrs children)]) []"
      using as[of "codes ''>'' @ ?body"] read_attrs_rendered[OF ok(2), of "[]" "codes ''>'' @ ?body" ?body False src name] ok
        inner[OF order_refl, of "[]" "[]"] tidy
      by (subst reads_element[OF ok(1)]) (auto simp: scalar_def flush_def)
    with False show ?thesis by simp
  qed
qed

end

section \<open>Properties\<close>

lemma parse_nodes_total: "\<exists>r. parse_nodes alnum src = Some r"
proof -
  have "content (Suc (length src)) alnum src None src [] [] \<noteq> None"
    using reads_total[of alnum src None src "[]" "[]"] by (simp add: reads_def)
  then obtain res where "content (Suc (length src)) alnum src None src [] [] = Some res" by blast
  then show ?thesis by (cases res) (auto simp: parse_nodes_def split: prod.splits)
qed

text \<open>C34: reading back what was written gives the same tree: every element whose names are XML names and
  whose attributes do not repeat, whatever characters its attribute values and texts contain (the five special
  ones are written as entities), is read back from its rendering as that one element, with nothing before or
  after it.\<close>

theorem xml_roundtrip:
  assumes "char_classes alnum" "el_ok alnum e"
  shows "parse_nodes alnum (render_element e) = Some (Inr [Element e])"
proof -
  have "reads alnum (render_element e) None (render_element e @ []) [] [] = Some (Inr ([Element e], []))"
    by (subst char_classes.reads_rendered[OF assms]) (simp add: reads_end flush_def)
  then show ?thesis by (simp add: parse_nodes_def reads_def blank_def)
qed

theorem xml_roundtrip_witness:
  "parse_nodes ascii_alphanumeric (codes ''<a x='' @ codes [CHR 0x22] @ codes ''1 &lt; 2'' @ codes [CHR 0x22] @ codes ''>t &amp; u<b /></a>'') =
    Some (Inr [Element (Elem (codes ''a'') [(codes ''x'', codes ''1 < 2'')] [Text (codes ''t & u''), Element (Elem (codes ''b'') [] [])])])"
proof -
  let ?e = "Elem (codes ''a'') [(codes ''x'', codes ''1 < 2'')] [Text (codes ''t & u''), Element (Elem (codes ''b'') [] [])]"
  have "el_ok ascii_alphanumeric ?e"
    by (simp add: name_ok_def is_name_char_def ascii_alphanumeric_def scalar_def)
  from xml_roundtrip[OF ascii_classes.char_classes_axioms this] show ?thesis
    by (simp add: render_attr_def escape_def escape_char_def scalar_def)
qed

end
