(* ===== verification/Plist.thy ===== *)
theory Plist
  imports Xml_Mini
begin

text \<open>
  Apple property lists, \<open>sky/src/plist.rs\<close>: reading a list from its XML, writing a document, and the merge
  of the layers an iOS shell is built from. \<open>plain\<close> are the characters that debug output prints as they
  are; errors are the left side of a sum.
\<close>

section \<open>Values\<close>

datatype plist =
    Dict "(nat list \<times> plist) list"
  | Array "plist list"
  | Str "nat list"
  | Integer "nat list"
  | Real "nat list"
  | Boolean bool
  | Data "nat list"
  | Date "nat list"

type_synonym entries = "(nat list \<times> plist) list"

fun plist_kind :: "plist \<Rightarrow> string" where
  "plist_kind (Dict es) = ''dict''"
| "plist_kind (Array vs) = ''array''"
| "plist_kind (Str s) = ''string''"
| "plist_kind (Integer s) = ''integer''"
| "plist_kind (Real s) = ''real''"
| "plist_kind (Boolean b) = ''bool''"
| "plist_kind (Data s) = ''data''"
| "plist_kind (Date s) = ''date''"

definition brief :: "(nat \<Rightarrow> bool) \<Rightarrow> plist \<Rightarrow> nat list" where
  "brief plain v = (case v of
     Str s \<Rightarrow> debug_text plain s
   | Integer s \<Rightarrow> s
   | Real s \<Rightarrow> s
   | Date s \<Rightarrow> s
   | Boolean b \<Rightarrow> codes (if b then ''true'' else ''false'')
   | Data s \<Rightarrow> codes ''<data>''
   | _ \<Rightarrow> codes ''<'' @ codes (plist_kind v) @ codes ''>'')"

section \<open>Reading\<close>

fun dict_entries :: "(element \<Rightarrow> nat list + plist) \<Rightarrow> element list \<Rightarrow> entries \<Rightarrow> nat list + entries" where
  "dict_entries f [] out = Inr out"
| "dict_entries f (k # es) out =
     (if el_name k \<noteq> codes ''key'' then Inl (quoted ''expected <key>, found <'' (el_name k) ''>'')
      else
        (let key = el_text k in
         case es of
           [] \<Rightarrow> Inl (quoted ''key `'' key ''` has no value'')
         | v # rest \<Rightarrow>
             (if key \<in> fst ` set out then
                Inl (quoted ''key `'' key ''` appears twice in one <dict>, which is not a valid property list'')
              else try_text (f v) (\<lambda>x. dict_entries f rest (out @ [(key, x)])))))"

lemma dict_entries_cong [fundef_cong]:
  "es = es' \<Longrightarrow> out = out' \<Longrightarrow> (\<And>e. e \<in> set es' \<Longrightarrow> f e = g e) \<Longrightarrow> dict_entries f es out = dict_entries g es' out'"
proof (induction f es out arbitrary: es' out' rule: dict_entries.induct)
  case (2 f k es out)
  then show ?case by (cases es) (auto simp: Let_def try_text_def split: sum.splits)
qed simp

lemma elements_smaller: "x \<in> set (elements e) \<Longrightarrow> size x < size e"
proof (cases e)
  case (Elem name attrs children)
  have "x \<in> set (elements_of ns) \<Longrightarrow> size x < size_list (size_node_of size) ns" for ns
  proof (induction ns)
    case (Cons n ns)
    then show ?case by (cases n) auto
  qed simp
  moreover assume "x \<in> set (elements e)"
  ultimately show ?thesis using Elem by (fastforce simp: elements_def)
qed

function value_of :: "element \<Rightarrow> nat list + plist" where
  "value_of e =
     (if el_name e = codes ''dict'' then try_text (dict_entries value_of (elements e) []) (\<lambda>es. Inr (Dict es))
      else if el_name e = codes ''array'' then try_text (all_ok (map value_of (elements e))) (\<lambda>vs. Inr (Array vs))
      else if el_name e = codes ''string'' then Inr (Str (el_text e))
      else if el_name e = codes ''integer'' then Inr (Integer (trim (el_text e)))
      else if el_name e = codes ''real'' then Inr (Real (trim (el_text e)))
      else if el_name e = codes ''true'' then Inr (Boolean True)
      else if el_name e = codes ''false'' then Inr (Boolean False)
      else if el_name e = codes ''data'' then Inr (Data (filter (\<lambda>c. \<not> is_white c) (el_text e)))
      else if el_name e = codes ''date'' then Inr (Date (trim (el_text e)))
      else Inl (quoted ''<'' (el_name e) ''> is not a property-list value''))"
  by auto

termination
  by (relation "measure size") (simp_all add: elements_smaller)

declare value_of.simps [simp del]

text \<open>The top elements; text between them is refused.\<close>

fun only_elements :: "(nat \<Rightarrow> bool) \<Rightarrow> node list \<Rightarrow> nat list + element list" where
  "only_elements plain [] = Inr []"
| "only_elements plain (Element e # ns) = try_text (only_elements plain ns) (\<lambda>es. Inr (e # es))"
| "only_elements plain (Text t # ns) = Inl (quoted ''unexpected text '' (debug_text plain (trim t)) '' outside a key'')"

definition top_entries :: "element list \<Rightarrow> nat list + entries" where
  "top_entries elems =
     (if elems = [] then Inr []
      else if length elems = 1 \<and> el_name (hd elems) = codes ''plist'' then
        (case elements (hd elems) of
           [] \<Rightarrow> Inr []
         | [d] \<Rightarrow> (if el_name d = codes ''dict'' then dict_entries value_of (elements d) []
                   else Inl (codes ''a <plist> must hold exactly one <dict>''))
         | _ \<Rightarrow> Inl (codes ''a <plist> must hold exactly one <dict>''))
      else if length elems = 1 \<and> el_name (hd elems) = codes ''dict'' then dict_entries value_of (elements (hd elems)) []
      else if list_ex (\<lambda>e. el_name e = codes ''plist'') elems then
        Inl (codes (show_nat (length elems)) @ codes '' top-level elements, one of them a whole <plist> document '' @
          [0x2014] @ codes '' two documents joined as text are not one property list'')
      else dict_entries value_of elems [])"

definition parse_entries :: "(nat \<Rightarrow> bool) \<Rightarrow> (nat \<Rightarrow> bool) \<Rightarrow> nat list \<Rightarrow> (nat list + entries) option" where
  "parse_entries alnum plain src =
     map_option (\<lambda>r. try_text r (\<lambda>nodes. try_text (only_elements plain nodes) top_entries)) (parse_nodes alnum src)"

section \<open>Writing\<close>

definition indent :: "nat \<Rightarrow> nat list" where
  "indent depth = concat (replicate depth (codes ''    ''))"

definition text_element :: "string \<Rightarrow> nat list \<Rightarrow> nat list" where
  "text_element name s = codes ''<'' @ codes name @ codes ''>'' @ escape s @ codes ''</'' @ codes name @ codes ''>'' @ codes [newline]"

primrec render_value :: "plist \<Rightarrow> nat \<Rightarrow> nat list" where
  "render_value (Dict es) = (\<lambda>depth. indent depth @
     (if es = [] then codes ''<dict/>'' @ codes [newline]
      else codes ''<dict>'' @ codes [newline] @
        concat (map (\<lambda>(k, r). indent (depth + 1) @ text_element ''key'' k @ r (depth + 1)) (map (map_prod id render_value) es)) @
        indent depth @ codes ''</dict>'' @ codes [newline]))"
| "render_value (Array vs) = (\<lambda>depth. indent depth @
     (if vs = [] then codes ''<array/>'' @ codes [newline]
      else codes ''<array>'' @ codes [newline] @ concat (map (\<lambda>r. r (depth + 1)) (map render_value vs)) @
        indent depth @ codes ''</array>'' @ codes [newline]))"
| "render_value (Str s) = (\<lambda>depth. indent depth @ text_element ''string'' s)"
| "render_value (Integer s) = (\<lambda>depth. indent depth @ text_element ''integer'' s)"
| "render_value (Real s) = (\<lambda>depth. indent depth @ text_element ''real'' s)"
| "render_value (Boolean b) = (\<lambda>depth. indent depth @ codes (if b then ''<true/>'' else ''<false/>'') @ codes [newline])"
| "render_value (Data s) = (\<lambda>depth. indent depth @ text_element ''data'' s)"
| "render_value (Date s) = (\<lambda>depth. indent depth @ text_element ''date'' s)"

definition double_quoted :: "string \<Rightarrow> string" where
  "double_quoted s = [CHR 0x22] @ s @ [CHR 0x22]"

definition render_document :: "entries \<Rightarrow> nat list" where
  "render_document es =
     codes (''<?xml version='' @ double_quoted ''1.0'' @ '' encoding='' @ double_quoted ''UTF-8'' @ ''?>'' @ [newline]) @
     codes (''<!DOCTYPE plist PUBLIC '' @ double_quoted ''-//Apple//DTD PLIST 1.0//EN'' @ '' '' @
       double_quoted ''http://www.apple.com/DTDs/PropertyList-1.0.dtd'' @ ''>'' @ [newline]) @
     codes (''<plist version='' @ double_quoted ''1.0'' @ ''>'' @ [newline]) @
     render_value (Dict es) 0 @ codes ''</plist>'' @ codes [newline]"

section \<open>Merging\<close>

datatype rank = Generated | Declared | Project | Dependency

record layer =
  ly_origin :: "nat list"
  ly_rank :: rank
  ly_entries :: entries

text \<open>The warnings and the errors of a merge so far.\<close>

type_synonym report = "nat list list \<times> nat list list"

definition clash :: "(nat \<Rightarrow> bool) \<Rightarrow> nat list \<Rightarrow> plist \<Rightarrow> layer \<Rightarrow> plist \<Rightarrow> layer \<Rightarrow> report \<Rightarrow> report" where
  "clash plain path high hl low ll rep =
     (let what = codes ''`'' @ path @ codes ''`: '' @ ly_origin hl @ codes '' sets '' @ brief plain high @ codes '', '' @
            ly_origin ll @ codes '' sets '' @ brief plain low;
          (warnings, errors) = rep in
      case (ly_rank hl, ly_rank ll) of
        (Generated, _) \<Rightarrow> (warnings, errors @ [what @ codes (''. Sky generates this key from the app'' @ [CHR 0x27] @
            ''s Std.Bundle declarations and build settings; remove it from '') @ ly_origin ll @ codes ''.''])
      | (Dependency, Dependency) \<Rightarrow> (warnings, errors @ [what @ codes (''. Two dependencies disagree and neither outranks the other; set the key in the project'' @
            [CHR 0x27] @ ''s own native/ios fragment, which outranks every dependency.'')])
      | _ \<Rightarrow> (warnings @ [what @ codes ''; '' @ ly_origin hl @ codes '' wins.''], errors))"

definition sub_path :: "nat list \<Rightarrow> nat list \<Rightarrow> nat list" where
  "sub_path path k = path @ codes ''.'' @ k"

text \<open>The update of the first entry with a key, and the loop over the lower dictionary. \<open>m\<close> merges two
  values under a path; a key that is new is appended.\<close>

fun merge_key :: "(plist \<Rightarrow> report \<Rightarrow> plist \<times> report) \<Rightarrow> nat list \<Rightarrow> plist \<Rightarrow> entries \<Rightarrow> report \<Rightarrow> entries \<times> report" where
  "merge_key m k lv [] rep = ([(k, lv)], rep)"
| "merge_key m k lv ((ok, hv) # es) rep =
     (if ok = k then (let (v, rep) = m hv rep in ((ok, v) # es, rep))
      else (let (es, rep) = merge_key m k lv es rep in ((ok, hv) # es, rep)))"

fun merge_items :: "plist list \<Rightarrow> plist list \<Rightarrow> plist list" where
  "merge_items out [] = out"
| "merge_items out (i # is) = merge_items (if i \<in> set out then out else out @ [i]) is"

lemma size_entry: "(k, v) \<in> set es \<Longrightarrow> size v < size (Dict es)"
  by (induction es) auto

function merge_value :: "(nat \<Rightarrow> bool) \<Rightarrow> nat list \<Rightarrow> plist \<Rightarrow> layer \<Rightarrow> plist \<Rightarrow> layer \<Rightarrow> report \<Rightarrow> plist \<times> report" where
  "merge_value plain path high hl low ll rep = (case (high, low) of
     (Dict h, Dict l) \<Rightarrow>
       (let (out, rep) = foldl (\<lambda>st e.
              merge_key (\<lambda>hv. merge_value plain (sub_path path (fst e)) hv hl (snd e) ll) (fst e) (snd e) (fst st) (snd st)) (h, rep) l
        in (Dict out, rep))
   | (Array h, Array l) \<Rightarrow> (Array (merge_items h l), rep)
   | _ \<Rightarrow> (high, if high = low then rep else clash plain path high hl low ll rep))"
  by auto

termination
  by (relation "measure (\<lambda>(plain, path, high, hl, low, ll, rep). size low)") (auto dest: size_entry)

declare merge_value.simps [simp del]

text \<open>The loop of \<open>merge\<close>: each top key remembers the layer that first set it.\<close>

fun merge_top :: "(nat \<Rightarrow> bool) \<Rightarrow> layer list \<Rightarrow> nat \<Rightarrow> layer \<Rightarrow> nat list \<Rightarrow> plist \<Rightarrow>
    (nat list \<times> plist \<times> nat) list \<Rightarrow> report \<Rightarrow> (nat list \<times> plist \<times> nat) list \<times> report" where
  "merge_top plain layers li ly k v [] rep = ([(k, v, li)], rep)"
| "merge_top plain layers li ly k v ((ek, ev, owner) # acc) rep =
     (if ek = k then (let (v, rep) = merge_value plain k ev (layers ! owner) v ly rep in ((ek, v, owner) # acc, rep))
      else (let (acc, rep) = merge_top plain layers li ly k v acc rep in ((ek, ev, owner) # acc, rep)))"

definition merge_layer :: "(nat \<Rightarrow> bool) \<Rightarrow> layer list \<Rightarrow> (nat list \<times> plist \<times> nat) list \<times> report \<Rightarrow> nat \<times> layer \<Rightarrow>
    (nat list \<times> plist \<times> nat) list \<times> report" where
  "merge_layer plain layers st lily =
     foldl (\<lambda>(acc, rep) (k, v). merge_top plain layers (fst lily) (snd lily) k v acc rep) st (ly_entries (snd lily))"

record merged =
  mg_entries :: entries
  mg_warnings :: "nat list list"

definition merge :: "(nat \<Rightarrow> bool) \<Rightarrow> layer list \<Rightarrow> nat list list + merged" where
  "merge plain layers =
     (let (acc, warnings, errors) = foldl (merge_layer plain layers) ([], [], []) (enumerate 0 layers) in
      if errors = [] then Inr \<lparr>mg_entries = map (\<lambda>(k, v, owner). (k, v)) acc, mg_warnings = warnings\<rparr>
      else Inl errors)"

section \<open>Reading back a document\<close>

text \<open>The lists a document can hold: no key twice in a dictionary, and no white space where the reader trims it.\<close>

primrec pl_ok :: "plist \<Rightarrow> bool" where
  "pl_ok (Dict es) \<longleftrightarrow> distinct (map fst es) \<and> list_all id (map snd (map (map_prod id pl_ok) es))"
| "pl_ok (Array vs) \<longleftrightarrow> list_all id (map pl_ok vs)"
| "pl_ok (Str s) \<longleftrightarrow> True"
| "pl_ok (Integer s) \<longleftrightarrow> trim s = s"
| "pl_ok (Real s) \<longleftrightarrow> trim s = s"
| "pl_ok (Boolean b) \<longleftrightarrow> True"
| "pl_ok (Data s) \<longleftrightarrow> list_all (\<lambda>c. \<not> is_white c) s"
| "pl_ok (Date s) \<longleftrightarrow> trim s = s"

context char_classes
begin

text \<open>A text that the reader reads as one element, in every context.\<close>

definition written :: "nat list \<Rightarrow> element \<Rightarrow> bool" where
  "written c e \<longleftrightarrow> c \<noteq> [] \<and> hd c = 60 \<and> (\<forall>src close rest nodes text. reads alnum src close (c @ rest) nodes text =
     reads alnum src close rest (flush nodes text @ [Element e]) [])"

lemma ascii_name: "list_all ascii_alphanumeric s \<Longrightarrow> s \<noteq> [] \<Longrightarrow> name_ok alnum s"
proof -
  assume a: "list_all ascii_alphanumeric s" "s \<noteq> []"
  have "alnum c" if "ascii_alphanumeric c" for c
    using ascii[of c] that by (auto simp: ascii_alphanumeric_def)
  with a show ?thesis by (auto simp: name_ok_def is_name_char_def list_all_iff)
qed

lemma reads_white:
  assumes "set w \<subseteq> {10, 32}" "rest = [] \<or> hd rest = 60"
  shows "reads alnum src close (w @ rest) nodes text = reads alnum src close rest nodes (text @ w)"
proof (cases "w = []")
  case False
  with assms show ?thesis by (intro reads_chunk decode_no_entity) auto
qed simp

text \<open>An element with content, and one that closes itself.\<close>

lemma reads_inside:
  assumes "name_ok alnum name" "reads alnum src (Some name) body [] [] = Some (Inr (children, rest))"
    "list_all (\<lambda>(k, v). name_ok alnum k) as" "distinct (map fst as)"
  shows "reads alnum src close (codes ''<'' @ name @ concat (map render_attr as) @ codes ''>'' @ body) nodes text =
    reads alnum src close rest (flush nodes text @ [Element (Elem name as children)]) []"
proof -
  have "hd (concat (map render_attr as) @ codes ''>'' @ body) \<in> {32, 47, 62}"
    by (cases as) (auto simp: render_attr_def scalar_def)
  then show ?thesis
    using read_attrs_rendered[OF assms(3), of "[]" "codes ''>'' @ body" body False src name] assms(2,4)
    by (subst reads_element[OF assms(1)]) (auto simp: scalar_def)
qed

lemma written_empty:
  assumes "name_ok alnum name"
  shows "written (codes ''<'' @ name @ codes ''/>'') (Elem name [] [])"
proof -
  have "reads alnum src close (codes ''<'' @ name @ codes ''/>'' @ rest) nodes text =
      reads alnum src close rest (flush nodes text @ [Element (Elem name [] [])]) []" for src close rest nodes "text"
    using read_attrs_rendered[of "[]" "[]" "codes ''/>'' @ rest" rest True src name]
    by (subst reads_element[OF assms]) (auto simp: scalar_def)
  then show ?thesis by (simp add: written_def scalar_def)
qed

lemma written_text:
  assumes "list_all ascii_alphanumeric (codes name)" "name \<noteq> []"
  shows "written (codes ''<'' @ codes name @ codes ''>'' @ escape s @ codes ''</'' @ codes name @ codes ''>'')
    (Elem (codes name) [] (flush [] s))"
proof -
  have name: "name_ok alnum (codes name)" using ascii_name assms by (cases name) auto
  have ends: "62 \<notin> set (codes name)" "trim (codes name) = codes name" using name_chars[OF name] trim_name[OF name] by auto
  have "reads alnum src (Some (codes name)) (escape s @ codes ''</'' @ codes name @ codes ''>'' @ rest) [] [] = Some (Inr (flush [] s, rest))"
    for src rest
  proof (cases "s = []")
    case True
    then show ?thesis using reads_close[OF ends] by (simp add: escape_def)
  next
    case False
    then have "reads alnum src (Some (codes name)) (escape s @ codes ''</'' @ codes name @ codes ''>'' @ rest) [] [] =
        reads alnum src (Some (codes name)) (codes ''</'' @ codes name @ codes ''>'' @ rest) [] ([] @ s)"
      by (intro reads_text) (simp_all add: scalar_def)
    then show ?thesis using reads_close[OF ends] by simp
  qed
  from reads_inside[OF name this, of "[]"] show ?thesis by (simp add: written_def scalar_def)
qed

text \<open>A run of elements on lines of their own, up to the closing tag.\<close>

fun filled :: "nat list \<Rightarrow> nat list \<Rightarrow> element list \<Rightarrow> nat list \<Rightarrow> node list" where
  "filled ind ind2 [] w = flush [] (w @ ind2)"
| "filled ind ind2 (e # es) w = flush [] (w @ ind) @ Element e # filled ind ind2 es [10]"

lemma reads_lines:
  assumes "list_all2 written cs es" "name_ok alnum name" "set w \<union> set ind \<union> set ind2 \<subseteq> {10, 32}"
  shows "reads alnum src (Some name) (w @ concat (map (\<lambda>c. ind @ c @ [10]) cs) @ ind2 @ codes ''</'' @ name @ codes ''>'' @ rest) nodes [] =
    Some (Inr (nodes @ filled ind ind2 es w, rest))"
  using assms(1,3)
proof (induction cs es arbitrary: w nodes rule: list_all2_induct)
  case Nil
  have ends: "62 \<notin> set name" "trim name = name" using name_chars[OF assms(2)] trim_name[OF assms(2)] by auto
  have "reads alnum src (Some name) ((w @ ind2) @ codes ''</'' @ name @ codes ''>'' @ rest) nodes [] =
      reads alnum src (Some name) (codes ''</'' @ name @ codes ''>'' @ rest) nodes ([] @ w @ ind2)"
    using Nil by (intro reads_white) (auto simp: scalar_def)
  then show ?case using reads_close[OF ends] by (simp add: flush_def)
next
  case (Cons c cs e es)
  let ?r = "[10] @ concat (map (\<lambda>c. ind @ c @ [10]) cs) @ ind2 @ codes ''</'' @ name @ codes ''>'' @ rest"
  have c: "c \<noteq> []" "hd c = 60" "\<And>rest nodes text. reads alnum src (Some name) (c @ rest) nodes text =
      reads alnum src (Some name) rest (flush nodes text @ [Element e]) []" using Cons.hyps(1) by (auto simp: written_def)
  have "reads alnum src (Some name) ((w @ ind) @ c @ ?r) nodes [] = reads alnum src (Some name) (c @ ?r) nodes ([] @ w @ ind)"
    using Cons.prems c by (intro reads_white) auto
  also have "\<dots> = reads alnum src (Some name) ?r (flush nodes (w @ ind) @ [Element e]) []" by (simp add: c(3))
  also have "\<dots> = Some (Inr ((flush nodes (w @ ind) @ [Element e]) @ filled ind ind2 es [10], rest))"
    using Cons.IH[of "[10]"] Cons.prems by simp
  finally show ?case by (simp add: flush_def)
qed

lemma written_lines:
  assumes "list_all2 written cs es" "list_all ascii_alphanumeric (codes name)" "name \<noteq> []" "set ind \<union> set ind2 \<subseteq> {10, 32}"
  shows "written (codes ''<'' @ codes name @ codes ''>'' @ [10] @ concat (map (\<lambda>c. ind @ c @ [10]) cs) @
    ind2 @ codes ''</'' @ codes name @ codes ''>'') (Elem (codes name) [] (filled ind ind2 es [10]))"
proof -
  have name: "name_ok alnum (codes name)" using ascii_name assms(2,3) by (cases name) auto
  from reads_inside[OF name reads_lines[OF assms(1) name, of "[10]" ind ind2], of "[]"] assms(4)
  show ?thesis by (simp add: written_def scalar_def)
qed

lemma elements_filled: "elements_of (filled ind ind2 es w) = es"
proof -
  have app: "elements_of (flush [] t @ ns) = elements_of ns" for t and ns :: "node list" by (simp add: flush_def)
  show ?thesis
  proof (induction es arbitrary: w)
    case Nil
    show ?case using app[of "w @ ind2" "[]"] by simp
  qed (simp add: app)
qed

lemma elements_lines: "elements (Elem name as (filled ind ind2 es w)) = es"
  by (simp add: elements_def elements_filled)

lemma el_text_flush: "el_text (Elem name as (flush [] s)) = s"
  by (simp add: el_text_def flush_def)

text \<open>What a value writes is one element on a line of its own, and the element has that value.\<close>

definition writes :: "plist \<Rightarrow> bool" where
  "writes v \<longleftrightarrow> (\<forall>depth. \<exists>c e. render_value v depth = indent depth @ c @ [10] \<and> written c e \<and> value_of e = Inr v)"

lemma writes_text:
  assumes "\<And>depth. render_value v depth = indent depth @ text_element name s"
    "list_all ascii_alphanumeric (codes name)" "name \<noteq> []" "value_of (Elem (codes name) [] (flush [] s)) = Inr v"
  shows "writes v"
  unfolding writes_def
proof
  fix depth
  have "render_value v depth = indent depth @
      (codes ''<'' @ codes name @ codes ''>'' @ escape s @ codes ''</'' @ codes name @ codes ''>'') @ [10]"
    by (simp add: assms(1) text_element_def scalar_def)
  with written_text[OF assms(2,3)] assms(4) show "\<exists>c e. render_value v depth = indent depth @ c @ [10] \<and> written c e \<and> value_of e = Inr v"
    by blast
qed

lemma indent_white: "set (indent d) \<subseteq> {10, 32}"
  by (auto simp: indent_def scalar_def)

lemma writes_array_items:
  "list_all writes vs \<Longrightarrow> \<exists>cs es. list_all2 written cs es \<and> map value_of es = map Inr vs \<and>
     concat (map (\<lambda>r. r d) (map render_value vs)) = concat (map (\<lambda>c. indent d @ c @ [10]) cs)"
proof (induction vs)
  case (Cons v vs)
  then obtain cs es where IH: "list_all2 written cs es" "map value_of es = map Inr vs"
    "concat (map (\<lambda>r. r d) (map render_value vs)) = concat (map (\<lambda>c. indent d @ c @ [10]) cs)" by auto
  obtain c e where "render_value v d = indent d @ c @ [10]" "written c e" "value_of e = Inr v"
    using Cons.prems by (fastforce simp: writes_def)
  with IH show ?case by (intro exI[of _ "c # cs"] exI[of _ "e # es"]) simp
qed simp

lemma writes_dict_items:
  "list_all (\<lambda>(k, v). writes v) es \<Longrightarrow> distinct (map fst (out @ es)) \<Longrightarrow>
    \<exists>cs els. list_all2 written cs els \<and> dict_entries value_of els out = Inr (out @ es) \<and>
     concat (map (\<lambda>(k, r). indent d @ text_element ''key'' k @ r d) (map (map_prod id render_value) es)) =
       concat (map (\<lambda>c. indent d @ c @ [10]) cs)"
proof (induction es arbitrary: out)
  case (Cons p es)
  obtain k v where p: "p = (k, v)" by (cases p) auto
  have "list_all (\<lambda>(k, v). writes v) es" "distinct (map fst ((out @ [p]) @ es))" using Cons.prems by auto
  from Cons.IH[OF this] obtain cs els where IH: "list_all2 written cs els" "dict_entries value_of els (out @ [p]) = Inr ((out @ [p]) @ es)"
    "concat (map (\<lambda>(k, r). indent d @ text_element ''key'' k @ r d) (map (map_prod id render_value) es)) =
       concat (map (\<lambda>c. indent d @ c @ [10]) cs)" by blast
  obtain c e where e: "render_value v d = indent d @ c @ [10]" "written c e" "value_of e = Inr v"
    using Cons.prems(1) by (fastforce simp: writes_def p)
  let ?kc = "codes ''<'' @ codes ''key'' @ codes ''>'' @ escape k @ codes ''</'' @ codes ''key'' @ codes ''>''"
  let ?ke = "Elem (codes ''key'') [] (flush [] k)"
  have key: "written ?kc ?ke" by (rule written_text) (simp_all add: ascii_alphanumeric_def scalar_def)
  have "k \<notin> fst ` set out" using Cons.prems(2) by (auto simp: p)
  then have "dict_entries value_of (?ke # e # els) out = Inr (out @ p # es)"
    using IH(2) e(3) by (simp add: el_text_flush try_text_def p)
  moreover have "list_all2 written (?kc # c # cs) (?ke # e # els)" using key e(2) IH(1) by simp
  ultimately show ?case using IH(3) e(1) p
    by (intro exI[of _ "?kc # c # cs"] exI[of _ "?ke # e # els"]) (simp add: text_element_def scalar_def id_def)
qed simp

lemma value_of_named:
  "value_of (Elem (codes ''dict'') as ns) = try_text (dict_entries value_of (elements (Elem (codes ''dict'') as ns)) []) (\<lambda>es. Inr (Dict es))"
  "value_of (Elem (codes ''array'') as ns) = try_text (all_ok (map value_of (elements (Elem (codes ''array'') as ns)))) (\<lambda>vs. Inr (Array vs))"
  "value_of (Elem (codes ''true'') as ns) = Inr (Boolean True)"
  "value_of (Elem (codes ''false'') as ns) = Inr (Boolean False)"
  by (subst value_of.simps; simp add: scalar_def)+

lemma names_ascii:
  "list_all ascii_alphanumeric (codes ''dict'')" "list_all ascii_alphanumeric (codes ''array'')"
  "list_all ascii_alphanumeric (codes ''true'')" "list_all ascii_alphanumeric (codes ''false'')"
  "list_all ascii_alphanumeric (codes ''plist'')"
  by (simp_all add: ascii_alphanumeric_def scalar_def)

lemma writes_value: "pl_ok v \<Longrightarrow> writes v"
proof (induction v)
  case (Dict es)
  have es: "list_all (\<lambda>(k, v). writes v) es" "distinct (map fst es)"
    using Dict by (force simp: list_all_iff)+
  show ?case unfolding writes_def
  proof
    fix d
    show "\<exists>c e. render_value (plist.Dict es) d = indent d @ c @ [10] \<and> written c e \<and> value_of e = Inr (plist.Dict es)"
    proof (cases "es = []")
      case True
      have "written (codes ''<'' @ codes ''dict'' @ codes ''/>'') (Elem (codes ''dict'') [] [])"
        by (rule written_empty, rule ascii_name[OF names_ascii(1)]) simp
      moreover have "value_of (Elem (codes ''dict'') [] []) = Inr (plist.Dict es)"
        unfolding value_of_named using True by (simp add: elements_def try_text_def)
      ultimately show ?thesis using True
        by (intro exI[of _ "codes ''<'' @ codes ''dict'' @ codes ''/>''"]) (auto simp: scalar_def)
    next
      case False
      obtain cs els where l: "list_all2 written cs els" "dict_entries value_of els [] = Inr es"
        "concat (map (\<lambda>(k, r). indent (Suc d) @ text_element ''key'' k @ r (Suc d)) (map (map_prod id render_value) es)) =
          concat (map (\<lambda>c. indent (Suc d) @ c @ [10]) cs)"
        using writes_dict_items[OF es(1), of "[]" "Suc d"] es(2) by auto
      note w = written_lines[OF l(1) names_ascii(1), of "indent (Suc d)" "indent d"]
      have "render_value (plist.Dict es) d = indent d @ (codes ''<'' @ codes ''dict'' @ codes ''>'' @ [10] @
          concat (map (\<lambda>c. indent (Suc d) @ c @ [10]) cs) @ indent d @ codes ''</'' @ codes ''dict'' @ codes ''>'') @ [10]"
        using False l(3) by (simp add: scalar_def)
      moreover have "value_of (Elem (codes ''dict'') [] (filled (indent (Suc d)) (indent d) els [10])) = Inr (plist.Dict es)"
        unfolding value_of_named elements_lines l(2) by (simp add: try_text_def)
      ultimately show ?thesis using w indent_white by blast
    qed
  qed
next
  case (Array vs)
  have vs: "list_all writes vs" using Array by (auto simp: list_all_iff)
  show ?case unfolding writes_def
  proof
    fix d
    show "\<exists>c e. render_value (plist.Array vs) d = indent d @ c @ [10] \<and> written c e \<and> value_of e = Inr (plist.Array vs)"
    proof (cases "vs = []")
      case True
      have "written (codes ''<'' @ codes ''array'' @ codes ''/>'') (Elem (codes ''array'') [] [])"
        by (rule written_empty, rule ascii_name[OF names_ascii(2)]) simp
      moreover have "value_of (Elem (codes ''array'') [] []) = Inr (plist.Array vs)"
        unfolding value_of_named using True by (simp add: elements_def try_text_def)
      ultimately show ?thesis using True
        by (intro exI[of _ "codes ''<'' @ codes ''array'' @ codes ''/>''"]) (auto simp: scalar_def)
    next
      case False
      obtain cs els where l: "list_all2 written cs els" "map value_of els = map Inr vs"
        "concat (map (\<lambda>r. r (Suc d)) (map render_value vs)) = concat (map (\<lambda>c. indent (Suc d) @ c @ [10]) cs)"
        using writes_array_items[OF vs, of "Suc d"] by auto
      note w = written_lines[OF l(1) names_ascii(2), of "indent (Suc d)" "indent d"]
      have "render_value (plist.Array vs) d = indent d @ (codes ''<'' @ codes ''array'' @ codes ''>'' @ [10] @
          concat (map (\<lambda>c. indent (Suc d) @ c @ [10]) cs) @ indent d @ codes ''</'' @ codes ''array'' @ codes ''>'') @ [10]"
        using False l(3) by (simp add: scalar_def)
      moreover have "value_of (Elem (codes ''array'') [] (filled (indent (Suc d)) (indent d) els [10])) = Inr (plist.Array vs)"
        unfolding value_of_named elements_lines l(2) by (simp add: all_ok_map try_text_def)
      ultimately show ?thesis using w indent_white by blast
    qed
  qed
next
  case (Boolean b)
  have w: "written (codes ''<'' @ codes name @ codes ''/>'') (Elem (codes name) [] [])" if "name \<in> {''true'', ''false''}" for name
    by (rule written_empty, rule ascii_name) (use that names_ascii in auto)
  have r: "render_value (plist.Boolean b) d = indent d @ (codes ''<'' @ codes (if b then ''true'' else ''false'') @ codes ''/>'') @ [10]"
    "value_of (Elem (codes (if b then ''true'' else ''false'')) [] []) = Inr (plist.Boolean b)" for d
    using value_of_named(3,4) by (simp_all add: scalar_def)
  show ?case unfolding writes_def
  proof
    fix d
    show "\<exists>c e. render_value (plist.Boolean b) d = indent d @ c @ [10] \<and> written c e \<and> value_of e = Inr (plist.Boolean b)"
      using r w[of "if b then ''true'' else ''false''"] by (metis insertCI)
  qed
next
  case (Str s)
  show ?case by (rule writes_text[of _ "''string''" s])
    (simp_all add: ascii_alphanumeric_def scalar_def value_of.simps el_text_flush)
next
  case (Integer s)
  then show ?case by (intro writes_text[of _ "''integer''" s])
    (simp_all add: ascii_alphanumeric_def scalar_def value_of.simps el_text_flush)
next
  case (Real s)
  then show ?case by (intro writes_text[of _ "''real''" s])
    (simp_all add: ascii_alphanumeric_def scalar_def value_of.simps el_text_flush)
next
  case (Data s)
  then show ?case by (intro writes_text[of _ "''data''" s])
    (simp_all add: ascii_alphanumeric_def scalar_def value_of.simps el_text_flush list_all_iff)
next
  case (Date s)
  then show ?case by (intro writes_text[of _ "''date''" s])
    (simp_all add: ascii_alphanumeric_def scalar_def value_of.simps el_text_flush)
qed

lemma reads_declaration:
  "reads alnum src close (codes (''<?xml version='' @ double_quoted ''1.0'' @ '' encoding='' @ double_quoted ''UTF-8'' @ ''?>'') @ rest) nodes text =
   reads alnum src close rest nodes text"
proof -
  let ?d = "codes (''<?xml version='' @ double_quoted ''1.0'' @ '' encoding='' @ double_quoted ''UTF-8'' @ ''?>'')"
  have "find_text (codes ''?>'') (?d @ rest) = Some 36" by (simp add: double_quoted_def scalar_def)
  then have "content (Suc n) alnum src close (?d @ rest) nodes text = content n alnum src close rest nodes text" for n
    by (simp add: double_quoted_def scalar_def)
  moreover have "length rest < length (?d @ rest)" by (simp add: double_quoted_def)
  ultimately show ?thesis using content_reads unfolding reads_def by metis
qed

lemma parse_document:
  assumes "pl_ok (plist.Dict es)"
  shows "parse_entries alnum plain (render_document es) = Some (Inr es)"
proof -
  let ?src = "render_document es"
  obtain c e where e: "render_value (plist.Dict es) 0 = indent 0 @ c @ [10]" "written c e" "value_of e = Inr (plist.Dict es)"
    using writes_value[OF assms] unfolding writes_def by blast
  have e': "el_name e = codes ''dict''" "dict_entries value_of (elements e) [] = Inr es"
    using e(3) by (subst (asm) value_of.simps; auto simp: try_text_def split: if_splits sum.splits)+
  let ?plist = "codes ''<plist version='' @ codes (double_quoted ''1.0'') @ codes ''>''"
  let ?doctype = "codes ''<!DOCTYPE'' @ codes ('' plist PUBLIC '' @ double_quoted ''-//Apple//DTD PLIST 1.0//EN'' @ '' '' @
       double_quoted ''http://www.apple.com/DTDs/PropertyList-1.0.dtd'') @ codes ''>''"
  let ?root = "Elem (codes ''plist'') [(codes ''version'', codes ''1.0'')] (filled [] [] [e] [10])"
  have name: "name_ok alnum (codes ''plist'')" by (rule ascii_name[OF names_ascii(5)]) simp
  have attr: "concat (map render_attr [(codes ''version'', codes ''1.0'')]) = codes '' version='' @ codes (double_quoted ''1.0'')"
    by (simp add: render_attr_def escape_def escape_char_def double_quoted_def scalar_def)
  have root: "reads alnum ?src None (?plist @ [10] @ c @ [10] @ codes ''</plist>'' @ rest) nodes text =
      reads alnum ?src None rest (flush nodes text @ [Element ?root]) []" for rest nodes "text"
  proof -
    have "reads alnum ?src (Some (codes ''plist'')) ([10] @ c @ [10] @ codes ''</plist>'' @ rest) [] [] =
        Some (Inr (filled [] [] [e] [10], rest))"
      using reads_lines[of "[c]" "[e]" "codes ''plist''" "[10]" "[]" "[]" ?src rest "[]"] e(2) name by (simp add: scalar_def)
    from reads_inside[OF name this, of "[(codes ''version'', codes ''1.0'')]" None nodes "text", unfolded attr] ascii_name[of "codes ''version''"]
    show ?thesis by (simp add: scalar_def ascii_alphanumeric_def)
  qed
  have "?src = codes (''<?xml version='' @ double_quoted ''1.0'' @ '' encoding='' @ double_quoted ''UTF-8'' @ ''?>'') @ [10] @
      ?doctype @ [10] @ ?plist @ [10] @ c @ [10] @ codes ''</plist>'' @ [10] @ []"
    using e(1) by (simp add: render_document_def indent_def scalar_def)
  then have "reads alnum ?src None ?src [] [] = reads alnum ?src None ([10] @
      ?doctype @ [10] @ ?plist @ [10] @ c @ [10] @ codes ''</plist>'' @ [10] @ []) [] []"
    using reads_declaration[of ?src None _ "[]" "[]"] by metis
  also have "\<dots> = reads alnum ?src None (?doctype @ [10] @ ?plist @ [10] @ c @ [10] @ codes ''</plist>'' @ [10] @ []) [] [10]"
    by (subst reads_white) (simp_all add: scalar_def)
  also have "\<dots> = reads alnum ?src None ([10] @ ?plist @ [10] @ c @ [10] @ codes ''</plist>'' @ [10] @ []) [] [10]"
    using reads_doctype[of "codes ('' plist PUBLIC '' @ double_quoted ''-//Apple//DTD PLIST 1.0//EN'' @ '' '' @
       double_quoted ''http://www.apple.com/DTDs/PropertyList-1.0.dtd'')"]
    by (simp add: double_quoted_def scalar_def)
  also have "\<dots> = reads alnum ?src None (?plist @ [10] @ c @ [10] @ codes ''</plist>'' @ [10] @ []) [] [10, 10]"
    by (subst reads_white) (simp_all add: scalar_def)
  also have "\<dots> = reads alnum ?src None ([10] @ []) [Text [10, 10], Element ?root] []"
    by (subst root) (simp add: flush_def)
  also have "\<dots> = Some (Inr ([Text [10, 10], Element ?root, Text [10]], []))"
    by (subst reads_white) (simp_all add: reads_end flush_def)
  finally have "parse_nodes alnum ?src = Some (Inr [Element ?root])"
    by (simp add: parse_nodes_def reads_def blank_def trim_def trim_start_def is_white_def)
  moreover have "top_entries [?root] = Inr es"
    using e' elements_lines[of "codes ''plist''" _ "[]" "[]" "[e]" "[10]"] by (simp add: top_entries_def scalar_def)
  ultimately show ?thesis by (simp add: parse_entries_def try_text_def)
qed

end

section \<open>Properties\<close>

text \<open>C31: a written document reads back as the same list. For every list with no repeated key in any
  dictionary, no white space around its numbers and dates and none in its data, at any depth and with any
  characters in its keys and strings, \<open>parse_entries\<close> of \<open>render_document\<close> returns exactly its
  entries, in order.\<close>

theorem plist_roundtrip:
  assumes "char_classes alnum" "pl_ok (Dict es)"
  shows "parse_entries alnum plain (render_document es) = Some (Inr es)"
  by (rule char_classes.parse_document[OF assms])

theorem plist_roundtrip_witness:
  "parse_entries ascii_alphanumeric (\<lambda>c. c < 127)
     (render_document [(codes ''a < b'', Array [Str [], Integer (codes ''7''), Dict [(codes ''k'', Boolean True)]])]) =
   Some (Inr [(codes ''a < b'', Array [Str [], Integer (codes ''7''), Dict [(codes ''k'', Boolean True)]])])"
  by (rule plist_roundtrip[OF ascii_classes.char_classes_axioms])
    (simp add: trim_def trim_start_def is_white_def scalar_def)

end
