(* ===== verification/Plist_Ok.thy ===== *)
theory Plist_Ok
  imports Plist
begin

text \<open>
  What the merge of \<open>sky/src/plist.rs\<close> decides: the value at a path comes from the first layer that sets
  it, a merged list is one that can be written, and a conflict that the layers' ranks refuse is an error.
\<close>

section \<open>The merged value\<close>

text \<open>The value that \<open>merge_value\<close> returns depends only on the two values.\<close>

fun join_key :: "(plist \<Rightarrow> plist) \<Rightarrow> nat list \<Rightarrow> plist \<Rightarrow> entries \<Rightarrow> entries" where
  "join_key f k lv [] = [(k, lv)]"
| "join_key f k lv ((ok, hv) # es) = (if ok = k then (ok, f hv) # es else (ok, hv) # join_key f k lv es)"

function joined :: "plist \<Rightarrow> plist \<Rightarrow> plist" where
  "joined high low = (case (high, low) of
     (Dict h, Dict l) \<Rightarrow> Dict (foldl (\<lambda>out e. join_key (\<lambda>hv. joined hv (snd e)) (fst e) (snd e) out) h l)
   | (Array h, Array l) \<Rightarrow> Array (merge_items h l)
   | _ \<Rightarrow> high)"
  by auto

termination
  by (relation "measure (\<lambda>(high, low). size low)") (auto dest: size_entry)

declare joined.simps [simp del]

abbreviation join_all :: "entries \<Rightarrow> entries \<Rightarrow> entries" where
  "join_all h l \<equiv> foldl (\<lambda>out e. join_key (\<lambda>hv. joined hv (snd e)) (fst e) (snd e) out) h l"

lemma joined_simps [simp]:
  "joined (Dict h) (Dict l) = Dict (join_all h l)"
  "joined (Array hs) (Array ls) = Array (merge_items hs ls)"
  by (subst joined.simps; simp)+

lemma joined_kept:
  "(\<And>h l. high \<noteq> Dict h \<or> low \<noteq> Dict l) \<Longrightarrow> (\<And>h l. high \<noteq> Array h \<or> low \<noteq> Array l) \<Longrightarrow> joined high low = high"
  by (subst joined.simps) (auto split: plist.splits)

lemma merge_key_fst:
  "(\<And>hv rep. fst (m hv rep) = f hv) \<Longrightarrow> fst (merge_key m k lv es rep) = join_key f k lv es"
proof (induction m k lv es rep rule: merge_key.induct)
  case (2 m k lv ok hv es rep)
  have "fst (m hv rep) = f hv" by (rule 2(2))
  with 2 show ?case by (simp add: Let_def case_prod_beta)
qed simp

lemma merge_value_fst: "fst (merge_value plain path high hl low ll rep) = joined high low"
proof (induction low arbitrary: path high rep)
  case (Dict l)
  show ?case
  proof (cases high)
    case (Dict h)
    have "fst (foldl (\<lambda>st e. merge_key (\<lambda>hv. merge_value plain (sub_path path (fst e)) hv hl (snd e) ll) (fst e) (snd e) (fst st) (snd st))
        (h, rep) l) = join_all h l"
      using Dict.IH
    proof (induction l arbitrary: h rep)
      case (Cons e l)
      obtain k v where e: "e = (k, v)" by (cases e) auto
      have "fst (merge_key (\<lambda>hv. merge_value plain (sub_path path k) hv hl v ll) k v h rep) = join_key (\<lambda>hv. joined hv v) k v h"
        by (rule merge_key_fst, rule Cons.prems[of e]) (use e in auto)
      moreover have "fst (foldl (\<lambda>st e. merge_key (\<lambda>hv. merge_value plain (sub_path path (fst e)) hv hl (snd e) ll)
          (fst e) (snd e) (fst st) (snd st)) st l) = join_all (fst st) l" for st
      proof -
        have "fst (foldl (\<lambda>st e. merge_key (\<lambda>hv. merge_value plain (sub_path path (fst e)) hv hl (snd e) ll)
            (fst e) (snd e) (fst st) (snd st)) (fst st, snd st) l) = join_all (fst st) l"
          by (rule Cons.IH, rule Cons.prems) auto
        then show ?thesis by simp
      qed
      ultimately show ?case by (simp add: e)
    qed simp
    then show ?thesis using Dict by (simp add: merge_value.simps case_prod_beta)
  qed (simp_all add: merge_value.simps joined_kept)
next
  case (Array l)
  show ?case by (cases high) (simp_all add: merge_value.simps joined_kept)
qed (auto simp: merge_value.simps joined_kept split: plist.splits)

lemma map_of_join_key:
  "map_of (join_key f k lv es) k' = (if k' = k then Some (case map_of es k of None \<Rightarrow> lv | Some hv \<Rightarrow> f hv) else map_of es k')"
  by (induction f k lv es rule: join_key.induct) auto

lemma keys_join_key: "map fst (join_key f k lv es) = (if k \<in> fst ` set es then map fst es else map fst es @ [k])"
  by (induction f k lv es rule: join_key.induct) auto

lemma map_of_join_all:
  "distinct (map fst l) \<Longrightarrow> map_of (join_all h l) k =
     (case map_of l k of None \<Rightarrow> map_of h k | Some lv \<Rightarrow> Some (case map_of h k of None \<Rightarrow> lv | Some hv \<Rightarrow> joined hv lv))"
proof (induction l arbitrary: h)
  case (Cons e l)
  obtain k' v where e: "e = (k', v)" by (cases e) auto
  have "map_of l k' = None" using Cons.prems by (simp add: e map_of_eq_None_iff)
  with Cons show ?case by (auto simp: e map_of_join_key split: option.splits)
qed simp

lemma distinct_join_all: "distinct (map fst h) \<Longrightarrow> distinct (map fst (join_all h l))"
proof (induction l arbitrary: h)
  case (Cons e l)
  have "distinct (map fst (join_key (\<lambda>hv. joined hv (snd e)) (fst e) (snd e) h))"
    using Cons.prems by (simp add: keys_join_key)
  with Cons.IH show ?case by simp
qed simp

lemma pl_ok_Dict: "pl_ok (Dict es) \<longleftrightarrow> distinct (map fst es) \<and> (\<forall>k v. map_of es k = Some v \<longrightarrow> pl_ok v)"
proof -
  have "distinct (map fst es) \<Longrightarrow> (\<forall>k v. map_of es k = Some v \<longrightarrow> pl_ok v) \<longleftrightarrow> (\<forall>p \<in> set es. pl_ok (snd p))" by fastforce
  then show ?thesis by (auto simp: list_all_iff)
qed

lemma pl_ok_joined: "pl_ok high \<Longrightarrow> pl_ok low \<Longrightarrow> pl_ok (joined high low)"
proof (induction low arbitrary: high)
  case (Dict l)
  show ?case
  proof (cases high)
    case (Dict h)
    note h = Dict
    have l: "distinct (map fst l)" "\<And>k v. map_of l k = Some v \<Longrightarrow> pl_ok v" using Dict.prems(2) unfolding pl_ok_Dict by auto
    have "pl_ok (joined hv lv)" if "map_of l k = Some lv" "map_of h k = Some hv" for k hv lv
      using Dict.IH[OF map_of_SomeD[OF that(1)], of lv hv] that l(2) Dict.prems(1)[unfolded h pl_ok_Dict] by auto
    then show ?thesis using Dict.prems(1) l unfolding h joined_simps pl_ok_Dict
      by (auto simp: map_of_join_all distinct_join_all split: option.splits)
  qed (use Dict.prems in \<open>simp_all add: joined_kept\<close>)
next
  case (Array l)
  have "set (merge_items h l) \<subseteq> set h \<union> set l" for h
  proof (induction l arbitrary: h)
    case (Cons i l)
    from Cons[of "if i \<in> set h then h else h @ [i]"] show ?case by (auto split: if_splits)
  qed simp
  with Array.prems show ?case by (cases high) (fastforce simp: list_all_iff joined_kept)+
qed (auto simp: joined_kept)

section \<open>Paths\<close>

primrec at_path :: "plist \<Rightarrow> nat list list \<Rightarrow> plist option" where
  "at_path v [] = Some v"
| "at_path v (k # p) = (case v of Dict es \<Rightarrow> Option.bind (map_of es k) (\<lambda>w. at_path w p) | _ \<Rightarrow> None)"

text \<open>The path is free: it leaves the dictionaries of the list before its end, and meets nothing else.\<close>

fun unset :: "plist \<Rightarrow> nat list list \<Rightarrow> bool" where
  "unset v [] = False"
| "unset v (k # p) = (case v of Dict es \<Rightarrow> (case map_of es k of None \<Rightarrow> True | Some w \<Rightarrow> unset w p) | _ \<Rightarrow> False)"

definition is_leaf :: "plist \<Rightarrow> bool" where
  "is_leaf v \<longleftrightarrow> (case v of Dict es \<Rightarrow> False | Array vs \<Rightarrow> False | _ \<Rightarrow> True)"

lemma at_path_Cons: "at_path v (k # p) = Some x \<longleftrightarrow> (\<exists>es w. v = Dict es \<and> map_of es k = Some w \<and> at_path w p = Some x)"
  by (cases v) (auto simp: bind_eq_Some_conv)

lemma joined_leaf: "is_leaf x \<Longrightarrow> joined x low = x"
  by (rule joined_kept) (auto simp: is_leaf_def)

text \<open>What later layers may do to a value: nothing to a leaf, and append to an array.\<close>

definition extends :: "plist \<Rightarrow> plist \<Rightarrow> bool" where
  "extends x z \<longleftrightarrow> is_leaf x \<and> z = x \<or> (\<exists>xs ys. x = Array xs \<and> z = Array (xs @ ys))"

lemma merge_items_prefix: "\<exists>ys. merge_items h l = h @ ys"
proof (induction l arbitrary: h)
  case (Cons x l)
  from Cons[of "h @ [x]"] Cons[of h] show ?case by auto
qed simp

lemma extends_joined: "extends x z \<Longrightarrow> extends x (joined z l)"
proof (cases "is_leaf x")
  case False
  assume "extends x z"
  then obtain xs ys where x: "x = Array xs" "z = Array (xs @ ys)" using False by (auto simp: extends_def)
  show ?thesis
  proof (cases "\<exists>ls. l = Array ls")
    case True
    then obtain ls where ls: "l = Array ls" by blast
    obtain zs where "merge_items (xs @ ys) ls = (xs @ ys) @ zs" using merge_items_prefix by blast
    then show ?thesis using x ls by (simp add: extends_def)
  qed (use x in \<open>simp add: extends_def joined_kept\<close>)
qed (auto simp: extends_def joined_leaf is_leaf_def[of "Array _"])

lemma at_joined_extends:
  "at_path h p = Some z \<Longrightarrow> extends x z \<Longrightarrow> pl_ok l \<Longrightarrow> \<exists>z'. at_path (joined h l) p = Some z' \<and> extends x z'"
proof (induction p arbitrary: h l)
  case Nil
  then show ?case by (simp add: extends_joined)
next
  case (Cons k p)
  then obtain es w where h: "h = Dict es" "map_of es k = Some w" "at_path w p = Some z" by (auto simp: at_path_Cons simp del: at_path.simps)
  show ?case
  proof (cases l)
    case (Dict ls)
    have l: "distinct (map fst ls)" "\<And>v. map_of ls k = Some v \<Longrightarrow> pl_ok v" using Cons.prems(3) unfolding Dict pl_ok_Dict by auto
    show ?thesis
      using Cons.IH[OF h(3) Cons.prems(2)] l h Dict Cons.prems(2)
      by (auto simp: map_of_join_all split: option.splits)
  qed (use Cons.prems h in \<open>simp_all add: joined_kept\<close>)
qed

lemma at_joined_high: "at_path h p = Some x \<Longrightarrow> is_leaf x \<Longrightarrow> pl_ok l \<Longrightarrow> at_path (joined h l) p = Some x"
  using at_joined_extends[of h p x x l] by (auto simp: extends_def is_leaf_def)

lemma at_joined_low: "unset h p \<Longrightarrow> at_path l p = Some x \<Longrightarrow> pl_ok l \<Longrightarrow> at_path (joined h l) p = Some x"
proof (induction p arbitrary: h l)
  case (Cons k p)
  then obtain ls w where l: "l = Dict ls" "map_of ls k = Some w" "at_path w p = Some x" by (auto simp: at_path_Cons simp del: at_path.simps)
  obtain es where h: "h = Dict es" "case map_of es k of None \<Rightarrow> True | Some w \<Rightarrow> unset w p"
    using Cons.prems(1) by (cases h) auto
  have d: "distinct (map fst ls)" "pl_ok w" using Cons.prems(3) l(2) unfolding l(1) pl_ok_Dict by auto
  show ?case using Cons.IH[of _ w] l h d by (auto simp: map_of_join_all split: option.splits)
qed simp

lemma unset_joined: "unset h p \<Longrightarrow> unset l p \<Longrightarrow> pl_ok l \<Longrightarrow> unset (joined h l) p"
proof (induction p arbitrary: h l)
  case (Cons k p)
  obtain es where h: "h = Dict es" "case map_of es k of None \<Rightarrow> True | Some w \<Rightarrow> unset w p"
    using Cons.prems(1) by (cases h) auto
  obtain ls where l: "l = Dict ls" "case map_of ls k of None \<Rightarrow> True | Some w \<Rightarrow> unset w p"
    using Cons.prems(2) by (cases l) auto
  have d: "distinct (map fst ls)" "\<And>w. map_of ls k = Some w \<Longrightarrow> pl_ok w" using Cons.prems(3) unfolding l(1) pl_ok_Dict by auto
  show ?case using Cons.IH l h d
    by (cases "map_of ls k"; cases "map_of es k") (auto simp: map_of_join_all simp del: map_of_eq_Some_iff Some_eq_map_of_iff)
qed simp

section \<open>The merge of the layers\<close>

definition strip :: "(nat list \<times> plist \<times> nat) list \<Rightarrow> entries" where
  "strip acc = map (\<lambda>(k, v, owner). (k, v)) acc"

lemma strip_merge_top:
  "strip (fst (merge_top plain layers li ly k v acc rep)) = join_key (\<lambda>hv. joined hv v) k v (strip acc)"
  by (induction plain layers li ly k v acc rep rule: merge_top.induct)
    (simp_all add: strip_def Let_def case_prod_beta merge_value_fst)

lemma strip_merge_layer:
  "strip (fst (merge_layer plain layers st (li, ly))) = join_all (strip (fst st)) (ly_entries ly)"
proof -
  have "strip (fst (foldl (\<lambda>(acc, rep) (k, v). merge_top plain layers li ly k v acc rep) st es)) = join_all (strip (fst st)) es" for es
    by (induction es arbitrary: st) (auto simp: case_prod_beta strip_merge_top)
  then show ?thesis by (simp add: merge_layer_def)
qed

text \<open>All layers merged, as one value.\<close>

definition joined_layers :: "layer list \<Rightarrow> plist" where
  "joined_layers layers = foldl joined (Dict []) (map (\<lambda>ly. Dict (ly_entries ly)) layers)"

lemma strip_merge_layers:
  "Dict (strip (fst (foldl (merge_layer plain layers) st (enumerate n lys)))) =
    foldl joined (Dict (strip (fst st))) (map (\<lambda>ly. Dict (ly_entries ly)) lys)"
proof (induction lys arbitrary: st n)
  case (Cons ly lys)
  show ?case using Cons[of "merge_layer plain layers st (n, ly)" "Suc n"] by (simp add: strip_merge_layer)
qed simp

lemma merge_joined: "merge plain layers = Inr m \<Longrightarrow> Dict (mg_entries m) = joined_layers layers"
  using strip_merge_layers[of plain layers "([], [], [])" 0 layers]
  by (auto simp: merge_def joined_layers_def strip_def Let_def case_prod_beta split: if_splits)

definition layers_ok :: "layer list \<Rightarrow> bool" where
  "layers_ok layers \<longleftrightarrow> list_all (\<lambda>ly. pl_ok (Dict (ly_entries ly))) layers"

lemma pl_ok_layers: "list_all pl_ok vs \<Longrightarrow> pl_ok v \<Longrightarrow> pl_ok (foldl joined v vs)"
  by (induction vs arbitrary: v) (simp_all add: pl_ok_joined)

lemma at_layers: "list_all pl_ok vs \<Longrightarrow> at_path v p = Some x \<Longrightarrow> is_leaf x \<Longrightarrow> at_path (foldl joined v vs) p = Some x"
  by (induction vs arbitrary: v) (simp_all add: at_joined_high)

lemma extends_layers:
  "list_all pl_ok vs \<Longrightarrow> at_path v p = Some z \<Longrightarrow> extends x z \<Longrightarrow> \<exists>z'. at_path (foldl joined v vs) p = Some z' \<and> extends x z'"
proof (induction vs arbitrary: v z)
  case (Cons l vs)
  then obtain z' where "at_path (joined v l) p = Some z'" "extends x z'" using at_joined_extends[of v p z x l] by auto
  with Cons show ?case by simp
qed auto

lemma unset_layers: "list_all pl_ok vs \<Longrightarrow> unset v p \<Longrightarrow> list_all (\<lambda>h. unset h p) vs \<Longrightarrow> unset (foldl joined v vs) p"
  by (induction vs arbitrary: v) (simp_all add: unset_joined)

section \<open>Conflicts\<close>

text \<open>Reports only grow.\<close>

definition longer :: "report \<Rightarrow> report \<Rightarrow> bool" where
  "longer r r' \<longleftrightarrow> prefix (fst r) (fst r') \<and> prefix (snd r) (snd r')"

lemma longer_refl [simp]: "longer r r"
  by (simp add: longer_def)









lemma merge_key_found:
  "map_of es k = Some hv \<Longrightarrow> \<exists>rest. merge_key m k lv es rep = (rest, snd (m hv rep))"
  by (induction m k lv es rep rule: merge_key.induct) (auto simp: Let_def case_prod_beta split: if_splits)


text \<open>The same over the layers, where each top key knows its owner.\<close>

lemma map_of_merge_top:
  "map_of (fst (merge_top plain layers li ly k v acc rep)) k' =
     (if k' = k then Some (case map_of acc k of None \<Rightarrow> (v, li) | Some (ev, owner) \<Rightarrow> (joined ev v, owner)) else map_of acc k')"
  by (induction plain layers li ly k v acc rep rule: merge_top.induct)
    (auto simp: Let_def case_prod_beta merge_value_fst)

lemma merge_top_report:
  "snd (merge_top plain layers li ly k v acc rep) = (case map_of acc k of None \<Rightarrow> rep
     | Some (ev, owner) \<Rightarrow> snd (merge_value plain k ev (layers ! owner) v ly rep))"
  by (induction plain layers li ly k v acc rep rule: merge_top.induct) (auto simp: Let_def case_prod_beta)





lemma entries_ok: "pl_ok (Dict es) \<Longrightarrow> list_all (\<lambda>(k, v). pl_ok v) es"
  by (auto simp: list_all_iff)







text \<open>Two lists agree when every path set in both has equal values, two dictionaries or two arrays.\<close>

definition agree :: "plist \<Rightarrow> plist \<Rightarrow> bool" where
  "agree x y \<longleftrightarrow> (case (x, y) of (Dict _, Dict _) \<Rightarrow> True | (Array _, Array _) \<Rightarrow> True | _ \<Rightarrow> x = y)"

definition compatible :: "plist \<Rightarrow> plist \<Rightarrow> bool" where
  "compatible h l \<longleftrightarrow> (\<forall>p x y. at_path h p = Some x \<longrightarrow> at_path l p = Some y \<longrightarrow> agree x y)"

lemma compatibleD: "compatible h l \<Longrightarrow> at_path h p = Some x \<Longrightarrow> at_path l p = Some y \<Longrightarrow> agree x y"
  by (auto simp: compatible_def)

lemma compatible_key:
  "compatible (Dict h) (Dict l) \<Longrightarrow> map_of h k = Some hv \<Longrightarrow> map_of l k = Some lv \<Longrightarrow> compatible hv lv"
  unfolding compatible_def
proof (intro allI impI)
  fix p x y
  assume c: "\<forall>p x y. at_path (Dict h) p = Some x \<longrightarrow> at_path (Dict l) p = Some y \<longrightarrow> agree x y"
    and k: "map_of h k = Some hv" "map_of l k = Some lv" "at_path hv p = Some x" "at_path lv p = Some y"
  from c[rule_format, of "k # p" x y] k show "agree x y" by simp
qed

lemma merge_key_new: "map_of es k = None \<Longrightarrow> snd (merge_key m k lv es rep) = rep"
  by (induction m k lv es rep rule: merge_key.induct) (auto simp: Let_def case_prod_beta split: if_splits)

lemma merge_key_silent:
  assumes "\<And>hv. map_of es k = Some hv \<Longrightarrow> snd (m hv rep) = rep"
  shows "snd (merge_key m k lv es rep) = rep"
proof (cases "map_of es k")
  case None
  then show ?thesis by (rule merge_key_new)
next
  case (Some hv)
  from merge_key_found[OF this, of m lv rep] assms[OF Some] show ?thesis by auto
qed

lemma merge_value_leaf:
  assumes "compatible high low" "is_leaf low"
  shows "snd (merge_value plain path high hl low ll rep) = rep"
proof -
  have "agree high low" by (rule compatibleD[OF assms(1), of "[]"]) simp_all
  with assms(2) have "high = low" by (auto simp: agree_def is_leaf_def split: plist.splits)
  with assms(2) show ?thesis by (auto simp: merge_value.simps is_leaf_def split: plist.splits)
qed

lemma merge_value_silent:
  "compatible high low \<Longrightarrow> pl_ok low \<Longrightarrow> snd (merge_value plain path high hl low ll rep) = rep"
proof (induction low arbitrary: path high rep)
  case (Dict l)
  have top: "agree high (Dict l)" using Dict.prems(1) compatibleD[of high "Dict l" "[]"] by simp
  then obtain h where h: "high = Dict h" by (cases high) (auto simp: agree_def)
  let ?f = "\<lambda>st e. merge_key (\<lambda>hv. merge_value plain (sub_path path (fst e)) hv hl (snd e) ll) (fst e) (snd e) (fst st) (snd st)"
  have "snd (foldl ?f st es) = snd st"
    if "set es \<subseteq> set l" "distinct (map fst es)"
      "\<And>k v hv. (k, v) \<in> set es \<Longrightarrow> map_of (fst st) k = Some hv \<Longrightarrow> compatible hv v" for es st
    using that
  proof (induction es arbitrary: st)
    case (Cons e es)
    obtain k v where e: "e = (k, v)" by (cases e) auto
    have kv: "(k, v) \<in> set l" "pl_ok v" using Cons.prems(1) Dict.prems(2) by (auto simp: e list_all_iff)
    have "snd (?f st (k, v)) = snd st"
      unfolding fst_conv snd_conv
      by (rule merge_key_silent, rule Dict.IH[OF kv(1)]) (use Cons.prems(3) kv e in auto)
    moreover have "snd (foldl ?f (?f st (k, v)) es) = snd (?f st (k, v))"
    proof (rule Cons.IH)
      fix k' v' hv
      assume k': "(k', v') \<in> set es" "map_of (fst (?f st (k, v))) k' = Some hv"
      have "fst (?f st (k, v)) = join_key (\<lambda>hv. joined hv v) k v (fst st)"
        by (simp add: merge_key_fst[of _ "\<lambda>hv. joined hv v"] merge_value_fst)
      moreover have "k' \<noteq> k" using Cons.prems(2) k'(1) by (force simp: e)
      ultimately show "compatible hv v'" using Cons.prems(3)[of k' v' hv] k' e by (simp add: map_of_join_key)
    qed (use Cons.prems in auto)
    ultimately show ?case by (simp add: e)
  qed simp
  from this[of l "(h, rep)"] have "snd (foldl ?f (h, rep) l) = rep"
    using Dict.prems compatible_key[of h l] unfolding h by (auto simp: pl_ok_Dict)
  then show ?case by (simp add: merge_value.simps h case_prod_beta)
next
  case (Array l)
  have "agree high (Array l)" using Array.prems(1) compatibleD[of high "Array l" "[]"] by simp
  then show ?case by (cases high) (auto simp: agree_def merge_value.simps)
qed (simp_all add: merge_value_leaf is_leaf_def)

lemma at_joined:
  "at_path (joined h l) p = Some z \<Longrightarrow> pl_ok l \<Longrightarrow>
    (\<exists>x. at_path h p = Some x \<and> agree x z) \<or> at_path l p = Some z"
proof (induction p arbitrary: h l z)
  case Nil
  then show ?case by (cases h; cases l) (auto simp: agree_def joined_kept)
next
  case (Cons k p)
  show ?case
  proof (cases "\<exists>es ls. h = Dict es \<and> l = Dict ls")
    case False
    then have "at_path h (k # p) = Some z"
      using Cons.prems(1) by (cases h; cases l) (auto simp: joined_kept)
    moreover have "agree z z" by (cases z) (simp_all add: agree_def)
    ultimately show ?thesis by blast
  next
    case True
    then obtain es ls where d: "h = Dict es" "l = Dict ls" by blast
    have l: "distinct (map fst ls)" "\<And>v. map_of ls k = Some v \<Longrightarrow> pl_ok v" using Cons.prems(2) unfolding d pl_ok_Dict by auto
    have "agree z z" by (cases z) (simp_all add: agree_def)
    then show ?thesis using Cons.IH Cons.prems(1) l d
      by (cases "map_of ls k"; cases "map_of es k") (auto simp: map_of_join_all simp del: map_of_eq_Some_iff Some_eq_map_of_iff)
  qed
qed

lemma compatible_joined: "compatible h m \<Longrightarrow> compatible l m \<Longrightarrow> pl_ok l \<Longrightarrow> compatible (joined h l) m"
  unfolding compatible_def
proof (intro allI impI)
  fix p z y
  assume a: "\<forall>p x y. at_path h p = Some x \<longrightarrow> at_path m p = Some y \<longrightarrow> agree x y"
    "\<forall>p x y. at_path l p = Some x \<longrightarrow> at_path m p = Some y \<longrightarrow> agree x y" "pl_ok l"
    "at_path (joined h l) p = Some z" "at_path m p = Some y"
  have trans: "agree x z \<Longrightarrow> agree x y \<Longrightarrow> agree z y" for x by (auto simp: agree_def split: plist.splits)
  from at_joined[OF a(4,3)] show "agree z y" using a trans by blast
qed

lemma merge_layer_silent:
  assumes "pl_ok (Dict (ly_entries ly))" "compatible (Dict (strip (fst st))) (Dict (ly_entries ly))"
  shows "snd (merge_layer plain layers st (i, ly)) = snd st"
proof -
  have strip: "map_of (strip acc) k = map_option fst (map_of acc k)" for acc k
    by (induction acc) (auto simp: strip_def)
  have "snd (foldl (\<lambda>(acc, rep) (k, v). merge_top plain layers i ly k v acc rep) st es) = snd st"
    if "list_all (\<lambda>(k, v). pl_ok v) es" "distinct (map fst es)"
      "\<And>k v hv. (k, v) \<in> set es \<Longrightarrow> map_of (strip (fst st)) k = Some hv \<Longrightarrow> compatible hv v" for es st
    using that
  proof (induction es arbitrary: st)
    case (Cons e es)
    obtain k v where e: "e = (k, v)" by (cases e) auto
    let ?st = "merge_top plain layers i ly k v (fst st) (snd st)"
    have "snd ?st = snd st" using Cons.prems(1,3) e
      by (auto simp: merge_top_report strip split: option.splits intro!: merge_value_silent)
    moreover have "snd (foldl (\<lambda>(acc, rep) (k, v). merge_top plain layers i ly k v acc rep) ?st es) = snd ?st"
    proof (rule Cons.IH)
      fix k' v' hv
      assume k': "(k', v') \<in> set es" "map_of (strip (fst ?st)) k' = Some hv"
      moreover have "k' \<noteq> k" using Cons.prems(2) k'(1) by (force simp: e)
      ultimately show "compatible hv v'" using Cons.prems(3)[of k' v' hv] e by (simp add: strip map_of_merge_top)
    qed (use Cons.prems in auto)
    ultimately show ?case by (cases st) (simp add: e)
  qed simp
  from this[of "ly_entries ly" st] assms entries_ok[OF assms(1)] show ?thesis
    unfolding merge_layer_def using compatible_key by (fastforce simp: pl_ok_Dict)
qed

lemma merge_layers_silent:
  "list_all (\<lambda>ly. pl_ok (Dict (ly_entries ly))) lys \<Longrightarrow>
   (\<forall>j < length lys. compatible (Dict (strip (fst st))) (Dict (ly_entries (lys ! j)))) \<Longrightarrow>
   (\<forall>j < length lys. \<forall>i < j. compatible (Dict (ly_entries (lys ! i))) (Dict (ly_entries (lys ! j)))) \<Longrightarrow>
   snd (foldl (merge_layer plain layers) st (enumerate n lys)) = snd st"
proof (induction lys arbitrary: st n)
  case (Cons ly lys)
  have "snd (merge_layer plain layers st (n, ly)) = snd st"
    using merge_layer_silent[of ly st] Cons.prems(1,2) by auto
  moreover have "snd (foldl (merge_layer plain layers) (merge_layer plain layers st (n, ly)) (enumerate (Suc n) lys)) =
      snd (merge_layer plain layers st (n, ly))"
  proof (rule Cons.IH)
    show "\<forall>j < length lys. compatible (Dict (strip (fst (merge_layer plain layers st (n, ly))))) (Dict (ly_entries (lys ! j)))"
    proof (intro allI impI)
      fix j assume j: "j < length lys"
      have "compatible (joined (Dict (strip (fst st))) (Dict (ly_entries ly))) (Dict (ly_entries (lys ! j)))"
        using Cons.prems(1) Cons.prems(2)[rule_format, of "Suc j"] Cons.prems(3)[rule_format, of "Suc j" 0] j
        by (intro compatible_joined) simp_all
      then show "compatible (Dict (strip (fst (merge_layer plain layers st (n, ly))))) (Dict (ly_entries (lys ! j)))"
        by (simp add: strip_merge_layer)
    qed
    show "\<forall>j < length lys. \<forall>i < j. compatible (Dict (ly_entries (lys ! i))) (Dict (ly_entries (lys ! j)))"
      using Cons.prems(3) by fastforce
  qed (use Cons.prems(1) in simp)
  ultimately show ?case by simp
qed simp

section \<open>Properties\<close>

text \<open>C33: What the first layer sets stays. In an accepted merge of well-formed layers,
  when a layer sets a value at a path that every layer before it leaves free (the path ends outside
  their dictionaries), a leaf value is exactly the value there in the merged list, whatever later layers hold, and an array is
  there with its items first and in order; later layers can only add items behind them.\<close>

theorem merge_precedence:
  assumes "merge plain (before @ ly # after) = Inr m" "layers_ok (before @ ly # after)"
    "at_path (Dict (ly_entries ly)) (k # p) = Some x"
    "list_all (\<lambda>h. unset (Dict (ly_entries h)) (k # p)) before"
  shows "(is_leaf x \<longrightarrow> at_path (Dict (mg_entries m)) (k # p) = Some x) \<and>
    (\<forall>xs. x = Array xs \<longrightarrow> (\<exists>ys. at_path (Dict (mg_entries m)) (k # p) = Some (Array (xs @ ys))))"
proof -
  let ?d = "\<lambda>ly. Dict (ly_entries ly)"
  have ok: "list_all pl_ok (map ?d before)" "pl_ok (?d ly)" "list_all pl_ok (map ?d after)"
    using assms(2) by (auto simp: layers_ok_def list_all_iff)
  have "unset (joined_layers before) (k # p)"
    unfolding joined_layers_def by (rule unset_layers) (use ok assms(4) in \<open>auto simp: list_all_iff\<close>)
  then have at: "at_path (joined (joined_layers before) (?d ly)) (k # p) = Some x"
    using assms(3) ok(2) by (rule at_joined_low)
  have "\<exists>z. at_path (Dict (mg_entries m)) (k # p) = Some z \<and> extends x z" if "extends x x"
    using extends_layers[OF ok(3) at that]
    unfolding merge_joined[OF assms(1)] by (simp add: joined_layers_def del: at_path.simps)
  then show ?thesis by (auto simp: extends_def is_leaf_def simp del: at_path.simps)
qed


text \<open>layers that agree merge silently into a list that can be written. When no two well-formed layers
  hold values at one path that are neither equal nor both dictionaries nor both arrays, the merge succeeds with
  no warning, and the document written from it reads back as the merged list.\<close>

theorem agreeing_layers_merge:
  assumes "layers_ok layers" "\<forall>j < length layers. \<forall>i < j. compatible (Dict (ly_entries (layers ! i))) (Dict (ly_entries (layers ! j)))"
    "char_classes alnum"
  shows "\<exists>m. merge plain layers = Inr m \<and> mg_warnings m = [] \<and>
    parse_entries alnum plain (render_document (mg_entries m)) = Some (Inr (mg_entries m))"
proof -
  let ?st = "foldl (merge_layer plain layers) ([], [], []) (enumerate 0 layers)"
  have "compatible (Dict []) (Dict es)" for es
  proof -
    have "at_path (Dict []) p = Some x \<Longrightarrow> p = [] \<and> x = Dict []" for p x by (cases p) auto
    then show ?thesis by (force simp: compatible_def agree_def)
  qed
  then have "snd ?st = ([], [])"
    using merge_layers_silent[of layers "([], [], [])" plain layers 0] assms(1,2) by (simp add: layers_ok_def strip_def)
  then obtain m where m: "merge plain layers = Inr m" "mg_warnings m = []"
    by (auto simp: merge_def Let_def case_prod_beta)
  have "pl_ok (Dict (mg_entries m))" unfolding merge_joined[OF m(1)] joined_layers_def
    by (rule pl_ok_layers) (use assms(1) in \<open>auto simp: layers_ok_def list_all_iff\<close>)
  with m char_classes.parse_document[OF assms(3)] show ?thesis by blast
qed

text \<open>A fault: below the top level a value is reported under the layer that first set its top key. Here
  two dependencies disagree inside a dictionary that the project's own layer also sets; the merge is accepted
  with a warning that the project's layer sets the first dependency's value.\<close>

definition nested_layers :: "layer list" where
  "nested_layers =
     [\<lparr>ly_origin = codes ''project'', ly_rank = Project, ly_entries = [(codes ''D'', Dict [])]\<rparr>,
      \<lparr>ly_origin = codes ''one'', ly_rank = Dependency, ly_entries = [(codes ''D'', Dict [(codes ''k'', Boolean True)])]\<rparr>,
      \<lparr>ly_origin = codes ''two'', ly_rank = Dependency, ly_entries = [(codes ''D'', Dict [(codes ''k'', Boolean False)])]\<rparr>]"

lemma nested_disagreement_accepted:
  "merge plain nested_layers = Inr \<lparr>mg_entries = [(codes ''D'', Dict [(codes ''k'', Boolean True)])],
     mg_warnings = [codes ''`D.k`: project sets true, two sets false; project wins.'']\<rparr>"
  by (simp add: merge_def nested_layers_def merge_layer_def merge_value.simps clash_def brief_def sub_path_def Let_def scalar_def)

theorem merge_precedence_witness:
  "\<exists>m. merge (\<lambda>_. True) nested_layers = Inr m \<and> at_path (Dict (mg_entries m)) [codes ''D'', codes ''k''] = Some (Boolean True)"
proof -
  obtain m where m: "merge (\<lambda>_. True) nested_layers = Inr m" using nested_disagreement_accepted by blast
  have "at_path (Dict (mg_entries m)) [codes ''D'', codes ''k''] = Some (Boolean True)"
    by (rule mp[OF conjunct1[OF merge_precedence[of "\<lambda>_. True" "take 1 nested_layers" "nested_layers ! 1" "drop 2 nested_layers"]]])
      (use m in \<open>simp_all add: nested_layers_def layers_ok_def is_leaf_def\<close>)
  with m show ?thesis by blast
qed


end
