(* ===== verification/Pool_Sizing.thy ===== *)
theory Pool_Sizing
  imports Rust_Text "HOL-Library.Word"
begin

text \<open>
  The sizing of database pools and clusters, \<open>sky/src/db_pool_sizing.rs\<close>: the knob as the runtime reads it from
  the environment, the \<open>.env\<close> and \<open>sky.toml\<close>, the pools a process opens, and the \<open>max_connections\<close> of the clusters
  that serve it. A \<open>u32\<close> is a 32-bit word and wraps, as in a release build.
\<close>

section \<open>Reading the knob\<close>

record pool_inputs =
  pi_cpus :: "32 word"
  pi_app_max_open :: "nat list option"

definition derived :: "32 word \<Rightarrow> pool_inputs" where
  "derived cpus = \<lparr>pi_cpus = cpus, pi_app_max_open = None\<rparr>"

definition parse_toml_scalar :: "nat list \<Rightarrow> nat list" where
  "parse_toml_scalar v =
     (let s = trim v;
          s = (if \<not> prefix (codes [dquote]) s \<and> \<not> prefix (codes [squote]) s then
                 (case find_where (\<lambda>c. c = chr CHR ''#'') s of Some i \<Rightarrow> trim (take i s) | None \<Rightarrow> s)
               else s) in
      trim_matches (chr squote) (trim_matches (chr dquote) (trim s)))"

text \<open>A line that is not blank, no comment and no section header: its value, when the section and the key are the ones asked for.\<close>

definition toml_pair :: "nat list \<Rightarrow> nat list \<Rightarrow> nat list \<Rightarrow> nat list \<Rightarrow> nat list option" where
  "toml_pair section key current line = (case split_once (chr CHR ''='') line of
     Some (k, v) \<Rightarrow> (if current = section \<and> trim k = key then Some (parse_toml_scalar v) else None)
   | None \<Rightarrow> None)"

definition toml_header :: "nat list \<Rightarrow> nat list option" where
  "toml_header line =
     (if prefix (codes ''['') line then
        map_option (\<lambda>i. trim_matches (chr dquote) (trim (drop 1 (take i line)))) (find_where (\<lambda>c. c = chr CHR '']'') line)
      else None)"

fun toml_scan :: "nat list \<Rightarrow> nat list \<Rightarrow> nat list \<Rightarrow> nat list list \<Rightarrow> nat list option" where
  "toml_scan section key current [] = None"
| "toml_scan section key current (raw # lines) =
     (let line = trim raw in
      if line = [] \<or> prefix (codes ''#'') line then toml_scan section key current lines
      else (case toml_header line of
          Some current \<Rightarrow> toml_scan section key current lines
        | None \<Rightarrow> (case toml_pair section key current line of
            Some v \<Rightarrow> Some v
          | None \<Rightarrow> toml_scan section key current lines)))"

definition toml_value :: "nat list \<Rightarrow> nat list \<Rightarrow> nat list \<Rightarrow> nat list option" where
  "toml_value toml section key = toml_scan section key [] (text_lines toml)"

definition unquoted :: "nat list \<Rightarrow> nat list" where
  "unquoted v =
     (if 2 \<le> length v \<and> (hd v = chr dquote \<and> last v = chr dquote \<or> hd v = chr squote \<and> last v = chr squote)
      then take (length v - 2) (drop 1 v) else v)"

fun dotenv_scan :: "nat list \<Rightarrow> nat list list \<Rightarrow> nat list option" where
  "dotenv_scan name [] = None"
| "dotenv_scan name (raw # lines) =
     (let line = trim raw in
      if line = [] \<or> prefix (codes ''#'') line then dotenv_scan name lines
      else (case split_once (chr CHR ''='') line of
          None \<Rightarrow> dotenv_scan name lines
        | Some (k, v) \<Rightarrow> (if trim k \<noteq> name then dotenv_scan name lines else Some (unquoted (trim v)))))"

definition dotenv_value :: "nat list \<Rightarrow> nat list \<Rightarrow> nat list option" where
  "dotenv_value s name = dotenv_scan name (text_lines s)"

definition env_prefix :: "nat list \<Rightarrow> nat list" where
  "env_prefix toml = (case toml_value toml (codes ''env'') (codes ''prefix'') of
     Some p \<Rightarrow> (let p = trim_end_matches (chr CHR ''_'') p in if p = [] then codes ''SKY'' else p)
   | None \<Rightarrow> codes ''SKY'')"

text \<open>The sources in order: the process environment, then the project's \<open>.env\<close> and \<open>sky.toml\<close>. A file that cannot
  be read is the empty text.\<close>

definition resolve_max_open_conns :: "(nat list \<Rightarrow> nat list option) \<Rightarrow> (nat list \<times> nat list) option \<Rightarrow> nat list option" where
  "resolve_max_open_conns env project =
     (let toml = (case project of Some (toml, dotenv) \<Rightarrow> toml | None \<Rightarrow> []);
          name = env_prefix toml @ codes ''_DB_MAX_OPEN_CONNS'' in
      case env name of
        Some v \<Rightarrow> Some v
      | None \<Rightarrow> (case Option.bind project (\<lambda>(toml, dotenv). dotenv_value dotenv name) of
          Some v \<Rightarrow> Some v
        | None \<Rightarrow> toml_value toml (codes ''database'') (codes ''maxOpenConns'')))"

definition resolve_inputs :: "(nat list \<Rightarrow> nat list option) \<Rightarrow> 32 word \<Rightarrow> (nat list \<times> nat list) option \<Rightarrow> pool_inputs" where
  "resolve_inputs env cpus project = \<lparr>pi_cpus = cpus, pi_app_max_open = resolve_max_open_conns env project\<rparr>"

section \<open>Pools\<close>

definition ANALYTICS_SHARE :: "32 word" where "ANALYTICS_SHARE = 2"
definition TELEMETRY_SHARE :: "32 word" where "TELEMETRY_SHARE = 2"
definition SUPERUSER_RESERVED :: "32 word" where "SUPERUSER_RESERVED = 3"
definition OPERATOR_HEADROOM :: "32 word" where "OPERATOR_HEADROOM = 5"
definition RESTART_OVERLAP_FACTOR :: "32 word" where "RESTART_OVERLAP_FACTOR = 2"
definition SHARED_MAX_CONNECTIONS_FLOOR :: "32 word" where "SHARED_MAX_CONNECTIONS_FLOOR = 25"
definition SHARED_MAX_CONNECTIONS_CEILING :: "32 word" where "SHARED_MAX_CONNECTIONS_CEILING = 500"
definition DEV_MAX_CONNECTIONS_FLOOR :: "32 word" where "DEV_MAX_CONNECTIONS_FLOOR = 50"
definition DEV_MAX_CONNECTIONS_CEILING :: "32 word" where "DEV_MAX_CONNECTIONS_CEILING = 100"

definition clamp :: "32 word \<Rightarrow> 32 word \<Rightarrow> 32 word \<Rightarrow> 32 word" where
  "clamp v lo hi = (if v < lo then lo else if hi < v then hi else v)"

definition at_least_one :: "32 word \<Rightarrow> 32 word" where
  "at_least_one v = (if v < 1 then 1 else v)"

definition saturating_sub :: "32 word \<Rightarrow> 32 word \<Rightarrow> 32 word" where
  "saturating_sub a b = (if a < b then 0 else a - b)"

definition default_app_pool_size :: "32 word \<Rightarrow> 32 word" where
  "default_app_pool_size cpus = clamp (at_least_one cpus * 4) 4 32"

definition app_pool_size_resolved :: "pool_inputs \<Rightarrow> 32 word \<times> bool" where
  "app_pool_size_resolved i =
     (let default = default_app_pool_size (pi_cpus i) in
      case pi_app_max_open i of
        None \<Rightarrow> (default, False)
      | Some raw \<Rightarrow>
          (let trimmed = trim raw in
           if trimmed = [] then (default, False)
           else (case parse_i64 trimmed of
               None \<Rightarrow> (default, False)
             | Some n \<Rightarrow>
                 (if n \<le> 0 then (default, True)
                  else (if n < 2 ^ 32 then word_of_int n else - 1, False)))))"

definition app_pool_size :: "pool_inputs \<Rightarrow> 32 word" where
  "app_pool_size i = fst (app_pool_size_resolved i)"

definition aux_pool_size_from :: "32 word \<Rightarrow> 32 word" where
  "aux_pool_size_from app = clamp (app div 4) 2 8"

definition shared_aux_pool_size :: "32 word \<Rightarrow> 32 word" where
  "shared_aux_pool_size app = aux_pool_size_from app + ANALYTICS_SHARE + TELEMETRY_SHARE"

definition telemetry_pool_size :: "32 word \<Rightarrow> 32 word" where
  "telemetry_pool_size app = 4"

record aux_pool_consumer =
  apc_name :: string
  apc_max_open :: "32 word \<Rightarrow> 32 word"

definition AUX_POOL_CONSUMERS :: "aux_pool_consumer list" where
  "AUX_POOL_CONSUMERS =
     [\<lparr>apc_name = ''analytics'', apc_max_open = shared_aux_pool_size\<rparr>,
      \<lparr>apc_name = ''live-sessions'', apc_max_open = shared_aux_pool_size\<rparr>,
      \<lparr>apc_name = ''telemetry'', apc_max_open = telemetry_pool_size\<rparr>]"

definition aux_pool_consumer_names :: "string list" where
  "aux_pool_consumer_names = map apc_name AUX_POOL_CONSUMERS"

definition process_connection_demand_from :: "32 word \<Rightarrow> 32 word" where
  "process_connection_demand_from app = app + sum_list (map (\<lambda>c. apc_max_open c app) AUX_POOL_CONSUMERS)"

definition process_connection_demand :: "pool_inputs \<Rightarrow> 32 word" where
  "process_connection_demand i = process_connection_demand_from (app_pool_size i)"

definition derived_process_connection_demand :: "32 word \<Rightarrow> 32 word" where
  "derived_process_connection_demand cpus = process_connection_demand (derived cpus)"

definition operator_excess :: "pool_inputs \<Rightarrow> 32 word" where
  "operator_excess i = saturating_sub (process_connection_demand i) (derived_process_connection_demand (pi_cpus i))"

section \<open>Clusters\<close>

definition expected_apps_per_host :: "32 word \<Rightarrow> 32 word" where
  "expected_apps_per_host cpus = clamp (at_least_one cpus div 4) 1 4"

definition shared_cluster_max_connections :: "pool_inputs \<Rightarrow> 32 word" where
  "shared_cluster_max_connections i =
     (let apps = expected_apps_per_host (pi_cpus i);
          n = derived_process_connection_demand (pi_cpus i) * apps * RESTART_OVERLAP_FACTOR +
            SUPERUSER_RESERVED + OPERATOR_HEADROOM in
      clamp n SHARED_MAX_CONNECTIONS_FLOOR SHARED_MAX_CONNECTIONS_CEILING +
        operator_excess i * apps * RESTART_OVERLAP_FACTOR)"

definition dev_cluster_max_connections :: "pool_inputs \<Rightarrow> 32 word" where
  "dev_cluster_max_connections i =
     (let n = derived_process_connection_demand (pi_cpus i) + SUPERUSER_RESERVED + OPERATOR_HEADROOM in
      clamp n DEV_MAX_CONNECTIONS_FLOOR DEV_MAX_CONNECTIONS_CEILING + operator_excess i)"

section \<open>Bounds\<close>

lemma unat_clamp: "lo \<le> hi \<Longrightarrow> unat (clamp v lo hi) = max (unat lo) (min (unat v) (unat hi))"
  by (auto simp: clamp_def word_less_nat_alt word_le_nat_alt)

lemma default_pool_bounds: "4 \<le> unat (default_app_pool_size cpus) \<and> unat (default_app_pool_size cpus) \<le> 32"
  by (simp add: default_app_pool_size_def unat_clamp)

lemma unat_shared_aux: "unat (shared_aux_pool_size app) = max 2 (min (unat app div 4) 8) + 4"
proof -
  have "unat (aux_pool_size_from app) = max 2 (min (unat app div 4) 8)"
    by (simp add: aux_pool_size_from_def unat_clamp unat_div)
  moreover have "\<dots> \<le> 8" by simp
  ultimately show ?thesis
    by (simp add: shared_aux_pool_size_def ANALYTICS_SHARE_def TELEMETRY_SHARE_def unat_word_ariths)
qed

text \<open>The demand in natural numbers, when the sum does not wrap.\<close>

lemma unat_demand:
  "unat app < 2 ^ 31 \<Longrightarrow> unat (process_connection_demand_from app) = unat app + 2 * (max 2 (min (unat app div 4) 8) + 4) + 4"
proof -
  assume a: "unat app < 2 ^ 31"
  have le: "max 2 (min (unat app div 4) 8) \<le> (8 :: nat)" by simp
  have "unat (shared_aux_pool_size app + (shared_aux_pool_size app + 4)) = 2 * (max 2 (min (unat app div 4) 8) + 4) + 4"
    using le by (simp add: unat_word_ariths unat_shared_aux)
  with a le show ?thesis
    by (simp add: process_connection_demand_from_def AUX_POOL_CONSUMERS_def telemetry_pool_size_def unat_word_ariths)
qed

lemma derived_demand_bound:
  "unat (derived_process_connection_demand cpus) \<le> 60"
  "unat (derived_process_connection_demand cpus) = unat (process_connection_demand_from (default_app_pool_size cpus))"
proof -
  have d: "derived_process_connection_demand cpus = process_connection_demand_from (default_app_pool_size cpus)"
    by (simp add: derived_process_connection_demand_def process_connection_demand_def app_pool_size_def
        app_pool_size_resolved_def derived_def)
  have "unat (default_app_pool_size cpus) < 2 ^ 31"
    by (rule le_less_trans[of _ 32]) (use default_pool_bounds[of cpus] in simp_all)
  note demand = unat_demand[OF this]
  have bound: "a \<le> 32 \<Longrightarrow> m \<le> 8 \<Longrightarrow> a + 2 * (m + 4) + 4 \<le> (60 :: nat)" for a m by simp
  show "unat (derived_process_connection_demand cpus) \<le> 60"
    unfolding d demand by (rule bound) (use default_pool_bounds[of cpus] in simp_all)
  show "unat (derived_process_connection_demand cpus) = unat (process_connection_demand_from (default_app_pool_size cpus))"
    by (simp add: d)
qed

lemma unat_excess: "unat (operator_excess i) = unat (process_connection_demand i) - unat (derived_process_connection_demand (pi_cpus i))"
  by (auto simp: operator_excess_def saturating_sub_def word_less_nat_alt unat_sub word_le_nat_alt)

lemma apps_bounds: "1 \<le> unat (expected_apps_per_host cpus) \<and> unat (expected_apps_per_host cpus) \<le> 4"
  by (simp add: expected_apps_per_host_def unat_clamp)

lemmas unat_add32 = unat_add_lem[where ?'a = 32, simplified, THEN iffD1]
lemmas unat_mult32 = unat_mult_lem[where ?'a = 32, simplified, THEN iffD1]

section \<open>Properties\<close>

text \<open>C35: A generated cluster is never smaller than what it serves. While the app's pool, whatever the operator
  set it to, stays below \<open>2 ^ 26\<close> connections, the development cluster admits the worst case of its one process
  and the shared cluster that of every app the host is sized for, each twice (a restart), and both keep the eight
  slots of the superuser and the operator on top.\<close>

theorem clusters_cover_demand:
  assumes "unat (app_pool_size i) < 2 ^ 26"
  shows "unat (process_connection_demand i) + 8 \<le> unat (dev_cluster_max_connections i) \<and>
    unat (process_connection_demand i) * unat (expected_apps_per_host (pi_cpus i)) * 2 + 8 \<le> unat (shared_cluster_max_connections i)"
proof -
  let ?D = "unat (process_connection_demand i)" and ?d = "unat (derived_process_connection_demand (pi_cpus i))"
  let ?a = "unat (expected_apps_per_host (pi_cpus i))" and ?e = "unat (operator_excess i)"
  have D: "?D \<le> 67108892" using assms unat_demand[of "app_pool_size i"] by (simp add: process_connection_demand_def)
  have d: "?d \<le> 60" by (rule derived_demand_bound)
  have a: "1 \<le> ?a" "?a \<le> 4" using apps_bounds by auto
  have e: "?e = ?D - ?d" by (rule unat_excess)
  have da: "?d * ?a \<le> 240" using mult_le_mono[OF d a(2)] by simp
  have ea: "?e * ?a \<le> 268435568" using mult_le_mono[OF _ a(2), of ?e 67108892] D e by simp
  have n1: "unat (derived_process_connection_demand (pi_cpus i) + SUPERUSER_RESERVED + OPERATOR_HEADROOM) = ?d + 8"
    using d by (simp add: SUPERUSER_RESERVED_def OPERATOR_HEADROOM_def unat_add32)
  have n2: "unat (derived_process_connection_demand (pi_cpus i) * expected_apps_per_host (pi_cpus i) * RESTART_OVERLAP_FACTOR +
      SUPERUSER_RESERVED + OPERATOR_HEADROOM) = ?d * ?a * 2 + 8"
    using da by (simp add: SUPERUSER_RESERVED_def OPERATOR_HEADROOM_def RESTART_OVERLAP_FACTOR_def unat_add32 unat_mult32)
  have n3: "unat (operator_excess i * expected_apps_per_host (pi_cpus i) * RESTART_OVERLAP_FACTOR) = ?e * ?a * 2"
    using ea by (simp add: RESTART_OVERLAP_FACTOR_def unat_mult32)
  have "unat (dev_cluster_max_connections i) = max 50 (min (?d + 8) 100) + ?e"
    unfolding dev_cluster_max_connections_def Let_def using d D e
    by (subst unat_add32) (simp_all add: unat_clamp DEV_MAX_CONNECTIONS_FLOOR_def DEV_MAX_CONNECTIONS_CEILING_def n1)
  moreover have "unat (shared_cluster_max_connections i) = max 25 (min (?d * ?a * 2 + 8) 500) + ?e * ?a * 2"
    unfolding shared_cluster_max_connections_def Let_def using da ea
    by (subst unat_add32) (simp_all add: unat_clamp SHARED_MAX_CONNECTIONS_FLOOR_def SHARED_MAX_CONNECTIONS_CEILING_def n2 n3)
  moreover have "?D * ?a \<le> (?d + ?e) * ?a" by (rule mult_le_mono1) (use e in linarith)
  then have "?D * ?a \<le> ?d * ?a + ?e * ?a" by (simp only: add_mult_distrib)
  ultimately show ?thesis using d da e by auto
qed

lemmas pool_defs = process_connection_demand_def app_pool_size_def app_pool_size_resolved_def default_app_pool_size_def
  process_connection_demand_from_def AUX_POOL_CONSUMERS_def shared_aux_pool_size_def telemetry_pool_size_def
  aux_pool_size_from_def clamp_def at_least_one_def ANALYTICS_SHARE_def TELEMETRY_SHARE_def

lemma knob_value:
  "parse_i64 (trim (codes ''200'')) = Some 200" "parse_i64 (trim (codes ''4294967295'')) = Some 4294967295"
  "trim (codes ''200'') \<noteq> []" "trim (codes ''4294967295'') \<noteq> []"
  by (simp_all add: parse_i64_def i64_radix_def from_str_radix_def digit_value_def trim_def trim_start_def is_white_def scalar_def)

theorem clusters_cover_demand_witness:
  "unat (process_connection_demand \<lparr>pi_cpus = 8, pi_app_max_open = Some (codes ''200'')\<rparr>) = 228 \<and>
   236 \<le> unat (dev_cluster_max_connections \<lparr>pi_cpus = 8, pi_app_max_open = Some (codes ''200'')\<rparr>)"
proof -
  let ?i = "\<lparr>pi_cpus = 8, pi_app_max_open = Some (codes ''200'')\<rparr>"
  have "process_connection_demand ?i = 228" "app_pool_size ?i = 200"
    using knob_value by (simp_all add: pool_defs Let_def del: codes_simps)
  then show ?thesis using clusters_cover_demand[of ?i] by simp
qed

text \<open>A fault: with a larger knob the sum wraps. The largest pool a \<open>u32\<close> holds, to which the code also
  saturates every larger number, demands 27 connections, and the cluster is generated as if the knob were
  unset.\<close>

lemma huge_pool_wraps:
  "process_connection_demand \<lparr>pi_cpus = 8, pi_app_max_open = Some (codes ''4294967295'')\<rparr> = 27"
  "dev_cluster_max_connections \<lparr>pi_cpus = 8, pi_app_max_open = Some (codes ''4294967295'')\<rparr> =
    dev_cluster_max_connections (derived 8)"
  using knob_value by (simp_all add: pool_defs dev_cluster_max_connections_def derived_process_connection_demand_def
      operator_excess_def saturating_sub_def derived_def Let_def del: codes_simps)

end
