(* ===== verification/Build_Plan.thy ===== *)
theory Build_Plan
  imports Rust_Text
begin

text \<open>
  The memory plan of a build: the records and machine reports of \<open>project/src/memory.rs\<close>, the \<open>go build -p\<close> decision of
  \<open>project/src/go_jobs.rs\<close> and the serial or parallel decision for the two legs of a split build,
  \<open>sky/src/leg_plan.rs\<close>. A \<open>u64\<close> is a natural number below \<open>2 ^ 64\<close>; the additions and products that the code saturates are
  written so, and its unchecked ones wrap, as in a release build. \<open>gib\<close> is the one decimal of a floating
  point quotient, a parameter that only messages show.
\<close>

section \<open>Saturating arithmetic\<close>

definition U64_MAX :: nat where
  "U64_MAX = 2 ^ 64 - 1"

definition sat_add :: "nat \<Rightarrow> nat \<Rightarrow> nat" where
  "sat_add a b = min U64_MAX (a + b)"

definition sat_mul :: "nat \<Rightarrow> nat \<Rightarrow> nat" where
  "sat_mul a b = min U64_MAX (a * b)"

definition checked :: "nat \<Rightarrow> nat option" where
  "checked n = (if n \<le> U64_MAX then Some n else None)"

definition parse_u64 :: "nat list \<Rightarrow> nat option" where
  "parse_u64 s = from_str_radix (2 ^ 64) 10 s"

section \<open>Available memory and records\<close>

definition RESERVE_BYTES :: nat where
  "RESERVE_BYTES = 2 ^ 30"

definition RECORD_EPOCH :: string where
  "RECORD_EPOCH = ''sky-peak-v2''"

definition parse_record :: "nat list \<Rightarrow> nat option" where
  "parse_record s = (case split_whitespace s of
     epoch # n # _ \<Rightarrow>
       (if epoch \<noteq> codes RECORD_EPOCH then None
        else (case parse_u64 n of Some b \<Rightarrow> (if 0 < b then Some b else None) | None \<Rightarrow> None))
   | _ \<Rightarrow> None)"

definition record_text :: "nat \<Rightarrow> nat list" where
  "record_text keep = codes RECORD_EPOCH @ codes '' '' @ codes (show_nat keep) @ codes [newline]"

text \<open>\<open>record_peak\<close> on the record file's content, \<open>None\<close> for a file that cannot be read.\<close>

definition record_peak :: "nat list option \<Rightarrow> nat \<Rightarrow> nat list" where
  "record_peak file peak =
     record_text (case Option.bind file parse_record of Some p \<Rightarrow> max p peak | None \<Rightarrow> peak)"

definition first_line_with :: "string \<Rightarrow> nat list list \<Rightarrow> nat list option" where
  "first_line_with key ls = find (\<lambda>l. prefix (codes key) l) ls"

text \<open>\<open>s.split(pat).nth(1)\<close>.\<close>

definition second_part :: "nat list \<Rightarrow> nat list \<Rightarrow> nat list option" where
  "second_part pat s = (case find_text pat s of
     None \<Rightarrow> None
   | Some i \<Rightarrow> (let r = drop (i + length pat) s in Some (case find_text pat r of Some j \<Rightarrow> take j r | None \<Rightarrow> r)))"

definition vm_pages :: "nat list \<Rightarrow> string \<Rightarrow> nat option" where
  "vm_pages s key =
     Option.bind (first_line_with key (text_lines s)) (\<lambda>line.
     Option.bind (second_part (codes '':'') line) (\<lambda>n. parse_u64 (trim_end_matches (chr CHR ''.'') (trim n))))"

definition or_zero :: "nat option \<Rightarrow> nat" where
  "or_zero n = (case n of Some n \<Rightarrow> n | None \<Rightarrow> 0)"

definition parse_vm_stat :: "nat list \<Rightarrow> nat option" where
  "parse_vm_stat s = (case text_lines s of
     [] \<Rightarrow> None
   | line # _ \<Rightarrow>
       (case map_option split_whitespace (second_part (codes ''page size of '') line) of
          Some (w # _) \<Rightarrow>
            Option.bind (parse_u64 w) (\<lambda>page. Option.bind (vm_pages s ''Pages free'') (\<lambda>free.
              Some ((free + or_zero (vm_pages s ''Pages inactive'') + or_zero (vm_pages s ''Pages speculative'')) * page mod 2 ^ 64)))
        | _ \<Rightarrow> None))"

definition parse_meminfo_available :: "nat list \<Rightarrow> nat option" where
  "parse_meminfo_available s = (case first_line_with ''MemAvailable:'' (text_lines s) of
     None \<Rightarrow> None
   | Some line \<Rightarrow> (case drop 1 (split_whitespace line) of
       [] \<Rightarrow> None
     | w # ws \<Rightarrow> (case parse_u64 w of
         None \<Rightarrow> None
       | Some n \<Rightarrow> (if ws = [] \<or> hd ws = codes ''kB'' then Some (n * 1024 mod 2 ^ 64) else None))))"

definition cgroup_headroom :: "nat list \<Rightarrow> nat list \<Rightarrow> nat option" where
  "cgroup_headroom limit usage = (case parse_u64 (trim limit) of
     None \<Rightarrow> None
   | Some l \<Rightarrow>
       (if 2 ^ 60 \<le> l then None
        else (case parse_u64 (trim usage) of None \<Rightarrow> None | Some u \<Rightarrow> Some (l - u))))"

definition parse_freebsd_sysctl :: "nat list \<Rightarrow> nat option" where
  "parse_freebsd_sysctl s = (case map (\<lambda>l. parse_u64 (trim l)) (text_lines s) of
     Some page # Some free # Some inactive # _ \<Rightarrow>
       Option.bind (checked (free + inactive)) (\<lambda>pages. checked (pages * page))
   | _ \<Rightarrow> None)"

text \<open>\<open>available_memory\<close> on Linux, from the host's memory and the two cgroup versions' files.\<close>

definition available_linux :: "nat list option \<Rightarrow> (nat list option \<times> nat list option) \<Rightarrow> (nat list option \<times> nat list option) \<Rightarrow> nat option" where
  "available_linux meminfo v2 v1 =
     (let host = Option.bind meminfo parse_meminfo_available;
          cgroup = (case v2 of
              (Some l, Some u) \<Rightarrow> cgroup_headroom l u
            | _ \<Rightarrow> (case v1 of (Some l, Some u) \<Rightarrow> cgroup_headroom l u | _ \<Rightarrow> None)) in
      case (host, cgroup) of
        (Some h, Some c) \<Rightarrow> Some (min h c)
      | (Some h, None) \<Rightarrow> Some h
      | (None, c) \<Rightarrow> c)"

section \<open>Jobs of one build\<close>

definition MiB :: "nat \<Rightarrow> nat" where
  "MiB n = n * 2 ^ 20"

definition OTHER_COMPILE_BYTES :: nat where "OTHER_COMPILE_BYTES = MiB 700"
definition TYPICAL_COMPILE_BYTES :: nat where "TYPICAL_COMPILE_BYTES = MiB 250"
definition SMALL_ROOM_BYTES :: nat where "SMALL_ROOM_BYTES = 6 * 2 ^ 30"
definition SMALL_ROOM_MAX_JOBS :: nat where "SMALL_ROOM_MAX_JOBS = 4"
definition BESIDE_FFI_BYTES :: nat where "BESIDE_FFI_BYTES = OTHER_COMPILE_BYTES"
definition ESTIMATE_BASE_BYTES :: nat where "ESTIMATE_BASE_BYTES = MiB 500"
definition ESTIMATE_BYTES_PER_GO_BYTE :: nat where "ESTIMATE_BYTES_PER_GO_BYTE = 700"
definition FFI_BYTES_PER_GO_BYTE :: nat where "FFI_BYTES_PER_GO_BYTE = 270"

record go_jobs =
  gj_jobs :: "nat option"
  gj_reason :: "nat list"

definition go_jobs_arg :: "go_jobs \<Rightarrow> nat list option" where
  "go_jobs_arg j = map_option (\<lambda>n. codes ''-p='' @ codes (show_nat n)) (gj_jobs j)"

definition estimate_from_go_source :: "nat \<Rightarrow> nat" where
  "estimate_from_go_source n = sat_add ESTIMATE_BASE_BYTES (sat_mul n ESTIMATE_BYTES_PER_GO_BYTE)"

definition estimate_ffi :: "nat \<Rightarrow> nat" where
  "estimate_ffi n = (if n = 0 then 0 else sat_add ESTIMATE_BASE_BYTES (sat_mul n FFI_BYTES_PER_GO_BYTE))"

definition FFI_ESTIMATE_SOURCE :: "nat list" where
  "FFI_ESTIMATE_SOURCE = codes ''(estimated from skyffi)''"

definition largest_dep_peak :: "nat option \<Rightarrow> nat \<Rightarrow> nat \<times> nat list" where
  "largest_dep_peak recorded ffi_estimate =
     (let r = (case recorded of Some r \<Rightarrow> r | None \<Rightarrow> 0) in
      if ffi_estimate < r \<and> OTHER_COMPILE_BYTES < r then (r, codes ''(measured on an earlier build)'')
      else if OTHER_COMPILE_BYTES < ffi_estimate then (ffi_estimate, FFI_ESTIMATE_SOURCE)
      else (OTHER_COMPILE_BYTES, codes ''(largest measured dependency)''))"

definition other_compile_bytes :: "nat \<Rightarrow> nat" where
  "other_compile_bytes room = (if room < SMALL_ROOM_BYTES then OTHER_COMPILE_BYTES else TYPICAL_COMPILE_BYTES)"

definition compiles_that_fit :: "nat \<Rightarrow> nat \<Rightarrow> nat" where
  "compiles_that_fit room largest =
     (if room \<le> largest then 1
      else (let n = 1 + (room - largest) div max 1 (other_compile_bytes room) in
        if room < SMALL_ROOM_BYTES then min n SMALL_ROOM_MAX_JOBS else n))"

definition parse_user :: "nat list option \<Rightarrow> nat list + nat option" where
  "parse_user user = (case map_option trim user of
     None \<Rightarrow> Inr None
   | Some v \<Rightarrow>
       (if v = [] \<or> v = codes ''auto'' then Inr None
        else (case parse_u64 v of
            Some n \<Rightarrow> (if 1 \<le> n then Inr (Some n)
              else Inl (codes ''SKY_GO_BUILD_JOBS (--go-jobs) must be a whole number >= 1 or `auto`, got `'' @ v @ codes ''`''))
          | None \<Rightarrow> Inl (codes ''SKY_GO_BUILD_JOBS (--go-jobs) must be a whole number >= 1 or `auto`, got `'' @ v @ codes ''`''))))"

definition jobs :: "nat option \<Rightarrow> nat list \<Rightarrow> nat list + go_jobs" where
  "jobs n reason = Inr \<lparr>gj_jobs = n, gj_reason = reason\<rparr>"

text \<open>The end of \<open>decide\<close>: Go's default when one compile per CPU fits.\<close>

definition jobs_or_default :: "nat \<Rightarrow> nat \<Rightarrow> nat list \<Rightarrow> nat list + go_jobs" where
  "jobs_or_default cpus n what =
     (if cpus \<le> n then jobs None (codes ''-p '' @ codes (show_nat cpus) @ codes (''(Go'' @ [squote] @ ''s default: '') @ what @ codes '')'')
      else jobs (Some n) (codes ''-p '' @ codes (show_nat n) @ codes '' ('' @ what @ codes '')''))"

definition decide_jobs :: "(nat \<Rightarrow> nat list) \<Rightarrow> nat list option \<Rightarrow> nat \<Rightarrow> nat list \<Rightarrow> nat option \<Rightarrow> nat \<Rightarrow> nat list + go_jobs" where
  "decide_jobs gib user largest_dep peak_source available cpus0 =
     (let cpus = max 1 cpus0 in
      case parse_user user of
        Inl e \<Rightarrow> Inl e
      | Inr (Some n) \<Rightarrow> jobs (Some n) (codes ''-p '' @ codes (show_nat n) @ codes '' (SKY_GO_BUILD_JOBS='' @ codes (show_nat n) @ codes '')'')
      | Inr None \<Rightarrow>
          (let largest = max 1 largest_dep in
           case available of
             None \<Rightarrow> jobs (Some 1) (codes ''-p 1 (available memory unknown; largest dependency compile ~'' @ gib largest @
               codes '' '' @ peak_source @ codes '')'')
           | Some avail \<Rightarrow>
               (let room = avail - RESERVE_BYTES;
                    reserve = codes '' + '' @ gib RESERVE_BYTES @ codes '' reserve'';
                    cap = (if room < SMALL_ROOM_BYTES then codes '', at most '' @ codes (show_nat SMALL_ROOM_MAX_JOBS) @
                      codes '' on a small machine'' else []) in
                if room \<le> largest then
                  jobs (Some 1) (codes ''-p 1 ('' @ gib avail @ codes '' available < the largest dependency compile ~'' @ gib largest @
                    codes '' '' @ peak_source @ reserve @ codes '')'')
                else if peak_source = FFI_ESTIMATE_SOURCE then
                  (if room < sat_add largest BESIDE_FFI_BYTES then
                     jobs (Some 1) (codes ''-p 1 ('' @ gib avail @ codes '' available < the generated FFI compile ~'' @ gib largest @
                       codes '' '' @ peak_source @ codes '' + the console compile beside it ~'' @ gib BESIDE_FFI_BYTES @ reserve @ codes '')'')
                   else
                     (let n = compiles_that_fit room OTHER_COMPILE_BYTES in
                      jobs_or_default cpus n (gib avail @ codes '' available holds the generated FFI compile ~'' @ gib largest @ codes '' '' @
                        peak_source @ codes '' + the console compile beside it ~'' @ gib BESIDE_FFI_BYTES @ codes '', and before it '' @
                        codes (show_nat n) @ codes '' compiles of ~'' @ gib (other_compile_bytes room) @ codes '' each'' @ reserve @ cap)))
                else
                  (let n = compiles_that_fit room largest in
                   jobs_or_default cpus n (gib avail @ codes '' available holds the largest dependency compile ~'' @ gib largest @ codes '' '' @
                     peak_source @ codes '' + '' @ codes (show_nat (n - 1)) @ codes '' of ~'' @ gib (other_compile_bytes room) @
                     codes '' each'' @ reserve @ cap)))))"

text \<open>The text of a flag up to its first \<open>=\<close>.\<close>

definition before_eq :: "nat list \<Rightarrow> nat list" where
  "before_eq s = (case split_once (chr CHR ''='') s of Some (k, v) \<Rightarrow> k | None \<Rightarrow> s)"

definition goflags_set_p :: "nat list \<Rightarrow> bool" where
  "goflags_set_p goflags = list_ex (\<lambda>f. before_eq f = codes ''-p'' \<or> before_eq f = codes ''--p'') (split_whitespace goflags)"

definition dep_peak_is_measured :: "(bool \<times> bool) option \<Rightarrow> bool" where
  "dep_peak_is_measured built \<longleftrightarrow> built = Some (True, False)"

text \<open>\<open>plan_with\<close>, on the content of the dependency record and the size of the generated \<open>skyffi\<close> package.\<close>

definition plan_with :: "(nat \<Rightarrow> nat list) \<Rightarrow> nat list option \<Rightarrow> nat \<Rightarrow> nat list option \<Rightarrow> nat list \<Rightarrow> nat option \<Rightarrow> nat \<Rightarrow> nat list + go_jobs" where
  "plan_with gib dep_record skyffi_bytes user goflags available cpus =
     (if user = None \<and> goflags_set_p goflags then jobs None (codes ''-p from GOFLAGS'')
      else (let (largest, source) = largest_dep_peak (Option.bind dep_record parse_record) (estimate_ffi skyffi_bytes) in
        decide_jobs gib user largest source available cpus))"

section \<open>Two legs\<close>

definition FRONT_BASE_BYTES :: nat where "FRONT_BASE_BYTES = MiB 250"
definition FRONT_BYTES_PER_SOURCE_BYTE :: nat where "FRONT_BYTES_PER_SOURCE_BYTE = 350"
definition GO_BASE_BYTES :: nat where "GO_BASE_BYTES = MiB 500"
definition GO_BYTES_PER_SOURCE_BYTE :: nat where "GO_BYTES_PER_SOURCE_BYTE = 1200"

record leg_need =
  ln_front :: nat
  ln_go :: nat
  ln_dep :: nat

definition leg_total :: "leg_need \<Rightarrow> nat" where
  "leg_total l = sat_add (ln_front l) (ln_go l)"

record plan =
  pn_parallel :: bool
  pn_go_jobs :: "nat option"
  pn_reason :: "nat list"

text \<open>The \<open>-p\<close> of a leg when both run: how much is left for its dependency compiles, and how many fit.\<close>

definition leg_room :: "leg_need \<Rightarrow> leg_need \<Rightarrow> nat \<Rightarrow> nat" where
  "leg_room backend frontend avail =
     (let left = avail - RESERVE_BYTES - ln_front backend - ln_front frontend in
      min (left div 2) (left - max (ln_go backend) (ln_go frontend)))"

definition leg_slots :: "leg_need \<Rightarrow> leg_need \<Rightarrow> nat \<Rightarrow> nat" where
  "leg_slots backend frontend avail = compiles_that_fit (leg_room backend frontend avail) (max (ln_dep backend) (ln_dep frontend))"

definition decide_legs :: "(nat \<Rightarrow> nat list) \<Rightarrow> bool \<Rightarrow> bool \<Rightarrow> leg_need \<Rightarrow> leg_need \<Rightarrow> nat list \<Rightarrow> nat option \<Rightarrow> nat \<Rightarrow> plan" where
  "decide_legs gib force_serial force_parallel backend frontend peak_source available cpus =
     (if force_serial then \<lparr>pn_parallel = False, pn_go_jobs = None, pn_reason = codes ''serial (SKY_BUILD_SERIAL is set)''\<rparr>
      else if force_parallel then \<lparr>pn_parallel = True, pn_go_jobs = None, pn_reason = codes ''parallel (SKY_BUILD_PARALLEL is set)''\<rparr>
      else
        (let legs = codes ''backend ~'' @ gib (ln_front backend) @ codes '' + '' @ gib (ln_go backend) @ codes '' Go, frontend ~'' @
               gib (ln_front frontend) @ codes '' + '' @ gib (ln_go frontend) @ codes '' Go '' @ peak_source;
             need = sat_add (sat_add (leg_total backend) (leg_total frontend)) RESERVE_BYTES in
         case available of
           None \<Rightarrow> \<lparr>pn_parallel = False, pn_go_jobs = None, pn_reason = codes ''serial (available memory unknown; '' @ legs @ codes '')''\<rparr>
         | Some avail \<Rightarrow>
             (if need \<le> avail then
                (let slots = leg_slots backend frontend avail;
                     go_jobs = (if slots < max 1 cpus then Some slots else None);
                     told = (case go_jobs of Some n \<Rightarrow> codes ''; go build -p '' @ codes (show_nat n) @ codes '' per leg'' | None \<Rightarrow> []) in
                 \<lparr>pn_parallel = True, pn_go_jobs = go_jobs, pn_reason = codes ''parallel ('' @ gib avail @ codes '' available >= '' @ legs @
                   codes '' + '' @ gib RESERVE_BYTES @ codes '' reserve'' @ told @ codes '')''\<rparr>)
              else \<lparr>pn_parallel = False, pn_go_jobs = None, pn_reason = codes ''serial ('' @ gib avail @ codes '' available < '' @ legs @
                codes '' + '' @ gib RESERVE_BYTES @ codes '' reserve)''\<rparr>)))"

definition estimate_from_source :: "nat \<Rightarrow> leg_need" where
  "estimate_from_source n =
     \<lparr>ln_front = sat_add FRONT_BASE_BYTES (sat_mul n FRONT_BYTES_PER_SOURCE_BYTE),
      ln_go = sat_add GO_BASE_BYTES (sat_mul n GO_BYTES_PER_SOURCE_BYTE), ln_dep = OTHER_COMPILE_BYTES\<rparr>"

text \<open>\<open>leg_need\<close>, on the size of the leg's sources, its records, and the size of its \<open>skyffi\<close> package.\<close>

definition leg_need_of :: "nat \<Rightarrow> nat option \<Rightarrow> nat option \<Rightarrow> nat option \<Rightarrow> nat \<Rightarrow> leg_need \<times> bool" where
  "leg_need_of source_bytes front_record go_record dep_record skyffi_bytes =
     (let est = estimate_from_source source_bytes;
          front = (case front_record of Some n \<Rightarrow> n | None \<Rightarrow> 0);
          go = (case go_record of Some n \<Rightarrow> n | None \<Rightarrow> 0) in
      (\<lparr>ln_front = max front (ln_front est), ln_go = max go (ln_go est),
        ln_dep = fst (largest_dep_peak dep_record (estimate_ffi skyffi_bytes))\<rparr>,
       ln_front est < front \<or> ln_go est < go))"

datatype precompress_level = MaxLevel | FastLevel | OffLevel

definition BROTLI_BASE_BYTES :: nat where "BROTLI_BASE_BYTES = MiB 64"
definition BROTLI_INPUT_COPIES :: nat where "BROTLI_INPUT_COPIES = 3"
definition BROTLI_BYTES_PER_PART :: nat where "BROTLI_BYTES_PER_PART = MiB 190"
definition BROTLI_CHUNK_BYTES :: nat where "BROTLI_CHUNK_BYTES = MiB 6"
definition BROTLI_MAX_CHUNKS :: nat where "BROTLI_MAX_CHUNKS = 8"

definition brotli_chunks :: "nat \<Rightarrow> nat" where
  "brotli_chunks len = max 1 (min BROTLI_MAX_CHUNKS ((len + BROTLI_CHUNK_BYTES - 1) div BROTLI_CHUNK_BYTES))"

text \<open>Only the level's brotli is asked whether it splits its input: the smallest files do, the fast ones do not; the sum over the files wraps.\<close>

definition brotli_need :: "nat list \<Rightarrow> precompress_level \<Rightarrow> nat" where
  "brotli_need sizes level =
     (if level = OffLevel then 0
      else (sum_list (map (\<lambda>n.
        sat_add (sat_add BROTLI_BASE_BYTES (sat_mul n BROTLI_INPUT_COPIES))
          (sat_mul (if level = MaxLevel then brotli_chunks n else 1) BROTLI_BYTES_PER_PART)) sizes)) mod 2 ^ 64)"

definition compression_beside :: "leg_need \<Rightarrow> nat \<Rightarrow> nat option \<Rightarrow> bool" where
  "compression_beside backend brotli available = (case available of
     Some a \<Rightarrow> sat_add (sat_add (leg_total backend) brotli) RESERVE_BYTES \<le> a
   | None \<Rightarrow> False)"

definition precompress_level_within :: "precompress_level \<Rightarrow> nat \<Rightarrow> nat option \<Rightarrow> precompress_level" where
  "precompress_level_within requested max_need available = (case (requested, available) of
     (MaxLevel, Some a) \<Rightarrow> (if a < sat_add max_need RESERVE_BYTES then FastLevel else requested)
   | _ \<Rightarrow> requested)"

text \<open>\<open>Level::parse\<close>, \<open>Level::name\<close> and the choice of the level from the command line and the environment.\<close>

definition to_ascii_lowercase :: "nat list \<Rightarrow> nat list" where
  "to_ascii_lowercase s = map (\<lambda>c. if 65 \<le> c \<and> c \<le> 90 then c + 32 else c) s"

definition level_parse :: "nat list \<Rightarrow> precompress_level option" where
  "level_parse s =
     (let v = to_ascii_lowercase (trim s) in
      if v = codes ''max'' then Some MaxLevel
      else if v = codes ''fast'' then Some FastLevel
      else if v = codes ''off'' then Some OffLevel
      else None)"

definition level_name :: "precompress_level \<Rightarrow> nat list" where
  "level_name l = (case l of MaxLevel \<Rightarrow> codes ''max'' | FastLevel \<Rightarrow> codes ''fast'' | OffLevel \<Rightarrow> codes ''off'')"

definition level_flag :: "precompress_level \<Rightarrow> nat list" where
  "level_flag l = codes ''--precompress='' @ level_name l"

definition level_or_bad :: "(nat \<Rightarrow> bool) \<Rightarrow> nat list \<Rightarrow> string \<Rightarrow> nat list + precompress_level" where
  "level_or_bad plain v from = (case level_parse v of
     Some l \<Rightarrow> Inr l
   | None \<Rightarrow> Inl (codes from @ codes '' '' @ debug_text plain v @ codes '' is not a precompress level: use max, fast or off''))"

fun args_level :: "(nat \<Rightarrow> bool) \<Rightarrow> precompress_level option \<Rightarrow> nat list list \<Rightarrow> nat list + precompress_level option" where
  "args_level plain flag [] = Inr flag"
| "args_level plain flag (a # it) =
     (if a = codes ''--no-precompress'' then args_level plain (Some OffLevel) it
      else if prefix (codes ''--precompress='') a then
        try_text (level_or_bad plain (drop (length ''--precompress='') a) ''--precompress'') (\<lambda>l. args_level plain (Some l) it)
      else if a = codes ''--precompress'' then
        (case it of
           [] \<Rightarrow> Inl (codes ''--precompress needs a level: --precompress=max|fast|off'')
         | v # it \<Rightarrow> try_text (level_or_bad plain v ''--precompress'') (\<lambda>l. args_level plain (Some l) it))
      else args_level plain flag it)"

definition level_from_args :: "(nat \<Rightarrow> bool) \<Rightarrow> nat list list \<Rightarrow> nat list option \<Rightarrow> nat list + precompress_level" where
  "level_from_args plain args env = try_text (args_level plain None args) (\<lambda>flag.
     case flag of
       Some l \<Rightarrow> Inr l
     | None \<Rightarrow> (case map_option trim env of
         Some v \<Rightarrow> (if v = [] then Inr MaxLevel else level_or_bad plain v ''SKY_PRECOMPRESS'')
       | None \<Rightarrow> Inr MaxLevel))"

section \<open>Lemmas\<close>

text \<open>A decimal reads back.\<close>

lemma digits_in_append:
  "digits_in bound radix acc (s @ t) = Option.bind (digits_in bound radix acc s) (\<lambda>n. digits_in bound radix n t)"
  by (induction s arbitrary: acc) (auto split: option.splits)

lemma digits_show: "n < bound \<Longrightarrow> digits_in bound 10 0 (codes (show_nat n)) = Some n"
proof (induction n rule: show_nat.induct)
  case (1 n)
  have digit: "digit_value (scalar (char_of (48 + d))) = Some d" if "d < 10" for d :: nat
    using that by (simp add: digit_value_def scalar_def)
  show ?case
  proof (cases "n < 10")
    case True
    then show ?thesis using 1(2) digit[of n] by (simp add: show_nat.simps[of n])
  next
    case False
    have "n div 10 < bound" using 1(2) by (meson div_le_dividend le_less_trans)
    with 1(1)[OF False] have "digits_in bound 10 0 (codes (show_nat (n div 10))) = Some (n div 10)" .
    moreover have "n div 10 * 10 + n mod 10 = n" by simp
    ultimately show ?thesis using False 1(2) digit[of "n mod 10"]
      by (simp add: show_nat.simps[of n] digits_in_append)
  qed
qed

lemma decimal_nonempty: "codes (show_nat n) \<noteq> []"
  by (simp add: show_nat.simps[of n])

lemma parse_show: "n < 2 ^ 64 \<Longrightarrow> parse_u64 (codes (show_nat n)) = Some n"
proof -
  assume n: "n < 2 ^ 64"
  obtain c cs where c: "codes (show_nat n) = c # cs" using decimal_nonempty by (cases "codes (show_nat n)") auto
  have "c \<noteq> 43" using decimal_digits[of c n] c by auto
  then show ?thesis using digits_show[OF n] c by (simp add: parse_u64_def from_str_radix_def scalar_def)
qed

lemma words_from_word: "\<forall>c \<in> set w. \<not> is_white c \<Longrightarrow> words_from cur (w @ s) = words_from (rev w @ cur) s"
  by (induction w arbitrary: cur) auto

lemma split_record: "split_whitespace (record_text n) = [codes RECORD_EPOCH, codes (show_nat n)]"
proof -
  have "\<forall>c \<in> set (codes RECORD_EPOCH). \<not> is_white c" by (simp add: RECORD_EPOCH_def scalar_def is_white_def)
  moreover have "\<forall>c \<in> set (codes (show_nat n)). \<not> is_white c" using decimal_digits[of _ n] by (fastforce simp: is_white_def)
  moreover have "codes RECORD_EPOCH \<noteq> []" by (simp add: RECORD_EPOCH_def)
  ultimately show ?thesis using decimal_nonempty[of n]
    by (simp add: split_whitespace_def record_text_def words_from_word scalar_def is_white_def)
qed

lemma parse_record_text: "0 < n \<Longrightarrow> n < 2 ^ 64 \<Longrightarrow> parse_record (record_text n) = Some n"
  by (simp add: parse_record_def split_record parse_show)

lemma digits_in_below: "digits_in bound radix acc s = Some n \<Longrightarrow> acc < bound \<Longrightarrow> n < bound"
  by (induction s arbitrary: acc) (auto split: option.splits if_splits)

text \<open>Recording a peak never lowers the record.\<close>

lemma record_peak_max:
  "0 < peak \<Longrightarrow> peak < 2 ^ 64 \<Longrightarrow>
   parse_record (record_peak file peak) = Some (case Option.bind file parse_record of Some p \<Rightarrow> max p peak | None \<Rightarrow> peak)"
proof -
  assume peak: "0 < peak" "peak < 2 ^ 64"
  have "p < 2 ^ 64" if "parse_record s = Some p" for s p
    using that digits_in_below by (fastforce simp: parse_record_def parse_u64_def from_str_radix_def split: list.splits if_splits option.splits)
  then have "max p peak < 2 ^ 64" if "Option.bind file parse_record = Some p" for p
    using that peak(2) by (auto simp: bind_eq_Some_conv)
  then show ?thesis using peak by (auto simp: record_peak_def split: option.split intro!: parse_record_text)
qed

lemma compiles_fit:
  assumes "largest < room" and "n \<le> compiles_that_fit room largest"
  shows "largest + (n - 1) * other_compile_bytes room \<le> room"
proof -
  let ?o = "other_compile_bytes room"
  have o: "max (Suc 0) ?o = ?o" by (simp add: other_compile_bytes_def OTHER_COMPILE_BYTES_def TYPICAL_COMPILE_BYTES_def MiB_def)
  have "n \<le> 1 + (room - largest) div ?o" using assms by (auto simp: compiles_that_fit_def o Let_def split: if_splits)
  then have "n - 1 \<le> (room - largest) div ?o" by simp
  then have "(n - 1) * ?o \<le> (room - largest) div ?o * ?o" by simp
  also have "\<dots> \<le> room - largest" by simp
  finally show ?thesis using assms(1) by simp
qed

lemma legs_parallel:
  "pn_parallel (decide_legs gib False False b f src (Some avail) cpus) \<longleftrightarrow>
   sat_add (sat_add (leg_total b) (leg_total f)) RESERVE_BYTES \<le> avail"
  by (simp add: decide_legs_def Let_def)

lemma legs_jobs:
  assumes "pn_parallel (decide_legs gib False False b f src (Some avail) cpus)"
  shows "pn_go_jobs (decide_legs gib False False b f src (Some avail) cpus) =
    (if leg_slots b f avail < max 1 cpus then Some (leg_slots b f avail) else None)"
proof -
  have "sat_add (sat_add (leg_total b) (leg_total f)) RESERVE_BYTES \<le> avail" using assms by (simp only: legs_parallel)
  then show ?thesis by (simp add: decide_legs_def Let_def)
qed

lemma sat_sum_fits:
  "sat_add (sat_add (sat_add a b) (sat_add c d)) r \<le> n \<Longrightarrow> n < U64_MAX \<Longrightarrow> a + b + (c + d) + r \<le> n"
  by (simp add: sat_add_def min_def split: if_splits)

text \<open>C36: A plan that runs the two legs of a split build at once fits in the memory it was made for (with some memory
  unused below the largest \<open>u64\<close>): both \<open>sky\<close> processes, both largest Go processes and the reserve fit
  together. The compiles that its \<open>-p\<close> allows fit as well, provided that the room left for a leg is more than its largest
  dependency compile (without this they need not: \<open>small_project_overcommits\<close>): then for every number of compiles that
  a leg may run at once (the plan's \<open>-p\<close>, or a compile per CPU when it leaves \<open>-p\<close> to the leg) these compiles fit in that
  room; two such rooms fit beside both \<open>sky\<close> processes and the reserve, and so does one with the largest Go process of
  the other leg.\<close>

theorem parallel_plan_fits:
  assumes "pn_parallel (decide_legs gib False False b f src (Some avail) cpus)" and "avail < U64_MAX"
    and "n \<le> (case pn_go_jobs (decide_legs gib False False b f src (Some avail) cpus) of Some k \<Rightarrow> k | None \<Rightarrow> max 1 cpus)"
  shows "ln_front b + ln_go b + (ln_front f + ln_go f) + RESERVE_BYTES \<le> avail \<and>
    (max (ln_dep b) (ln_dep f) < leg_room b f avail \<longrightarrow>
      max (ln_dep b) (ln_dep f) + (n - 1) * other_compile_bytes (leg_room b f avail) \<le> leg_room b f avail \<and>
      2 * leg_room b f avail + ln_front b + ln_front f + RESERVE_BYTES \<le> avail \<and>
      leg_room b f avail + max (ln_go b) (ln_go f) + ln_front b + ln_front f + RESERVE_BYTES \<le> avail)"
proof -
  let ?room = "leg_room b f avail" and ?dep = "max (ln_dep b) (ln_dep f)"
  have sum: "ln_front b + ln_go b + (ln_front f + ln_go f) + RESERVE_BYTES \<le> avail"
    using assms(1,2) sat_sum_fits by (simp add: legs_parallel leg_total_def)
  have "n \<le> leg_slots b f avail" using assms(3) by (simp add: legs_jobs[OF assms(1)] split: if_splits)
  then have fits: "?dep + (n - 1) * other_compile_bytes ?room \<le> ?room" if "?dep < ?room"
    using compiles_fit[OF that] by (simp add: leg_slots_def)
  have "2 * ?room + ln_front b + ln_front f + RESERVE_BYTES \<le> avail" if "0 < ?room"
    using that by (auto simp: leg_room_def Let_def)
  moreover have "?room + max (ln_go b) (ln_go f) + ln_front b + ln_front f + RESERVE_BYTES \<le> avail" if "0 < ?room"
    using that by (auto simp: leg_room_def Let_def)
  ultimately show ?thesis using sum fits by (metis gr_implies_not0 gr0I)
qed

theorem parallel_plan_fits_witness:
  "let b = \<lparr>ln_front = MiB 750, ln_go = MiB 2200, ln_dep = MiB 700\<rparr>; f = \<lparr>ln_front = MiB 700, ln_go = MiB 1100, ln_dep = MiB 700\<rparr> in
   pn_go_jobs (decide_legs (\<lambda>n. []) False False b f [] (Some (MiB 12000)) 8) = Some 4 \<and>
   ln_front b + ln_go b + (ln_front f + ln_go f) + RESERVE_BYTES \<le> MiB 12000 \<and>
   max (ln_dep b) (ln_dep f) + 3 * other_compile_bytes (leg_room b f (MiB 12000)) \<le> leg_room b f (MiB 12000) \<and>
   2 * leg_room b f (MiB 12000) + ln_front b + ln_front f + RESERVE_BYTES \<le> MiB 12000 \<and>
   leg_room b f (MiB 12000) + max (ln_go b) (ln_go f) + ln_front b + ln_front f + RESERVE_BYTES \<le> MiB 12000"
proof -
  let ?b = "\<lparr>ln_front = MiB 750, ln_go = MiB 2200, ln_dep = MiB 700\<rparr>" and ?f = "\<lparr>ln_front = MiB 700, ln_go = MiB 1100, ln_dep = MiB 700\<rparr>"
  note defs = legs_parallel leg_total_def sat_add_def U64_MAX_def MiB_def RESERVE_BYTES_def
  have p: "pn_parallel (decide_legs (\<lambda>n. []) False False ?b ?f [] (Some (MiB 12000)) 8)"
    by (simp add: defs)
  have j: "pn_go_jobs (decide_legs (\<lambda>n. []) False False ?b ?f [] (Some (MiB 12000)) 8) = Some 4"
    by (simp add: legs_jobs[OF p]) (simp add: leg_slots_def leg_room_def compiles_that_fit_def other_compile_bytes_def
      SMALL_ROOM_BYTES_def SMALL_ROOM_MAX_JOBS_def OTHER_COMPILE_BYTES_def MiB_def RESERVE_BYTES_def)
  have "MiB 12000 < U64_MAX" by (simp add: defs)
  moreover have "max (ln_dep ?b) (ln_dep ?f) < leg_room ?b ?f (MiB 12000)"
    by (simp add: leg_room_def MiB_def RESERVE_BYTES_def)
  ultimately show ?thesis using parallel_plan_fits[OF p, of 4] j by simp
qed

lemma decide_jobs_automatic:
  assumes "decide_jobs gib None largest src (Some avail) cpus = Inr j" and "src \<noteq> FFI_ESTIMATE_SOURCE"
  shows "gj_jobs j =
    (if avail - RESERVE_BYTES \<le> max 1 largest then Some 1
     else if max 1 cpus \<le> compiles_that_fit (avail - RESERVE_BYTES) (max 1 largest) then None
     else Some (compiles_that_fit (avail - RESERVE_BYTES) (max 1 largest)))"
proof -
  have user: "parse_user None = Inr None" by (simp add: parse_user_def)
  show ?thesis
  proof (cases "avail - RESERVE_BYTES \<le> max 1 largest")
    case True
    then have "\<exists>r. decide_jobs gib None largest src (Some avail) cpus = jobs (Some 1) r"
      unfolding decide_jobs_def user Let_def sum.case option.case by (simp only: if_True) blast
    then show ?thesis using assms(1) True by (auto simp: jobs_def)
  next
    case False
    then have "\<exists>r. decide_jobs gib None largest src (Some avail) cpus =
        jobs_or_default (max 1 cpus) (compiles_that_fit (avail - RESERVE_BYTES) (max 1 largest)) r"
      using assms(2) unfolding decide_jobs_def user Let_def sum.case option.case by (simp only: if_False) blast
    then show ?thesis using assms(1) False by (auto simp: jobs_def jobs_or_default_def split: if_splits)
  qed
qed

text \<open>A child build is given its level whatever its environment says, and the last level of a command line wins.\<close>

lemma level_names_parse: "level_parse (level_name l) = Some l"
  by (cases l) (simp_all add: level_parse_def level_name_def trim_def trim_start_def is_white_def to_ascii_lowercase_def scalar_def)

lemma flag_parts:
  "level_flag l \<noteq> codes ''--no-precompress''"
  "prefix (codes ''--precompress='') (level_flag l)"
  "drop (length ''--precompress='') (level_flag l) = level_name l"
  by (simp_all add: level_flag_def scalar_def)

lemma level_of_name: "level_or_bad plain (level_name l) from = Inr l"
  by (simp add: level_or_bad_def level_names_parse)

lemma args_level_last:
  "args_level plain flag args = Inr r \<Longrightarrow> args_level plain flag (args @ [level_flag l]) = Inr (Some l)"
proof (induction plain flag args rule: args_level.induct)
  case (1 plain flag)
  show ?case by (simp only: append_Nil args_level.simps flag_parts level_of_name try_text_def if_False if_True sum.case)
next
  case (2 plain flag a it)
  note IH = 2(1-4) and ok = 2(5)
  consider (off) "a = codes ''--no-precompress''"
    | (valued) "a \<noteq> codes ''--no-precompress''" "prefix (codes ''--precompress='') a"
    | (pair) "a \<noteq> codes ''--no-precompress''" "\<not> prefix (codes ''--precompress='') a" "a = codes ''--precompress''"
    | (other) "a \<noteq> codes ''--no-precompress''" "\<not> prefix (codes ''--precompress='') a" "a \<noteq> codes ''--precompress''"
    by blast
  then show ?case
  proof cases
    case off
    then show ?thesis using IH(1) ok by (simp del: codes_simps)
  next
    case valued
    then show ?thesis using IH(2) ok by (simp add: try_text_def del: codes_simps split: sum.splits)
  next
    case pair
    then show ?thesis using IH(3) ok by (cases it) (simp_all add: try_text_def del: codes_simps split: sum.splits)
  next
    case other
    then show ?thesis using IH(4) ok by (simp del: codes_simps)
  qed
qed

lemma last_level_wins:
  "level_from_args plain args env = Inr r \<Longrightarrow> level_from_args plain (args @ [level_flag l]) env = Inr l"
  by (auto simp: level_from_args_def try_text_def args_level_last split: sum.splits)

text \<open>Within one build: more than one compile at once only when the largest one and the others fit beside the reserve.\<close>

lemma go_jobs_fit:
  assumes "decide_jobs gib None largest src (Some avail) cpus = Inr j" and "src \<noteq> FFI_ESTIMATE_SOURCE"
    and "n \<le> (case gj_jobs j of Some k \<Rightarrow> k | None \<Rightarrow> max 1 cpus)" and "1 < n"
  shows "max 1 largest + (n - 1) * other_compile_bytes (avail - RESERVE_BYTES) + RESERVE_BYTES \<le> avail"
proof -
  let ?room = "avail - RESERVE_BYTES" and ?l = "max 1 largest"
  note jobs = decide_jobs_automatic[OF assms(1,2)]
  have room: "?l < ?room" using assms(3,4) by (rule_tac ccontr) (simp add: jobs del: One_nat_def)
  then have "n \<le> compiles_that_fit ?room ?l" using assms(3) order_trans[of n "max 1 cpus"]
    by (auto simp: jobs split: if_splits simp del: One_nat_def)
  from compiles_fit[OF room this] room show ?thesis by linarith
qed

text \<open>When the dependency compile is estimated above what the room holds, the plan still runs the legs at once, each with
  one compile: the two dependency compiles and both \<open>sky\<close> processes are then more than the memory available.\<close>

lemma small_project_overcommits:
  defines "leg \<equiv> estimate_from_source 0"
  shows "let avail = 2 * leg_total leg + RESERVE_BYTES; plan = decide_legs gib False False leg leg src (Some avail) 8 in
    pn_parallel plan \<and> pn_go_jobs plan = Some 1 \<and> avail < 2 * ln_front leg + 2 * ln_dep leg + RESERVE_BYTES"
proof -
  note defs = leg_def legs_parallel leg_total_def sat_add_def sat_mul_def U64_MAX_def MiB_def RESERVE_BYTES_def estimate_from_source_def
    FRONT_BASE_BYTES_def FRONT_BYTES_PER_SOURCE_BYTE_def GO_BASE_BYTES_def GO_BYTES_PER_SOURCE_BYTE_def OTHER_COMPILE_BYTES_def
  let ?avail = "2 * leg_total leg + RESERVE_BYTES"
  have p: "pn_parallel (decide_legs gib False False leg leg src (Some ?avail) 8)" by (simp add: defs)
  have "pn_go_jobs (decide_legs gib False False leg leg src (Some ?avail) 8) = Some 1"
    by (simp add: legs_jobs[OF p]) (simp add: leg_slots_def leg_room_def compiles_that_fit_def defs)
  then show ?thesis using p by (simp add: Let_def) (simp add: defs)
qed

end
