(* ===== verification/Syntax_Kind.thy ===== *)
theory Syntax_Kind
  imports Main
begin

text \<open>
  \<open>rust/crates/syntax/src/kind.rs\<close>: the single kind space of tokens and nodes of the concrete
  syntax tree, its \<open>#[repr(u16)]\<close> discriminants and their inverse \<open>from_u16\<close>, through which every
  kind of a stored tree passes. \<open>Int\<close>, \<open>String\<close> and \<open>Char\<close> are \<open>IntK\<close>, \<open>StringK\<close> and \<open>CharK\<close> here
  (their own names belong to HOL).
\<close>

datatype (plugins only:) syntax_kind =
    Whitespace | Newline | LineComment | BlockComment | IntK | HexInt | Float | StringK |
    MultilineString | CharK | LowerIdent | UpperIdent | ModuleKw | ExposingKw | ImportKw |
    AsKw | TypeKw | AliasKw | IfKw | ThenKw | ElseKw | CaseKw | OfKw | LetKw | InKw |
    TrueKw | FalseKw | Eq | Colon | Colon2 | Dot | DotDot | Pipe | Arrow | Backslash | Op |
    LParen | RParen | LBrack | RBrack | LBrace | RBrace | Comma | Underscore |
    StringChunk | InterpOpen | InterpClose | Error | Eof | SourceFile | ModuleHeader |
    ModuleName | ExposingList | ExposedValue | ExposedType | ExposedCtorList |
    ExposedOperator | Import | ImportAlias | ImportExposing | ValueDecl | TypeAnnoDecl |
    UnionDecl | AliasDecl | ParamList | TypeVarList | UnionVariantList | UnionVariant |
    TypeFun | TypeApp | TypeVar | TypeCon | TypeQual | TypeRecord | TypeRecordField |
    TypeTuple | TypeUnit | TypeParen | RowVar | PatWildcard | PatVar | PatCtor |
    PatCtorQual | PatList | PatCons | PatTuple | PatUnit | PatRecord | PatAlias | PatInt |
    PatFloat | PatString | PatChar | PatBool | PatParen | PatNegate | Literal |
    MultilineLiteral | Interpolation | RefExpr | QualRefExpr | AccessorExpr | FieldAccess |
    ListExpr | TupleExpr | UnitExpr | RecordExpr | RecordUpdate | RecordField | ParenExpr |
    NegateExpr | BinExpr | CallExpr | LambdaExpr | IfExpr | ElseIf | LetExpr | LetBinding |
    DestructureBinding | CaseExpr | MatchArm | Tombstone

text \<open>The discriminant \<open>k as u16\<close>: the position in the declaration.\<close>

primrec as_u16 :: "syntax_kind \<Rightarrow> nat" where
    "as_u16 Whitespace = 0"
  | "as_u16 Newline = 1"
  | "as_u16 LineComment = 2"
  | "as_u16 BlockComment = 3"
  | "as_u16 IntK = 4"
  | "as_u16 HexInt = 5"
  | "as_u16 Float = 6"
  | "as_u16 StringK = 7"
  | "as_u16 MultilineString = 8"
  | "as_u16 CharK = 9"
  | "as_u16 LowerIdent = 10"
  | "as_u16 UpperIdent = 11"
  | "as_u16 ModuleKw = 12"
  | "as_u16 ExposingKw = 13"
  | "as_u16 ImportKw = 14"
  | "as_u16 AsKw = 15"
  | "as_u16 TypeKw = 16"
  | "as_u16 AliasKw = 17"
  | "as_u16 IfKw = 18"
  | "as_u16 ThenKw = 19"
  | "as_u16 ElseKw = 20"
  | "as_u16 CaseKw = 21"
  | "as_u16 OfKw = 22"
  | "as_u16 LetKw = 23"
  | "as_u16 InKw = 24"
  | "as_u16 TrueKw = 25"
  | "as_u16 FalseKw = 26"
  | "as_u16 Eq = 27"
  | "as_u16 Colon = 28"
  | "as_u16 Colon2 = 29"
  | "as_u16 Dot = 30"
  | "as_u16 DotDot = 31"
  | "as_u16 Pipe = 32"
  | "as_u16 Arrow = 33"
  | "as_u16 Backslash = 34"
  | "as_u16 Op = 35"
  | "as_u16 LParen = 36"
  | "as_u16 RParen = 37"
  | "as_u16 LBrack = 38"
  | "as_u16 RBrack = 39"
  | "as_u16 LBrace = 40"
  | "as_u16 RBrace = 41"
  | "as_u16 Comma = 42"
  | "as_u16 Underscore = 43"
  | "as_u16 StringChunk = 44"
  | "as_u16 InterpOpen = 45"
  | "as_u16 InterpClose = 46"
  | "as_u16 Error = 47"
  | "as_u16 Eof = 48"
  | "as_u16 SourceFile = 49"
  | "as_u16 ModuleHeader = 50"
  | "as_u16 ModuleName = 51"
  | "as_u16 ExposingList = 52"
  | "as_u16 ExposedValue = 53"
  | "as_u16 ExposedType = 54"
  | "as_u16 ExposedCtorList = 55"
  | "as_u16 ExposedOperator = 56"
  | "as_u16 Import = 57"
  | "as_u16 ImportAlias = 58"
  | "as_u16 ImportExposing = 59"
  | "as_u16 ValueDecl = 60"
  | "as_u16 TypeAnnoDecl = 61"
  | "as_u16 UnionDecl = 62"
  | "as_u16 AliasDecl = 63"
  | "as_u16 ParamList = 64"
  | "as_u16 TypeVarList = 65"
  | "as_u16 UnionVariantList = 66"
  | "as_u16 UnionVariant = 67"
  | "as_u16 TypeFun = 68"
  | "as_u16 TypeApp = 69"
  | "as_u16 TypeVar = 70"
  | "as_u16 TypeCon = 71"
  | "as_u16 TypeQual = 72"
  | "as_u16 TypeRecord = 73"
  | "as_u16 TypeRecordField = 74"
  | "as_u16 TypeTuple = 75"
  | "as_u16 TypeUnit = 76"
  | "as_u16 TypeParen = 77"
  | "as_u16 RowVar = 78"
  | "as_u16 PatWildcard = 79"
  | "as_u16 PatVar = 80"
  | "as_u16 PatCtor = 81"
  | "as_u16 PatCtorQual = 82"
  | "as_u16 PatList = 83"
  | "as_u16 PatCons = 84"
  | "as_u16 PatTuple = 85"
  | "as_u16 PatUnit = 86"
  | "as_u16 PatRecord = 87"
  | "as_u16 PatAlias = 88"
  | "as_u16 PatInt = 89"
  | "as_u16 PatFloat = 90"
  | "as_u16 PatString = 91"
  | "as_u16 PatChar = 92"
  | "as_u16 PatBool = 93"
  | "as_u16 PatParen = 94"
  | "as_u16 PatNegate = 95"
  | "as_u16 Literal = 96"
  | "as_u16 MultilineLiteral = 97"
  | "as_u16 Interpolation = 98"
  | "as_u16 RefExpr = 99"
  | "as_u16 QualRefExpr = 100"
  | "as_u16 AccessorExpr = 101"
  | "as_u16 FieldAccess = 102"
  | "as_u16 ListExpr = 103"
  | "as_u16 TupleExpr = 104"
  | "as_u16 UnitExpr = 105"
  | "as_u16 RecordExpr = 106"
  | "as_u16 RecordUpdate = 107"
  | "as_u16 RecordField = 108"
  | "as_u16 ParenExpr = 109"
  | "as_u16 NegateExpr = 110"
  | "as_u16 BinExpr = 111"
  | "as_u16 CallExpr = 112"
  | "as_u16 LambdaExpr = 113"
  | "as_u16 IfExpr = 114"
  | "as_u16 ElseIf = 115"
  | "as_u16 LetExpr = 116"
  | "as_u16 LetBinding = 117"
  | "as_u16 DestructureBinding = 118"
  | "as_u16 CaseExpr = 119"
  | "as_u16 MatchArm = 120"
  | "as_u16 Tombstone = 121"

text \<open>The variant's name, as \<open>{kind:?}\<close> prints it (\<open>derive(Debug)\<close>).\<close>

primrec debug_name :: "syntax_kind \<Rightarrow> string" where
    "debug_name Whitespace = ''Whitespace''"
  | "debug_name Newline = ''Newline''"
  | "debug_name LineComment = ''LineComment''"
  | "debug_name BlockComment = ''BlockComment''"
  | "debug_name IntK = ''Int''"
  | "debug_name HexInt = ''HexInt''"
  | "debug_name Float = ''Float''"
  | "debug_name StringK = ''String''"
  | "debug_name MultilineString = ''MultilineString''"
  | "debug_name CharK = ''Char''"
  | "debug_name LowerIdent = ''LowerIdent''"
  | "debug_name UpperIdent = ''UpperIdent''"
  | "debug_name ModuleKw = ''ModuleKw''"
  | "debug_name ExposingKw = ''ExposingKw''"
  | "debug_name ImportKw = ''ImportKw''"
  | "debug_name AsKw = ''AsKw''"
  | "debug_name TypeKw = ''TypeKw''"
  | "debug_name AliasKw = ''AliasKw''"
  | "debug_name IfKw = ''IfKw''"
  | "debug_name ThenKw = ''ThenKw''"
  | "debug_name ElseKw = ''ElseKw''"
  | "debug_name CaseKw = ''CaseKw''"
  | "debug_name OfKw = ''OfKw''"
  | "debug_name LetKw = ''LetKw''"
  | "debug_name InKw = ''InKw''"
  | "debug_name TrueKw = ''TrueKw''"
  | "debug_name FalseKw = ''FalseKw''"
  | "debug_name Eq = ''Eq''"
  | "debug_name Colon = ''Colon''"
  | "debug_name Colon2 = ''Colon2''"
  | "debug_name Dot = ''Dot''"
  | "debug_name DotDot = ''DotDot''"
  | "debug_name Pipe = ''Pipe''"
  | "debug_name Arrow = ''Arrow''"
  | "debug_name Backslash = ''Backslash''"
  | "debug_name Op = ''Op''"
  | "debug_name LParen = ''LParen''"
  | "debug_name RParen = ''RParen''"
  | "debug_name LBrack = ''LBrack''"
  | "debug_name RBrack = ''RBrack''"
  | "debug_name LBrace = ''LBrace''"
  | "debug_name RBrace = ''RBrace''"
  | "debug_name Comma = ''Comma''"
  | "debug_name Underscore = ''Underscore''"
  | "debug_name StringChunk = ''StringChunk''"
  | "debug_name InterpOpen = ''InterpOpen''"
  | "debug_name InterpClose = ''InterpClose''"
  | "debug_name Error = ''Error''"
  | "debug_name Eof = ''Eof''"
  | "debug_name SourceFile = ''SourceFile''"
  | "debug_name ModuleHeader = ''ModuleHeader''"
  | "debug_name ModuleName = ''ModuleName''"
  | "debug_name ExposingList = ''ExposingList''"
  | "debug_name ExposedValue = ''ExposedValue''"
  | "debug_name ExposedType = ''ExposedType''"
  | "debug_name ExposedCtorList = ''ExposedCtorList''"
  | "debug_name ExposedOperator = ''ExposedOperator''"
  | "debug_name Import = ''Import''"
  | "debug_name ImportAlias = ''ImportAlias''"
  | "debug_name ImportExposing = ''ImportExposing''"
  | "debug_name ValueDecl = ''ValueDecl''"
  | "debug_name TypeAnnoDecl = ''TypeAnnoDecl''"
  | "debug_name UnionDecl = ''UnionDecl''"
  | "debug_name AliasDecl = ''AliasDecl''"
  | "debug_name ParamList = ''ParamList''"
  | "debug_name TypeVarList = ''TypeVarList''"
  | "debug_name UnionVariantList = ''UnionVariantList''"
  | "debug_name UnionVariant = ''UnionVariant''"
  | "debug_name TypeFun = ''TypeFun''"
  | "debug_name TypeApp = ''TypeApp''"
  | "debug_name TypeVar = ''TypeVar''"
  | "debug_name TypeCon = ''TypeCon''"
  | "debug_name TypeQual = ''TypeQual''"
  | "debug_name TypeRecord = ''TypeRecord''"
  | "debug_name TypeRecordField = ''TypeRecordField''"
  | "debug_name TypeTuple = ''TypeTuple''"
  | "debug_name TypeUnit = ''TypeUnit''"
  | "debug_name TypeParen = ''TypeParen''"
  | "debug_name RowVar = ''RowVar''"
  | "debug_name PatWildcard = ''PatWildcard''"
  | "debug_name PatVar = ''PatVar''"
  | "debug_name PatCtor = ''PatCtor''"
  | "debug_name PatCtorQual = ''PatCtorQual''"
  | "debug_name PatList = ''PatList''"
  | "debug_name PatCons = ''PatCons''"
  | "debug_name PatTuple = ''PatTuple''"
  | "debug_name PatUnit = ''PatUnit''"
  | "debug_name PatRecord = ''PatRecord''"
  | "debug_name PatAlias = ''PatAlias''"
  | "debug_name PatInt = ''PatInt''"
  | "debug_name PatFloat = ''PatFloat''"
  | "debug_name PatString = ''PatString''"
  | "debug_name PatChar = ''PatChar''"
  | "debug_name PatBool = ''PatBool''"
  | "debug_name PatParen = ''PatParen''"
  | "debug_name PatNegate = ''PatNegate''"
  | "debug_name Literal = ''Literal''"
  | "debug_name MultilineLiteral = ''MultilineLiteral''"
  | "debug_name Interpolation = ''Interpolation''"
  | "debug_name RefExpr = ''RefExpr''"
  | "debug_name QualRefExpr = ''QualRefExpr''"
  | "debug_name AccessorExpr = ''AccessorExpr''"
  | "debug_name FieldAccess = ''FieldAccess''"
  | "debug_name ListExpr = ''ListExpr''"
  | "debug_name TupleExpr = ''TupleExpr''"
  | "debug_name UnitExpr = ''UnitExpr''"
  | "debug_name RecordExpr = ''RecordExpr''"
  | "debug_name RecordUpdate = ''RecordUpdate''"
  | "debug_name RecordField = ''RecordField''"
  | "debug_name ParenExpr = ''ParenExpr''"
  | "debug_name NegateExpr = ''NegateExpr''"
  | "debug_name BinExpr = ''BinExpr''"
  | "debug_name CallExpr = ''CallExpr''"
  | "debug_name LambdaExpr = ''LambdaExpr''"
  | "debug_name IfExpr = ''IfExpr''"
  | "debug_name ElseIf = ''ElseIf''"
  | "debug_name LetExpr = ''LetExpr''"
  | "debug_name LetBinding = ''LetBinding''"
  | "debug_name DestructureBinding = ''DestructureBinding''"
  | "debug_name CaseExpr = ''CaseExpr''"
  | "debug_name MatchArm = ''MatchArm''"
  | "debug_name Tombstone = ''Tombstone''"

definition KINDS :: "syntax_kind list" where
  "KINDS = [
    Whitespace, Newline, LineComment, BlockComment, IntK, HexInt, Float, StringK,
    MultilineString, CharK, LowerIdent, UpperIdent, ModuleKw, ExposingKw, ImportKw, AsKw,
    TypeKw, AliasKw, IfKw, ThenKw, ElseKw, CaseKw, OfKw, LetKw, InKw, TrueKw, FalseKw, Eq,
    Colon, Colon2, Dot, DotDot, Pipe, Arrow, Backslash, Op, LParen, RParen, LBrack, RBrack,
    LBrace, RBrace, Comma, Underscore, StringChunk, InterpOpen, InterpClose, Error, Eof,
    SourceFile, ModuleHeader, ModuleName, ExposingList, ExposedValue, ExposedType,
    ExposedCtorList, ExposedOperator, Import, ImportAlias, ImportExposing, ValueDecl,
    TypeAnnoDecl, UnionDecl, AliasDecl, ParamList, TypeVarList, UnionVariantList,
    UnionVariant, TypeFun, TypeApp, TypeVar, TypeCon, TypeQual, TypeRecord,
    TypeRecordField, TypeTuple, TypeUnit, TypeParen, RowVar, PatWildcard, PatVar, PatCtor,
    PatCtorQual, PatList, PatCons, PatTuple, PatUnit, PatRecord, PatAlias, PatInt,
    PatFloat, PatString, PatChar, PatBool, PatParen, PatNegate, Literal, MultilineLiteral,
    Interpolation, RefExpr, QualRefExpr, AccessorExpr, FieldAccess, ListExpr, TupleExpr,
    UnitExpr, RecordExpr, RecordUpdate, RecordField, ParenExpr, NegateExpr, BinExpr,
    CallExpr, LambdaExpr, IfExpr, ElseIf, LetExpr, LetBinding, DestructureBinding,
    CaseExpr, MatchArm, Tombstone]"

definition from_u16 :: "nat \<Rightarrow> syntax_kind" where
  "from_u16 v = (if v < length KINDS then KINDS ! v else Error)"

definition is_trivia :: "syntax_kind \<Rightarrow> bool" where
  "is_trivia k \<longleftrightarrow> k = Whitespace \<or> k = Newline \<or> k = LineComment \<or> k = BlockComment"

section \<open>The discriminant and its inverse\<close>

lemma length_KINDS [simp]: "length KINDS = 122"
  by (simp add: KINDS_def)

lemma from_u16_as_u16 [simp]: "from_u16 (as_u16 k) = k"
  by (cases k) (simp_all add: from_u16_def KINDS_def nth_Cons')

lemma as_u16_inject [simp]: "as_u16 k = as_u16 k' \<longleftrightarrow> k = k'"
  by (metis from_u16_as_u16)

lemma as_u16_less: "as_u16 k < length KINDS"
  by (cases k) (simp_all add: KINDS_def)

lemma kind_in_KINDS: "k \<in> set KINDS"
  using as_u16_less[of k] from_u16_as_u16[of k] by (metis from_u16_def nth_mem)

lemma from_u16_clamps: "length KINDS \<le> v \<Longrightarrow> from_u16 v = Error"
  by (simp add: from_u16_def)

instantiation syntax_kind :: equal
begin
definition equal_syntax_kind :: "syntax_kind \<Rightarrow> syntax_kind \<Rightarrow> bool" where
  "equal_syntax_kind k k' = (as_u16 k = as_u16 k')"
instance
  by standard (simp add: equal_syntax_kind_def)
end

end
