(* ===== verification/Lexer.thy ===== *)
theory Lexer
  imports Syntax_Kind Prelude
begin

text \<open>
  \<open>rust/crates/syntax/src/lexer.rs\<close>. The regular tokens are \<open>logos\<close> patterns; \<open>logos\<close> itself is not
  part of the repository, so the scanner it generates is a parameter \<open>scan\<close>, and the locale
  \<open>logos_engine\<close> states what its documentation promises (the longest match of the patterns, with
  the priorities the source gives). The patterns, the four hand-written scanning callbacks, the
  keyword and operator reclassification and the token loop are translated from the source. The
  Unicode tables behind \<open>\p{L}\<close>, \<open>\p{N}\<close> and \<open>char::is_uppercase\<close> are parameters too.
\<close>

section \<open>Token classes and patterns\<close>

record lex_token =
  lt_kind :: syntax_kind
  lt_start :: nat
  lt_end :: nat

datatype lx = LxWs | LxNl | LxLineComment | LxBlockComment | LxHex | LxFloat | LxInt
  | LxMultiline | LxStr | LxChar | LxIdent | LxOp | LxLParen | LxRParen | LxLBrack | LxRBrack
  | LxLBrace | LxRBrace | LxComma | LxUnderscore

record unicode =
  is_letter :: "string \<Rightarrow> bool"
  is_number :: "string \<Rightarrow> bool"
  is_uppercase :: "string \<Rightarrow> bool"

definition is_digit :: "char \<Rightarrow> bool" where
  "is_digit c \<longleftrightarrow> c \<in> set ''0123456789''"

definition is_hex_digit :: "char \<Rightarrow> bool" where
  "is_hex_digit c \<longleftrightarrow> c \<in> set ''0123456789abcdefABCDEF''"

definition op_chars :: string where
  "op_chars = ''-+*/<>=!&|^~%?@#$:.'' @ [backslash]"

definition ascii_upper :: string where
  "ascii_upper = ''ABCDEFGHIJKLMNOPQRSTUVWXYZ''"

definition ascii_letters :: string where
  "ascii_letters = ''abcdefghijklmnopqrstuvwxyz'' @ ascii_upper"

text \<open>One or more digits, and the exponent \<open>[eE][+-]?[0-9]+\<close>.\<close>

definition digits1 :: "string \<Rightarrow> bool" where
  "digits1 s \<longleftrightarrow> s \<noteq> [] \<and> list_all is_digit s"

fun exponent :: "string \<Rightarrow> bool" where
  "exponent (e # s) = ((e = CHR ''e'' \<or> e = CHR ''E'') \<and>
     (digits1 s \<or> (s \<noteq> [] \<and> (hd s = CHR ''+'' \<or> hd s = CHR ''-'') \<and> digits1 (tl s))))"
| "exponent [] = False"

definition float_pattern :: "string \<Rightarrow> bool" where
  "float_pattern s = (let r = dropWhile is_digit s in
     takeWhile is_digit s \<noteq> [] \<and>
     (exponent r \<or>
      (r \<noteq> [] \<and> hd r = CHR ''.'' \<and> takeWhile is_digit (tl r) \<noteq> [] \<and>
       (let q = dropWhile is_digit (tl r) in q = [] \<or> exponent q))))"

fun ident_pattern :: "unicode \<Rightarrow> string list \<Rightarrow> bool" where
  "ident_pattern u [] = False"
| "ident_pattern u (c # cs) = ((c = ''_'' \<or> is_letter u c) \<and>
     list_all (\<lambda>d. d = ''_'' \<or> is_letter u d \<or> is_number u d) cs)"

text \<open>\<open>lx_matches u l s\<close>: the pattern of class \<open>l\<close> (the attribute on its variant) matches \<open>s\<close>.\<close>

definition lx_matches :: "unicode \<Rightarrow> lx \<Rightarrow> string \<Rightarrow> bool" where
  "lx_matches u l s = (case l of
     LxWs \<Rightarrow> s \<noteq> [] \<and> list_all (\<lambda>c. c = CHR '' '' \<or> c = tab \<or> c = carriage_return) s
   | LxNl \<Rightarrow> s = [newline]
   | LxLineComment \<Rightarrow> take 2 s = ''--'' \<and> list_all (\<lambda>c. c \<noteq> newline) (drop 2 s)
   | LxBlockComment \<Rightarrow> s = ''{-''
   | LxHex \<Rightarrow> take 2 s = ''0x'' \<and> drop 2 s \<noteq> [] \<and> list_all is_hex_digit (drop 2 s)
   | LxFloat \<Rightarrow> float_pattern s
   | LxInt \<Rightarrow> digits1 s
   | LxMultiline \<Rightarrow> s = [dquote, dquote, dquote]
   | LxStr \<Rightarrow> s = [dquote]
   | LxChar \<Rightarrow> s = [squote]
   | LxIdent \<Rightarrow> ident_pattern u (chars s)
   | LxOp \<Rightarrow> s \<noteq> [] \<and> list_all (\<lambda>c. c \<in> set op_chars) s
   | LxLParen \<Rightarrow> s = ''('' | LxRParen \<Rightarrow> s = '')''
   | LxLBrack \<Rightarrow> s = ''['' | LxRBrack \<Rightarrow> s = '']''
   | LxLBrace \<Rightarrow> s = ''{'' | LxRBrace \<Rightarrow> s = ''}''
   | LxComma \<Rightarrow> s = '','' | LxUnderscore \<Rightarrow> s = ''_'')"

section \<open>The generated scanner, as a contract\<close>

text \<open>
  \<open>scan rem\<close> is what the generated scanner does at the start of the remaining input \<open>rem\<close>: the
  class it picks (\<open>None\<close> where no pattern matches, \<open>logos\<close>'s \<open>Err(())\<close>) and the length of the
  match before any callback runs. It picks a longest match; where two patterns match the same
  longest text, the explicit priorities decide: 4 (line comment) over 2 (operator run), and 5
  (\<open>_\<close>) over an identifier.
\<close>

type_synonym scanner = "string \<Rightarrow> lx option \<times> nat"

locale logos_engine =
  fixes u :: unicode and scan :: scanner
  assumes scan_progress: "rem \<noteq> [] \<Longrightarrow> 0 < snd (scan rem)"
    and scan_within: "snd (scan rem) \<le> length rem"
    and scan_match: "fst (scan rem) = Some l \<Longrightarrow> lx_matches u l (take (snd (scan rem)) rem)"
    and scan_longest: "0 < m \<Longrightarrow> m \<le> length rem \<Longrightarrow> lx_matches u l (take m rem) \<Longrightarrow>
      fst (scan rem) \<noteq> None \<and> m \<le> snd (scan rem)"
    and scan_comment_priority:
      "fst (scan rem) = Some LxOp \<Longrightarrow> \<not> lx_matches u LxLineComment (take (snd (scan rem)) rem)"
    and scan_underscore_priority:
      "fst (scan rem) = Some LxIdent \<Longrightarrow> \<not> lx_matches u LxUnderscore (take (snd (scan rem)) rem)"
    and letter_ascii: "of_char c < (128::nat) \<Longrightarrow> is_letter u [c] \<longleftrightarrow> c \<in> set ascii_letters"
    and number_ascii: "of_char c < (128::nat) \<Longrightarrow> is_number u [c] \<longleftrightarrow> is_digit c"
    and uppercase_ascii: "of_char c < (128::nat) \<Longrightarrow> is_uppercase u [c] \<longleftrightarrow> c \<in> set ascii_upper"

section \<open>The scanning callbacks\<close>

text \<open>
  Each callback receives the remainder after the opening delimiter and returns how many bytes it
  adds to the token (the argument of \<open>lex.bump\<close>).
\<close>

fun lex_block_comment :: "nat \<Rightarrow> string \<Rightarrow> nat" where
  "lex_block_comment depth (a # b # r) =
     (if a = CHR ''{'' \<and> b = CHR ''-'' then 2 + lex_block_comment (depth + 1) r
      else if a = CHR ''-'' \<and> b = CHR ''}'' then
        (if depth - 1 = 0 then 2 else 2 + lex_block_comment (depth - 1) r)
      else 1 + lex_block_comment depth (b # r))"
| "lex_block_comment depth [c] = 1"
| "lex_block_comment depth [] = 0"

text \<open>
  The loop of \<open>lex_string\<close> and of \<open>lex_char\<close> over \<open>char_indices\<close>: \<open>i\<close> is the byte offset, the
  result is \<open>end.unwrap_or(stop)\<close>.
\<close>

fun lex_quoted :: "char \<Rightarrow> string list \<Rightarrow> nat \<Rightarrow> bool \<Rightarrow> nat" where
  "lex_quoted q [] i escaped = i"
| "lex_quoted q (c # cs) i escaped =
     (if escaped then lex_quoted q cs (i + length c) False
      else if c = [backslash] then lex_quoted q cs (i + length c) True
      else if c = [q] then i + 1
      else if c = [newline] then i
      else lex_quoted q cs (i + length c) False)"

definition lex_string :: "string \<Rightarrow> nat" where
  "lex_string rem = lex_quoted dquote (chars rem) 0 False"

definition lex_char :: "string \<Rightarrow> nat" where
  "lex_char rem = lex_quoted squote (chars rem) 0 False"

fun find_triple :: "string \<Rightarrow> nat option" where
  "find_triple (a # b # c # r) =
     (if a = dquote \<and> b = dquote \<and> c = dquote then Some 0
      else map_option Suc (find_triple (b # c # r)))"
| "find_triple _ = None"

definition lex_multiline :: "string \<Rightarrow> nat" where
  "lex_multiline rem = (case find_triple rem of Some pos \<Rightarrow> pos + 3 | None \<Rightarrow> length rem)"

definition callback :: "lx \<Rightarrow> string \<Rightarrow> nat" where
  "callback l rem = (case l of
     LxBlockComment \<Rightarrow> lex_block_comment 1 rem
   | LxMultiline \<Rightarrow> lex_multiline rem
   | LxStr \<Rightarrow> lex_string rem
   | LxChar \<Rightarrow> lex_char rem
   | _ \<Rightarrow> 0)"

section \<open>Reclassification by text\<close>

definition RESERVED_WORDS :: "string list" where
  "RESERVED_WORDS = [''module'', ''exposing'', ''import'', ''as'', ''type'', ''alias'', ''if'',
     ''then'', ''else'', ''case'', ''of'', ''let'', ''in'']"

definition lower_keyword :: "string \<Rightarrow> syntax_kind option" where
  "lower_keyword text =
     (if text = ''module'' then Some ModuleKw
      else if text = ''exposing'' then Some ExposingKw
      else if text = ''import'' then Some ImportKw
      else if text = ''as'' then Some AsKw
      else if text = ''type'' then Some TypeKw
      else if text = ''alias'' then Some AliasKw
      else if text = ''if'' then Some IfKw
      else if text = ''then'' then Some ThenKw
      else if text = ''else'' then Some ElseKw
      else if text = ''case'' then Some CaseKw
      else if text = ''of'' then Some OfKw
      else if text = ''let'' then Some LetKw
      else if text = ''in'' then Some InKw
      else None)"

definition classify_ident :: "unicode \<Rightarrow> string \<Rightarrow> syntax_kind" where
  "classify_ident u text = (case lower_keyword text of
     Some kw \<Rightarrow> kw
   | None \<Rightarrow> (case chars text of
        c # _ \<Rightarrow> if is_uppercase u c then
                  (if text = ''True'' then TrueKw
                   else if text = ''False'' then FalseKw else UpperIdent)
                else LowerIdent
      | [] \<Rightarrow> LowerIdent))"

definition classify_op :: "string \<Rightarrow> syntax_kind" where
  "classify_op text =
     (if text = ''='' then Eq
      else if text = '':'' then Colon
      else if text = ''::'' then Colon2
      else if text = ''.'' then Dot
      else if text = ''..'' then DotDot
      else if text = ''|'' then Pipe
      else if text = ''->'' then Arrow
      else if text = [backslash] then Backslash
      else Op)"

definition map_kind :: "unicode \<Rightarrow> lx \<Rightarrow> string \<Rightarrow> syntax_kind" where
  "map_kind u l text = (case l of
     LxWs \<Rightarrow> Whitespace | LxNl \<Rightarrow> Newline | LxLineComment \<Rightarrow> LineComment
   | LxBlockComment \<Rightarrow> BlockComment | LxHex \<Rightarrow> HexInt | LxFloat \<Rightarrow> Float | LxInt \<Rightarrow> IntK
   | LxMultiline \<Rightarrow> MultilineString | LxStr \<Rightarrow> StringK | LxChar \<Rightarrow> CharK
   | LxIdent \<Rightarrow> classify_ident u text | LxOp \<Rightarrow> classify_op text
   | LxLParen \<Rightarrow> LParen | LxRParen \<Rightarrow> RParen | LxLBrack \<Rightarrow> LBrack | LxRBrack \<Rightarrow> RBrack
   | LxLBrace \<Rightarrow> LBrace | LxRBrace \<Rightarrow> RBrace | LxComma \<Rightarrow> Comma | LxUnderscore \<Rightarrow> Underscore)"

section \<open>The token loop\<close>

text \<open>
  One \<open>lx.next()\<close>: the class and the whole length of the token, callback included. The loop runs
  on fuel; out of fuel is \<open>None\<close>, and \<open>lex\<close> gives it one unit per byte and one more. \<open>as u32\<close> on
  the offsets is the remainder modulo \<open>2 ^ 32\<close>.
\<close>

definition as_u32 :: "nat \<Rightarrow> nat" where
  "as_u32 n = n mod 2 ^ 32"

definition next_token :: "unicode \<Rightarrow> scanner \<Rightarrow> string \<Rightarrow> syntax_kind \<times> nat" where
  "next_token u scan rem = (let (res, n) = scan rem in
     case res of
       Some l \<Rightarrow> (let m = n + callback l (drop n rem) in (map_kind u l (take m rem), m))
     | None \<Rightarrow> (Error, n))"

fun lex_loop :: "unicode \<Rightarrow> scanner \<Rightarrow> nat \<Rightarrow> nat \<Rightarrow> string \<Rightarrow> lex_token list option" where
  "lex_loop u scan fuel pos [] = Some []"
| "lex_loop u scan 0 pos (c # cs) = None"
| "lex_loop u scan (Suc fuel) pos (c # cs) =
     (let (kind, n) = next_token u scan (c # cs) in
      map_option (\<lambda>rest. \<lparr>lt_kind = kind, lt_start = as_u32 pos, lt_end = as_u32 (pos + n)\<rparr> # rest)
        (lex_loop u scan fuel (pos + n) (drop n (c # cs))))"

definition lex :: "unicode \<Rightarrow> scanner \<Rightarrow> string \<Rightarrow> lex_token list option" where
  "lex u scan src = lex_loop u scan (Suc (length src)) 0 src"


section \<open>The callbacks stay inside the remainder\<close>

lemma lex_block_comment_le: "lex_block_comment d s \<le> length s"
  by (induction d s rule: lex_block_comment.induct) auto

lemma lex_quoted_le: "lex_quoted q cs i e \<le> i + length (concat cs)"
  by (induction q cs i e rule: lex_quoted.induct) (auto simp: add.assoc)

lemma find_triple_le: "find_triple s = Some p \<Longrightarrow> p + 3 \<le> length s"
  by (induction s arbitrary: p rule: find_triple.induct) (auto split: if_splits)

lemma callback_le: "callback l rem \<le> length rem"
proof (cases l)
  case LxMultiline
  then show ?thesis
    by (auto simp: callback_def lex_multiline_def dest: find_triple_le split: option.splits)
next
  case LxStr
  then show ?thesis
    using lex_quoted_le[of dquote "chars rem" 0 False] by (simp add: callback_def lex_string_def)
next
  case LxChar
  then show ?thesis
    using lex_quoted_le[of squote "chars rem" 0 False] by (simp add: callback_def lex_char_def)
qed (simp_all add: callback_def lex_block_comment_le)

section \<open>Tilings\<close>

text \<open>The tokens cover \<open>[a, b)\<close> in order, with no gap, no overlap and no empty token.\<close>

fun tiles :: "nat \<Rightarrow> lex_token list \<Rightarrow> nat \<Rightarrow> bool" where
  "tiles a [] b \<longleftrightarrow> a = b"
| "tiles a (t # ts) b \<longleftrightarrow> lt_start t = a \<and> a < lt_end t \<and> tiles (lt_end t) ts b"

definition token_text :: "string \<Rightarrow> lex_token \<Rightarrow> string" where
  "token_text src t = slice src (lt_start t) (lt_end t)"

lemma tiles_le: "tiles a ts b \<Longrightarrow> a \<le> b"
  by (induction a ts b rule: tiles.induct) auto

lemma tiles_bounds:
  "tiles a ts b \<Longrightarrow> t \<in> set ts \<Longrightarrow> a \<le> lt_start t \<and> lt_start t < lt_end t \<and> lt_end t \<le> b"
  by (induction a ts b rule: tiles.induct) (auto dest: tiles_le)

lemma tiles_append: "tiles a (xs @ ys) c \<longleftrightarrow> (\<exists>b. tiles a xs b \<and> tiles b ys c)"
  by (induction xs arbitrary: a) auto

lemma tiles_text: "tiles a ts b \<Longrightarrow> concat (map (token_text src) ts) = slice src a b"
proof (induction a ts b rule: tiles.induct)
  case (2 a t ts b)
  then show ?case
    using slice_append[of a "lt_end t" b src] tiles_le[of "lt_end t" ts b]
    by (simp add: token_text_def)
qed simp

context logos_engine
begin

lemma next_token_progress: "rem \<noteq> [] \<Longrightarrow> 0 < snd (next_token u scan rem)"
  using scan_progress[of rem]
  by (cases "scan rem") (auto simp: next_token_def Let_def split: option.splits)

lemma next_token_within: "snd (next_token u scan rem) \<le> length rem"
proof (cases "scan rem")
  case (Pair res n)
  have "n \<le> length rem" using scan_within[of rem] Pair by simp
  then have "n + callback l (drop n rem) \<le> length rem" for l
    using callback_le[of l "drop n rem"] by simp
  with Pair \<open>n \<le> length rem\<close> show ?thesis
    by (auto simp: next_token_def Let_def split: option.splits)
qed

text \<open>With one unit of fuel more than bytes the loop ends, and its tokens tile the input.\<close>

lemma lex_loop_tiles:
  "length rem < fuel \<Longrightarrow> pos + length rem < 2 ^ 32 \<Longrightarrow>
   \<exists>ts. lex_loop u scan fuel pos rem = Some ts \<and> tiles pos ts (pos + length rem)"
proof (induction fuel arbitrary: pos rem)
  case (Suc fuel)
  show ?case
  proof (cases rem)
    case Nil
    then show ?thesis by simp
  next
    case (Cons c cs)
    obtain k n where tok: "next_token u scan rem = (k, n)" by fastforce
    have n: "0 < n" "n \<le> length rem"
      using next_token_progress[of rem] next_token_within[of rem] tok Cons by auto
    then have "length (drop n rem) < fuel" "pos + n + length (drop n rem) < 2 ^ 32"
      using Suc.prems by auto
    from Suc.IH[OF this] obtain ts where
      ts: "lex_loop u scan fuel (pos + n) (drop n rem) = Some ts"
        "tiles (pos + n) ts (pos + length rem)"
      using n by auto
    have "as_u32 pos = pos" "as_u32 (pos + n) = pos + n"
      using Suc.prems n by (auto simp: as_u32_def)
    with ts n tok Cons show ?thesis by simp
  qed
qed simp

lemma lex_tiles:
  assumes "length src < 2 ^ 32"
  obtains ts where "lex u scan src = Some ts" "tiles 0 ts (length src)"
  using lex_loop_tiles[of src "Suc (length src)" 0] assms by (auto simp: lex_def)

end

section \<open>A scanner that satisfies the contract\<close>

text \<open>
  The patterns run directly: the longest prefix some pattern matches, the patterns tried in the
  order of their priorities; where none matches, one character is the error.
\<close>

definition lx_order :: "lx list" where
  "lx_order = [LxUnderscore, LxLineComment, LxWs, LxNl, LxBlockComment, LxHex, LxFloat, LxInt,
     LxMultiline, LxStr, LxChar, LxIdent, LxOp, LxLParen, LxRParen, LxLBrack, LxRBrack, LxLBrace,
     LxRBrace, LxComma]"

fun best_match :: "unicode \<Rightarrow> string \<Rightarrow> nat \<Rightarrow> lx option \<times> nat" where
  "best_match u rem 0 = (None, length (case chars rem of [] \<Rightarrow> [] | c # _ \<Rightarrow> c))"
| "best_match u rem (Suc m) = (case find (\<lambda>l. lx_matches u l (take (Suc m) rem)) lx_order of
     Some l \<Rightarrow> (Some l, Suc m) | None \<Rightarrow> best_match u rem m)"

definition ref_scan :: "unicode \<Rightarrow> scanner" where
  "ref_scan u rem = best_match u rem (length rem)"

definition ascii_unicode :: unicode where
  "ascii_unicode = \<lparr>is_letter = (\<lambda>c. c \<in> (\<lambda>a. [a]) ` set ascii_letters),
     is_number = (\<lambda>c. c \<in> (\<lambda>a. [a]) ` {a. is_digit a}),
     is_uppercase = (\<lambda>c. c \<in> (\<lambda>a. [a]) ` set ascii_upper)\<rparr>"

lemma lx_order_complete: "l \<in> set lx_order"
  by (cases l) (simp_all add: lx_order_def)

lemma best_match_within: "m \<le> length rem \<Longrightarrow> snd (best_match u rem m) \<le> length rem"
proof (induction m)
  case 0
  show ?case by (cases rem) auto
qed (auto split: option.splits)

lemma best_match_progress: "rem \<noteq> [] \<Longrightarrow> 0 < snd (best_match u rem m)"
proof (induction m)
  case 0
  then show ?case by (cases rem) auto
qed (auto split: option.splits)

lemma find_SomeD: "find P xs = Some x \<Longrightarrow> P x"
  by (induction xs) (auto split: if_splits)

lemma best_match_match:
  "fst (best_match u rem m) = Some l \<Longrightarrow> lx_matches u l (take (snd (best_match u rem m)) rem)"
  by (induction m) (auto split: option.splits dest: find_SomeD)

lemma best_match_longest:
  assumes "0 < k" "k \<le> m" "lx_matches u l (take k rem)"
  shows "fst (best_match u rem m) \<noteq> None \<and> k \<le> snd (best_match u rem m)"
  using assms
proof (induction m)
  case (Suc m)
  show ?case
  proof (cases "find (\<lambda>l. lx_matches u l (take (Suc m) rem)) lx_order")
    case None
    then have "k \<noteq> Suc m"
      using Suc.prems(3) lx_order_complete[of l] by (auto simp: find_None_iff)
    with Suc None show ?thesis by auto
  next
    case (Some l')
    with Suc.prems show ?thesis by simp
  qed
qed simp

text \<open>An earlier pattern of the order is never passed over at the length that is picked.\<close>

lemma find_earlier:
  "find P (xs @ ys) = Some y \<Longrightarrow> y \<notin> set xs \<Longrightarrow> x \<in> set xs \<Longrightarrow> \<not> P x"
  by (induction xs) (auto split: if_splits)

lemma best_match_order:
  assumes "fst (best_match u rem m) = Some l" "lx_order = xs @ ys" "l \<notin> set xs" "l' \<in> set xs"
  shows "\<not> lx_matches u l' (take (snd (best_match u rem m)) rem)"
  using assms(1)
proof (induction m)
  case (Suc m)
  show ?case
  proof (cases "find (\<lambda>l. lx_matches u l (take (Suc m) rem)) lx_order")
    case None
    with Suc show ?thesis by simp
  next
    case (Some l'')
    with Suc.prems have "find (\<lambda>l. lx_matches u l (take (Suc m) rem)) (xs @ ys) = Some l"
      using assms(2) by simp
    from find_earlier[OF this assms(3,4)] Some show ?thesis by simp
  qed
qed simp

interpretation ref_logos: logos_engine ascii_unicode "ref_scan ascii_unicode"
proof
  fix rem :: string and l m
  show "rem \<noteq> [] \<Longrightarrow> 0 < snd (ref_scan ascii_unicode rem)"
    by (simp add: ref_scan_def best_match_progress)
  show "snd (ref_scan ascii_unicode rem) \<le> length rem"
    by (simp add: ref_scan_def best_match_within)
  show "lx_matches ascii_unicode l (take (snd (ref_scan ascii_unicode rem)) rem)"
    if "fst (ref_scan ascii_unicode rem) = Some l"
    using that by (simp add: ref_scan_def best_match_match)
  show "fst (ref_scan ascii_unicode rem) \<noteq> None \<and> m \<le> snd (ref_scan ascii_unicode rem)"
    if "0 < m" "m \<le> length rem" "lx_matches ascii_unicode l (take m rem)"
    using that by (simp only: ref_scan_def best_match_longest simp_thms)
  show "\<not> lx_matches ascii_unicode LxLineComment (take (snd (ref_scan ascii_unicode rem)) rem)"
    if "fst (ref_scan ascii_unicode rem) = Some LxOp"
    using best_match_order[of ascii_unicode rem "length rem" LxOp "[LxUnderscore, LxLineComment]"
        "drop 2 lx_order" LxLineComment] that
    by (simp add: ref_scan_def lx_order_def)
  show "\<not> lx_matches ascii_unicode LxUnderscore (take (snd (ref_scan ascii_unicode rem)) rem)"
    if "fst (ref_scan ascii_unicode rem) = Some LxIdent"
    using best_match_order[of ascii_unicode rem "length rem" LxIdent "[LxUnderscore]"
        "drop 1 lx_order" LxUnderscore] that
    by (simp add: ref_scan_def lx_order_def)
qed (auto simp: ascii_unicode_def)

lemma ref_logos_engine: "logos_engine ascii_unicode (ref_scan ascii_unicode)"
  by (rule ref_logos.logos_engine_axioms)

section \<open>Properties of the lexer\<close>

text \<open>Losslessness of the lexer: for every source under 4 GiB the token loop ends, and its
  tokens cover the source from its first byte to its last, in order, with no gap, no overlap and
  no empty token, so that the texts of the tokens concatenate to the source.\<close>

theorem lex_lossless:
  assumes "logos_engine u scan" and "length src < 2 ^ 32"
  shows "\<exists>ts. lex u scan src = Some ts \<and> tiles 0 ts (length src) \<and>
    concat (map (token_text src) ts) = src"
  using logos_engine.lex_tiles[OF assms] tiles_text by (metis slice_full)

context logos_engine
begin

lemma dash_not_letter: "\<not> is_letter u ''-''"
  using letter_ascii[of "CHR ''-''"] by (simp add: ascii_letters_def ascii_upper_def)

text \<open>Only the comment and the operator pattern match a text that begins with two dashes.\<close>

lemma dashes_class:
  assumes "lx_matches u l (CHR ''-'' # CHR ''-'' # s)"
  shows "l = LxLineComment \<or> l = LxOp"
  using assms dash_not_letter
  by (cases l) (simp_all add: lx_matches_def digits1_def is_digit_def float_pattern_def Let_def
      utf8_width_def)

lemma take_without_newline:
  assumes "newline \<notin> set (take n xs)" "n \<le> length xs"
  shows "n \<le> length (takeWhile (\<lambda>c. c \<noteq> newline) xs)"
proof (rule ccontr)
  let ?k = "length (takeWhile (\<lambda>c. c \<noteq> newline) xs)"
  assume "\<not> n \<le> ?k"
  then have k: "?k < n" by simp
  then have "xs ! ?k = newline"
    using nth_length_takeWhile[of "\<lambda>c. c \<noteq> newline" xs] assms(2) by simp
  moreover have "take n xs ! ?k = xs ! ?k" "?k < length (take n xs)"
    using k assms(2) by auto
  ultimately show False
    using assms(1) by (metis nth_mem)
qed

lemma op_no_newline: "newline \<notin> set op_chars"
  by (simp add: op_chars_def)

lemma next_token_comment:
  assumes "take 2 rem = ''--''"
  shows "next_token u scan rem = (LineComment, length (takeWhile (\<lambda>c. c \<noteq> newline) rem))"
proof -
  let ?n = "length (takeWhile (\<lambda>c. c \<noteq> newline) rem)"
  obtain r where rem: "rem = CHR ''-'' # CHR ''-'' # r"
    using assms by (cases rem; cases "tl rem") auto
  have pre: "take ?n rem = takeWhile (\<lambda>c. c \<noteq> newline) rem"
    by (simp add: takeWhile_eq_take[symmetric])
  have "lx_matches u LxLineComment (take ?n rem)"
    unfolding pre by (auto simp: lx_matches_def rem list_all_iff dest: set_takeWhileD)
  moreover have "0 < ?n" "?n \<le> length rem"
    by (simp_all add: rem length_takeWhile_le)
  ultimately have "fst (scan rem) \<noteq> None" and len: "?n \<le> snd (scan rem)"
    using scan_longest by blast+
  then obtain l where l: "fst (scan rem) = Some l" by blast
  from len have two: "take (snd (scan rem)) rem = CHR ''-'' # CHR ''-'' # take (snd (scan rem) - 2) r"
    by (simp add: rem take_Cons split: nat.splits)
  have "l \<noteq> LxOp"
  proof
    assume "l = LxOp"
    with l have "\<not> lx_matches u LxLineComment (take (snd (scan rem)) rem)"
      "lx_matches u LxOp (take (snd (scan rem)) rem)"
      using scan_comment_priority[of rem] scan_match[of rem] by auto
    then show False
      using op_no_newline by (auto simp: two lx_matches_def list_all_iff)
  qed
  then have l': "l = LxLineComment"
    using scan_match[OF l] dashes_class two by metis
  have "newline \<notin> set (take (snd (scan rem)) rem)"
    using scan_match[OF l] by (auto simp: l' two lx_matches_def list_all_iff)
  then have "snd (scan rem) \<le> ?n"
    using scan_within[of rem] by (intro take_without_newline)
  with len l l' show ?thesis
    by (cases "scan rem") (simp add: next_token_def callback_def map_kind_def)
qed

end

text \<open>A line comment beats the operators: whatever follows two dashes, the lexer reads one
  comment token that runs to the end of the line and leaves the newline out, although the
  operator pattern matches the dashes too.\<close>

theorem line_comment_beats_operator:
  assumes "logos_engine u scan" and "take 2 rem = ''--''"
  shows "next_token u scan rem = (LineComment, length (takeWhile (\<lambda>c. c \<noteq> newline) rem))"
  using assms by (rule logos_engine.next_token_comment)

text \<open>
  The bodies of block comments: any bytes, as long as every \<open>{-\<close> inside is closed by its own \<open>-}\<close>.
\<close>

inductive comment_body :: "string \<Rightarrow> bool" where
  empty: "comment_body []"
| plain: "comment_body s \<Longrightarrow> c \<noteq> CHR ''{'' \<Longrightarrow> c \<noteq> CHR ''-'' \<Longrightarrow> comment_body (c # s)"
| brace: "comment_body (c # s) \<Longrightarrow> c \<noteq> CHR ''-'' \<Longrightarrow> comment_body (CHR ''{'' # c # s)"
| dash: "comment_body s \<Longrightarrow> (s \<noteq> [] \<longrightarrow> hd s \<noteq> CHR ''}'') \<Longrightarrow> comment_body (CHR ''-'' # s)"
| nested: "comment_body s \<Longrightarrow> comment_body t \<Longrightarrow> comment_body (''{-'' @ s @ ''-}'' @ t)"

lemma lex_block_comment_body:
  "comment_body s \<Longrightarrow> lex_block_comment (Suc d) (s @ ''-}'' @ r) =
     length s + (if d = 0 then 2 else 2 + lex_block_comment d r)"
proof (induction arbitrary: d r rule: comment_body.induct)
  case (plain s c)
  then show ?case by (cases s) simp_all
next
  case (brace c s)
  then show ?case by simp
next
  case (dash s)
  then show ?case by (cases s) auto
next
  case (nested s t)
  have "lex_block_comment (Suc d) ((''{-'' @ s @ ''-}'' @ t) @ ''-}'' @ r) =
      2 + lex_block_comment (Suc (Suc d)) (s @ ''-}'' @ (t @ ''-}'' @ r))"
    by simp
  also have "\<dots> = 2 + length s + (2 + lex_block_comment (Suc d) (t @ ''-}'' @ r))"
    using nested.IH(1)[of "Suc d"] by simp
  finally show ?case using nested.IH(2)[of d] by simp
qed simp

text \<open>Nested block comments: after an opening delimiter the callback ends the token exactly
  after the delimiter that closes it, skipping every well-nested comment inside, whatever
  follows.\<close>

theorem block_comment_nesting:
  assumes "comment_body s"
  shows "callback LxBlockComment (s @ ''-}'' @ rest) = length s + 2"
  using lex_block_comment_body[OF assms, of 0 rest] by (simp add: callback_def)

end
