(* ===== verification/Layout.thy ===== *)
theory Layout
  imports Lexer
begin

text \<open>
  \<open>rust/crates/syntax/src/layout.rs\<close>: the pass between lexer and parser. It drops the trivia and
  gives each significant token the three layout facts the parser reads: whether it begins a line,
  its column, and whether trivia precedes it.
\<close>

record ptoken =
  pt_kind :: syntax_kind
  pt_start :: nat
  pt_end :: nat
  pt_newline_before :: bool
  pt_col :: nat
  pt_ws_before :: bool

definition ws_width :: "string \<Rightarrow> nat" where
  "ws_width ch = (if ch = '' '' then 1 else if ch = [tab] then 4
     else if ch = [carriage_return] then 0 else 1)"

text \<open>Columns are \<open>u32\<close>. The release profile of \<open>rust/Cargo.toml\<close> has no overflow checks, so a sum wraps around;
  \<open>layout_no_overflow\<close> shows that none does in a source below 1 GiB, where the checked profiles behave the same.\<close>

definition add_u32 :: "nat \<Rightarrow> nat \<Rightarrow> nat" where
  "add_u32 a b = (a + b) mod 2 ^ 32"

definition advance_col :: "string \<Rightarrow> syntax_kind \<Rightarrow> nat \<Rightarrow> nat" where
  "advance_col text kind col =
     (if kind = Newline then 1
      else if kind = Whitespace then foldl (\<lambda>c ch. add_u32 c (ws_width ch)) col (chars text)
      else if newline \<in> set text then
        add_u32 (length (chars (rev (takeWhile (\<lambda>c. c \<noteq> newline) (rev text)))) mod 2 ^ 32) 1
      else add_u32 col (length (chars text) mod 2 ^ 32))"

fun layout_loop :: "string \<Rightarrow> lex_token list \<Rightarrow> nat \<Rightarrow> bool \<Rightarrow> bool \<Rightarrow> ptoken list" where
  "layout_loop src [] col newline_since prev_was_trivia = []"
| "layout_loop src (tok # raw) col newline_since prev_was_trivia =
     (let text = slice src (lt_start tok) (lt_end tok);
          col' = advance_col text (lt_kind tok) col
      in if is_trivia (lt_kind tok)
         then layout_loop src raw col' (newline_since \<or> lt_kind tok = Newline) True
         else \<lparr>pt_kind = lt_kind tok, pt_start = lt_start tok, pt_end = lt_end tok,
                pt_newline_before = newline_since, pt_col = col, pt_ws_before = prev_was_trivia\<rparr>
              # layout_loop src raw col' False False)"

definition layout :: "string \<Rightarrow> lex_token list \<Rightarrow> ptoken list" where
  "layout src raw = layout_loop src raw 1 False False"

section \<open>The significant tokens\<close>

definition significant :: "lex_token list \<Rightarrow> lex_token list" where
  "significant raw = filter (\<lambda>t. \<not> is_trivia (lt_kind t)) raw"

definition strip :: "ptoken \<Rightarrow> lex_token" where
  "strip t = \<lparr>lt_kind = pt_kind t, lt_start = pt_start t, lt_end = pt_end t\<rparr>"

lemma strip_layout_loop: "map strip (layout_loop src raw col nl tr) = significant raw"
  by (induction src raw col nl tr rule: layout_loop.induct)
    (simp_all add: significant_def strip_def Let_def)

text \<open>The layout pass keeps exactly the significant tokens: dropping the layout facts from its
  result gives the lexer's tokens that are not trivia, each once, in order, with kind and span
  unchanged.\<close>

theorem layout_keeps_significant: "map strip (layout src raw) = significant raw"
  by (simp add: layout_def strip_layout_loop)

lemma layout_keeps_significant_nth:
  "i < length (significant raw) \<Longrightarrow> strip (layout src raw ! i) = significant raw ! i"
  by (metis length_map nth_map strip_layout_loop layout_def)

lemma layout_token_in_raw: "t \<in> set (layout src raw) \<Longrightarrow> strip t \<in> set raw"
proof -
  assume "t \<in> set (layout src raw)"
  then have "strip t \<in> set (significant raw)"
    by (metis image_eqI set_map strip_layout_loop layout_def)
  then show ?thesis by (simp add: significant_def)
qed

lemma length_layout: "length (layout src raw) = length (significant raw)"
  by (metis length_map strip_layout_loop layout_def)

lemma layout_not_trivia: "t \<in> set (layout src raw) \<Longrightarrow> \<not> is_trivia (pt_kind t)"
proof -
  assume "t \<in> set (layout src raw)"
  then have "strip t \<in> set (significant raw)"
    by (metis image_eqI set_map strip_layout_loop layout_def)
  then show ?thesis by (simp add: significant_def strip_def)
qed

section \<open>Columns\<close>

text \<open>The same sums without a bound, and when they agree.\<close>

definition advance_wide :: "string \<Rightarrow> syntax_kind \<Rightarrow> nat \<Rightarrow> nat" where
  "advance_wide text kind col =
     (if kind = Newline then 1
      else if kind = Whitespace then col + sum_list (map ws_width (chars text))
      else if newline \<in> set text then length (chars (rev (takeWhile (\<lambda>c. c \<noteq> newline) (rev text)))) + 1
      else col + length (chars text))"

lemma sum_ws_le: "sum_list (map ws_width cs) \<le> 4 * length cs"
proof (induction cs)
  case (Cons c cs)
  have "ws_width c \<le> 4" by (simp add: ws_width_def)
  with Cons show ?case by simp
qed simp

lemma fold_ws_wide:
  "col + 4 * length cs < 2 ^ 32 \<Longrightarrow> foldl (\<lambda>c ch. add_u32 c (ws_width ch)) col cs = col + sum_list (map ws_width cs)"
proof (induction cs arbitrary: col)
  case (Cons c cs)
  have "ws_width c \<le> 4" by (simp add: ws_width_def)
  with Cons.prems have "add_u32 col (ws_width c) = col + ws_width c" "col + ws_width c + 4 * length cs < 2 ^ 32"
    by (simp_all add: add_u32_def)
  then show ?case using Cons.IH by simp
qed simp

lemma tail_chars: "length (chars (rev (takeWhile (\<lambda>c. c \<noteq> newline) (rev text)))) \<le> length text"
  using length_chars_le[of "rev (takeWhile (\<lambda>c. c \<noteq> newline) (rev text))"]
    length_takeWhile_le[of "\<lambda>c. c \<noteq> newline" "rev text"] by simp

lemma advance_wide_bounds:
  "0 < col \<Longrightarrow> 0 < advance_wide text kind col" "0 < col \<Longrightarrow> advance_wide text kind col \<le> col + 4 * length text"
  using sum_ws_le[of "chars text"] length_chars_le[of "text"] tail_chars[of "text"]
  by (auto simp: advance_wide_def)

lemma advance_col_wide:
  assumes "0 < col" "col + 4 * length text < 2 ^ 32"
  shows "advance_col text kind col = advance_wide text kind col"
proof -
  have "col + 4 * length (chars text) < 2 ^ 32" using assms(2) length_chars_le[of "text"] by simp
  note fold_ws_wide[OF this, unfolded add_u32_def]
  moreover have "length (chars text) < 2 ^ 32 \<and> col + length (chars text) < 2 ^ 32"
    "length (chars (rev (takeWhile (\<lambda>c. c \<noteq> newline) (rev text)))) + 1 < 2 ^ 32"
    using assms length_chars_le[of "text"] tail_chars[of "text"] by linarith+
  ultimately show ?thesis by (auto simp: advance_col_def advance_wide_def add_u32_def)
qed

lemma layout_loop_col:
  "t \<in> set (layout_loop src raw col nl tr) \<Longrightarrow> tiles a raw b \<Longrightarrow> 0 < col \<Longrightarrow> col \<le> 1 + 4 * a \<Longrightarrow>
   b \<le> length src \<Longrightarrow> length src < 2 ^ 30 \<Longrightarrow> 0 < pt_col t \<and> pt_col t \<le> 1 + 4 * pt_start t"
proof (induction src raw col nl tr arbitrary: a rule: layout_loop.induct)
  case (2 src tok raw col nl tr)
  let ?text = "slice src (lt_start tok) (lt_end tok)"
  let ?col = "advance_col ?text (lt_kind tok) col"
  from "2.prems"(2) have a: "lt_start tok = a" "a < lt_end tok" "tiles (lt_end tok) raw b"
    by auto
  have len: "length ?text = lt_end tok - a" "lt_end tok \<le> length src"
    using a tiles_le[OF a(3)] "2.prems"(5) by simp_all
  have "col + 4 * length ?text < 2 ^ 32" using len a(2) "2.prems"(4,6) by simp
  note wide = advance_col_wide[OF "2.prems"(3) this, of "lt_kind tok"]
  have pos: "0 < ?col" unfolding wide by (rule advance_wide_bounds(1)) fact
  have le: "?col \<le> 1 + 4 * lt_end tok"
    using advance_wide_bounds(2)[OF "2.prems"(3), of ?text "lt_kind tok"] "2.prems"(4) a(2) len unfolding wide by simp
  show ?case
  proof (cases "is_trivia (lt_kind tok)")
    case True
    with "2.IH"(1)[OF refl refl True _ a(3) pos le] "2.prems" show ?thesis
      by (simp add: Let_def)
  next
    case False
    with "2.IH"(2)[OF refl refl False _ a(3) pos le] "2.prems" a(1) show ?thesis
      by (auto simp: Let_def)
  qed
qed simp

text \<open>Columns are 1-based and bounded: for tokens that tile a source below 1 GiB, every significant token has
  a column of at least 1 and at most 1 plus four times its byte offset (a tab counts as four).\<close>

theorem layout_columns:
  assumes "tiles 0 raw (length src)" "length src < 2 ^ 30" "t \<in> set (layout src raw)"
  shows "0 < pt_col t \<and> pt_col t \<le> 1 + 4 * pt_start t"
  by (rule layout_loop_col) (use assms in \<open>auto simp: layout_def\<close>)

section \<open>The facts of one token\<close>

text \<open>
  The state the loop has after the tokens \<open>pre\<close>: the column, whether a newline came since the last
  significant token, and whether the last token was trivia.
\<close>

definition trailing_trivia :: "lex_token list \<Rightarrow> lex_token list" where
  "trailing_trivia pre = rev (takeWhile (\<lambda>t. is_trivia (lt_kind t)) (rev pre))"

lemma trailing_trivia_snoc:
  "trailing_trivia (pre @ [t]) = (if is_trivia (lt_kind t) then trailing_trivia pre @ [t] else [])"
  by (simp add: trailing_trivia_def)

definition col_after :: "string \<Rightarrow> lex_token list \<Rightarrow> nat" where
  "col_after src pre = foldl (\<lambda>c t. advance_col (token_text src t) (lt_kind t) c) 1 pre"

text \<open>In a source below 1 GiB no column sum wraps around: after any of its tokens the column is the unbounded sum.\<close>

theorem layout_no_overflow:
  assumes "tiles 0 (pre @ post) (length src)" "length src < 2 ^ 30"
  shows "col_after src pre = foldl (\<lambda>c t. advance_wide (token_text src t) (lt_kind t) c) 1 pre"
proof -
  have "tiles a (pre @ post) b \<Longrightarrow> b \<le> length src \<Longrightarrow> 0 < c \<Longrightarrow> c \<le> 1 + 4 * a \<Longrightarrow>
      foldl (\<lambda>c t. advance_col (token_text src t) (lt_kind t) c) c pre =
      foldl (\<lambda>c t. advance_wide (token_text src t) (lt_kind t) c) c pre" for a b c
  proof (induction pre arbitrary: a c)
    case (Cons t pre)
    let ?text = "token_text src t"
    have t: "lt_start t = a" "a < lt_end t" "tiles (lt_end t) (pre @ post) b" using Cons.prems(1) by auto
    have len: "length ?text = lt_end t - a" "lt_end t \<le> length src"
      using t tiles_le[OF t(3)] Cons.prems(2) by (simp_all add: token_text_def)
    have "c + 4 * length ?text < 2 ^ 32" using len t(2) Cons.prems(4) assms(2) by simp
    note wide = advance_col_wide[OF Cons.prems(3) this, of "lt_kind t"]
    have "0 < advance_wide ?text (lt_kind t) c" "advance_wide ?text (lt_kind t) c \<le> 1 + 4 * lt_end t"
      using advance_wide_bounds[OF Cons.prems(3), of ?text "lt_kind t"] Cons.prems(4) len t(2) by simp_all
    from Cons.IH[OF t(3) Cons.prems(2) this] show ?case by (simp add: wide)
  qed simp
  from this[of 0 "length src" 1] assms(1) show ?thesis by (simp add: col_after_def)
qed

lemma layout_loop_after:
  "layout_loop src raw (col_after src pre) (\<exists>n\<in>set (trailing_trivia pre). lt_kind n = Newline)
     (trailing_trivia pre \<noteq> []) = drop (length (significant pre)) (layout src (pre @ raw))"
proof (induction pre arbitrary: raw rule: rev_induct)
  case Nil
  show ?case
    by (simp add: layout_def col_after_def trailing_trivia_def significant_def)
next
  case (snoc t pre)
  have col: "col_after src (pre @ [t]) =
      advance_col (slice src (lt_start t) (lt_end t)) (lt_kind t) (col_after src pre)"
    by (simp add: col_after_def token_text_def)
  show ?case
  proof (cases "is_trivia (lt_kind t)")
    case True
    then have "significant (pre @ [t]) = significant pre" by (simp add: significant_def)
    with snoc[of "t # raw"] True show ?thesis
      by (simp add: col trailing_trivia_snoc Let_def bex_Un disj_commute)
  next
    case False
    then have "length (significant (pre @ [t])) = Suc (length (significant pre))"
      by (simp add: significant_def)
    have "layout_loop src raw (col_after src (pre @ [t])) False False =
        tl (layout_loop src (t # raw) (col_after src pre)
          (\<exists>n\<in>set (trailing_trivia pre). lt_kind n = Newline) (trailing_trivia pre \<noteq> []))"
      using False by (simp add: col Let_def)
    also have "\<dots> = tl (drop (length (significant pre)) (layout src (pre @ t # raw)))"
      by (simp only: snoc)
    also have "\<dots> = drop (length (significant (pre @ [t]))) (layout src ((pre @ [t]) @ raw))"
      by (simp add: \<open>length (significant (pre @ [t])) = _\<close> drop_Suc tl_drop)
    finally show ?thesis using False by (simp add: trailing_trivia_snoc)
  qed
qed

text \<open>The layout facts of every significant token, wherever it stands: it is first on its line
  exactly when a newline token lies in the trivia directly before it, it has whitespace before it
  exactly when that trivia is not empty, and its column is the width of everything before it.\<close>

theorem layout_facts:
  assumes "\<not> is_trivia (lt_kind t)"
  shows "layout src (pre @ t # post) ! length (significant pre) =
    \<lparr>pt_kind = lt_kind t, pt_start = lt_start t, pt_end = lt_end t,
     pt_newline_before = (\<exists>n\<in>set (trailing_trivia pre). lt_kind n = Newline),
     pt_col = col_after src pre, pt_ws_before = (trailing_trivia pre \<noteq> [])\<rparr>"
proof -
  let ?n = "length (significant pre)"
  have "?n < length (layout src (pre @ t # post))"
    using assms by (simp add: length_layout significant_def)
  then have "layout src (pre @ t # post) ! ?n = hd (drop ?n (layout src (pre @ t # post)))"
    by (simp add: hd_drop_conv_nth)
  also have "\<dots> = hd (layout_loop src (t # post) (col_after src pre)
      (\<exists>n\<in>set (trailing_trivia pre). lt_kind n = Newline) (trailing_trivia pre \<noteq> []))"
    by (simp only: layout_loop_after)
  finally show ?thesis using assms by (simp add: Let_def)
qed

end
