(* ===== verification/Event.thy ===== *)
theory Event
  imports Layout
begin

text \<open>
  \<open>rust/crates/syntax/src/event.rs\<close>: the parser's flat event list and the sink \<open>build_tree\<close> that
  replays it, with the trivia put back, into calls of rowan's \<open>GreenNodeBuilder\<close>. rowan is not part
  of the repository: what it makes of a sequence of builder calls is a parameter \<open>rowan\<close>, and the
  locale \<open>green_builder\<close> states its documented behaviour. Kinds cross the boundary as raw \<open>u16\<close>
  values.
\<close>

section \<open>Events and the sink\<close>

datatype event = Start syntax_kind "nat option" | Finish | Token syntax_kind
  | RawSlice syntax_kind nat nat | Skip

definition tombstone :: event where
  "tombstone = Start Tombstone None"

datatype bcall = StartNode nat | TokenCall nat string | FinishNode

datatype green = GNode nat "green list" | GToken nat string

definition kind_to_raw :: "syntax_kind \<Rightarrow> nat" where
  "kind_to_raw k = as_u16 k"

definition kind_from_raw :: "nat \<Rightarrow> syntax_kind" where
  "kind_from_raw v = from_u16 v"

lemma kind_raw_roundtrip [simp]: "kind_from_raw (kind_to_raw k) = k"
  by (simp add: kind_from_raw_def kind_to_raw_def)

record sink =
  sk_raw_pos :: nat
  sk_depth :: nat
  sk_max_depth :: nat
  sk_calls :: "bcall list"

definition token_call :: "string \<Rightarrow> syntax_kind \<Rightarrow> lex_token \<Rightarrow> bcall" where
  "token_call src k t = TokenCall (kind_to_raw k) (token_text src t)"

definition eat_trivia :: "string \<Rightarrow> lex_token list \<Rightarrow> sink \<Rightarrow> sink" where
  "eat_trivia src raw s =
     (let ts = takeWhile (\<lambda>t. is_trivia (lt_kind t)) (drop (sk_raw_pos s) raw) in
      s\<lparr>sk_raw_pos := sk_raw_pos s + length ts,
        sk_calls := sk_calls s @ map (\<lambda>t. token_call src (lt_kind t) t) ts\<rparr>)"

text \<open>
  The \<open>while let Some(fwd)\<close> loop along a chain of forward parents. \<open>None\<close> is a panic (a parent
  outside the list, or one that is not a \<open>Start\<close>) or exhausted fuel.
\<close>

fun follow :: "nat \<Rightarrow> event list \<Rightarrow> nat \<Rightarrow> nat option \<Rightarrow> syntax_kind list \<Rightarrow>
    (event list \<times> syntax_kind list) option" where
  "follow fuel events idx None kinds = Some (events, kinds)"
| "follow 0 events idx (Some fwd) kinds = None"
| "follow (Suc fuel) events idx (Some fwd) kinds =
     (let idx' = idx + fwd in
      if idx' < length events then
        (case events ! idx' of
           Start kind fp \<Rightarrow> follow fuel (events[idx' := tombstone]) idx' fp
             (if kind \<noteq> Tombstone then kinds @ [kind] else kinds)
         | _ \<Rightarrow> None)
      else None)"

definition start_node :: "syntax_kind \<Rightarrow> sink \<Rightarrow> sink" where
  "start_node k s = (if k = Tombstone then s
     else s\<lparr>sk_calls := sk_calls s @ [StartNode (kind_to_raw k)], sk_depth := sk_depth s + 1,
            sk_max_depth := max (sk_max_depth s) (sk_depth s + 1)\<rparr>)"

definition finish_node :: "sink \<Rightarrow> sink" where
  "finish_node s = s\<lparr>sk_calls := sk_calls s @ [FinishNode], sk_depth := sk_depth s - 1\<rparr>"

definition take_token :: "string \<Rightarrow> lex_token list \<Rightarrow> syntax_kind \<Rightarrow> sink \<Rightarrow> sink" where
  "take_token src raw k s = (let s1 = eat_trivia src raw s in
     if sk_raw_pos s1 < length raw
     then s1\<lparr>sk_calls := sk_calls s1 @ [token_call src k (raw ! sk_raw_pos s1)],
             sk_raw_pos := sk_raw_pos s1 + 1\<rparr>
     else s1)"

definition skip_token :: "string \<Rightarrow> lex_token list \<Rightarrow> sink \<Rightarrow> sink" where
  "skip_token src raw s = (let s1 = eat_trivia src raw s in
     if sk_raw_pos s1 < length raw then s1\<lparr>sk_raw_pos := sk_raw_pos s1 + 1\<rparr> else s1)"

definition emit_slice_call :: "string \<Rightarrow> syntax_kind \<Rightarrow> nat \<Rightarrow> nat \<Rightarrow> sink \<Rightarrow> sink" where
  "emit_slice_call src k a b s =
     s\<lparr>sk_calls := sk_calls s @ [TokenCall (kind_to_raw k) (slice src a b)]\<rparr>"

text \<open>One turn of the loop at index \<open>i\<close> (\<open>events[i]\<close> is replaced by a tombstone), and \<open>n\<close> turns.\<close>

definition build_step :: "string \<Rightarrow> lex_token list \<Rightarrow> nat \<Rightarrow> event list \<Rightarrow> nat \<Rightarrow> sink \<Rightarrow>
    (event list \<times> sink) option" where
  "build_step src raw last_ix events i s =
     (let events' = events[i := tombstone] in
      case events ! i of
        Start kind fp \<Rightarrow>
          (if kind = Tombstone \<and> fp = None then Some (events', s)
           else map_option (\<lambda>(events'', kinds). (events'', foldl (\<lambda>s k. start_node k s) s (rev kinds)))
                  (follow (length events) events' i fp [kind]))
      | Finish \<Rightarrow> Some (events', finish_node (if i = last_ix then eat_trivia src raw s else s))
      | Token kind \<Rightarrow> Some (events', take_token src raw kind s)
      | RawSlice kind a b \<Rightarrow> Some (events', emit_slice_call src kind a b s)
      | Skip \<Rightarrow> Some (events', skip_token src raw s))"

fun build_run :: "string \<Rightarrow> lex_token list \<Rightarrow> nat \<Rightarrow> nat \<Rightarrow> event list \<Rightarrow> nat \<Rightarrow> sink \<Rightarrow>
    (event list \<times> sink) option" where
  "build_run src raw last_ix 0 events i s = Some (events, s)"
| "build_run src raw last_ix (Suc n) events i s =
     (case build_step src raw last_ix events i s of
        None \<Rightarrow> None
      | Some (events', s') \<Rightarrow> build_run src raw last_ix n events' (Suc i) s')"

definition empty_sink :: sink where
  "empty_sink = \<lparr>sk_raw_pos = 0, sk_depth = 0, sk_max_depth = 0, sk_calls = []\<rparr>"

definition build_calls :: "string \<Rightarrow> lex_token list \<Rightarrow> event list \<Rightarrow> sink option" where
  "build_calls src raw events =
     map_option (\<lambda>(_, s). eat_trivia src raw s)
       (build_run src raw (length events - 1) (length events) events 0 empty_sink)"

definition build_tree :: "(bcall list \<Rightarrow> green option) \<Rightarrow> string \<Rightarrow> lex_token list \<Rightarrow> event list \<Rightarrow>
    (green \<times> nat) option" where
  "build_tree rowan src raw events =
     (case build_calls src raw events of
        None \<Rightarrow> None
      | Some s \<Rightarrow> map_option (\<lambda>t. (t, sk_max_depth s)) (rowan (sk_calls s)))"

section \<open>The builder's contract\<close>

fun calls_of :: "green \<Rightarrow> bcall list" where
  "calls_of (GToken k t) = [TokenCall k t]"
| "calls_of (GNode k ts) = StartNode k # concat (map calls_of ts) @ [FinishNode]"

fun green_text :: "green \<Rightarrow> string" where
  "green_text (GToken k t) = t"
| "green_text (GNode k ts) = concat (map green_text ts)"

fun green_height :: "green \<Rightarrow> nat" where
  "green_height (GToken k t) = 0"
| "green_height (GNode k ts) = Suc (fold max (map green_height ts) 0)"

text \<open>Replaying the calls that describe a node gives that node back.\<close>

locale green_builder =
  fixes rowan :: "bcall list \<Rightarrow> green option"
  assumes builds: "rowan (calls_of (GNode k ts)) = Some (GNode k ts)"

text \<open>A builder that satisfies it: a stack of open nodes, as rowan's documentation describes.\<close>

fun stack_builder :: "(nat \<times> green list) list \<Rightarrow> green list \<Rightarrow> bcall list \<Rightarrow> green option" where
  "stack_builder [] [t] [] = Some t"
| "stack_builder _ _ [] = None"
| "stack_builder st ts (StartNode k # cs) = stack_builder ((k, ts) # st) [] cs"
| "stack_builder st ts (TokenCall k t # cs) = stack_builder st (ts @ [GToken k t]) cs"
| "stack_builder ((k, up) # st) ts (FinishNode # cs) = stack_builder st (up @ [GNode k ts]) cs"
| "stack_builder [] ts (FinishNode # cs) = None"

definition ref_rowan :: "bcall list \<Rightarrow> green option" where
  "ref_rowan cs = stack_builder [] [] cs"

lemma stack_builder_calls:
  "stack_builder st ts (calls_of t @ cs) = stack_builder st (ts @ [t]) cs"
proof (induction t arbitrary: st ts cs)
  case (GNode k us)
  have "stack_builder st' ts' (concat (map calls_of vs) @ cs') = stack_builder st' (ts' @ vs) cs'"
    if "set vs \<subseteq> set us" for st' ts' vs cs'
    using that
  proof (induction vs arbitrary: ts')
    case (Cons v vs)
    then have "v \<in> set us" by simp
    from GNode.IH[OF this] Cons show ?case by simp
  qed simp
  from this[of us] show ?case by simp
qed simp

interpretation ref_builder: green_builder ref_rowan
proof
  fix k ts
  show "ref_rowan (calls_of (GNode k ts)) = Some (GNode k ts)"
    using stack_builder_calls[of "[]" "[]" "GNode k ts" "[]"] by (simp add: ref_rowan_def)
qed

section \<open>Balanced calls\<close>

inductive bal :: "bcall list \<Rightarrow> bool" where
  bal_Nil [simp, intro]: "bal []"
| bal_token [simp, intro]: "bal [TokenCall k t]"
| bal_node: "bal cs \<Longrightarrow> bal (StartNode k # cs @ [FinishNode])"
| bal_append [intro]: "bal cs \<Longrightarrow> bal ds \<Longrightarrow> bal (cs @ ds)"

lemma bal_trees: "bal cs \<Longrightarrow> \<exists>ts. cs = concat (map calls_of ts)"
proof (induction rule: bal.induct)
  case (bal_token k t)
  show ?case by (rule exI[of _ "[GToken k t]"]) simp
next
  case (bal_node cs k)
  then obtain ts where "cs = concat (map calls_of ts)" by blast
  then show ?case by (intro exI[of _ "[GNode k ts]"]) simp
next
  case (bal_append cs ds)
  then obtain ts us where "cs = concat (map calls_of ts)" "ds = concat (map calls_of us)" by blast
  then show ?case by (intro exI[of _ "ts @ us"]) simp
qed (auto intro: exI[of _ "[]"])

fun is_token_call :: "bcall \<Rightarrow> bool" where
  "is_token_call (TokenCall k t) = True"
| "is_token_call _ = False"

fun call_text :: "bcall \<Rightarrow> string" where
  "call_text (TokenCall k t) = t"
| "call_text _ = []"

definition calls_text :: "bcall list \<Rightarrow> string" where
  "calls_text cs = concat (map call_text cs)"

lemma calls_text_simps [simp]:
  "calls_text [] = []" "calls_text (c # cs) = call_text c @ calls_text cs"
  "calls_text (cs @ ds) = calls_text cs @ calls_text ds"
  by (simp_all add: calls_text_def)

lemma calls_text_tokens: "calls_text (filter is_token_call cs) = calls_text cs"
proof (induction cs)
  case (Cons c cs)
  then show ?case by (cases c) simp_all
qed simp

lemma calls_text_calls_of [simp]: "calls_text (calls_of t) = green_text t"
proof (induction t)
  case (GNode k ts)
  then have "calls_text (concat (map calls_of ts)) = concat (map green_text ts)"
    by (induction ts) auto
  then show ?case by simp
qed simp

text \<open>The calls of a chain: all the nodes open first, then each body ends with one \<open>FinishNode\<close>.\<close>

definition chain_calls :: "nat list \<Rightarrow> bcall list list \<Rightarrow> bcall list" where
  "chain_calls ks css = map StartNode (rev ks) @ concat (map (\<lambda>cs. cs @ [FinishNode]) css)"

lemma chain_calls_node:
  "ks \<noteq> [] \<Longrightarrow> length ks = length css \<Longrightarrow> \<forall>c \<in> set css. bal c \<Longrightarrow>
   \<exists>inner. bal inner \<and> chain_calls ks css = StartNode (last ks) # inner @ [FinishNode]"
proof (induction ks arbitrary: css rule: rev_nonempty_induct)
  case (single k)
  then obtain c where "css = [c]" by (cases css) auto
  with single show ?case by (auto simp: chain_calls_def)
next
  case (snoc k ks)
  then obtain css' c where css: "css = css' @ [c]" by (cases css rule: rev_cases) auto
  with snoc obtain inner where "bal inner"
    "chain_calls ks css' = StartNode (last ks) # inner @ [FinishNode]"
    by (auto dest: snoc.IH)
  moreover from this have "bal (chain_calls ks css')" using bal_node[of inner "last ks"] by simp
  ultimately have "bal (chain_calls ks css' @ c)"
    using snoc.prems css by (intro bal_append) auto
  then show ?case by (auto simp: css chain_calls_def)
qed

lemma chain_calls_bal:
  "ks \<noteq> [] \<Longrightarrow> length ks = length css \<Longrightarrow> \<forall>c \<in> set css. bal c \<Longrightarrow> bal (chain_calls ks css)"
  using chain_calls_node bal_node by metis

section \<open>Well-formed event lists\<close>

text \<open>
  The events of one finished node, as \<open>precede\<close> leaves them: segments, one per re-parenting, the
  \<open>Start\<close> of each pointing forward to the next. The last segment's node is the outermost.
\<close>

fun chain_evs :: "(syntax_kind \<times> event list) list \<Rightarrow> event list" where
  "chain_evs [] = []"
| "chain_evs ((k, es) # rest) =
     Start k (if rest = [] then None else Some (length es + 2)) # es @ Finish # chain_evs rest"

definition is_leaf :: "event \<Rightarrow> bool" where
  "is_leaf e \<longleftrightarrow> (case e of Start k fp \<Rightarrow> False | Finish \<Rightarrow> False | _ \<Rightarrow> True)"

inductive forest :: "event list \<Rightarrow> bool" where
  forest_Nil [simp, intro]: "forest []"
| forest_leaf: "forest f \<Longrightarrow> is_leaf e \<Longrightarrow> forest (f @ [e])"
| forest_chain: "forest f \<Longrightarrow> segs \<noteq> [] \<Longrightarrow>
    (\<And>k es. (k, es) \<in> set segs \<Longrightarrow> k \<noteq> Tombstone \<and> forest es) \<Longrightarrow> forest (f @ chain_evs segs)"

lemma forest_append:
  assumes "forest g" "forest f"
  shows "forest (f @ g)"
  using assms(1)
proof (induction rule: forest.induct)
  case (forest_leaf g e)
  then show ?case
    using forest.forest_leaf[of "f @ g" e] by simp
next
  case (forest_chain g segs)
  then show ?case
    using forest.forest_chain[of "f @ g" segs] by simp
qed (simp add: assms)

lemma forest_single_leaf: "is_leaf e \<Longrightarrow> forest [e]"
  using forest_leaf[of "[]" e] by simp

lemma forest_single_chain:
  "segs \<noteq> [] \<Longrightarrow> \<forall>(k, es) \<in> set segs. k \<noteq> Tombstone \<and> forest es \<Longrightarrow> forest (chain_evs segs)"
  using forest_chain[of "[]" segs] by auto

lemma chain_evs_snoc:
  "chain_evs (segs @ [(k, es)]) =
     concat (map (\<lambda>(k, es). Start k (Some (length es + 2)) # es @ [Finish]) segs) @
     Start k None # es @ [Finish]"
  by (induction segs rule: chain_evs.induct) auto

text \<open>The same events once their \<open>Start\<close>s have been replaced by tombstones.\<close>

definition open_dead :: "(syntax_kind \<times> event list) list \<Rightarrow> event list" where
  "open_dead rest = concat (map (\<lambda>(k, es). Finish # tombstone # es) rest)"

lemma open_dead_simps [simp]:
  "open_dead [] = []" "open_dead ((k, es) # rest) = Finish # tombstone # es @ open_dead rest"
  by (simp_all add: open_dead_def)

lemma length_chain_evs: "length (Finish # chain_evs rest) = length (open_dead rest @ [Finish])"
  by (induction rest rule: chain_evs.induct) auto

lemma follow_chain:
  assumes "length rest \<le> fuel" "\<forall>(k, es) \<in> set rest. k \<noteq> Tombstone"
  shows "follow fuel (A @ X # es @ Finish # chain_evs rest @ B) (length A)
      (if rest = [] then None else Some (length es + 2)) ks =
    Some (A @ X # es @ open_dead rest @ Finish # B, ks @ map fst rest)"
  using assms
proof (induction rest arbitrary: fuel A X es ks)
  case (Cons seg rest)
  obtain k es' where seg: "seg = (k, es')" by fastforce
  from Cons.prems(1) obtain fuel' where fuel: "fuel = Suc fuel'" by (cases fuel) auto
  let ?A = "A @ X # es @ [Finish]"
  let ?fp = "if rest = [] then None else Some (length es' + 2)"
  let ?evs = "?A @ Start k ?fp # es' @ Finish # chain_evs rest @ B"
  have at: "?evs ! length ?A = Start k ?fp" and upd: "?evs[length ?A := tombstone] =
      ?A @ tombstone # es' @ Finish # chain_evs rest @ B"
    by (simp_all only: nth_append_length list_update_length)
  have ix: "length A + (length es + 2) = length ?A" by simp
  have "follow fuel (A @ X # es @ Finish # chain_evs ((k, es') # rest) @ B) (length A)
      (Some (length es + 2)) ks = follow (Suc fuel') ?evs (length A) (Some (length es + 2)) ks"
    by (simp add: fuel)
  also have "\<dots> = follow fuel' (?A @ tombstone # es' @ Finish # chain_evs rest @ B) (length ?A)
      ?fp (ks @ [k])"
    unfolding follow.simps Let_def ix at upd using Cons.prems(2) seg by simp
  also have "\<dots> = Some (?A @ tombstone # es' @ open_dead rest @ Finish # B, (ks @ [k]) @ map fst rest)"
    by (rule Cons.IH) (use Cons.prems fuel in auto)
  finally show ?case by (simp add: seg)
qed simp

section \<open>Replaying a well-formed event list\<close>

text \<open>What the leaf events alone do: the raw position and the token calls, from position \<open>p\<close>.\<close>

definition leaf_step :: "string \<Rightarrow> lex_token list \<Rightarrow> event \<Rightarrow> sink \<Rightarrow> sink" where
  "leaf_step src raw e s = (case e of
     Token k \<Rightarrow> take_token src raw k s
   | RawSlice k a b \<Rightarrow> emit_slice_call src k a b s
   | Skip \<Rightarrow> skip_token src raw s
   | _ \<Rightarrow> s)"

definition at_pos :: "nat \<Rightarrow> sink" where
  "at_pos p = \<lparr>sk_raw_pos = p, sk_depth = 0, sk_max_depth = 0, sk_calls = []\<rparr>"

fun leaf_out :: "string \<Rightarrow> lex_token list \<Rightarrow> nat \<Rightarrow> event list \<Rightarrow> nat \<times> bcall list" where
  "leaf_out src raw p [] = (p, [])"
| "leaf_out src raw p (e # es) =
     (let s = leaf_step src raw e (at_pos p); (q, cs) = leaf_out src raw (sk_raw_pos s) es
      in (q, sk_calls s @ cs))"

lemma leaf_out_append:
  "leaf_out src raw p (xs @ ys) =
     (let (q, cs) = leaf_out src raw p xs; (r, ds) = leaf_out src raw q ys in (r, cs @ ds))"
  by (induction src raw p xs rule: leaf_out.induct) (auto simp: Let_def split: prod.splits)

lemma leaf_out_app:
  "leaf_out src raw p (xs @ ys) =
     (fst (leaf_out src raw (fst (leaf_out src raw p xs)) ys),
      snd (leaf_out src raw p xs) @ snd (leaf_out src raw (fst (leaf_out src raw p xs)) ys))"
  by (simp add: leaf_out_append Let_def split: prod.splits)

lemma leaf_out_Cons:
  "leaf_out src raw p (e # es) =
     (let s = leaf_step src raw e (at_pos p); r = leaf_out src raw (sk_raw_pos s) es
      in (fst r, sk_calls s @ snd r))"
  by (simp add: Let_def split: prod.splits)

lemma leaf_out_struct [simp]:
  "leaf_out src raw p (Start k fp # es) = leaf_out src raw p es"
  "leaf_out src raw p (Finish # es) = leaf_out src raw p es"
  "leaf_out src raw p (tombstone # es) = leaf_out src raw p es"
  by (simp_all add: leaf_step_def at_pos_def tombstone_def split: prod.splits)

declare leaf_out.simps(2) [simp del]

lemma leaf_out_chain: "leaf_out src raw p (chain_evs rest) = leaf_out src raw p (open_dead rest)"
proof (induction rest arbitrary: p)
  case (Cons seg rest)
  then show ?case by (cases seg) (simp add: leaf_out_append)
qed simp

lemma take_token_frame:
  "take_token src raw k s = s\<lparr>sk_raw_pos := sk_raw_pos (take_token src raw k (at_pos (sk_raw_pos s))),
     sk_calls := sk_calls s @ sk_calls (take_token src raw k (at_pos (sk_raw_pos s)))\<rparr>"
  by (simp add: take_token_def eat_trivia_def at_pos_def Let_def)

lemma skip_token_frame:
  "skip_token src raw s = s\<lparr>sk_raw_pos := sk_raw_pos (skip_token src raw (at_pos (sk_raw_pos s))),
     sk_calls := sk_calls s @ sk_calls (skip_token src raw (at_pos (sk_raw_pos s)))\<rparr>"
  by (simp add: skip_token_def eat_trivia_def at_pos_def Let_def)

lemma leaf_step_frame:
  "leaf_step src raw e s = s\<lparr>sk_raw_pos := sk_raw_pos (leaf_step src raw e (at_pos (sk_raw_pos s))),
     sk_calls := sk_calls s @ sk_calls (leaf_step src raw e (at_pos (sk_raw_pos s)))\<rparr>"
proof (cases e)
  case (Token k)
  then show ?thesis using take_token_frame[of src raw k s] by (simp add: leaf_step_def)
next
  case Skip
  then show ?thesis using skip_token_frame[of src raw s] by (simp add: leaf_step_def)
qed (simp_all add: leaf_step_def emit_slice_call_def at_pos_def)

lemma bal_token_list: "list_all is_token_call cs \<Longrightarrow> bal cs"
proof (induction cs)
  case (Cons c cs)
  then have "bal [c]" by (cases c) auto
  with Cons show ?case using bal_append[of "[c]" cs] by simp
qed auto

lemma leaf_step_tokens: "list_all is_token_call (sk_calls (leaf_step src raw e (at_pos p)))"
  by (auto simp: leaf_step_def take_token_def skip_token_def emit_slice_call_def eat_trivia_def
      at_pos_def token_call_def Let_def list_all_iff split: event.splits)

text \<open>The contract of a region \<open>f\<close> of the list that lies before the final event.\<close>

definition region_ok :: "string \<Rightarrow> lex_token list \<Rightarrow> nat \<Rightarrow> event list \<Rightarrow> bool" where
  "region_ok src raw last_ix f \<longleftrightarrow> (\<forall>A B s. length A + length f \<le> last_ix \<longrightarrow>
     (\<exists>f' s' cs. build_run src raw last_ix (length f) (A @ f @ B) (length A) s = Some (A @ f' @ B, s') \<and>
        length f' = length f \<and> sk_calls s' = sk_calls s @ cs \<and> bal cs \<and> sk_depth s' = sk_depth s \<and>
        (sk_raw_pos s', filter is_token_call cs) = leaf_out src raw (sk_raw_pos s) f))"

lemma build_run_add:
  "build_run src raw last_ix (m + n) events i s =
     (case build_run src raw last_ix m events i s of
        None \<Rightarrow> None | Some (events', s') \<Rightarrow> build_run src raw last_ix n events' (i + m) s')"
  by (induction m arbitrary: events i s) (auto split: option.splits)

lemma region_okE:
  assumes "region_ok src raw last_ix f" "length A + length f \<le> last_ix"
  obtains f' s' cs where
    "build_run src raw last_ix (length f) (A @ f @ B) (length A) s = Some (A @ f' @ B, s')"
    "length f' = length f" "sk_calls s' = sk_calls s @ cs" "bal cs" "sk_depth s' = sk_depth s"
    "sk_raw_pos s' = fst (leaf_out src raw (sk_raw_pos s) f)"
    "filter is_token_call cs = snd (leaf_out src raw (sk_raw_pos s) f)"
  using assms unfolding region_ok_def by (metis fst_conv snd_conv)

lemma region_ok_append:
  assumes "region_ok src raw last_ix f" "region_ok src raw last_ix g"
  shows "region_ok src raw last_ix (f @ g)"
  unfolding region_ok_def
proof (intro allI impI)
  fix A B :: "event list" and s assume len: "length A + length (f @ g) \<le> last_ix"
  then have lf: "length A + length f \<le> last_ix" by simp
  obtain f' s1 cs where 1:
    "build_run src raw last_ix (length f) (A @ f @ (g @ B)) (length A) s = Some (A @ f' @ (g @ B), s1)"
    "length f' = length f" "sk_calls s1 = sk_calls s @ cs" "bal cs" "sk_depth s1 = sk_depth s"
    "sk_raw_pos s1 = fst (leaf_out src raw (sk_raw_pos s) f)"
    "filter is_token_call cs = snd (leaf_out src raw (sk_raw_pos s) f)"
    using region_okE[OF assms(1) lf] by metis
  have lg: "length (A @ f') + length g \<le> last_ix" using len 1(2) by simp
  obtain g' s2 ds where 2:
    "build_run src raw last_ix (length g) ((A @ f') @ g @ B) (length (A @ f')) s1 =
       Some ((A @ f') @ g' @ B, s2)"
    "length g' = length g" "sk_calls s2 = sk_calls s1 @ ds" "bal ds" "sk_depth s2 = sk_depth s1"
    "sk_raw_pos s2 = fst (leaf_out src raw (sk_raw_pos s1) g)"
    "filter is_token_call ds = snd (leaf_out src raw (sk_raw_pos s1) g)"
    using region_okE[OF assms(2) lg] by metis
  have "build_run src raw last_ix (length (f @ g)) (A @ (f @ g) @ B) (length A) s =
      Some (A @ (f' @ g') @ B, s2)"
    using 1(1,2) 2(1) by (simp add: build_run_add)
  moreover have "(sk_raw_pos s2, filter is_token_call (cs @ ds)) =
      leaf_out src raw (sk_raw_pos s) (f @ g)"
    using 1(6,7) 2(6,7) by (simp add: leaf_out_append Let_def split: prod.splits)
  ultimately show "\<exists>f' s' cs. build_run src raw last_ix (length (f @ g)) (A @ (f @ g) @ B) (length A) s =
      Some (A @ f' @ B, s') \<and> length f' = length (f @ g) \<and> sk_calls s' = sk_calls s @ cs \<and> bal cs \<and>
      sk_depth s' = sk_depth s \<and>
      (sk_raw_pos s', filter is_token_call cs) = leaf_out src raw (sk_raw_pos s) (f @ g)"
    using 1 2 by (intro exI[of _ "f' @ g'"] exI[of _ s2] exI[of _ "cs @ ds"]) auto
qed

lemma region_ok_Nil: "region_ok src raw last_ix []"
  by (simp add: region_ok_def exI[of _ "[]"])

lemma region_ok_leaf:
  assumes "is_leaf e"
  shows "region_ok src raw last_ix [e]"
  unfolding region_ok_def
proof (intro allI impI)
  fix A B :: "event list" and s
  have "build_step src raw last_ix (A @ [e] @ B) (length A) s =
      Some (A @ [tombstone] @ B, leaf_step src raw e s)"
    using assms by (cases e) (simp_all add: build_step_def is_leaf_def leaf_step_def)
  then show "\<exists>f' s' cs. build_run src raw last_ix (length [e]) (A @ [e] @ B) (length A) s =
      Some (A @ f' @ B, s') \<and> length f' = length [e] \<and> sk_calls s' = sk_calls s @ cs \<and> bal cs \<and>
      sk_depth s' = sk_depth s \<and>
      (sk_raw_pos s', filter is_token_call cs) = leaf_out src raw (sk_raw_pos s) [e]"
    using leaf_step_frame[of src raw e s] leaf_step_tokens[of src raw e "sk_raw_pos s"]
    by (intro exI[of _ "[tombstone]"] exI[of _ "leaf_step src raw e s"]
        exI[of _ "sk_calls (leaf_step src raw e (at_pos (sk_raw_pos s)))"])
      (auto simp: bal_token_list list_all_iff filter_id_conv Let_def leaf_out.simps(2))
qed

text \<open>The part of a chain after its opening, up to its last \<open>Finish\<close>.\<close>

lemma run_open_dead:
  assumes "\<forall>(k, es) \<in> set rest. region_ok src raw last_ix es"
    and "length A + length (open_dead rest) \<le> last_ix"
  shows "\<exists>f' s' css. build_run src raw last_ix (length (open_dead rest)) (A @ open_dead rest @ B)
      (length A) s = Some (A @ f' @ B, s') \<and> length f' = length (open_dead rest) \<and>
    sk_calls s' = sk_calls s @ concat (map ((#) FinishNode) css) \<and> length css = length rest \<and>
    (\<forall>c \<in> set css. bal c) \<and> sk_depth s' = sk_depth s - length rest \<and>
    (sk_raw_pos s', filter is_token_call (concat css)) = leaf_out src raw (sk_raw_pos s) (open_dead rest)"
  using assms
proof (induction rest arbitrary: A s)
  case Nil
  then show ?case by (intro exI[of _ "[]"] exI[of _ s]) simp
next
  case (Cons seg rest)
  obtain k es where seg: "seg = (k, es)" by fastforce
  let ?s1 = "finish_node s"
  let ?A = "A @ [tombstone, tombstone]"
  have len: "length ?A + length es + length (open_dead rest) \<le> last_ix"
    using Cons.prems(2) seg by simp
  have two: "build_run src raw last_ix (Suc (Suc n)) (A @ Finish # tombstone # X) (length A) s =
      build_run src raw last_ix n (?A @ X) (length ?A) ?s1" for n X
  proof -
    have "build_step src raw last_ix (A @ Finish # tombstone # X) (length A) s =
        Some (A @ tombstone # tombstone # X, ?s1)"
      using len by (simp add: build_step_def)
    moreover have "build_step src raw last_ix (A @ tombstone # tombstone # X) (Suc (length A)) ?s1 =
        Some (A @ tombstone # tombstone # X, ?s1)"
      by (simp add: build_step_def nth_append list_update_append) (simp add: tombstone_def)
    ultimately show ?thesis by simp
  qed
  from Cons.prems(1) seg have "region_ok src raw last_ix es" by simp
  moreover have "length ?A + length es \<le> last_ix" using len by simp
  ultimately obtain f1 s2 cs where 1:
    "build_run src raw last_ix (length es) (?A @ es @ (open_dead rest @ B)) (length ?A) ?s1 =
       Some (?A @ f1 @ (open_dead rest @ B), s2)"
    "length f1 = length es" "sk_calls s2 = sk_calls ?s1 @ cs" "bal cs" "sk_depth s2 = sk_depth ?s1"
    "sk_raw_pos s2 = fst (leaf_out src raw (sk_raw_pos ?s1) es)"
    "filter is_token_call cs = snd (leaf_out src raw (sk_raw_pos ?s1) es)"
    by (rule region_okE[where B = "open_dead rest @ B" and s = ?s1])
  have "length (?A @ f1) + length (open_dead rest) \<le> last_ix" using len 1(2) by simp
  from Cons.IH[OF _ this, of s2] Cons.prems(1) obtain f2 s3 css where 2:
    "build_run src raw last_ix (length (open_dead rest)) ((?A @ f1) @ open_dead rest @ B)
       (length (?A @ f1)) s2 = Some ((?A @ f1) @ f2 @ B, s3)"
    "length f2 = length (open_dead rest)"
    "sk_calls s3 = sk_calls s2 @ concat (map ((#) FinishNode) css)" "length css = length rest"
    "\<forall>c \<in> set css. bal c" "sk_depth s3 = sk_depth s2 - length rest"
    "(sk_raw_pos s3, filter is_token_call (concat css)) =
       leaf_out src raw (sk_raw_pos s2) (open_dead rest)"
    by auto
  have "build_run src raw last_ix (length (open_dead (seg # rest))) (A @ open_dead (seg # rest) @ B)
      (length A) s = Some (A @ (tombstone # tombstone # f1 @ f2) @ B, s3)"
    using 1(1,2) 2(1) by (simp add: seg two build_run_add del: build_run.simps)
  moreover have "(sk_raw_pos s3, filter is_token_call (concat (cs # css))) =
      leaf_out src raw (sk_raw_pos s) (open_dead (seg # rest))"
    using 1(6,7) 2(7)[symmetric] by (simp add: seg leaf_out_app finish_node_def)
  moreover have "sk_depth s3 = sk_depth s - length (seg # rest)"
    using 1(5) 2(6) by (simp add: finish_node_def)
  ultimately show ?case
    using 1(2,3,4) 2(2-5)
    by (intro exI[of _ "tombstone # tombstone # f1 @ f2"] exI[of _ s3] exI[of _ "cs # css"])
      (simp add: seg finish_node_def)
qed

lemma fold_start_nodes:
  "Tombstone \<notin> set ks \<Longrightarrow>
   sk_calls (foldl (\<lambda>s k. start_node k s) s ks) = sk_calls s @ map (StartNode \<circ> kind_to_raw) ks \<and>
   sk_raw_pos (foldl (\<lambda>s k. start_node k s) s ks) = sk_raw_pos s \<and>
   sk_depth (foldl (\<lambda>s k. start_node k s) s ks) = sk_depth s + length ks"
  by (induction ks arbitrary: s) (auto simp: start_node_def)

text \<open>A chain up to its last \<open>Finish\<close>: the opening follows the forward parents.\<close>

lemma run_chain_open:
  assumes segs: "segs \<noteq> []" "\<forall>(k, es) \<in> set segs. k \<noteq> Tombstone \<and> region_ok src raw last_ix es"
    and len: "length A + length (chain_evs segs) \<le> Suc last_ix"
  shows "\<exists>f' s' css. build_run src raw last_ix (length (chain_evs segs) - 1) (A @ chain_evs segs @ B)
      (length A) s = Some (A @ f' @ Finish # B, s') \<and> Suc (length f') = length (chain_evs segs) \<and>
    sk_calls s' @ [FinishNode] = sk_calls s @ chain_calls (map (kind_to_raw \<circ> fst) segs) css \<and>
    length css = length segs \<and> (\<forall>c \<in> set css. bal c) \<and> sk_depth s' = sk_depth s + 1 \<and>
    (sk_raw_pos s', filter is_token_call (concat css)) = leaf_out src raw (sk_raw_pos s) (chain_evs segs)"
proof -
  obtain k es rest where seg: "segs = (k, es) # rest" using segs(1) by (cases segs) auto
  let ?fp = "if rest = [] then None else Some (length es + 2)"
  let ?ks = "k # map fst rest"
  let ?s0 = "foldl (\<lambda>s k. start_node k s) s (rev ?ks)"
  have noT: "Tombstone \<notin> set (rev ?ks)" using segs(2) seg by auto
  note start = fold_start_nodes[OF noT, of s]
  have n: "length (chain_evs segs) - 1 = Suc (length es + length (open_dead rest))"
    using length_chain_evs[of rest] by (simp add: seg)
  have lenA: "length (A @ [tombstone]) + length es + length (open_dead rest) \<le> last_ix"
    using len n length_chain_evs[of rest] by (simp add: seg)
  have "build_step src raw last_ix (A @ chain_evs segs @ B) (length A) s =
      Some (A @ tombstone # es @ open_dead rest @ Finish # B, ?s0)"
  proof -
    have "follow (length (A @ chain_evs segs @ B)) (A @ tombstone # es @ Finish # chain_evs rest @ B)
        (length A) ?fp [k] = Some (A @ tombstone # es @ open_dead rest @ Finish # B, [k] @ map fst rest)"
    proof (rule follow_chain)
      have "length rest \<le> length (chain_evs rest)"
        by (induction rest rule: chain_evs.induct) auto
      then show "length rest \<le> length (A @ chain_evs segs @ B)" by (simp add: seg)
      show "\<forall>(k, es) \<in> set rest. k \<noteq> Tombstone" using segs(2) seg by auto
    qed
    moreover have "(A @ chain_evs segs @ B) ! length A = Start k ?fp"
      "(A @ chain_evs segs @ B)[length A := tombstone] =
         A @ tombstone # es @ Finish # chain_evs rest @ B"
      by (simp_all add: seg)
    moreover have "k \<noteq> Tombstone" using segs(2) seg by auto
    ultimately show ?thesis by (simp add: build_step_def Let_def)
  qed
  then have step: "build_run src raw last_ix (Suc m) (A @ chain_evs segs @ B) (length A) s =
      build_run src raw last_ix m ((A @ [tombstone]) @ es @ (open_dead rest @ Finish # B))
        (length (A @ [tombstone])) ?s0" for m
    by simp
  have "region_ok src raw last_ix es" using segs(2) seg by simp
  moreover have "length (A @ [tombstone]) + length es \<le> last_ix" using lenA by simp
  ultimately obtain f1 s1 cs where 1:
    "build_run src raw last_ix (length es) ((A @ [tombstone]) @ es @ (open_dead rest @ Finish # B))
       (length (A @ [tombstone])) ?s0 = Some ((A @ [tombstone]) @ f1 @ (open_dead rest @ Finish # B), s1)"
    "length f1 = length es" "sk_calls s1 = sk_calls ?s0 @ cs" "bal cs" "sk_depth s1 = sk_depth ?s0"
    "sk_raw_pos s1 = fst (leaf_out src raw (sk_raw_pos ?s0) es)"
    "filter is_token_call cs = snd (leaf_out src raw (sk_raw_pos ?s0) es)"
    by (rule region_okE[where B = "open_dead rest @ Finish # B" and s = ?s0])
  have rest_ok: "\<forall>(k, es) \<in> set rest. region_ok src raw last_ix es" using segs(2) seg by auto
  have rest_len: "length ((A @ [tombstone]) @ f1) + length (open_dead rest) \<le> last_ix"
    using lenA 1(2) by simp
  obtain f2 s2 css where 2:
    "build_run src raw last_ix (length (open_dead rest))
       (((A @ [tombstone]) @ f1) @ open_dead rest @ Finish # B) (length ((A @ [tombstone]) @ f1)) s1 =
       Some (((A @ [tombstone]) @ f1) @ f2 @ Finish # B, s2)"
    "length f2 = length (open_dead rest)"
    "sk_calls s2 = sk_calls s1 @ concat (map ((#) FinishNode) css)" "length css = length rest"
    "\<forall>c \<in> set css. bal c" "sk_depth s2 = sk_depth s1 - length rest"
    "(sk_raw_pos s2, filter is_token_call (concat css)) =
       leaf_out src raw (sk_raw_pos s1) (open_dead rest)"
    using run_open_dead[OF rest_ok rest_len, of "Finish # B" s1] by blast
  have "build_run src raw last_ix (length (chain_evs segs) - 1) (A @ chain_evs segs @ B) (length A) s =
      Some (A @ (tombstone # f1 @ f2) @ Finish # B, s2)"
    unfolding n step build_run_add using 1(1,2) 2(1) by (simp del: build_run.simps)
  moreover have "sk_calls s2 @ [FinishNode] =
      sk_calls s @ chain_calls (map (kind_to_raw \<circ> fst) segs) (cs # css)"
  proof -
    have "xs @ concat (map ((#) FinishNode) css) @ [FinishNode] =
        xs @ [FinishNode] @ concat (map (\<lambda>c. c @ [FinishNode]) css)" for xs
      by (induction css arbitrary: xs) auto
    from this[of cs] show ?thesis
      using start 1(3) 2(3) by (simp add: chain_calls_def seg rev_map comp_def)
  qed
  moreover have "(sk_raw_pos s2, filter is_token_call (concat (cs # css))) =
      leaf_out src raw (sk_raw_pos s) (chain_evs segs)"
    using start 1(6,7) 2(7)[symmetric] by (simp add: seg leaf_out_app leaf_out_chain)
  moreover have "sk_depth s2 = sk_depth s + 1"
    using start 1(5) 2(6) by simp
  moreover have "Suc (length (tombstone # f1 @ f2)) = length (chain_evs segs)"
    using 1(2) 2(2) n by (simp add: seg)
  ultimately show ?thesis
    using 1(4) 2(4,5)
    by (intro exI[of _ "tombstone # f1 @ f2"] exI[of _ s2] exI[of _ "cs # css"]) (simp add: seg)
qed

lemma region_ok_chain:
  assumes "segs \<noteq> []" "\<forall>(k, es) \<in> set segs. k \<noteq> Tombstone \<and> region_ok src raw last_ix es"
  shows "region_ok src raw last_ix (chain_evs segs)"
  unfolding region_ok_def
proof (intro allI impI)
  fix A B :: "event list" and s
  assume len: "length A + length (chain_evs segs) \<le> last_ix"
  then have "length A + length (chain_evs segs) \<le> Suc last_ix" by simp
  then obtain f' s' css where 1:
    "build_run src raw last_ix (length (chain_evs segs) - 1) (A @ chain_evs segs @ B) (length A) s =
       Some (A @ f' @ Finish # B, s')" "Suc (length f') = length (chain_evs segs)"
    "sk_calls s' @ [FinishNode] = sk_calls s @ chain_calls (map (kind_to_raw \<circ> fst) segs) css"
    "length css = length segs" "\<forall>c \<in> set css. bal c" "sk_depth s' = sk_depth s + 1"
    "(sk_raw_pos s', filter is_token_call (concat css)) =
       leaf_out src raw (sk_raw_pos s) (chain_evs segs)"
    using run_chain_open[OF assms, of A B s] by blast
  let ?ks = "map (kind_to_raw \<circ> fst) segs"
  have n: "length (chain_evs segs) = (length (chain_evs segs) - 1) + 1" using 1(2) by simp
  have at: "length A + (length (chain_evs segs) - 1) = length (A @ f')" "length (A @ f') \<noteq> last_ix"
    using 1(2) len by simp_all
  have step: "build_step src raw last_ix (A @ f' @ Finish # B) (length A + (length (chain_evs segs) - 1)) s' =
      Some (A @ f' @ tombstone # B, finish_node s')"
    using at(2) list_update_length[of "A @ f'" Finish B tombstone]
      nth_append_length[of "A @ f'" Finish B]
    unfolding at(1) build_step_def Let_def by simp
  have "build_run src raw last_ix (length (chain_evs segs)) (A @ chain_evs segs @ B) (length A) s =
      Some (A @ (f' @ [tombstone]) @ B, finish_node s')"
    by (subst n, subst build_run_add) (use 1(1) step in simp)
  moreover have "sk_calls (finish_node s') = sk_calls s @ chain_calls ?ks css"
    using 1(3) by (simp add: finish_node_def)
  moreover have "bal (chain_calls ?ks css)"
    using assms(1) 1(4,5) by (intro chain_calls_bal) auto
  moreover have "filter is_token_call (chain_calls ?ks css) = filter is_token_call (concat css)"
  proof -
    have "filter is_token_call (concat (map (\<lambda>cs. cs @ [FinishNode]) css)) =
        filter is_token_call (concat css)"
      by (induction css) auto
    moreover have "filter is_token_call (map StartNode xs) = []" for xs
      by (induction xs) auto
    ultimately show ?thesis by (simp add: chain_calls_def)
  qed
  ultimately show "\<exists>f' s' cs. build_run src raw last_ix (length (chain_evs segs)) (A @ chain_evs segs @ B)
      (length A) s = Some (A @ f' @ B, s') \<and> length f' = length (chain_evs segs) \<and>
      sk_calls s' = sk_calls s @ cs \<and> bal cs \<and> sk_depth s' = sk_depth s \<and>
      (sk_raw_pos s', filter is_token_call cs) = leaf_out src raw (sk_raw_pos s) (chain_evs segs)"
    using 1(2,6,7)
    by (intro exI[of _ "f' @ [tombstone]"] exI[of _ "finish_node s'"] exI[of _ "chain_calls ?ks css"])
      (simp add: finish_node_def)
qed

lemma forest_region_ok: "forest f \<Longrightarrow> region_ok src raw last_ix f"
proof (induction rule: forest.induct)
  case (forest_chain f segs)
  then have "region_ok src raw last_ix (chain_evs segs)"
    by (intro region_ok_chain) auto
  with forest_chain show ?case by (blast intro: region_ok_append)
qed (auto intro: region_ok_Nil region_ok_append region_ok_leaf)

lemma eat_trivia_none:
  "takeWhile (\<lambda>t. is_trivia (lt_kind t)) (drop (sk_raw_pos s) raw) = [] \<Longrightarrow> eat_trivia src raw s = s"
  by (simp add: eat_trivia_def)

text \<open>A whole list that is one chain: the sink never panics and its calls are those of one tree.\<close>

lemma build_calls_chain:
  assumes "segs \<noteq> []" "\<forall>(k, es) \<in> set segs. k \<noteq> Tombstone \<and> forest es"
    and out: "leaf_out src raw 0 (chain_evs segs) = (p, cs)"
  shows "\<exists>s ts. build_calls src raw (chain_evs segs) = Some s \<and>
    sk_calls s = calls_of (GNode (kind_to_raw (fst (last segs))) ts) \<and>
    concat (map green_text ts) = calls_text cs @
      concat (map (token_text src) (takeWhile (\<lambda>t. is_trivia (lt_kind t)) (drop p raw)))"
proof -
  let ?l = "length (chain_evs segs) - 1"
  let ?ks = "map (kind_to_raw \<circ> fst) segs"
  let ?tr = "takeWhile (\<lambda>t. is_trivia (lt_kind t)) (drop p raw)"
  have reg: "\<forall>(k, es) \<in> set segs. k \<noteq> Tombstone \<and> region_ok src raw ?l es"
    using assms(2) forest_region_ok by fast
  have "length ([] :: event list) + length (chain_evs segs) \<le> Suc ?l" by simp
  then obtain f' s1 css where 1:
    "build_run src raw ?l ?l ([] @ chain_evs segs @ []) (length ([] :: event list)) empty_sink =
       Some ([] @ f' @ Finish # [], s1)" "Suc (length f') = length (chain_evs segs)"
    "sk_calls s1 @ [FinishNode] = sk_calls empty_sink @ chain_calls ?ks css"
    "length css = length segs" "\<forall>c \<in> set css. bal c"
    "(sk_raw_pos s1, filter is_token_call (concat css)) =
       leaf_out src raw (sk_raw_pos empty_sink) (chain_evs segs)"
    using run_chain_open[OF assms(1) reg, of "[]" "[]" empty_sink] by blast
  let ?trc = "map (\<lambda>t. token_call src (lt_kind t) t) ?tr"
  let ?s2 = "finish_node (eat_trivia src raw s1)"
  have pos: "sk_raw_pos s1 = p" and toks: "filter is_token_call (concat css) = cs"
    using 1(6) out by (simp_all add: empty_sink_def)
  have n: "length (chain_evs segs) = ?l + 1" using 1(2) by simp
  have step: "build_step src raw ?l (f' @ [Finish]) ?l s1 = Some (f' @ [tombstone], ?s2)"
  proof -
    have "?l = length f'" using 1(2) by simp
    then show ?thesis by (simp add: build_step_def)
  qed
  have run: "build_run src raw ?l (length (chain_evs segs)) (chain_evs segs) 0 empty_sink =
      Some (f' @ [tombstone], ?s2)"
    by (subst n, subst build_run_add) (use 1(1) step in simp)
  have eat: "sk_calls (eat_trivia src raw s1) = sk_calls s1 @ ?trc"
    "sk_raw_pos (eat_trivia src raw s1) = p + length ?tr"
    by (simp_all add: eat_trivia_def pos Let_def)
  have "takeWhile (\<lambda>t. is_trivia (lt_kind t)) (drop (p + length ?tr) raw) = []"
    by (metis add.commute drop_drop dropWhile_eq_drop takeWhile_eq_Nil_iff hd_dropWhile)
  then have again: "eat_trivia src raw ?s2 = ?s2"
    by (intro eat_trivia_none) (simp add: finish_node_def eat)
  have "?ks \<noteq> []" "length ?ks = length css" using assms(1) 1(4) by auto
  from chain_calls_node[OF this 1(5)] obtain inner where inner: "bal inner"
    "chain_calls ?ks css = StartNode (last ?ks) # inner @ [FinishNode]" by blast
  have trbal: "bal ?trc" by (rule bal_token_list) (simp add: list_all_iff token_call_def)
  then obtain ts where ts: "inner @ ?trc = concat (map calls_of ts)"
    using inner(1) bal_trees[of "inner @ ?trc"] by auto
  have "sk_calls ?s2 = StartNode (last ?ks) # (inner @ ?trc) @ [FinishNode]"
    using 1(3) inner(2) by (simp add: finish_node_def eat empty_sink_def)
  then have calls: "sk_calls ?s2 = calls_of (GNode (kind_to_raw (fst (last segs))) ts)"
    using assms(1) by (simp add: ts last_map)
  have "concat (map green_text ts) = calls_text (inner @ ?trc)"
    unfolding ts by (induction ts) simp_all
  moreover have "calls_text ?trc = concat (map (token_text src) ?tr)"
    by (simp add: calls_text_def token_call_def comp_def)
  moreover have "calls_text inner = calls_text cs"
  proof -
    have "calls_text (map StartNode xs) = []" for xs
      by (induction xs) simp_all
    moreover have "calls_text (concat (map (\<lambda>cs. cs @ [FinishNode]) css)) = calls_text (concat css)"
      by (induction css) simp_all
    ultimately have "calls_text (StartNode (last ?ks) # inner @ [FinishNode]) = calls_text (concat css)"
      unfolding inner(2)[symmetric] chain_calls_def by simp
    then show ?thesis using calls_text_tokens[of "concat css"] toks by simp
  qed
  ultimately show ?thesis
    using calls run again by (intro exI[of _ ?s2] exI[of _ ts]) (simp add: build_calls_def)
qed

section \<open>Coverage: which bytes a list of leaf events emits\<close>

text \<open>
  The cursor \<open>(i, c)\<close>: \<open>i\<close> significant tokens consumed, text emitted up to byte \<open>c\<close>. A token (or
  the \<open>Skip\<close> that stands for one) is consumed only when everything before it has been emitted; a
  \<open>RawSlice\<close> continues at the cursor.
\<close>

definition tok_end :: "ptoken list \<Rightarrow> nat \<Rightarrow> nat" where
  "tok_end toks i = (if i = 0 then 0 else pt_end (toks ! (i - 1)))"

definition cov_step :: "ptoken list \<Rightarrow> event \<Rightarrow> nat \<times> nat \<Rightarrow> (nat \<times> nat) option" where
  "cov_step toks e ic = (let (i, c) = ic in case e of
     Token k \<Rightarrow> (if c = tok_end toks i \<and> i < length toks then Some (Suc i, pt_end (toks ! i)) else None)
   | Skip \<Rightarrow> (if c = tok_end toks i \<and> i < length toks then Some (Suc i, pt_start (toks ! i)) else None)
   | RawSlice k x y \<Rightarrow> (if x = c \<and> c \<le> y then Some (i, y) else None)
   | _ \<Rightarrow> Some (i, c))"

fun cov :: "ptoken list \<Rightarrow> event list \<Rightarrow> nat \<times> nat \<Rightarrow> (nat \<times> nat) option" where
  "cov toks [] ic = Some ic"
| "cov toks (e # es) ic = Option.bind (cov_step toks e ic) (cov toks es)"

lemma cov_append: "cov toks (xs @ ys) ic = Option.bind (cov toks xs ic) (cov toks ys)"
  by (induction xs arbitrary: ic) (auto split: Option.bind_splits)

lemma cov_step_struct [simp]:
  "cov_step toks (Start k fp) ic = Some ic" "cov_step toks Finish ic = Some ic"
  by (simp_all add: cov_step_def split: prod.splits)

text \<open>The raw position after \<open>i\<close> significant tokens.\<close>

fun raw_after :: "lex_token list \<Rightarrow> nat \<Rightarrow> nat" where
  "raw_after raw 0 = 0"
| "raw_after raw (Suc i) = raw_after raw i +
     length (takeWhile (\<lambda>t. is_trivia (lt_kind t)) (drop (raw_after raw i) raw)) + 1"

lemma split_next:
  assumes "significant r \<noteq> []"
  obtains t post where "r = takeWhile (\<lambda>t. is_trivia (lt_kind t)) r @ t # post"
    "\<not> is_trivia (lt_kind t)" "significant r = t # significant post"
proof -
  let ?P = "\<lambda>t. is_trivia (lt_kind t)"
  have ne: "dropWhile ?P r \<noteq> []"
    using assms by (auto simp: significant_def filter_empty_conv dropWhile_eq_Nil_conv)
  then obtain t post where dw: "dropWhile ?P r = t # post" by (meson neq_Nil_conv)
  then have t: "\<not> ?P t" using hd_dropWhile[OF ne] by simp
  have split: "r = takeWhile ?P r @ t # post" by (metis dw takeWhile_dropWhile_id)
  have "filter (\<lambda>t. \<not> ?P t) (takeWhile ?P r) = []"
    by (auto simp: filter_empty_conv dest: set_takeWhileD)
  then have "significant r = t # significant post"
    using t by (subst split) (simp add: significant_def)
  with split t that show ?thesis by blast
qed

lemma raw_after_inv:
  assumes "tiles 0 raw n" "i \<le> length (significant raw)"
  shows "tiles (tok_end (layout src raw) i) (drop (raw_after raw i) raw) n \<and>
    significant (drop (raw_after raw i) raw) = drop i (significant raw)"
  using assms(2)
proof (induction i)
  case 0
  then show ?case using assms(1) by (simp add: tok_end_def)
next
  case (Suc i)
  let ?r = "drop (raw_after raw i) raw"
  let ?tr = "takeWhile (\<lambda>t. is_trivia (lt_kind t)) ?r"
  have IH: "tiles (tok_end (layout src raw) i) ?r n" "significant ?r = drop i (significant raw)"
    using Suc by auto
  then have "significant ?r \<noteq> []" using Suc.prems by simp
  then obtain t post where split: "?r = ?tr @ t # post" and sig: "significant ?r = t # significant post"
    using split_next by blast
  have hd_t: "significant raw ! i = t" and tl_post: "significant post = drop (Suc i) (significant raw)"
    using IH(2) sig Suc.prems by (auto simp: Cons_nth_drop_Suc[symmetric])
  have post: "drop (raw_after raw (Suc i)) raw = post"
  proof -
    have "drop (raw_after raw (Suc i)) raw = drop (length ?tr + 1) ?r"
      by (simp add: add.commute add.left_commute)
    also have "\<dots> = drop (length ?tr + 1) (?tr @ t # post)" by (rule arg_cong[OF split])
    finally show ?thesis by simp
  qed
  have "strip (layout src raw ! i) = t"
    using hd_t Suc.prems layout_keeps_significant_nth[of i raw src] by simp
  then have "tok_end (layout src raw) (Suc i) = lt_end t"
    by (auto simp: tok_end_def strip_def)
  moreover have "tiles (lt_end t) post n"
  proof -
    have "tiles (tok_end (layout src raw) i) (?tr @ t # post) n" using IH(1) split by simp
    then show ?thesis by (auto simp: tiles_append)
  qed
  ultimately show ?case using post tl_post by simp
qed

text \<open>The token \<open>i\<close> in the raw stream, behind its trivia.\<close>

lemma raw_next:
  assumes "tiles 0 raw n" "i < length (significant raw)"
  defines "tr \<equiv> takeWhile (\<lambda>t. is_trivia (lt_kind t)) (drop (raw_after raw i) raw)"
  obtains t where "strip (layout src raw ! i) = t" "tiles (tok_end (layout src raw) i) tr (lt_start t)"
    "lt_start t < lt_end t" "raw_after raw i + length tr < length raw"
    "raw ! (raw_after raw i + length tr) = t"
proof -
  let ?r = "drop (raw_after raw i) raw"
  have inv: "tiles (tok_end (layout src raw) i) ?r n" "significant ?r = drop i (significant raw)"
    using raw_after_inv[OF assms(1), of i src] assms(2) by auto
  then have "significant ?r \<noteq> []" using assms(2) by simp
  then obtain t post where split: "?r = tr @ t # post" and sig: "significant ?r = t # significant post"
    unfolding tr_def using split_next by blast
  have "significant raw ! i = t"
    using inv(2) sig assms(2) by (auto simp: Cons_nth_drop_Suc[symmetric])
  then have 1: "strip (layout src raw ! i) = t"
    using layout_keeps_significant_nth[OF assms(2)] by simp
  have 2: "tiles (tok_end (layout src raw) i) tr (lt_start t)" "lt_start t < lt_end t"
    using inv(1) unfolding split by (auto simp: tiles_append)
  have "length ?r = length (tr @ t # post)" "?r ! length tr = (tr @ t # post) ! length tr"
    using split by simp_all
  then have "raw_after raw i + length tr < length raw" "raw ! (raw_after raw i + length tr) = t"
    by simp_all
  with 1 2 that show ?thesis by blast
qed

lemma calls_text_trivia:
  "calls_text (map (\<lambda>t. token_call src (lt_kind t) t) ts) = concat (map (token_text src) ts)"
  by (simp add: calls_text_def token_call_def comp_def)

lemma cov_step_leaf:
  assumes t: "tiles 0 raw (length src)" and c: "cov_step (layout src raw) e (i, c) = Some (i', c')"
    and i: "i \<le> length (layout src raw)"
  shows "sk_raw_pos (leaf_step src raw e (at_pos (raw_after raw i))) = raw_after raw i' \<and>
    calls_text (sk_calls (leaf_step src raw e (at_pos (raw_after raw i)))) = slice src c c' \<and>
    c \<le> c' \<and> i' \<le> length (layout src raw)"
proof -
  let ?tr = "takeWhile (\<lambda>t. is_trivia (lt_kind t)) (drop (raw_after raw i) raw)"
  have tok: "\<exists>t. strip (layout src raw ! i) = t \<and> tok_end (layout src raw) i \<le> lt_start t \<and>
      lt_start t \<le> lt_end t \<and> raw_after raw i + length ?tr < length raw \<and>
      raw ! (raw_after raw i + length ?tr) = t \<and>
      concat (map (token_text src) ?tr) = slice src (tok_end (layout src raw) i) (lt_start t)"
    if "i < length (layout src raw)"
  proof -
    have "i < length (significant raw)" using that by (simp add: length_layout)
    from raw_next[OF t this, of src] obtain t where
      "strip (layout src raw ! i) = t" "tiles (tok_end (layout src raw) i) ?tr (lt_start t)"
      "lt_start t < lt_end t" "raw_after raw i + length ?tr < length raw"
      "raw ! (raw_after raw i + length ?tr) = t" by blast
    then show ?thesis using tiles_text[of _ ?tr] tiles_le by fastforce
  qed
  show ?thesis
  proof (cases e)
    case (Token k)
    with c have il: "i < length (layout src raw)" and cc: "c = tok_end (layout src raw) i"
      "i' = Suc i" "c' = pt_end (layout src raw ! i)"
      by (auto simp: cov_step_def split: if_splits)
    from tok[OF il] show ?thesis
      using il cc Token slice_append[of c "lt_start (strip (layout src raw ! i))" c' src]
      by (auto simp: leaf_step_def take_token_def eat_trivia_def at_pos_def Let_def calls_text_trivia
          strip_def) (simp_all add: token_call_def token_text_def)
  next
    case Skip
    with c have il: "i < length (layout src raw)" and cc: "c = tok_end (layout src raw) i"
      "i' = Suc i" "c' = pt_start (layout src raw ! i)"
      by (auto simp: cov_step_def split: if_splits)
    from tok[OF il] show ?thesis
      using il cc Skip
      by (auto simp: leaf_step_def skip_token_def eat_trivia_def at_pos_def Let_def calls_text_trivia
          strip_def)
  qed (use c i in \<open>auto simp: cov_step_def leaf_step_def emit_slice_call_def at_pos_def split: if_splits\<close>)
qed

lemma cov_leaf_out:
  assumes "tiles 0 raw (length src)"
  shows "cov (layout src raw) es (i, c) = Some (i', c') \<Longrightarrow> i \<le> length (layout src raw) \<Longrightarrow>
    fst (leaf_out src raw (raw_after raw i) es) = raw_after raw i' \<and>
    calls_text (snd (leaf_out src raw (raw_after raw i) es)) = slice src c c' \<and>
    c \<le> c' \<and> i' \<le> length (layout src raw)"
proof (induction es arbitrary: i c)
  case (Cons e es)
  from Cons.prems(1) obtain i1 c1 where st: "cov_step (layout src raw) e (i, c) = Some (i1, c1)"
    and rest: "cov (layout src raw) es (i1, c1) = Some (i', c')"
    by (auto simp: bind_eq_Some_conv)
  note 1 = cov_step_leaf[OF assms st Cons.prems(2)]
  then have "i1 \<le> length (layout src raw)" by simp
  note 2 = Cons.IH[OF rest this]
  show ?case
    using 1 2 slice_append[of c c1 c' src]
    by (simp add: leaf_out_Cons Let_def)
qed simp

text \<open>
  A chain that covers every significant token replays, whatever it is, into a tree whose text is
  the source.
\<close>

lemma build_calls_text:
  assumes "tiles 0 raw (length src)"
    and "segs \<noteq> []" "\<forall>(k, es) \<in> set segs. k \<noteq> Tombstone \<and> forest es"
    and "cov (layout src raw) (chain_evs segs) (0, 0) =
      Some (length (layout src raw), tok_end (layout src raw) (length (layout src raw)))"
  obtains s ts where "build_calls src raw (chain_evs segs) = Some s"
    "sk_calls s = calls_of (GNode (kind_to_raw (fst (last segs))) ts)"
    "green_text (GNode (kind_to_raw (fst (last segs))) ts) = src"
proof -
  let ?n = "length (layout src raw)"
  let ?e = "tok_end (layout src raw) ?n"
  obtain p cs where out: "leaf_out src raw 0 (chain_evs segs) = (p, cs)" by fastforce
  note c = cov_leaf_out[OF assms(1,4)]
  then have p: "p = raw_after raw ?n" and cs: "calls_text cs = slice src 0 ?e"
    using out by auto
  have inv: "tiles ?e (drop p raw) (length src)" "significant (drop p raw) = []"
    using raw_after_inv[OF assms(1), of ?n src] by (auto simp: p length_layout)
  from inv(2) have "takeWhile (\<lambda>t. is_trivia (lt_kind t)) (drop p raw) = drop p raw"
    by (auto simp: significant_def filter_empty_conv)
  then have "concat (map (token_text src) (takeWhile (\<lambda>t. is_trivia (lt_kind t)) (drop p raw))) =
      slice src ?e (length src)"
    by (simp only: tiles_text[OF inv(1)])
  moreover have "?e \<le> length src" using inv(1) tiles_le by blast
  ultimately have "calls_text cs @
      concat (map (token_text src) (takeWhile (\<lambda>t. is_trivia (lt_kind t)) (drop p raw))) = src"
    using cs slice_append[of 0 ?e "length src" src] by simp
  with build_calls_chain[OF assms(2,3) out] that show ?thesis by auto
qed

text \<open>C7: The tree builder is lossless. Whatever chain of nodes the events describe, with every
  forward parent that \<open>precede\<close> has set, if its leaves cover the significant tokens in order and
  without gap, then the replay runs without a panic, gives back a node of the outermost kind, and
  the text of its leaves, the trivia between the tokens included, is the source byte for byte.\<close>

theorem replay_lossless:
  assumes "green_builder rowan" "tiles 0 raw (length src)"
    and "segs \<noteq> []" "\<forall>(k, es) \<in> set segs. k \<noteq> Tombstone \<and> forest es"
    and "cov (layout src raw) (chain_evs segs) (0, 0) =
      Some (length (layout src raw), tok_end (layout src raw) (length (layout src raw)))"
  shows "\<exists>ts depth. build_tree rowan src raw (chain_evs segs) =
      Some (GNode (kind_to_raw (fst (last segs))) ts, depth) \<and>
    green_text (GNode (kind_to_raw (fst (last segs))) ts) = src"
proof -
  obtain s ts where s: "build_calls src raw (chain_evs segs) = Some s"
    "sk_calls s = calls_of (GNode (kind_to_raw (fst (last segs))) ts)"
    "green_text (GNode (kind_to_raw (fst (last segs))) ts) = src"
    by (rule build_calls_text[OF assms(2-5)])
  have "rowan (sk_calls s) = Some (GNode (kind_to_raw (fst (last segs))) ts)"
    unfolding s(2) by (rule green_builder.builds[OF assms(1)])
  with s show ?thesis by (auto simp: build_tree_def)
qed

theorem replay_lossless_witness:
  "\<exists>ts depth. build_tree ref_rowan '' x+'' [\<lparr>lt_kind = Whitespace, lt_start = 0, lt_end = 1\<rparr>,
      \<lparr>lt_kind = LowerIdent, lt_start = 1, lt_end = 2\<rparr>, \<lparr>lt_kind = Op, lt_start = 2, lt_end = 3\<rparr>]
      (chain_evs [(RefExpr, [Token LowerIdent]), (BinExpr, [Token Op])]) =
    Some (GNode (kind_to_raw BinExpr) ts, depth) \<and>
    green_text (GNode (kind_to_raw BinExpr) ts) = '' x+''"
proof -
  let ?raw = "[\<lparr>lt_kind = Whitespace, lt_start = 0, lt_end = 1\<rparr>,
      \<lparr>lt_kind = LowerIdent, lt_start = 1, lt_end = 2\<rparr>, \<lparr>lt_kind = Op, lt_start = 2, lt_end = 3\<rparr>]"
  let ?segs = "[(RefExpr, [Token LowerIdent]), (BinExpr, [Token Op])]"
  have segs: "\<forall>(k, es) \<in> set ?segs. k \<noteq> Tombstone \<and> forest es"
    by (simp add: forest_single_leaf is_leaf_def)
  have cov: "cov (layout '' x+'' ?raw) (chain_evs ?segs) (0, 0) =
      Some (length (layout '' x+'' ?raw), tok_end (layout '' x+'' ?raw) (length (layout '' x+'' ?raw)))"
    by (simp add: layout_def is_trivia_def cov_step_def tok_end_def Let_def)
  have tile: "tiles 0 ?raw (length '' x+'')" by simp
  from replay_lossless[OF ref_builder.green_builder_axioms tile _ segs cov] show ?thesis by simp
qed

end
