(* ===== verification/Diagnostics.thy ===== *)
theory Diagnostics
  imports Prelude
begin

text \<open>
  \<open>rust/crates/diagnostics/src/lib.rs\<close> and the span of \<open>rust/crates/base/src/lib.rs\<close>: the diagnostic
  values every phase returns, and the byte-offset to line and column conversion that the command
  line renderer and the language server share.
\<close>

section \<open>Diagnostics as values\<close>

record span =
  sp_file :: nat
  sp_start :: nat
  sp_end :: nat

datatype severity = SevError | SevWarning | SevInfo

record label =
  lb_span :: span
  lb_message :: string

record diagnostic =
  dg_severity :: severity
  dg_code :: string
  dg_message :: string
  dg_labels :: "label list"
  dg_suggestion :: "string option"

definition span_new :: "nat \<Rightarrow> nat \<Rightarrow> nat \<Rightarrow> span" where
  "span_new file a b = \<lparr>sp_file = file, sp_start = a, sp_end = b\<rparr>"

definition diagnostic_error :: "string \<Rightarrow> string \<Rightarrow> diagnostic" where
  "diagnostic_error code message = \<lparr>dg_severity = SevError, dg_code = code, dg_message = message,
     dg_labels = [], dg_suggestion = None\<rparr>"

definition with_label :: "diagnostic \<Rightarrow> span \<Rightarrow> string \<Rightarrow> diagnostic" where
  "with_label d sp message = d\<lparr>dg_labels := dg_labels d @ [\<lparr>lb_span = sp, lb_message = message\<rparr>]\<rparr>"

section \<open>Lines\<close>

text \<open>The loop of \<open>line_starts\<close> over \<open>bytes().enumerate()\<close>, from byte \<open>i\<close> on.\<close>

fun line_starts_from :: "nat \<Rightarrow> string \<Rightarrow> nat list" where
  "line_starts_from i [] = []"
| "line_starts_from i (b # bs) =
     (if b = newline then (i + 1) # line_starts_from (i + 1) bs else line_starts_from (i + 1) bs)"

definition line_starts :: "string \<Rightarrow> nat list" where
  "line_starts s = 0 # line_starts_from 0 s"

text \<open>
  \<open>slice::binary_search\<close> of the standard library on a strictly sorted slice: \<open>Inr i\<close> (\<open>Ok\<close>) where
  the element is, else \<open>Inl i\<close> (\<open>Err\<close>) where it would be inserted.
\<close>

definition binary_search :: "nat list \<Rightarrow> nat \<Rightarrow> nat + nat" where
  "binary_search xs x = (let i = length (takeWhile (\<lambda>y. y < x) xs) in
     if i < length xs \<and> xs ! i = x then Inr i else Inl i)"

text \<open>A character above the basic plane (four bytes) is two UTF-16 code units.\<close>

definition len_utf16 :: "string \<Rightarrow> nat" where
  "len_utf16 c = (if length c = 4 then 2 else 1)"

definition position_at :: "string \<Rightarrow> nat \<Rightarrow> nat \<times> nat" where
  "position_at s offset =
     (let starts = line_starts s;
          off = min offset (length s);
          line = (case binary_search starts off of Inr i \<Rightarrow> i | Inl i \<Rightarrow> i - 1);
          col = sum_list (map len_utf16 (chars (slice s (starts ! line) off)))
      in (line, col))"

record line_col =
  lc_line :: nat
  lc_character :: nat

record text_range =
  tr_start :: line_col
  tr_end :: line_col

definition span_range :: "string \<Rightarrow> span \<Rightarrow> text_range" where
  "span_range s sp =
     (let (sl, sc) = position_at s (sp_start sp); (el, ec) = position_at s (sp_end sp)
      in \<lparr>tr_start = \<lparr>lc_line = sl, lc_character = sc\<rparr>, tr_end = \<lparr>lc_line = el, lc_character = ec\<rparr>\<rparr>)"

section \<open>Every offset has one line\<close>

lemma line_starts_from_iff: "p \<in> set (line_starts_from i s) \<longleftrightarrow>
    (\<exists>j < length s. p = i + j + 1 \<and> s ! j = newline)"
proof (induction i s rule: line_starts_from.induct)
  case (2 i b bs)
  have "(\<exists>j < length (b # bs). p = i + j + 1 \<and> (b # bs) ! j = newline) \<longleftrightarrow>
      (p = i + 1 \<and> b = newline) \<or> (\<exists>j < length bs. p = (i + 1) + j + 1 \<and> bs ! j = newline)"
    by (auto simp: Ex_less_Suc2)
  with 2 show ?case by auto
qed simp

lemma line_starts_from_sorted: "sorted_wrt (<) (line_starts_from i s)"
proof (induction i s rule: line_starts_from.induct)
  case (2 i b bs)
  then show ?case using line_starts_from_iff[of _ "i + 1" bs] by auto
qed simp

lemma line_starts_iff: "p \<in> set (line_starts s) \<longleftrightarrow>
    p = 0 \<or> (0 < p \<and> p \<le> length s \<and> s ! (p - 1) = newline)"
proof -
  have "(\<exists>j < length s. p = 0 + j + 1 \<and> s ! j = newline) \<longleftrightarrow>
      0 < p \<and> p \<le> length s \<and> s ! (p - 1) = newline"
    by (cases p) auto
  then show ?thesis by (simp only: line_starts_def list.set line_starts_from_iff insert_iff)
qed

lemma line_starts_sorted: "sorted_wrt (<) (line_starts s)"
  using line_starts_from_sorted[of 0 s] line_starts_from_iff[of _ 0 s]
  by (auto simp: line_starts_def)

lemma line_starts_sorted_nth: "i < j \<Longrightarrow> j < length (line_starts s) \<Longrightarrow>
    line_starts s ! i < line_starts s ! j"
  using line_starts_sorted[of s] by (simp add: sorted_wrt_iff_nth_less)

text \<open>The line that the binary search picks is the last one that starts at or before the offset.\<close>

lemma search_line:
  assumes sorted: "sorted_wrt (<) xs" and ne: "xs \<noteq> []" and first: "xs ! 0 \<le> x"
  defines "l \<equiv> (case binary_search xs x of Inr i \<Rightarrow> i | Inl i \<Rightarrow> i - 1)"
  shows "l < length xs" "xs ! l \<le> x" "l + 1 < length xs \<Longrightarrow> x < xs ! (l + 1)"
proof -
  let ?i = "length (takeWhile (\<lambda>y. y < x) xs)"
  have below: "xs ! j < x" if "j < ?i" for j
  proof -
    from that have "takeWhile (\<lambda>y. y < x) xs ! j = xs ! j" by (rule takeWhile_nth)
    with that nth_mem[of j "takeWhile (\<lambda>y. y < x) xs"] show ?thesis
      by (metis set_takeWhileD)
  qed
  have le: "?i \<le> length xs" by (rule length_takeWhile_le)
  have at: "x \<le> xs ! ?i" if "?i < length xs"
    using nth_length_takeWhile[OF that] by simp
  have mono: "xs ! a < xs ! b" if "a < b" "b < length xs" for a b
    using sorted that by (simp add: sorted_wrt_iff_nth_less)
  have "l < length xs \<and> xs ! l \<le> x \<and> (l + 1 < length xs \<longrightarrow> x < xs ! (l + 1))"
  proof (cases "?i < length xs \<and> xs ! ?i = x")
    case True
    then have l: "l = ?i" by (simp add: l_def binary_search_def Let_def)
    with True mono[of ?i "?i + 1"] show ?thesis by simp
  next
    case False
    then have l: "l = ?i - 1" by (auto simp: l_def binary_search_def Let_def)
    have pos: "0 < ?i"
    proof (rule ccontr)
      assume "\<not> 0 < ?i"
      then have "?i = 0" by simp
      with ne False at first show False by (cases xs) auto
    qed
    with l have "l + 1 = ?i" by simp
    with le at False below[of l] show ?thesis by (auto simp: order_le_less)
  qed
  then show "l < length xs" "xs ! l \<le> x" "l + 1 < length xs \<Longrightarrow> x < xs ! (l + 1)" by simp_all
qed

lemma search_line_unique:
  assumes sorted: "sorted_wrt (<) xs"
    and a: "a < length xs" "xs ! a \<le> (x::nat)" "a + 1 < length xs \<Longrightarrow> x < xs ! (a + 1)"
    and b: "b < length xs" "xs ! b \<le> x" "b + 1 < length xs \<Longrightarrow> x < xs ! (b + 1)"
  shows "a = b"
proof -
  have le: "xs ! i \<le> xs ! j" if "i \<le> j" "j < length xs" for i j
    using sorted that by (cases "i = j") (auto simp: sorted_wrt_iff_nth_less le_less)
  show ?thesis
  proof (cases a b rule: linorder_cases)
    case less
    with a b le[of "a + 1" b] show ?thesis by simp
  next
    case greater
    with a b le[of "b + 1" a] show ?thesis by simp
  qed
qed

lemma line_starts_from_append: "line_starts_from i (a @ b) =
    line_starts_from i a @ line_starts_from (i + length a) b"
  by (induction i a rule: line_starts_from.induct) auto

lemma length_line_starts_from: "length (line_starts_from i a) = length (filter ((=) newline) a)"
  by (induction i a rule: line_starts_from.induct) auto

lemma last_line_starts_from:
  "last (i # line_starts_from i a) = i + length a - length (takeWhile ((\<noteq>) newline) (rev a))"
proof (induction a rule: rev_induct)
  case (snoc c a)
  have "length (takeWhile ((\<noteq>) newline) (rev a)) \<le> length a"
    using length_takeWhile_le[of _ "rev a"] by simp
  with snoc show ?case by (auto simp: line_starts_from_append)
qed simp

lemma suffix_slice: "k \<le> length a \<Longrightarrow> drop (length a - k) a = rev (take k (rev a))"
  by (simp add: take_rev)

text \<open>\<open>position_at\<close> is the position an editor shows. For every text and every offset, also one
  past the end (which is clamped), the line is the number of newlines before the offset and the
  column is the number of UTF-16 code units between the last newline before the offset and the
  offset; the binary search over the table of line starts computes exactly that.\<close>

theorem position_at_counts:
  "position_at s offset =
     (let before = take (min offset (length s)) s in
      (length (filter ((=) newline) before),
       sum_list (map len_utf16 (chars (rev (takeWhile ((\<noteq>) newline) (rev before)))))))"
proof -
  define off where "off = min offset (length s)"
  define a where "a = take off s"
  define b where "b = drop off s"
  define m where "m = length (filter ((=) newline) a)"
  define k where "k = length (takeWhile ((\<noteq>) newline) (rev a))"
  have off: "off \<le> length s" "length a = off" by (simp_all add: off_def a_def)
  have k: "k \<le> length a" using length_takeWhile_le[of _ "rev a"] by (simp add: k_def)
  have st: "line_starts s = (0 # line_starts_from 0 a) @ line_starts_from off b"
    using line_starts_from_append[of 0 a b] off by (simp add: line_starts_def a_def b_def)
  have len: "length (line_starts_from 0 a) = m" by (simp add: length_line_starts_from m_def)
  have at: "line_starts s ! m = off - k"
  proof -
    have "last (0 # line_starts_from 0 a) = (0 # line_starts_from 0 a) ! m"
      using len last_conv_nth[of "0 # line_starts_from 0 a"]
      by (simp only: list.distinct not_False_eq_True length_Cons diff_Suc_1 simp_thms)
    also have "\<dots> = line_starts s ! m" unfolding st by (rule nth_append_left[symmetric]) (simp add: len)
    finally show ?thesis using last_line_starts_from[of 0 a] off by (simp add: k_def)
  qed
  have after: "off < line_starts s ! (m + 1)" if "m + 1 < length (line_starts s)"
  proof -
    from that len have "0 < length (line_starts_from off b)" by (simp add: st)
    then have "line_starts_from off b ! 0 \<in> set (line_starts_from off b)" by (rule nth_mem)
    then have "off < line_starts_from off b ! 0" by (auto simp: line_starts_from_iff)
    with len show ?thesis by (simp add: st nth_append)
  qed
  have ne: "line_starts s \<noteq> []" "line_starts s ! 0 \<le> off" by (simp_all add: line_starts_def)
  have line: "(case binary_search (line_starts s) off of Inr i \<Rightarrow> i | Inl i \<Rightarrow> i - 1) = m"
    by (rule search_line_unique[OF line_starts_sorted search_line[OF line_starts_sorted ne]])
      (use at after len in \<open>auto simp: st\<close>)
  have "slice s (off - k) off = drop (length a - k) a"
    using off by (simp add: slice_def a_def drop_take)
  also have "\<dots> = rev (take k (rev a))" using k by (rule suffix_slice)
  also have "take k (rev a) = takeWhile ((\<noteq>) newline) (rev a)"
    by (simp add: k_def takeWhile_eq_take[symmetric])
  finally show ?thesis
    by (simp add: position_at_def Let_def line at flip: off_def a_def m_def)
qed

end
