(* ===== verification/Parser_Core.thy ===== *)
theory Parser_Core
  imports Event Diagnostics
begin

text \<open>
  \<open>rust/crates/syntax/src/parser.rs\<close>: token sets, the parser state and its operations (the cursor,
  the marker API that drives the event list, diagnostics with their budget, recovery, the layout
  predicates, the depth guard), in a state monad. The field \<open>p_fault\<close> is the model's own: it is
  set where the source would panic and where a loop or a recursion runs out of fuel, so that a
  theorem that a fault never occurs states termination and panic freedom together.
\<close>

unbundle bit_operations_syntax

section \<open>Token sets\<close>

type_synonym token_set = "128 word"

definition token_bit :: "syntax_kind \<Rightarrow> token_set" where
  "token_bit k = push_bit (as_u16 k) 1"

definition token_set :: "syntax_kind list \<Rightarrow> token_set" where
  "token_set kinds = foldl (\<lambda>mask k. mask OR token_bit k) 0 kinds"

definition ts_union :: "token_set \<Rightarrow> token_set \<Rightarrow> token_set" where
  "ts_union a b = (a OR b)"

definition ts_without :: "token_set \<Rightarrow> syntax_kind \<Rightarrow> token_set" where
  "ts_without a k = (a AND NOT (token_bit k))"

definition ts_contains :: "token_set \<Rightarrow> syntax_kind \<Rightarrow> bool" where
  "ts_contains a k \<longleftrightarrow> a AND token_bit k \<noteq> 0"

lemma bit_token_bit: "bit (token_bit k) n \<longleftrightarrow> n = as_u16 k"
proof -
  have "as_u16 k < 128" using as_u16_less[of k] by simp
  then show ?thesis
    by (auto simp only: token_bit_def bit_push_bit_iff bit_1_iff) (auto simp: possible_bit_def)
qed

lemma ts_contains_bit: "ts_contains a k \<longleftrightarrow> bit a (as_u16 k)"
proof -
  have "a AND token_bit k = (if bit a (as_u16 k) then token_bit k else 0)"
    by (rule bit_eqI) (auto simp: bit_and_iff bit_token_bit)
  moreover have "token_bit k \<noteq> 0"
    using bit_token_bit[of k "as_u16 k"] by auto
  ultimately show ?thesis by (simp add: ts_contains_def)
qed

lemma bit_token_fold: "bit (foldl (\<lambda>mask k. mask OR token_bit k) m kinds) n \<longleftrightarrow>
    bit m n \<or> (\<exists>k \<in> set kinds. n = as_u16 k)"
  by (induction kinds arbitrary: m) (auto simp: bit_or_iff bit_token_bit)

lemma ts_contains_token_set [simp]: "ts_contains (token_set kinds) k \<longleftrightarrow> k \<in> set kinds"
  by (auto simp: ts_contains_bit token_set_def bit_token_fold)

lemma ts_contains_union [simp]: "ts_contains (ts_union a b) k \<longleftrightarrow> ts_contains a k \<or> ts_contains b k"
  by (simp add: ts_contains_bit ts_union_def bit_or_iff)

lemma ts_contains_without [simp]: "ts_contains (ts_without a j) k \<longleftrightarrow> ts_contains a k \<and> k \<noteq> j"
  using as_u16_less[of k]
  by (auto simp: ts_contains_bit ts_without_def bit_and_iff bit_not_iff bit_token_bit)

text \<open>The 128-bit token sets are sets: membership after building a set from a list, after a union
  and after removing a kind is membership in the corresponding mathematical set, for every kind,
  node kinds included, because every discriminant is below 128.\<close>

theorem token_sets_are_sets:
  "(ts_contains (token_set ks) k \<longleftrightarrow> k \<in> set ks) \<and>
   (ts_contains (ts_union a b) k \<longleftrightarrow> ts_contains a k \<or> ts_contains b k) \<and>
   (ts_contains (ts_without a j) k \<longleftrightarrow> ts_contains a k \<and> k \<noteq> j) \<and>
   as_u16 k < 128"
  using as_u16_less[of k] by simp_all

section \<open>The parser state\<close>

definition MAX_DEPTH :: nat where
  "MAX_DEPTH = 256"

record error_site =
  es_diag :: nat
  es_at :: nat
  es_unit :: nat

record parser =
  p_src :: string
  p_toks :: "ptoken list"
  p_pos :: nat
  p_events :: "event list"
  p_diags :: "diagnostic list"
  p_file :: nat
  p_block_indent :: nat
  p_depth :: nat
  p_units :: "nat list"
  p_unit :: nat
  p_limit :: nat
  p_unit_errored :: bool
  p_sites :: "error_site list"
  p_fault :: bool

record finished =
  fin_events :: "event list"
  fin_diags :: "diagnostic list"
  fin_sites :: "error_site list"
  fin_units :: "nat list"
  fin_fault :: bool

type_synonym 'a pm = "(parser, 'a) state"

definition nth_opt :: "'a list \<Rightarrow> nat \<Rightarrow> 'a option" where
  "nth_opt xs i = (if i < length xs then Some (xs ! i) else None)"

definition with_units :: "string \<Rightarrow> ptoken list \<Rightarrow> nat \<Rightarrow> nat list \<Rightarrow> parser" where
  "with_units src toks file units = \<lparr>p_src = src, p_toks = toks, p_pos = 0, p_events = [],
     p_diags = [], p_file = file, p_block_indent = 0, p_depth = 0, p_units = units, p_unit = 0,
     p_limit = (case nth_opt units 1 of Some l \<Rightarrow> l | None \<Rightarrow> length toks),
     p_unit_errored = False, p_sites = [], p_fault = False\<rparr>"

definition parser_new :: "string \<Rightarrow> ptoken list \<Rightarrow> nat \<Rightarrow> parser" where
  "parser_new src toks file = with_units src toks file [0]"

definition finish :: "parser \<Rightarrow> finished" where
  "finish p = \<lparr>fin_events = p_events p, fin_diags = p_diags p, fin_sites = p_sites p,
     fin_units = p_units p, fin_fault = p_fault p\<rparr>"

section \<open>The cursor\<close>

definition tok :: "nat \<Rightarrow> parser \<Rightarrow> ptoken option" where
  "tok i p = (if i < p_limit p then nth_opt (p_toks p) i else None)"

definition nth_kind :: "nat \<Rightarrow> parser \<Rightarrow> syntax_kind" where
  "nth_kind n p = (case tok (p_pos p + n) p of Some t \<Rightarrow> pt_kind t | None \<Rightarrow> Eof)"

definition current :: "parser \<Rightarrow> syntax_kind" where
  "current p = (case tok (p_pos p) p of Some t \<Rightarrow> pt_kind t | None \<Rightarrow> Eof)"

definition at :: "syntax_kind \<Rightarrow> parser \<Rightarrow> bool" where
  "at k p \<longleftrightarrow> current p = k"

definition at_any :: "token_set \<Rightarrow> parser \<Rightarrow> bool" where
  "at_any kinds p \<longleftrightarrow> ts_contains kinds (current p)"

definition at_end :: "parser \<Rightarrow> bool" where
  "at_end p \<longleftrightarrow> min (p_limit p) (length (p_toks p)) \<le> p_pos p"

definition cur_text :: "parser \<Rightarrow> string" where
  "cur_text p = (case tok (p_pos p) p of Some t \<Rightarrow> slice (p_src p) (pt_start t) (pt_end t) | None \<Rightarrow> [])"

definition newline_before :: "parser \<Rightarrow> bool" where
  "newline_before p \<longleftrightarrow> (case tok (p_pos p) p of Some t \<Rightarrow> pt_newline_before t | None \<Rightarrow> True)"

definition col :: "parser \<Rightarrow> nat" where
  "col p = (case tok (p_pos p) p of Some t \<Rightarrow> pt_col t | None \<Rightarrow> 0)"

definition nth_ws_before :: "nat \<Rightarrow> parser \<Rightarrow> bool" where
  "nth_ws_before n p \<longleftrightarrow> (case tok (p_pos p + n) p of Some t \<Rightarrow> pt_ws_before t | None \<Rightarrow> True)"

definition ws_before :: "parser \<Rightarrow> bool" where
  "ws_before p \<longleftrightarrow> (case tok (p_pos p) p of Some t \<Rightarrow> pt_ws_before t | None \<Rightarrow> True)"

definition at_continuation :: "parser \<Rightarrow> bool" where
  "at_continuation p \<longleftrightarrow> \<not> at_end p \<and> (\<not> newline_before p \<or> p_block_indent p < col p)"

definition at_block_boundary :: "parser \<Rightarrow> bool" where
  "at_block_boundary p \<longleftrightarrow> \<not> at_end p \<and> newline_before p \<and> col p \<le> p_block_indent p"

definition cur_span :: "parser \<Rightarrow> span" where
  "cur_span p = (case tok (p_pos p) p of
     Some t \<Rightarrow> span_new (p_file p) (pt_start t) (pt_end t)
   | None \<Rightarrow> (if p_pos p < length (p_toks p) \<and> 0 < p_pos p
       then (let e = pt_end (p_toks p ! (p_pos p - 1)) in span_new (p_file p) e e)
       else (let e = length (p_src p) in span_new (p_file p) e e)))"

definition cur_range :: "parser \<Rightarrow> (nat \<times> nat) option" where
  "cur_range p = map_option (\<lambda>t. (pt_start t, pt_end t)) (tok (p_pos p) p)"

section \<open>Control\<close>

text \<open>A condition read from the state, and loops whose body says whether to go on.\<close>

definition if_p :: "(parser \<Rightarrow> bool) \<Rightarrow> 'a pm \<Rightarrow> 'a pm \<Rightarrow> 'a pm" where
  "if_p c f g = State (\<lambda>p. if c p then run_state f p else run_state g p)"

definition when_p :: "(parser \<Rightarrow> bool) \<Rightarrow> unit pm \<Rightarrow> unit pm" where
  "when_p c f = if_p c f (ret ())"

definition fault :: "unit pm" where
  "fault = updates (\<lambda>p. p\<lparr>p_fault := True\<rparr>)"

fun loop_fuel :: "nat \<Rightarrow> ('a \<Rightarrow> ('a \<times> bool) pm) \<Rightarrow> 'a \<Rightarrow> 'a pm" where
  "loop_fuel 0 body a = do { fault; ret a }"
| "loop_fuel (Suc n) body a = do {
     r \<leftarrow> body a;
     if snd r then loop_fuel n body (fst r) else ret (fst r)
   }"

text \<open>A loop gets one unit of fuel more than there are tokens.\<close>

definition loop_p :: "('a \<Rightarrow> ('a \<times> bool) pm) \<Rightarrow> 'a \<Rightarrow> 'a pm" where
  "loop_p body a = State (\<lambda>p. run_state (loop_fuel (Suc (length (p_toks p))) body a) p)"

abbreviation continue :: "'a \<Rightarrow> ('a \<times> bool) pm" where "continue a \<equiv> ret (a, True)"
abbreviation break :: "'a \<Rightarrow> ('a \<times> bool) pm" where "break a \<equiv> ret (a, False)"

definition while_acc :: "(parser \<Rightarrow> bool) \<Rightarrow> ('a \<Rightarrow> 'a pm) \<Rightarrow> 'a \<Rightarrow> 'a pm" where
  "while_acc c body = loop_p (\<lambda>a. if_p c (do { b \<leftarrow> body a; continue b }) (break a))"

definition while_p :: "(parser \<Rightarrow> bool) \<Rightarrow> unit pm \<Rightarrow> unit pm" where
  "while_p c body = while_acc c (\<lambda>_. body) ()"

text \<open>Fuel for the recursion that no depth guard bounds: one more than the tokens of the parser.\<close>

definition token_fuel :: "(nat \<Rightarrow> 'a pm) \<Rightarrow> 'a pm" where
  "token_fuel f = State (\<lambda>p. run_state (f (Suc (length (p_toks p)))) p)"

section \<open>Markers\<close>

definition start :: "nat pm" where
  "start = State (\<lambda>p. (length (p_events p), p\<lparr>p_events := p_events p @ [Start Tombstone None]\<rparr>))"

definition complete :: "nat \<Rightarrow> syntax_kind \<Rightarrow> nat pm" where
  "complete m kind = State (\<lambda>p. (m,
     (if m < length (p_events p) then
        (case p_events p ! m of
           Start k fp \<Rightarrow> p\<lparr>p_events := (p_events p)[m := Start kind fp] @ [Finish]\<rparr>
         | _ \<Rightarrow> p\<lparr>p_fault := True\<rparr>)
      else p\<lparr>p_fault := True\<rparr>)))"

definition set_forward_parent :: "nat \<Rightarrow> nat \<Rightarrow> unit pm" where
  "set_forward_parent cm d = updates (\<lambda>p.
     (case p_events p ! cm of
        Start k fp \<Rightarrow> p\<lparr>p_events := (p_events p)[cm := Start k (Some d)]\<rparr>
      | _ \<Rightarrow> p))"

definition precede :: "nat \<Rightarrow> nat pm" where
  "precede cm = do {
     m \<leftarrow> start;
     set_forward_parent cm (m - cm);
     ret m
   }"

text \<open>
  The two shapes in which the grammar uses markers: \<open>m = p.start(); \<dots>; m.complete(p, kind)\<close> and
  \<open>m = cm.precede(p); \<dots>; m.complete(p, kind)\<close>, where the code between yields the kind.
\<close>

definition node :: "syntax_kind pm \<Rightarrow> nat pm" where
  "node body = do { m \<leftarrow> start; kind \<leftarrow> body; complete m kind }"

definition wrap :: "nat \<Rightarrow> syntax_kind pm \<Rightarrow> nat pm" where
  "wrap cm body = do { m \<leftarrow> precede cm; kind \<leftarrow> body; complete m kind }"

definition do_bump :: "syntax_kind \<Rightarrow> unit pm" where
  "do_bump kind = when_p (\<lambda>p. \<not> at_end p)
     (updates (\<lambda>p. p\<lparr>p_events := p_events p @ [Token kind], p_pos := p_pos p + 1\<rparr>))"

definition bump :: "unit pm" where
  "bump = do { kind \<leftarrow> gets current; do_bump kind }"

definition eat :: "syntax_kind \<Rightarrow> bool pm" where
  "eat kind = if_p (at kind) (do { bump; ret True }) (ret False)"

definition skip_raw :: "unit pm" where
  "skip_raw = when_p (\<lambda>p. \<not> at_end p)
     (updates (\<lambda>p. p\<lparr>p_events := p_events p @ [Skip], p_pos := p_pos p + 1\<rparr>))"

definition emit_slice :: "syntax_kind \<Rightarrow> nat \<Rightarrow> nat \<Rightarrow> unit pm" where
  "emit_slice kind a b = updates (\<lambda>p. p\<lparr>p_events := p_events p @ [RawSlice kind a b]\<rparr>)"

text \<open>
  Three loops over comma-separated items. \<open>loop { if stop { break; } item; if !p.eat(Comma) { break; } }\<close>,
  \<open>while p.at(Comma) { tuple = true; p.bump(); if p.at(close) { break; } item; }\<close> with its flag, and
  \<open>while p.eat(Comma) { if p.at(close) { break; } item; }\<close>.
\<close>

definition comma_loop :: "syntax_kind \<Rightarrow> unit pm \<Rightarrow> unit pm" where
  "comma_loop close item = loop_p (\<lambda>_. if_p (\<lambda>p. at close p \<or> at_end p) (break ())
     (do { item; more \<leftarrow> eat Comma; if more then continue () else break () })) ()"

definition tuple_loop :: "syntax_kind \<Rightarrow> unit pm \<Rightarrow> bool pm" where
  "tuple_loop close item = loop_p (\<lambda>tuple. if_p (at Comma)
     (do { bump; if_p (at close) (break True) (do { item; continue True }) })
     (break tuple)) False"

definition list_loop :: "syntax_kind \<Rightarrow> unit pm \<Rightarrow> unit pm" where
  "list_loop close item = loop_p (\<lambda>_. do {
     more \<leftarrow> eat Comma;
     if more then if_p (at close) (break ()) (do { item; continue () }) else break ()
   }) ()"

section \<open>Diagnostics and recovery\<close>

definition error :: "string \<Rightarrow> unit pm" where
  "error msg = when_p (\<lambda>p. \<not> p_unit_errored p) (updates (\<lambda>p. p\<lparr>
     p_unit_errored := True,
     p_sites := p_sites p @ [\<lparr>es_diag = length (p_diags p), es_at = p_pos p, es_unit = p_unit p\<rparr>],
     p_diags := p_diags p @ [with_label (diagnostic_error ''E0001'' msg) (cur_span p) msg]\<rparr>))"

definition expect :: "syntax_kind \<Rightarrow> bool pm" where
  "expect kind = do {
     e \<leftarrow> eat kind;
     if e then ret True else do { error (''expected '' @ debug_name kind); ret False }
   }"

definition err_and_bump :: "string \<Rightarrow> unit pm" where
  "err_and_bump msg = do {
     node (do { error msg; when_p (\<lambda>p. \<not> at_end p) bump; ret Error });
     ret ()
   }"

definition err_recover :: "string \<Rightarrow> token_set \<Rightarrow> unit pm" where
  "err_recover msg recovery =
     if_p (\<lambda>p. at_end p \<or> at_any recovery p \<or> at_block_boundary p) (error msg)
       (do {
          node (do {
            error msg;
            while_p (\<lambda>p. \<not> at_end p \<and> \<not> at_any recovery p \<and> \<not> at_block_boundary p) bump;
            ret Error
          });
          ret ()
        })"

definition error_node :: "nat pm" where
  "error_node = node (do {
     error ''nested too deeply'';
     when_p (\<lambda>p. \<not> at_end p) bump;
     ret Error
   })"

definition begin_unit :: "unit pm" where
  "begin_unit = when_p (\<lambda>p. \<not> (p_pos p < p_limit p \<or> length (p_toks p) \<le> p_pos p))
     (updates (\<lambda>p. p\<lparr>p_unit := p_unit p + 1,
        p_limit := (case nth_opt (p_units p) (p_unit p + 1 + 1) of
                      Some l \<Rightarrow> l | None \<Rightarrow> length (p_toks p)),
        p_unit_errored := False\<rparr>))"

definition with_indent :: "nat \<Rightarrow> 'a pm \<Rightarrow> 'a pm" where
  "with_indent anchor f = do {
     saved \<leftarrow> gets p_block_indent;
     updates (\<lambda>p. p\<lparr>p_block_indent := anchor\<rparr>);
     r \<leftarrow> f;
     updates (\<lambda>p. p\<lparr>p_block_indent := saved\<rparr>);
     ret r
   }"

definition depth_enter :: "bool pm" where
  "depth_enter = do {
     updates (\<lambda>p. p\<lparr>p_depth := p_depth p + 1\<rparr>);
     gets (\<lambda>p. MAX_DEPTH < p_depth p)
   }"

definition depth_leave :: "unit pm" where
  "depth_leave = updates (\<lambda>p. p\<lparr>p_depth := p_depth p - 1\<rparr>)"

text \<open>The frame that \<open>ty\<close>, \<open>pattern\<close> and \<open>expr_bp\<close> share: the depth guard around their body.\<close>

definition depth_guarded :: "nat pm \<Rightarrow> nat pm" where
  "depth_guarded body = do {
     over \<leftarrow> depth_enter;
     if over then do { cm \<leftarrow> error_node; depth_leave; ret cm }
     else do { cm \<leftarrow> body; depth_leave; ret cm }
   }"

definition is_reserved_word :: "syntax_kind \<Rightarrow> bool" where
  "is_reserved_word k \<longleftrightarrow> k \<in> {ModuleKw, ExposingKw, ImportKw, AsKw, TypeKw, AliasKw, IfKw, ThenKw,
     ElseKw, CaseKw, OfKw, LetKw, InKw}"

text \<open>The parser's set of reserved word kinds and the lexer's list of reserved words, which the
  error message prints, are the same set: a name is lexed as a reserved word, for every Unicode
  table, exactly when it is in the list.\<close>

theorem reserved_words_agree:
  "is_reserved_word (classify_ident u w) \<longleftrightarrow> w \<in> set RESERVED_WORDS"
proof (cases "lower_keyword w")
  case None
  then have "w \<notin> set RESERVED_WORDS"
    by (simp add: lower_keyword_def RESERVED_WORDS_def split: if_splits)
  moreover have "classify_ident u w \<in> {TrueKw, FalseKw, UpperIdent, LowerIdent}"
    using None by (simp add: classify_ident_def split: list.splits)
  ultimately show ?thesis by (auto simp: is_reserved_word_def)
next
  case (Some k)
  then have "w \<in> set RESERVED_WORDS" "is_reserved_word k"
    by (auto simp: lower_keyword_def RESERVED_WORDS_def is_reserved_word_def split: if_splits)
  with Some show ?thesis by (simp add: classify_ident_def)
qed

end
