(* ===== verification/Parser_Rules.thy ===== *)
theory Parser_Rules
  imports Parser_Core
begin

text \<open>
  A calculus for the parser: what every production guarantees, as judgements with one rule per
  operation. A production keeps the state's invariant and frame, appends well-formed events that
  cover exactly the tokens it passed, records at most one error in its unit, and moves forward.
\<close>

section \<open>One stretch of parsing\<close>

definition inv :: "parser \<Rightarrow> bool" where
  "inv p \<longleftrightarrow> \<not> p_fault p \<and> p_pos p \<le> p_limit p \<and> p_limit p \<le> length (p_toks p) \<and>
     (\<forall>t \<in> set (p_toks p). pt_start t \<le> pt_end t \<and> pt_end t \<le> length (p_src p)) \<and>
     length (p_src p) < 2 ^ 32"

definition same_frame :: "parser \<Rightarrow> parser \<Rightarrow> bool" where
  "same_frame p p' \<longleftrightarrow> p_src p' = p_src p \<and> p_toks p' = p_toks p \<and> p_file p' = p_file p \<and>
     p_block_indent p' = p_block_indent p \<and> p_depth p' = p_depth p \<and> p_units p' = p_units p \<and>
     p_unit p' = p_unit p \<and> p_limit p' = p_limit p"

text \<open>The diagnostic budget: one error per unit, recorded where it was raised.\<close>

definition new_site :: "parser \<Rightarrow> parser \<Rightarrow> error_site \<Rightarrow> bool" where
  "new_site p p' s \<longleftrightarrow> es_diag s = length (p_diags p) \<and> es_unit s = p_unit p \<and>
     p_pos p \<le> es_at s \<and> es_at s \<le> p_pos p'"

definition budget :: "parser \<Rightarrow> parser \<Rightarrow> bool" where
  "budget p p' \<longleftrightarrow>
     (p_diags p' = p_diags p \<and> p_sites p' = p_sites p \<and> p_unit_errored p' = p_unit_errored p) \<or>
     (\<not> p_unit_errored p \<and> p_unit_errored p' \<and> (\<exists>s d. p_sites p' = p_sites p @ [s] \<and>
        p_diags p' = p_diags p @ [d] \<and> new_site p p' s))"

definition here :: "parser \<Rightarrow> nat \<times> nat" where
  "here p = (p_pos p, tok_end (p_toks p) (p_pos p))"

text \<open>Error nodes appear only where an error has been recorded in the unit.\<close>

definition error_free :: "event list \<Rightarrow> bool" where
  "error_free es \<longleftrightarrow> list_all (\<lambda>e. case e of Start k fp \<Rightarrow> k \<noteq> Error | _ \<Rightarrow> True) es"

lemma error_free_simps [simp]:
  "error_free []" "error_free (es @ fs) \<longleftrightarrow> error_free es \<and> error_free fs"
  "error_free (Start k fp # es) \<longleftrightarrow> k \<noteq> Error \<and> error_free es" "error_free (Finish # es) \<longleftrightarrow> error_free es"
  "error_free (Token k # es) \<longleftrightarrow> error_free es" "error_free (Skip # es) \<longleftrightarrow> error_free es"
  "error_free (RawSlice k a b # es) \<longleftrightarrow> error_free es"
  by (simp_all add: error_free_def)

definition is_plain :: "syntax_kind \<Rightarrow> bool" where
  [simp]: "is_plain k \<longleftrightarrow> k \<noteq> Tombstone \<and> k \<noteq> Error"

definition moved :: "parser \<Rightarrow> event list \<Rightarrow> parser \<Rightarrow> bool" where
  "moved p es p' \<longleftrightarrow> inv p' \<and> same_frame p p' \<and> p_pos p \<le> p_pos p' \<and> budget p p' \<and>
     cov (p_toks p) es (here p) = Some (here p') \<and> (error_free es \<or> p_unit_errored p')"

lemmas moved_defs = moved_def same_frame_def budget_def here_def

lemma movedI:
  assumes "inv p'" "same_frame p p'" "p_pos p \<le> p_pos p'" "budget p p'"
    "cov (p_toks p) es (here p) = Some (here p')" "error_free es \<or> p_unit_errored p'"
  shows "moved p es p'"
  using assms by (simp add: moved_def)

lemma moved_refl [simp]: "inv p \<Longrightarrow> moved p [] p"
  by (simp add: moved_defs)

lemma budget_trans: "budget p p1 \<Longrightarrow> budget p1 p2 \<Longrightarrow> same_frame p p1 \<Longrightarrow>
    p_pos p \<le> p_pos p1 \<Longrightarrow> p_pos p1 \<le> p_pos p2 \<Longrightarrow> budget p p2"
  unfolding budget_def new_site_def same_frame_def by fastforce

lemma moved_trans:
  assumes "moved p es p1" "moved p1 fs p2"
  shows "moved p (es @ fs) p2"
proof (rule movedI)
  show "budget p p2"
    using assms by (intro budget_trans[of p p1 p2]) (auto simp: moved_def)
  show "cov (p_toks p) (es @ fs) (here p) = Some (here p2)"
    using assms by (auto simp: moved_def same_frame_def cov_append)
  show "error_free (es @ fs) \<or> p_unit_errored p2"
    using assms by (auto simp: moved_def budget_def)
qed (use assms in \<open>auto simp: moved_def same_frame_def\<close>)

text \<open>Only the leaves of an event list decide what it covers.\<close>

lemma cov_leaves: "cov toks es ic = cov toks (filter is_leaf es) ic"
proof (induction es arbitrary: ic)
  case (Cons e es)
  then show ?case by (cases e) (auto simp: is_leaf_def split: Option.bind_splits)
qed simp

lemma moved_leaves: "moved p es p' \<Longrightarrow> filter is_leaf es = filter is_leaf fs \<Longrightarrow>
    (error_free es \<Longrightarrow> error_free fs \<or> p_unit_errored p') \<Longrightarrow> moved p fs p'"
  unfolding moved_def by (metis cov_leaves)

lemma not_leaf [simp]: "\<not> is_leaf (Start k fp)" "\<not> is_leaf Finish"
  and leaf [simp]: "is_leaf (Token k)" "is_leaf Skip" "is_leaf (RawSlice k a b)"
  by (simp_all add: is_leaf_def)

lemma moved_events [simp]:
  "moved p es (p'\<lparr>p_events := ev\<rparr>) \<longleftrightarrow> moved p es p'"
  "moved (p\<lparr>p_events := ev\<rparr>) es p' \<longleftrightarrow> moved p es p'"
  by (simp_all add: moved_defs inv_def new_site_def)

lemma moved_inv: "moved p es p' \<Longrightarrow> inv p'"
  by (simp add: moved_def)

section \<open>What a production leaves behind\<close>

text \<open>Finished nodes waiting for the node that \<open>precede\<close> has opened around them.\<close>

definition dangling :: "(syntax_kind \<times> event list) list \<Rightarrow> event list" where
  "dangling segs = concat (map (\<lambda>(k, es). Start k (Some (length es + 2)) # es @ [Finish]) segs)"

abbreviation good_segs :: "(syntax_kind \<times> event list) list \<Rightarrow> bool" where
  "good_segs segs \<equiv> \<forall>(k, es) \<in> set segs. k \<noteq> Tombstone \<and> forest es"

definition ext :: "parser \<Rightarrow> parser \<Rightarrow> bool" where
  "ext p p' \<longleftrightarrow> (\<exists>es. forest es \<and> p_events p' = p_events p @ es \<and> moved p es p')"

definition closed :: "parser \<Rightarrow> nat \<Rightarrow> parser \<Rightarrow> bool" where
  "closed p cm p' \<longleftrightarrow> (\<exists>segs k es. good_segs segs \<and> k \<noteq> Tombstone \<and> forest es \<and>
     p_events p' = p_events p @ dangling segs @ Start k None # es @ [Finish] \<and>
     cm = length (p_events p @ dangling segs) \<and>
     moved p (dangling segs @ Start k None # es @ [Finish]) p')"

definition opened :: "parser \<Rightarrow> nat \<Rightarrow> parser \<Rightarrow> bool" where
  "opened p m p' \<longleftrightarrow> (\<exists>segs es. good_segs segs \<and> forest es \<and>
     p_events p' = p_events p @ dangling segs @ Start Tombstone None # es \<and>
     m = length (p_events p @ dangling segs) \<and>
     moved p (dangling segs @ Start Tombstone None # es) p')"

lemma extE:
  assumes "ext p p'"
  obtains es where "forest es" "p_events p' = p_events p @ es" "moved p es p'"
  using assms by (auto simp: ext_def)

lemma ext_moved: "ext p p' \<Longrightarrow> inv p' \<and> same_frame p p' \<and> p_pos p \<le> p_pos p'"
  by (auto simp: ext_def moved_def)

lemma closed_moved: "closed p cm p' \<Longrightarrow> inv p' \<and> same_frame p p' \<and> p_pos p \<le> p_pos p'"
  by (auto simp: closed_def moved_def)

lemma ext_refl: "inv p \<Longrightarrow> ext p p"
  by (auto simp: ext_def)

lemma ext_trans:
  assumes "ext p p1" "ext p1 p2"
  shows "ext p p2"
proof -
  obtain es fs where "forest es" "p_events p1 = p_events p @ es" "moved p es p1"
    "forest fs" "p_events p2 = p_events p1 @ fs" "moved p1 fs p2"
    using assms by (auto elim!: extE)
  then show ?thesis unfolding ext_def
    by (intro exI[of _ "es @ fs"]) (auto intro: forest_append moved_trans)
qed

lemma chain_dangling: "chain_evs (segs @ [(k, es)]) = dangling segs @ Start k None # es @ [Finish]"
  by (simp add: chain_evs_snoc dangling_def)

lemma closed_ext:
  assumes "closed p cm p'"
  shows "ext p p'"
proof -
  obtain segs k es where c: "good_segs segs" "k \<noteq> Tombstone" "forest es"
    "p_events p' = p_events p @ chain_evs (segs @ [(k, es)])"
    "moved p (chain_evs (segs @ [(k, es)])) p'"
    using assms by (auto simp: closed_def chain_dangling)
  from c(1-3) have "forest (chain_evs (segs @ [(k, es)]))"
    by (intro forest_single_chain) auto
  with c show ?thesis unfolding ext_def by blast
qed

lemma opened_ext:
  assumes "opened p m p1" "ext p1 p2"
  shows "opened p m p2"
proof -
  obtain segs es fs where o: "good_segs segs" "forest es"
    "p_events p1 = p_events p @ dangling segs @ Start Tombstone None # es"
    "m = length (p_events p @ dangling segs)"
    "moved p (dangling segs @ Start Tombstone None # es) p1"
    "forest fs" "p_events p2 = p_events p1 @ fs" "moved p1 fs p2"
    using assms unfolding opened_def by (auto elim!: extE)
  from moved_trans[OF o(5,8)]
  have "moved p (dangling segs @ Start Tombstone None # es @ fs) p2" by simp
  with o forest_append[OF o(6,2)] show ?thesis
    unfolding opened_def by (intro exI[of _ segs] exI[of _ "es @ fs"]) simp
qed

lemma opened_start:
  assumes "inv p"
  shows "opened p (result start p) (final start p)"
proof -
  have "moved p [Start Tombstone None] p"
    by (rule moved_leaves[OF moved_refl[OF assms]]) simp_all
  then show ?thesis
    unfolding opened_def start_def
    by (intro exI[of _ "[]"] exI[of _ "[]"]) (simp add: dangling_def)
qed

lemma opened_precede:
  assumes "closed p cm p'"
  shows "opened p (result (precede cm) p') (final (precede cm) p')"
proof -
  obtain segs k es where c: "good_segs segs" "k \<noteq> Tombstone" "forest es"
    "p_events p' = p_events p @ dangling segs @ Start k None # es @ [Finish]"
    "cm = length (p_events p @ dangling segs)"
    "moved p (dangling segs @ Start k None # es @ [Finish]) p'"
    using assms by (auto simp: closed_def)
  let ?segs = "segs @ [(k, es)]"
  have d: "dangling ?segs = dangling segs @ Start k (Some (length es + 2)) # es @ [Finish]"
    by (simp add: dangling_def)
  have cm: "cm < length (p_events p')" "p_events p' ! cm = Start k None"
    using c(4,5) by simp_all
  have m: "moved p (dangling ?segs @ [Start Tombstone None]) p'"
    by (rule moved_leaves[OF c(6)]) (simp_all add: d)
  have ev: "p_events (final (precede cm) p') = p_events p @ dangling ?segs @ [Start Tombstone None]"
    "result (precede cm) p' = length (p_events p @ dangling ?segs)"
    "final (precede cm) p' = p'\<lparr>p_events := p_events p @ dangling ?segs @ [Start Tombstone None]\<rparr>"
    using c(4,5) cm
    by (simp_all add: precede_def start_def set_forward_parent_def d nth_append list_update_append)
  show ?thesis
    unfolding opened_def ev(1,2)
    by (rule exI[of _ ?segs], rule exI[of _ "[]"]) (use c(1-3) m ev in auto)
qed

lemma closed_complete:
  assumes "opened p m p'" "kind \<noteq> Tombstone" "kind \<noteq> Error \<or> p_unit_errored p'"
  shows "closed p (result (complete m kind) p') (final (complete m kind) p')"
proof -
  obtain segs es where o: "good_segs segs" "forest es"
    "p_events p' = p_events p @ dangling segs @ Start Tombstone None # es"
    "m = length (p_events p @ dangling segs)"
    "moved p (dangling segs @ Start Tombstone None # es) p'"
    using assms(1) by (auto simp: opened_def)
  have m: "moved p (dangling segs @ Start kind None # es @ [Finish]) p'"
    by (rule moved_leaves[OF o(5)]) (use assms(3) in auto)
  have ev: "final (complete m kind) p' =
      p'\<lparr>p_events := p_events p @ dangling segs @ Start kind None # es @ [Finish]\<rparr>"
    "result (complete m kind) p' = m"
    using o(3,4) by (simp_all add: complete_def nth_append list_update_append)
  show ?thesis
    unfolding closed_def ev
    by (rule exI[of _ segs], rule exI[of _ kind], rule exI[of _ es]) (use o m assms(2) in auto)
qed

section \<open>Judgements\<close>

text \<open>
  An environment \<open>(d, L, n)\<close> bounds the state a production starts in: at least \<open>d\<close> guarded calls are
  open, the source is shorter than \<open>L\<close>, and at most \<open>n\<close> tokens are left. A production may \<open>exts\<close>,
  append finished nodes, with a flag that says that it consumes a token unless the parser is at the
  end, and a predicate on its result; or \<open>closes\<close>, append one node and return its marker, always
  consuming; or \<open>recloses\<close>, continue behind a finished node that it may wrap. The rules are
  conditional rewrite rules, so that \<open>simp add: keeps\<close> follows the shape of a production.
\<close>

named_theorems keeps

type_synonym env = "nat \<times> nat \<times> nat"

definition pre :: "env \<Rightarrow> parser \<Rightarrow> bool" where
  "pre e p \<longleftrightarrow> (let (d, L, n) = e in inv p \<and> d \<le> p_depth p \<and> length (p_src p) < L \<and>
     length (p_toks p) - p_pos p \<le> n)"

definition forward :: "bool \<Rightarrow> parser \<Rightarrow> parser \<Rightarrow> bool" where
  "forward b p p' \<longleftrightarrow> (b \<longrightarrow> \<not> at_end p \<longrightarrow> p_pos p < p_pos p')"

definition exts :: "env \<Rightarrow> bool \<Rightarrow> ('a \<Rightarrow> bool) \<Rightarrow> 'a pm \<Rightarrow> bool" where
  "exts e b P f \<longleftrightarrow> (\<forall>p. pre e p \<longrightarrow>
     ext p (final f p) \<and> P (result f p) \<and> forward b p (final f p))"

definition closes :: "env \<Rightarrow> nat pm \<Rightarrow> bool" where
  "closes e f \<longleftrightarrow> (\<forall>p. pre e p \<longrightarrow>
     closed p (result f p) (final f p) \<and> forward True p (final f p))"

definition recloses :: "env \<Rightarrow> bool \<Rightarrow> (nat \<Rightarrow> nat pm) \<Rightarrow> bool" where
  "recloses e b g \<longleftrightarrow> (\<forall>p0 cm p. closed p0 cm p \<longrightarrow> pre e p \<longrightarrow>
     closed p0 (result (g cm) p) (final (g cm) p) \<and> p_pos p \<le> p_pos (final (g cm) p) \<and>
     forward b p (final (g cm) p))"

text \<open>A loop body: it moves forward whenever it asks to go on (unless the parser was at the end,
  when the flag is false).\<close>

definition loops :: "env \<Rightarrow> bool \<Rightarrow> ('a \<times> bool) pm \<Rightarrow> bool" where
  "loops e u f \<longleftrightarrow> (\<forall>p. pre e p \<longrightarrow> ext p (final f p) \<and>
     (snd (result f p) \<longrightarrow> u \<or> \<not> at_end p \<longrightarrow> p_pos p < p_pos (final f p)))"

text \<open>A condition that holds only before the end.\<close>

definition ahead :: "(parser \<Rightarrow> bool) \<Rightarrow> bool" where
  "ahead c \<longleftrightarrow> (\<forall>p. c p \<longrightarrow> \<not> at_end p)"

lemma at_not_end: "at k p \<Longrightarrow> k \<noteq> Eof \<Longrightarrow> \<not> at_end p"
  by (auto simp: at_def current_def tok_def nth_opt_def at_end_def split: if_splits option.splits)

lemma ahead_at [simp]: "k \<noteq> Eof \<Longrightarrow> ahead (at k)"
  by (simp add: ahead_def at_not_end)

lemma ahead_at_any [simp]: "\<not> ts_contains ts Eof \<Longrightarrow> ahead (at_any ts)"
  unfolding ahead_def
proof (intro allI impI)
  fix p assume "\<not> ts_contains ts Eof" "at_any ts p"
  then have "current p \<noteq> Eof" by (auto simp: at_any_def)
  then show "\<not> at_end p" using at_not_end[of "current p" p] by (simp add: at_def)
qed

lemma ahead_conj [simp]: "ahead c \<Longrightarrow> ahead (\<lambda>p. c p \<and> d p)"
  by (simp add: ahead_def)

lemma ahead_conj2 [simp]: "ahead d \<Longrightarrow> ahead (\<lambda>p. c p \<and> d p)"
  by (simp add: ahead_def)

lemma ahead_disj [simp]: "ahead c \<Longrightarrow> ahead d \<Longrightarrow> ahead (\<lambda>p. c p \<or> d p)"
  by (simp add: ahead_def)

lemma ahead_not_end [simp]: "ahead (\<lambda>p. \<not> at_end p)"
  by (simp add: ahead_def)

lemma pre_inv: "pre e p \<Longrightarrow> inv p"
  by (auto simp: pre_def)

lemma pre_mono: "pre e p \<Longrightarrow> inv p' \<Longrightarrow> same_frame p p' \<Longrightarrow> p_pos p \<le> p_pos p' \<Longrightarrow> pre e p'"
  by (cases e) (auto simp: pre_def same_frame_def)

lemma pre_ext: "pre e p \<Longrightarrow> ext p p' \<Longrightarrow> pre e p'"
  using ext_moved pre_mono by blast

lemma pre_closed: "closed p0 cm p \<Longrightarrow> closed p0 cm' p' \<Longrightarrow> p_pos p \<le> p_pos p' \<Longrightarrow> pre e p \<Longrightarrow> pre e p'"
  by (rule pre_mono[of e p p']) (use closed_moved in \<open>auto simp: same_frame_def\<close>)

lemma forward_trans:
  assumes "forward b1 p p1" "forward b2 p1 p2" "same_frame p p1" "p_pos p \<le> p_pos p1"
    "p_pos p1 \<le> p_pos p2" "b \<longrightarrow> b1 \<or> b2"
  shows "forward b p p2"
proof (cases "p_pos p = p_pos p1")
  case True
  with assms have "at_end p1 = at_end p" by (simp add: at_end_def same_frame_def)
  with True assms show ?thesis by (auto simp: forward_def)
qed (use assms in \<open>auto simp: forward_def\<close>)

lemma forward_False [simp]: "forward False p p'"
  by (simp add: forward_def)

section \<open>Rules\<close>

lemma extsI:
  assumes "\<And>p. pre e p \<Longrightarrow> ext p (final f p)" "\<And>p. pre e p \<Longrightarrow> P (result f p)"
    "\<And>p. pre e p \<Longrightarrow> forward b p (final f p)"
  shows "exts e b P f"
  using assms by (simp add: exts_def)

lemma extsD:
  assumes "exts e b P f" "pre e p"
  shows "ext p (final f p)" "P (result f p)" "forward b p (final f p)" "pre e (final f p)"
    "same_frame p (final f p)" "p_pos p \<le> p_pos (final f p)"
  using assms pre_ext ext_moved by (auto simp: exts_def)

lemma closesD:
  assumes "closes e f" "pre e p"
  shows "closed p (result f p) (final f p)" "forward True p (final f p)"
  using assms by (auto simp: closes_def)

lemma reclosesD:
  assumes "recloses e b g" "closed p0 cm p" "pre e p"
  shows "closed p0 (result (g cm) p) (final (g cm) p)" "p_pos p \<le> p_pos (final (g cm) p)"
    "forward b p (final (g cm) p)"
  using assms by (auto simp: recloses_def)

lemma exts_forget: "exts e True P f \<Longrightarrow> exts e False P f"
  by (simp add: exts_def)

lemma closes_exts [keeps]: "closes e f \<Longrightarrow> exts e b (\<lambda>_. True) f"
  by (auto simp: exts_def closes_def forward_def intro: closed_ext)

lemma exts_ret [keeps]: "P x \<Longrightarrow> exts e False P (ret x)"
  by (auto simp: exts_def intro: ext_refl pre_inv)

lemma exts_gets [keeps]: "exts e False (\<lambda>_. True) (gets f)"
  by (auto simp: exts_def intro: ext_refl pre_inv)

lemma exts_bind:
  assumes f: "exts e b1 (\<lambda>_. True) f" and g: "\<And>r. exts e b2 P (g r)" and b: "b \<longrightarrow> b1 \<or> b2"
  shows "exts e b P (State_Monad.bind f g)"
proof (rule extsI)
  fix p assume p: "pre e p"
  note 1 = extsD[OF f p]
  note 2 = extsD[OF g[of "result f p"] 1(4)]
  show "ext p (final (State_Monad.bind f g) p)" using 1(1) 2(1) by (auto intro: ext_trans)
  show "P (result (State_Monad.bind f g) p)" using 2(2) by simp
  show "forward b p (final (State_Monad.bind f g) p)"
    using forward_trans[OF 1(3) 2(3) 1(5,6) 2(6) b] by simp
qed

lemma exts_bind_plain [keeps]: "exts e False (\<lambda>_. True) f \<Longrightarrow> (\<And>r. exts e False P (g r)) \<Longrightarrow>
    exts e False P (State_Monad.bind f g)"
  by (rule exts_bind) auto

lemma exts_bind_second [keeps]: "exts e False (\<lambda>_. True) f \<Longrightarrow> (\<And>r. exts e True P (g r)) \<Longrightarrow>
    exts e True P (State_Monad.bind f g)"
  by (rule exts_bind) auto

lemma exts_bind_first [keeps]: "exts e True (\<lambda>_. True) f \<Longrightarrow> (\<And>r. exts e False P (g r)) \<Longrightarrow>
    exts e True P (State_Monad.bind f g)"
  by (rule exts_bind) auto

lemma exts_if [keeps]: "exts e b P f \<Longrightarrow> exts e b P g \<Longrightarrow> exts e b P (if c then f else g)"
  by simp

lemma run_if_p [simp]: "run_state (if_p c f g) p = (if c p then run_state f p else run_state g p)"
  by (simp add: if_p_def)

lemma exts_if_p [keeps]: "exts e b P f \<Longrightarrow> exts e b P g \<Longrightarrow> exts e b P (if_p c f g)"
  by (simp add: exts_def)

lemma exts_when_p [keeps]: "exts e False (\<lambda>_. True) f \<Longrightarrow> exts e False (\<lambda>_. True) (when_p c f)"
  by (simp add: when_p_def keeps)

lemma closes_if_p [keeps]: "closes e f \<Longrightarrow> closes e g \<Longrightarrow> closes e (if_p c f g)"
  by (simp add: closes_def)

lemma closes_bind [keeps]:
  assumes f: "closes e f" and g: "recloses e False g"
  shows "closes e (State_Monad.bind f g)"
  unfolding closes_def
proof (intro allI impI)
  fix p assume p: "pre e p"
  note 1 = closesD[OF f p]
  note m = closed_moved[OF 1(1)]
  have p1: "pre e (final f p)" using p m by (blast intro: pre_mono)
  note 2 = reclosesD[OF g 1(1) p1]
  have "forward True p (final (g (result f p)) (final f p))"
    by (rule forward_trans[OF 1(2) 2(3) _ _ 2(2)]) (use m in auto)
  with 2(1) show "closed p (result (State_Monad.bind f g) p) (final (State_Monad.bind f g) p) \<and>
      forward True p (final (State_Monad.bind f g) p)" by simp
qed

lemma closed_node:
  assumes "inv p" "ext (final start p) (final body (final start p))"
    "result body (final start p) \<noteq> Tombstone"
    "result body (final start p) \<noteq> Error \<or> p_unit_errored (final body (final start p))"
  shows "closed p (result (node body) p) (final (node body) p)"
    "p_pos (final (node body) p) = p_pos (final body (final start p))"
proof -
  have "opened p (result start p) (final body (final start p))"
    using opened_ext[OF opened_start[OF assms(1)] assms(2)] .
  from closed_complete[OF this assms(3,4)]
  show "closed p (result (node body) p) (final (node body) p)" by (simp add: node_def)
  show "p_pos (final (node body) p) = p_pos (final body (final start p))"
    by (simp add: node_def complete_def split: event.splits)
qed

lemma closed_wrap:
  assumes "closed p0 cm p" "ext (final (precede cm) p) (final body (final (precede cm) p))"
    "is_plain (result body (final (precede cm) p))"
  shows "closed p0 (result (wrap cm body) p) (final (wrap cm body) p)"
    "p_pos (final (wrap cm body) p) = p_pos (final body (final (precede cm) p))"
proof -
  have "opened p0 (result (precede cm) p) (final body (final (precede cm) p))"
    using opened_ext[OF opened_precede[OF assms(1)] assms(2)] .
  from closed_complete[OF this] assms(3)
  show "closed p0 (result (wrap cm body) p) (final (wrap cm body) p)" by (simp add: wrap_def)
  show "p_pos (final (wrap cm body) p) = p_pos (final body (final (precede cm) p))"
    by (simp add: wrap_def complete_def split: event.splits)
qed

lemma start_view:
  "inv p \<Longrightarrow> inv (final start p)" "p_toks (final start p) = p_toks p"
  "p_pos (final start p) = p_pos p" "at_end (final start p) = at_end p"
  "pre e p \<Longrightarrow> pre e (final start p)"
  by (cases e; simp add: start_def inv_def at_end_def pre_def)+

lemma precede_view:
  "inv p \<Longrightarrow> inv (final (precede cm) p)" "p_toks (final (precede cm) p) = p_toks p"
  "p_pos (final (precede cm) p) = p_pos p" "at_end (final (precede cm) p) = at_end p"
  "pre e p \<Longrightarrow> pre e (final (precede cm) p)"
  by (cases e; auto simp: precede_def start_def set_forward_parent_def inv_def at_end_def pre_def
      split: event.splits)+

lemma closes_node [keeps]:
  assumes "exts e True is_plain body"
  shows "closes e (node body)"
  unfolding closes_def
proof (intro allI impI)
  fix p assume p: "pre e p"
  note b = extsD[OF assms start_view(5)[OF p]]
  from closed_node[OF pre_inv[OF p] b(1)] b(2,3)
  show "closed p (result (node body) p) (final (node body) p) \<and> forward True p (final (node body) p)"
    by (simp add: forward_def start_view)
qed

lemma exts_node [keeps]:
  assumes "exts e b is_plain body"
  shows "exts e b (\<lambda>_. True) (node body)"
proof (rule extsI)
  fix p assume p: "pre e p"
  note b = extsD[OF assms start_view(5)[OF p]]
  have "closed p (result (node body) p) (final (node body) p)"
    and pos: "p_pos (final (node body) p) = p_pos (final body (final start p))"
    using closed_node[OF pre_inv[OF p] b(1)] b(2) by simp_all
  then show "ext p (final (node body) p)" by (intro closed_ext)
  from pos b(3) show "forward b p (final (node body) p)" by (simp add: forward_def start_view)
qed simp

lemma recloses_wrap [keeps]:
  assumes "exts e b is_plain body"
  shows "recloses e b (\<lambda>cm. wrap cm body)"
  unfolding recloses_def
proof (intro allI impI)
  fix p0 cm p assume c: "closed p0 cm p" and p: "pre e p"
  note b = extsD[OF assms precede_view(5)[OF p]]
  from closed_wrap[OF c b(1,2)] b(3,6)
  show "closed p0 (result (wrap cm body) p) (final (wrap cm body) p) \<and>
      p_pos p \<le> p_pos (final (wrap cm body) p) \<and> forward b p (final (wrap cm body) p)"
    by (simp add: forward_def precede_view)
qed

lemma recloses_ret [keeps]: "recloses e False ret"
  by (simp add: recloses_def)

lemma recloses_if_p [keeps]: "recloses e b g \<Longrightarrow> recloses e b h \<Longrightarrow>
    recloses e b (\<lambda>cm. if_p c (g cm) (h cm))"
  by (simp add: recloses_def)

lemma recloses_gets [keeps]: "(\<And>x. recloses e b (g x)) \<Longrightarrow>
    recloses e b (\<lambda>cm. State_Monad.bind (gets f) (\<lambda>x. g x cm))"
  by (simp add: recloses_def)

section \<open>The operations\<close>

lemma final_bump: "final bump p = (if at_end p then p
    else p\<lparr>p_events := p_events p @ [Token (current p)], p_pos := p_pos p + 1\<rparr>)"
  by (simp add: bump_def do_bump_def when_p_def)

lemma exts_bump [keeps]: "exts e b (\<lambda>_. True) bump"
proof (rule extsI)
  fix p assume "pre e p"
  then have p: "inv p" by (rule pre_inv)
  show "ext p (final bump p)"
  proof (cases "at_end p")
    case False
    then have "p_pos p < p_limit p" "p_pos p < length (p_toks p)" by (simp_all add: at_end_def)
    with p have "moved p [Token (current p)] (final bump p)"
      using False
      by (auto simp: final_bump moved_defs new_site_def inv_def cov_step_def tok_end_def)
    then show ?thesis
      using False unfolding ext_def
      by (intro exI[of _ "[Token (current p)]"]) (auto simp: final_bump intro: forest_single_leaf)
  qed (use p in \<open>simp add: final_bump ext_refl\<close>)
  show "forward b p (final bump p)" by (simp add: forward_def final_bump)
qed simp

lemma exts_error [keeps]: "exts e False (\<lambda>_. True) (error msg)"
proof (rule extsI)
  fix p assume "pre e p"
  then have p: "inv p" by (rule pre_inv)
  have "moved p [] (final (error msg) p)"
    using p by (auto simp: error_def when_p_def moved_defs new_site_def inv_def)
  then show "ext p (final (error msg) p)"
    unfolding ext_def by (intro exI[of _ "[]"]) (simp add: error_def when_p_def)
qed simp_all

lemma exts_eat [keeps]: "exts e False (\<lambda>_. True) (eat k)"
  by (simp add: eat_def keeps)

lemma exts_expect [keeps]: "exts e False (\<lambda>_. True) (expect k)"
  by (simp add: expect_def keeps)

text \<open>An error node records its error before it is completed.\<close>

lemma error_body:
  assumes "exts e b (\<lambda>_. True) f" "pre e p"
  shows "ext p (final (do { error msg; f; ret Error }) p)"
    "forward b p (final (do { error msg; f; ret Error }) p)"
    "p_unit_errored (final (do { error msg; f; ret Error }) p)"
proof -
  note 1 = extsD[OF exts_error[of _ msg] assms(2)]
  note 2 = extsD[OF assms(1) 1(4)]
  from ext_trans[OF 1(1) 2(1)] show "ext p (final (do { error msg; f; ret Error }) p)" by simp
  from forward_trans[OF 1(3) 2(3) 1(5,6) 2(6)]
  show "forward b p (final (do { error msg; f; ret Error }) p)" by simp
  have "p_unit_errored (final (error msg) p)" by (simp add: error_def when_p_def)
  with 2(1) show "p_unit_errored (final (do { error msg; f; ret Error }) p)"
    by (auto simp: ext_def moved_def budget_def)
qed

lemma exts_error_body [keeps]:
  assumes "exts e b (\<lambda>_. True) f"
  shows "exts e b (\<lambda>_. True) (node (do { error msg; f; ret Error }))"
proof (rule extsI)
  fix p assume p: "pre e p"
  let ?body = "do { error msg; f; ret Error }"
  note b = error_body[OF assms start_view(5)[OF p], of msg]
  have "closed p (result (node ?body) p) (final (node ?body) p)"
    and pos: "p_pos (final (node ?body) p) = p_pos (final ?body (final start p))"
    using closed_node[OF pre_inv[OF p] b(1)] b(3) by simp_all
  then show "ext p (final (node ?body) p)" by (intro closed_ext)
  from pos b(2) show "forward b p (final (node ?body) p)" by (simp add: forward_def start_view)
qed simp

lemma closes_error_body [keeps]:
  assumes "exts e True (\<lambda>_. True) f"
  shows "closes e (node (do { error msg; f; ret Error }))"
  unfolding closes_def
proof (intro allI impI)
  fix p assume p: "pre e p"
  let ?body = "do { error msg; f; ret Error }"
  note b = error_body[OF assms start_view(5)[OF p], of msg]
  from closed_node[OF pre_inv[OF p] b(1)] b(2,3)
  show "closed p (result (node ?body) p) (final (node ?body) p) \<and> forward True p (final (node ?body) p)"
    by (simp add: forward_def start_view)
qed

lemma exts_bump_unless_end [keeps]: "exts e b (\<lambda>_. True) (when_p (\<lambda>p. \<not> at_end p) bump)"
  using exts_bump[of e b]
  by (auto simp: exts_def when_p_def forward_def intro: ext_refl pre_inv)

lemma closes_error_node [keeps]: "closes e error_node"
  by (simp add: error_node_def keeps)

lemma exts_err_and_bump [keeps]: "exts e True (\<lambda>_. True) (err_and_bump msg)"
  by (simp add: err_and_bump_def keeps)

lemma ext_indent: "ext (p\<lparr>p_block_indent := a\<rparr>) p' \<Longrightarrow> ext p (p'\<lparr>p_block_indent := p_block_indent p\<rparr>)"
  by (auto simp: ext_def moved_defs new_site_def inv_def)

lemma exts_with_indent [keeps]:
  assumes "exts e b P f"
  shows "exts e b P (with_indent a f)"
proof -
  have "ext p (final (with_indent a f) p) \<and> P (result (with_indent a f) p) \<and>
      forward b p (final (with_indent a f) p)" if p: "pre e p" for p
  proof -
    let ?p1 = "p\<lparr>p_block_indent := a\<rparr>"
    have "pre e ?p1" using p by (cases e) (simp add: pre_def inv_def)
    note f = extsD[OF assms this]
    from ext_indent[OF f(1)] f(2,3) show ?thesis
      by (simp add: with_indent_def forward_def at_end_def)
  qed
  then show ?thesis by (simp add: exts_def)
qed

lemma closed_depth: "closed (p\<lparr>p_depth := p_depth p + 1\<rparr>) cm p' \<Longrightarrow>
    closed p cm (p'\<lparr>p_depth := p_depth p' - 1\<rparr>)"
  by (auto simp: closed_def moved_defs new_site_def inv_def)

text \<open>The depth guard: the body only runs below \<open>MAX_DEPTH\<close>, so an environment at the bound is
  never handed on.\<close>

lemma closes_depth_guarded:
  assumes "d < MAX_DEPTH \<Longrightarrow> closes (Suc d, L, n) body"
  shows "closes (d, L, n) (depth_guarded body)"
  unfolding closes_def
proof (intro allI impI)
  fix p assume p: "pre (d, L, n) p"
  let ?p1 = "p\<lparr>p_depth := p_depth p + 1\<rparr>"
  have p1: "pre (Suc d, L, n) ?p1" using p by (simp add: pre_def inv_def)
  show "closed p (result (depth_guarded body) p) (final (depth_guarded body) p) \<and>
      forward True p (final (depth_guarded body) p)"
  proof (cases "MAX_DEPTH < p_depth p + 1")
    case True
    note c = closesD[OF closes_error_node p1]
    from closed_depth[OF c(1)] c(2) True show ?thesis
      by (simp add: depth_guarded_def depth_enter_def depth_leave_def forward_def at_end_def)
  next
    case False
    with p have "d < MAX_DEPTH" by (simp add: pre_def)
    note c = closesD[OF assms[OF this] p1]
    from closed_depth[OF c(1)] c(2) False show ?thesis
      by (simp add: depth_guarded_def depth_enter_def depth_leave_def forward_def at_end_def)
  qed
qed

section \<open>Loops\<close>

lemma loops_stop [keeps]: "loops e u (ret (a, False))"
  by (auto simp: loops_def intro: ext_refl pre_inv)

lemma loops_if [keeps]: "loops e u f \<Longrightarrow> loops e u g \<Longrightarrow> loops e u (if c then f else g)"
  by simp

lemma loops_if_p [keeps]: "loops e u f \<Longrightarrow> loops e u g \<Longrightarrow> loops e u (if_p c f g)"
  by (simp add: loops_def)

lemma loops_if_end [keeps]: "ahead (\<lambda>p. \<not> c p) \<Longrightarrow> loops e True f \<Longrightarrow> loops e False g \<Longrightarrow>
    loops e True (if_p c f g)"
  by (auto simp: loops_def ahead_def)

lemma loops_if_more [keeps]: "ahead c \<Longrightarrow> loops e False f \<Longrightarrow> loops e True g \<Longrightarrow>
    loops e True (if_p c f g)"
  by (auto simp: loops_def ahead_def)

lemma loops_then [keeps]:
  assumes f: "exts e False (\<lambda>_. True) f" and g: "\<And>r. loops e True (g r)"
  shows "loops e u (State_Monad.bind f g)"
  unfolding loops_def
proof (intro allI impI)
  fix p assume p: "pre e p"
  note 1 = extsD[OF f p]
  from g[of "result f p"] 1(4) have "ext (final f p) (final (g (result f p)) (final f p))"
    "snd (result (g (result f p)) (final f p)) \<longrightarrow>
      p_pos (final f p) < p_pos (final (g (result f p)) (final f p))"
    by (simp_all add: loops_def)
  with 1 show "ext p (final (State_Monad.bind f g) p) \<and>
      (snd (result (State_Monad.bind f g) p) \<longrightarrow> u \<or> \<not> at_end p \<longrightarrow>
        p_pos p < p_pos (final (State_Monad.bind f g) p))"
    by (auto intro: ext_trans)
qed

lemma loops_forward [keeps]: "exts e True (\<lambda>_. True) f \<Longrightarrow> loops e False f"
  by (auto simp: loops_def exts_def forward_def)

lemma loops_eat [keeps]:
  assumes "k \<noteq> Eof"
  shows "loops e True (State_Monad.bind (eat k) (\<lambda>more. if more then ret (a, True) else ret (b, False)))"
proof -
  have "pre e p \<Longrightarrow> at k p \<Longrightarrow> ext p (final bump p) \<and> p_pos p < p_pos (final bump p)" for p
    using extsD[OF exts_bump[of e True], of p] at_not_end[OF _ assms] by (auto simp: forward_def)
  then show ?thesis by (auto simp: loops_def eat_def intro: ext_refl pre_inv)
qed

lemma ext_loop_fuel:
  assumes "\<And>a. loops e True (body a)"
  shows "pre e p \<Longrightarrow> length (p_toks p) - p_pos p < fuel \<Longrightarrow> ext p (final (loop_fuel fuel body a) p)"
proof (induction fuel arbitrary: a p)
  case (Suc fuel)
  let ?p1 = "final (body a) p"
  from assms[of a] Suc.prems(1) have 1: "ext p ?p1"
    "snd (result (body a) p) \<longrightarrow> p_pos p < p_pos ?p1" by (auto simp: loops_def)
  show ?case
  proof (cases "snd (result (body a) p)")
    case True
    note m = ext_moved[OF 1(1)]
    with True 1(2) Suc.prems have "length (p_toks ?p1) - p_pos ?p1 < fuel"
      by (auto simp: same_frame_def inv_def)
    with Suc.IH[OF pre_ext[OF Suc.prems(1) 1(1)]] True 1(1) show ?thesis
      by (auto intro: ext_trans)
  qed (use 1 in simp)
qed simp

lemma exts_loop [keeps]:
  assumes "\<And>a. loops e True (body a)"
  shows "exts e False (\<lambda>_. True) (loop_p body a)"
  by (simp add: exts_def loop_p_def ext_loop_fuel[of e body, OF assms] del: loop_fuel.simps)

lemma exts_while_acc [keeps]:
  "ahead c \<Longrightarrow> (\<And>a. exts e True (\<lambda>_. True) (body a)) \<Longrightarrow>
   exts e False (\<lambda>_. True) (while_acc c body a)"
  unfolding while_acc_def by (simp add: keeps)

text \<open>A loop that is entered consumes a token.\<close>

lemma while_entered:
  assumes c: "ahead c" and body: "exts e True (\<lambda>_. True) body" and p: "pre e p" "c p"
  shows "p_pos p < p_pos (final (while_p c body) p)"
proof -
  let ?loop = "\<lambda>a. if_p c (do { b \<leftarrow> body; continue b }) (break a)"
  note b = extsD[OF body p(1)]
  have lt: "p_pos p < p_pos (final body p)" using b(3) c p(2) by (simp add: forward_def ahead_def)
  have "p_toks (final body p) = p_toks p" "p_pos (final body p) \<le> length (p_toks p)"
    using ext_moved[OF b(1)] by (auto simp: same_frame_def inv_def)
  with lt have fuel: "length (p_toks (final body p)) - p_pos (final body p) < length (p_toks p)" by simp
  have loop: "loops e True (?loop a)" for a using c body by (simp add: keeps)
  from ext_moved[OF ext_loop_fuel[of e ?loop, OF loop b(4) fuel]] lt p(2) show ?thesis
    by (simp add: while_p_def while_acc_def loop_p_def)
qed

lemma exts_while [keeps]:
  "ahead c \<Longrightarrow> exts e True (\<lambda>_. True) body \<Longrightarrow> exts e False (\<lambda>_. True) (while_p c body)"
  by (simp add: while_p_def keeps)

lemma exts_comma_loop [keeps]:
  "exts e False (\<lambda>_. True) item \<Longrightarrow> exts e False (\<lambda>_. True) (comma_loop close item)"
  by (simp add: comma_loop_def keeps)

lemma exts_tuple_loop [keeps]:
  "exts e False (\<lambda>_. True) item \<Longrightarrow> exts e False (\<lambda>_. True) (tuple_loop close item)"
  by (simp add: tuple_loop_def keeps)

lemma exts_list_loop [keeps]:
  assumes "exts e False (\<lambda>_. True) item"
  shows "exts e False (\<lambda>_. True) (list_loop close item)"
proof -
  let ?body = "State_Monad.bind (eat Comma)
    (\<lambda>more. if more then if_p (at close) (break ()) (State_Monad.bind item (\<lambda>_. continue ())) else break ())"
  have "loops e True ?body"
    unfolding loops_def
  proof (intro allI impI)
    fix p assume p: "pre e p"
    show "ext p (final ?body p) \<and> (snd (result ?body p) \<longrightarrow> True \<or> \<not> at_end p \<longrightarrow>
        p_pos p < p_pos (final ?body p))"
    proof (cases "at Comma p")
      case True
      note b = extsD[OF exts_bump[of _ True] p]
      have lt: "p_pos p < p_pos (final bump p)"
        using b(3) at_not_end[OF True] by (simp add: forward_def)
      note i = extsD[OF assms b(4)]
      from b(1) i(1) i(6) lt True show ?thesis by (auto simp: eat_def intro: ext_trans)
    qed (use p in \<open>auto simp: eat_def intro: ext_refl pre_inv\<close>)
  qed
  then show ?thesis unfolding list_loop_def by (rule exts_loop)
qed

lemma closed_loop_fuel:
  assumes "ahead c" "recloses e True body"
  shows "closed p0 cm p \<Longrightarrow> pre e p \<Longrightarrow> length (p_toks p) - p_pos p < fuel \<Longrightarrow>
    closed p0 (result (loop_fuel fuel (\<lambda>a. if_p c (do { b \<leftarrow> body a; continue b }) (break a)) cm) p)
      (final (loop_fuel fuel (\<lambda>a. if_p c (do { b \<leftarrow> body a; continue b }) (break a)) cm) p) \<and>
    \<not> c (final (loop_fuel fuel (\<lambda>a. if_p c (do { b \<leftarrow> body a; continue b }) (break a)) cm) p) \<and>
    p_pos p \<le> p_pos (final (loop_fuel fuel (\<lambda>a. if_p c (do { b \<leftarrow> body a; continue b }) (break a)) cm) p)"
proof (induction fuel arbitrary: cm p)
  case (Suc fuel)
  show ?case
  proof (cases "c p")
    case True
    note b = reclosesD[OF assms(2) Suc.prems(1,2)]
    have lt: "p_pos p < p_pos (final (body cm) p)"
      using b(3) assms(1) True by (simp add: forward_def ahead_def)
    have "p_toks (final (body cm) p) = p_toks p"
      using closed_moved[OF b(1)] closed_moved[OF Suc.prems(1)] by (simp add: same_frame_def)
    moreover have "p_pos (final (body cm) p) \<le> length (p_toks (final (body cm) p))"
      using closed_moved[OF b(1)] by (simp add: inv_def)
    ultimately have "length (p_toks (final (body cm) p)) - p_pos (final (body cm) p) < fuel"
      using lt Suc.prems(3) by simp
    from Suc.IH[OF b(1) pre_closed[OF Suc.prems(1) b(1,2) Suc.prems(2)] this] b(2) True
    show ?thesis by simp
  qed (use Suc.prems in simp)
qed simp

lemma recloses_while [keeps]:
  assumes "ahead c" "recloses e True body"
  shows "recloses e False (while_acc c body)"
  using closed_loop_fuel[where c = c and body = body and e = e, OF assms]
  by (simp add: recloses_def while_acc_def loop_p_def del: loop_fuel.simps)

lemma while_exit:
  assumes "ahead c" "recloses e True body" "closed p0 cm p" "pre e p"
  shows "\<not> c (final (while_acc c body cm) p)"
  using closed_loop_fuel[where c = c and body = body and e = e, OF assms(1-4)]
  by (simp add: while_acc_def loop_p_def del: loop_fuel.simps)

lemma exts_err_recover [keeps]:
  "\<not> ts_contains recovery Eof \<Longrightarrow> exts e False (\<lambda>_. True) (err_recover msg recovery)"
  by (simp add: err_recover_def keeps)

lemma closes_token_fuel:
  assumes "\<And>n. closes (d, L, n) (f (Suc n))"
  shows "closes (d, L, m) (token_fuel f)"
proof -
  have "pre (d, L, length (p_toks p)) p" if "pre (d, L, m) p" for p
    using that by (simp add: pre_def)
  with assms show ?thesis by (simp add: closes_def token_fuel_def)
qed

text \<open>A node that starts by consuming a token leaves one token less for what follows.\<close>

lemma bump_step:
  assumes "pre (d, L, n) p" "\<not> at_end p"
    and rest: "\<And>n'. n = Suc n' \<Longrightarrow> exts (d, L, n') False P rest"
  shows "ext p (final (do { bump; rest }) p)" "P (result (do { bump; rest }) p)"
    "p_pos p < p_pos (final (do { bump; rest }) p)"
proof -
  from assms(2) have "p_pos p < length (p_toks p)" by (simp add: at_end_def)
  with assms(1) obtain n' where n: "n = Suc n'" by (cases n) (auto simp: pre_def)
  note b = extsD[OF exts_bump[of _ True] assms(1)]
  have lt: "p_pos p < p_pos (final bump p)"
    using b(3) assms(2) by (simp add: forward_def)
  have "pre (d, L, n') (final bump p)"
    using b(4,5) lt assms(1) n by (auto simp: pre_def same_frame_def)
  note r = extsD[OF rest[OF n] this]
  from b(1) r(1) show "ext p (final (do { bump; rest }) p)" by (auto intro: ext_trans)
  from r lt show "P (result (do { bump; rest }) p)"
    "p_pos p < p_pos (final (do { bump; rest }) p)" by simp_all
qed

lemma closes_if_p_bump:
  assumes c: "ahead c"
    and rest: "\<And>n'. n = Suc n' \<Longrightarrow> exts (d, L, n') False is_plain rest"
    and h: "closes (d, L, n) h"
  shows "closes (d, L, n) (if_p c (node (do { bump; rest })) h)"
  unfolding closes_def
proof (intro allI impI)
  let ?f = "if_p c (node (do { bump; rest })) h"
  fix p assume p: "pre (d, L, n) p"
  show "closed p (result ?f p) (final ?f p) \<and> forward True p (final ?f p)"
  proof (cases "c p")
    case True
    have "\<not> at_end (final start p)" using c True by (simp add: start_view ahead_def)
    note b = bump_step[OF start_view(5)[OF p] this rest]
    from closed_node[OF pre_inv[OF p] b(1)] b(2,3) True show ?thesis
      by (simp add: forward_def start_view)
  qed (use closesD[OF h p] in simp)
qed

lemma recloses_if_p_bump:
  assumes c: "ahead c"
    and rest: "\<And>n'. n = Suc n' \<Longrightarrow> exts (d, L, n') False is_plain rest"
    and h: "recloses (d, L, n) b' h"
  shows "recloses (d, L, n) b' (\<lambda>cm. if_p c (wrap cm (do { bump; rest })) (h cm))"
  unfolding recloses_def
proof (intro allI impI)
  fix p0 cm p assume cl: "closed p0 cm p" and p: "pre (d, L, n) p"
  let ?f = "if_p c (wrap cm (do { bump; rest })) (h cm)"
  show "closed p0 (result ?f p) (final ?f p) \<and> p_pos p \<le> p_pos (final ?f p) \<and>
      forward b' p (final ?f p)"
  proof (cases "c p")
    case True
    have "\<not> at_end (final (precede cm) p)" using c True by (simp add: precede_view ahead_def)
    note b = bump_step[OF precede_view(5)[OF p] this rest]
    from closed_wrap[OF cl b(1,2)] b(3) True show ?thesis
      by (simp add: forward_def precede_view)
  qed (use reclosesD[OF h cl p] in simp)
qed

end
