(* ===== verification/Grammar_Types.thy ===== *)
theory Grammar_Types
  imports Parser_Rules
begin

text \<open>
  The token sets, types and patterns of \<open>rust/crates/syntax/src/grammar.rs\<close>. A production that
  recurses takes the production it calls as an argument, and \<open>ty\<close>, \<open>pattern_cons\<close> and \<open>pattern\<close>
  close the recursion: under the depth guard with \<open>MAX_DEPTH\<close> levels, or with one level per token
  where the source has no guard.
\<close>

section \<open>Token sets\<close>

definition ARG_START :: token_set where
  "ARG_START = token_set [IntK, HexInt, Float, StringK, MultilineString, CharK, LowerIdent, UpperIdent,
     TrueKw, FalseKw, LParen, LBrack, LBrace, Dot]"

definition TYPE_ATOM_START :: token_set where
  "TYPE_ATOM_START = token_set [LowerIdent, UpperIdent, LParen, LBrace]"

definition PAT_ATOM_START :: token_set where
  "PAT_ATOM_START = token_set [Underscore, LowerIdent, UpperIdent, LParen, LBrack, LBrace, IntK, HexInt,
     Float, StringK, MultilineString, CharK, TrueKw, FalseKw]"

definition DECL_START :: token_set where
  "DECL_START = token_set [TypeKw, LowerIdent, UpperIdent]"

definition UNIT_START :: token_set where
  "UNIT_START = ts_without (ts_union DECL_START (token_set [ModuleKw, ImportKw])) UpperIdent"

definition NAME_ONLY_KEYWORDS :: token_set where
  "NAME_ONLY_KEYWORDS = token_set [ThenKw, ElseKw, OfKw, InKw, AsKw, AliasKw, ExposingKw]"

lemma start_sets_not_Eof [simp]:
  "\<not> ts_contains ARG_START Eof" "\<not> ts_contains TYPE_ATOM_START Eof"
  "\<not> ts_contains PAT_ATOM_START Eof" "\<not> ts_contains DECL_START Eof"
  by (simp_all add: ARG_START_def TYPE_ATOM_START_def PAT_ATOM_START_def DECL_START_def)

abbreviation at_one :: "syntax_kind list \<Rightarrow> parser \<Rightarrow> bool" where
  "at_one ks p \<equiv> current p \<in> set ks"

abbreviation em_dash :: string where
  "em_dash \<equiv> [CHR 0xE2, CHR 0x80, CHR 0x94]"

section \<open>Literals\<close>

text \<open>\<open>inner.chars().count()\<close> counts characters, each a UTF-8 sequence.\<close>

definition strip_quotes :: "string \<Rightarrow> string option" where
  "strip_quotes s = (case s of [] \<Rightarrow> None
   | c # t \<Rightarrow> (if c = squote \<and> t \<noteq> [] \<and> last t = squote then Some (butlast t) else None))"

definition valid_char_literal :: "string \<Rightarrow> bool" where
  "valid_char_literal s = (case strip_quotes s of None \<Rightarrow> False
   | Some inner \<Rightarrow> (let n = length (chars inner); esc = (inner \<noteq> [] \<and> hd inner = backslash) in
       (n = 1 \<and> \<not> esc) \<or> (n = 2 \<and> esc)))"

fun terminated_from :: "bool \<Rightarrow> string list \<Rightarrow> bool" where
  "terminated_from escaped [] = False"
| "terminated_from escaped (c # cs) =
     (if escaped then terminated_from False cs
      else if c = [backslash] then terminated_from True cs
      else if c = [dquote] then True
      else terminated_from False cs)"

definition is_terminated_string :: "string \<Rightarrow> bool" where
  "is_terminated_string s = (case chars s of [] \<Rightarrow> False
   | c # cs \<Rightarrow> (if c \<noteq> [dquote] then False else terminated_from False cs))"

definition char_error_msg :: string where
  "char_error_msg = ''a character literal must contain exactly one character '' @ em_dash @
     '' e.g. `'' @ [squote] @ ''a'' @ [squote] @ ''` or an escape like `'' @ [squote, backslash] @
     ''n'' @ [squote] @ ''` / `'' @ [squote, backslash, backslash, squote] @ ''`''"

definition unterminated_msg :: string where
  "unterminated_msg = ''unterminated string literal '' @ em_dash @ '' add a closing `'' @ [dquote] @ ''`''"

definition is_num :: "syntax_kind \<Rightarrow> bool" where
  "is_num k \<longleftrightarrow> k \<in> {IntK, HexInt, Float}"

text \<open>The two alternatives every production ends in: a one-token node, and the error node of \<open>_ =>\<close>.\<close>

definition leaf_node :: "syntax_kind \<Rightarrow> nat pm" where
  "leaf_node kind = node (do { bump; ret kind })"

definition expected_node :: "string \<Rightarrow> nat pm" where
  "expected_node msg = node (do { error msg; when_p (\<lambda>p. \<not> at_end p) bump; ret Error })"

text \<open>\<open>while p.at(Dot) && (p.nth(1) == UpperIdent || p.nth(1) == LowerIdent)\<close>, with its flag.\<close>

definition dotted :: "bool pm" where
  "dotted = while_acc (\<lambda>p. at Dot p \<and> (nth_kind 1 p = UpperIdent \<or> nth_kind 1 p = LowerIdent))
     (\<lambda>_. do { bump; bump; ret True }) False"

section \<open>Types\<close>

definition type_paren :: "nat pm \<Rightarrow> nat pm" where
  "type_paren ty = node (do {
     bump;
     if_p (at RParen) (do { bump; ret TypeUnit })
       (do {
          is_tuple \<leftarrow> with_indent 0 (do {
            ty;
            tuple \<leftarrow> tuple_loop RParen (do { ty; ret () });
            expect RParen;
            ret tuple
          });
          ret (if is_tuple then TypeTuple else TypeParen)
        })
   })"

definition type_record :: "nat pm \<Rightarrow> nat pm" where
  "type_record ty = node (do {
     bump;
     with_indent 0 (if_p (at RBrace) bump (do {
       when_p (\<lambda>p. at LowerIdent p \<and> nth_kind 1 p = Pipe) (do {
         node (do { bump; ret RowVar });
         bump
       });
       comma_loop RBrace (do {
         node (do { expect LowerIdent; expect Colon; ty; ret TypeRecordField });
         ret ()
       });
       expect RBrace;
       ret ()
     }));
     ret TypeRecord
   })"

definition type_atom :: "nat pm \<Rightarrow> nat pm" where
  "type_atom ty =
     if_p (at LowerIdent) (leaf_node TypeVar)
    (if_p (at UpperIdent) (node (do {
        bump;
        qualified \<leftarrow> dotted;
        ret (if qualified then TypeQual else TypeCon)
      }))
    (if_p (at LParen) (type_paren ty)
    (if_p (at LBrace) (type_record ty)
    (expected_node ''expected a type''))))"

definition type_app :: "nat pm \<Rightarrow> nat pm" where
  "type_app ty = do {
     first \<leftarrow> type_atom ty;
     if_p (\<lambda>p. at_any TYPE_ATOM_START p \<and> at_continuation p)
       (wrap first (do {
          while_p (\<lambda>p. at_any TYPE_ATOM_START p \<and> at_continuation p) (do { type_atom ty; ret () });
          ret TypeApp
        }))
       (ret first)
   }"

primrec ty_fuel :: "nat \<Rightarrow> nat pm" where
  "ty_fuel 0 = do { fault; ret 0 }"
| "ty_fuel (Suc n) = depth_guarded (do {
     lhs \<leftarrow> type_app (ty_fuel n);
     if_p (\<lambda>p. at Arrow p \<and> at_continuation p)
       (wrap lhs (do { bump; ty_fuel n; ret TypeFun }))
       (ret lhs)
   })"

definition ty :: "nat pm" where
  "ty = ty_fuel (Suc MAX_DEPTH)"

section \<open>Patterns\<close>

definition pattern_paren :: "nat pm \<Rightarrow> nat pm" where
  "pattern_paren pat = node (do {
     bump;
     if_p (at RParen) (do { bump; ret PatUnit })
       (do {
          is_tuple \<leftarrow> with_indent 0 (do {
            pat;
            tuple \<leftarrow> tuple_loop RParen (do { pat; ret () });
            expect RParen;
            ret tuple
          });
          ret (if is_tuple then PatTuple else PatParen)
        })
   })"

definition pattern_list :: "nat pm \<Rightarrow> nat pm" where
  "pattern_list pat = node (do {
     bump;
     with_indent 0 (do {
       when_p (\<lambda>p. \<not> at RBrack p) (do {
         pat;
         list_loop RBrack (do { pat; ret () })
       });
       expect RBrack
     });
     ret PatList
   })"

definition pattern_record :: "nat pm" where
  "pattern_record = node (do {
     bump;
     with_indent 0 (do {
       comma_loop RBrace (do { expect LowerIdent; ret () });
       expect RBrace
     });
     ret PatRecord
   })"

definition pattern_atom :: "nat pm \<Rightarrow> nat pm" where
  "pattern_atom pat =
     if_p (\<lambda>p. at Op p \<and> cur_text p = ''-'' \<and> \<not> nth_ws_before 1 p \<and> is_num (nth_kind 1 p))
       (node (do { bump; bump; ret PatNegate }))
    (if_p (at Underscore) (leaf_node PatWildcard)
    (if_p (at LowerIdent) (leaf_node PatVar)
    (if_p (at UpperIdent) (node (do {
        bump;
        qualified \<leftarrow> dotted;
        ret (if qualified then PatCtorQual else PatCtor)
      }))
    (if_p (at_one [IntK, HexInt]) (leaf_node PatInt)
    (if_p (at Float) (leaf_node PatFloat)
    (if_p (at_one [StringK, MultilineString]) (node (do {
        when_p (\<lambda>p. at StringK p \<and> \<not> is_terminated_string (cur_text p)) (error unterminated_msg);
        bump;
        ret PatString
      }))
    (if_p (at CharK) (node (do {
        when_p (\<lambda>p. \<not> valid_char_literal (cur_text p)) (error char_error_msg);
        bump;
        ret PatChar
      }))
    (if_p (at_one [TrueKw, FalseKw]) (leaf_node PatBool)
    (if_p (at LParen) (pattern_paren pat)
    (if_p (at LBrack) (pattern_list pat)
    (if_p (at LBrace) pattern_record
    (expected_node ''expected a pattern''))))))))))))"

definition pattern_app :: "nat pm \<Rightarrow> nat pm" where
  "pattern_app pat =
     if_p (at UpperIdent)
       (node (do {
          bump;
          qualified \<leftarrow> dotted;
          while_p (at_any PAT_ATOM_START) (do { pattern_atom pat; ret () });
          ret (if qualified then PatCtorQual else PatCtor)
        }))
       (pattern_atom pat)"

primrec pattern_cons_fuel :: "nat pm \<Rightarrow> nat \<Rightarrow> nat pm" where
  "pattern_cons_fuel pat 0 = do { fault; ret 0 }"
| "pattern_cons_fuel pat (Suc n) = do {
     lhs \<leftarrow> pattern_app pat;
     if_p (at Colon2)
       (wrap lhs (do { bump; do { pattern_cons_fuel pat n; ret PatCons } }))
       (ret lhs)
   }"

definition pattern_cons :: "nat pm \<Rightarrow> nat pm" where
  "pattern_cons pat = token_fuel (pattern_cons_fuel pat)"

primrec pattern_fuel :: "nat \<Rightarrow> nat pm" where
  "pattern_fuel 0 = do { fault; ret 0 }"
| "pattern_fuel (Suc n) = depth_guarded (do {
     lhs \<leftarrow> pattern_cons (pattern_fuel n);
     if_p (at AsKw)
       (wrap lhs (do { bump; expect LowerIdent; ret PatAlias }))
       (ret lhs)
   })"

definition pattern :: "nat pm" where
  "pattern = pattern_fuel (Suc MAX_DEPTH)"

section \<open>What types and patterns guarantee\<close>

lemma closes_leaf_node [keeps]: "is_plain kind \<Longrightarrow> closes e (leaf_node kind)"
  by (simp add: leaf_node_def keeps)

lemma closes_expected_node [keeps]: "closes e (expected_node msg)"
  by (simp add: expected_node_def keeps)

lemma exts_dotted [keeps]: "exts e False (\<lambda>_. True) dotted"
  by (simp add: dotted_def keeps)

lemma closes_type_paren [keeps]: "closes e t \<Longrightarrow> closes e (type_paren t)"
  by (simp add: type_paren_def keeps)

lemma closes_type_record [keeps]: "closes e t \<Longrightarrow> closes e (type_record t)"
  by (simp add: type_record_def keeps)

lemma closes_type_atom [keeps]: "closes e t \<Longrightarrow> closes e (type_atom t)"
  by (simp add: type_atom_def keeps)

lemma closes_type_app [keeps]: "closes e t \<Longrightarrow> closes e (type_app t)"
  by (simp add: type_app_def keeps)

lemma closes_ty_fuel: "0 < n \<Longrightarrow> MAX_DEPTH < d + n \<Longrightarrow> closes (d, L, m) (ty_fuel n)"
proof (induction n arbitrary: d)
  case (Suc n)
  show ?case unfolding ty_fuel.simps
  proof (rule closes_depth_guarded)
    assume "d < MAX_DEPTH"
    with Suc have "closes (Suc d, L, m) (ty_fuel n)" by simp
    then show "closes (Suc d, L, m) (do {
        lhs \<leftarrow> type_app (ty_fuel n);
        if_p (\<lambda>p. at Arrow p \<and> at_continuation p)
          (wrap lhs (do { bump; ty_fuel n; ret TypeFun })) (ret lhs) })"
      by (simp add: keeps)
  qed
qed simp

lemma closes_ty [keeps]: "closes e ty"
  by (cases e) (simp add: ty_def closes_ty_fuel del: ty_fuel.simps)

lemma closes_pattern_paren [keeps]: "closes e pat \<Longrightarrow> closes e (pattern_paren pat)"
  by (simp add: pattern_paren_def keeps)

lemma closes_pattern_list [keeps]: "closes e pat \<Longrightarrow> closes e (pattern_list pat)"
  by (simp add: pattern_list_def keeps)

lemma closes_pattern_record [keeps]: "closes e pattern_record"
  by (simp add: pattern_record_def keeps)

lemma closes_pattern_atom [keeps]: "closes e pat \<Longrightarrow> closes e (pattern_atom pat)"
  by (simp add: pattern_atom_def keeps)

lemma closes_pattern_app [keeps]: "closes e pat \<Longrightarrow> closes e (pattern_app pat)"
  by (simp add: pattern_app_def keeps)

lemma closes_pattern_cons_fuel:
  assumes pat: "\<And>m. closes (d, L, m) pat"
  shows "closes (d, L, m) (pattern_cons_fuel pat (Suc m))"
proof (induction m rule: less_induct)
  case (less m)
  have rest: "exts (d, L, n) False is_plain (do { pattern_cons_fuel pat m; ret PatCons })"
    if "m = Suc n" for n
  proof -
    have "closes (d, L, n) (pattern_cons_fuel pat m)" using less.IH[of n] that by simp
    then show ?thesis by (simp add: keeps)
  qed
  show ?case unfolding pattern_cons_fuel.simps
    by (rule closes_bind[OF closes_pattern_app[OF pat] recloses_if_p_bump[OF _ rest recloses_ret]])
      simp
qed

lemma closes_pattern_cons: "(\<And>m. closes (d, L, m) pat) \<Longrightarrow> closes (d, L, m) (pattern_cons pat)"
  unfolding pattern_cons_def by (intro closes_token_fuel closes_pattern_cons_fuel)

lemma closes_pattern_fuel: "0 < n \<Longrightarrow> MAX_DEPTH < d + n \<Longrightarrow> closes (d, L, m) (pattern_fuel n)"
proof (induction n arbitrary: d m)
  case (Suc n)
  show ?case unfolding pattern_fuel.simps
  proof (rule closes_depth_guarded)
    assume "d < MAX_DEPTH"
    with Suc have "closes (Suc d, L, m) (pattern_cons (pattern_fuel n))"
      by (intro closes_pattern_cons) simp
    then show "closes (Suc d, L, m) (do {
        lhs \<leftarrow> pattern_cons (pattern_fuel n);
        if_p (at AsKw) (wrap lhs (do { bump; expect LowerIdent; ret PatAlias })) (ret lhs) })"
      by (simp add: keeps)
  qed
qed simp

lemma closes_pattern [keeps]: "closes e pattern"
  by (cases e) (simp add: pattern_def closes_pattern_fuel del: pattern_fuel.simps)

text \<open>The contract of types and patterns. From every parser state in which the invariant holds, with
  any tokens at all, \<open>ty\<close> and \<open>pattern\<close> return (the depth guard bounds the one, the remaining tokens
  the right recursion of the other), append the well-formed events of exactly one node, cover
  exactly the tokens they pass, restore indentation and depth, report at most one error in the
  unit, and consume at least one token unless the parser was already at the end.\<close>

theorem type_pattern_contract:
  assumes "inv p"
  shows "closed p (result ty p) (final ty p) \<and> \<not> p_fault (final ty p) \<and>
    closed p (result pattern p) (final pattern p) \<and> \<not> p_fault (final pattern p) \<and>
    (at_end p \<or> p_pos p < p_pos (final ty p) \<and> p_pos p < p_pos (final pattern p))"
proof -
  have "pre (0, Suc (length (p_src p)), length (p_toks p)) p" using assms by (simp add: pre_def)
  note t = closesD[OF closes_ty this] and q = closesD[OF closes_pattern this]
  from t q closed_moved[OF t(1)] closed_moved[OF q(1)] show ?thesis
    by (auto simp: inv_def forward_def)
qed

end
