(* ===== verification/Grammar_Expr.thy ===== *)
theory Grammar_Expr
  imports Grammar_Types
begin

text \<open>
  The expressions of \<open>rust/crates/syntax/src/grammar.rs\<close>: the Pratt loop for operators, application by
  juxtaposition, atoms, and the bracketed and keyword forms. The recursive call \<open>expr_bp\<close> (\<open>ex\<close>
  below), the interior of a multiline string (\<open>ml\<close>) and the operand of a unary minus (\<open>prim\<close>) are
  arguments; \<open>expr_fuel\<close> and \<open>primary_fuel\<close> close the recursion.
\<close>

section \<open>Operators\<close>

definition binary_op_precedence :: "string \<Rightarrow> nat" where
  "binary_op_precedence op_text =
     (if op_text \<in> {''>>'', ''<<''} then 9
      else if op_text = ''^'' then 8
      else if op_text \<in> {''*'', ''/'', ''//'', ''%''} then 7
      else if op_text \<in> {''+'', ''-''} then 6
      else if op_text \<in> {''++'', ''::''} then 5
      else if op_text \<in> {''=='', ''/='', ''<'', ''>'', ''<='', ''>=''} then 4
      else if op_text = ''&&'' then 3
      else if op_text = ''||'' then 2
      else if op_text \<in> {''|>'', ''<|''} then 0
      else 9)"

definition bp_left :: "nat \<Rightarrow> nat \<times> nat" where
  "bp_left prec = (prec * 2, prec * 2 + 1)"

definition bp_right :: "nat \<Rightarrow> nat \<times> nat" where
  "bp_right prec = (prec * 2 + 1, prec * 2)"

definition bin_power :: "parser \<Rightarrow> nat \<times> nat" where
  "bin_power p = (if at Colon2 p then bp_right (binary_op_precedence ''::'')
     else let op_text = cur_text p; prec = binary_op_precedence op_text in
       if op_text \<in> {''<<'', ''^'', ''++'', ''&&'', ''||'', ''<|''} then bp_right prec
       else bp_left prec)"

definition operator_continues :: "parser \<Rightarrow> bool" where
  "operator_continues p \<longleftrightarrow> (at Op p \<or> at Colon2 p) \<and>
     (\<not> newline_before p \<or> p_block_indent p < col p)"

definition is_negative_literal_arg :: "parser \<Rightarrow> bool" where
  "is_negative_literal_arg p \<longleftrightarrow>
     (if \<not> (at Op p \<and> cur_text p = ''-'' \<and> ws_before p) then False
      else if nth_ws_before 1 p \<or> \<not> is_num (nth_kind 1 p) then False
      else \<not> newline_before p \<or> p_block_indent p < col p)"

definition arg_continues :: "parser \<Rightarrow> bool" where
  "arg_continues p \<longleftrightarrow>
     (if at_end p then False
      else if is_negative_literal_arg p then True
      else if \<not> at_any ARG_START p then False
      else \<not> newline_before p \<or> p_block_indent p < col p)"

text \<open>\<open>p.at(Dot) && !p.ws_before() && (p.nth(1) == LowerIdent || p.nth(1) == UpperIdent)\<close>.\<close>

definition at_segment :: "parser \<Rightarrow> bool" where
  "at_segment p \<longleftrightarrow> at Dot p \<and> \<not> ws_before p \<and>
     (nth_kind 1 p = LowerIdent \<or> nth_kind 1 p = UpperIdent)"

section \<open>Bracketed forms\<close>

definition paren_expr :: "(nat \<Rightarrow> nat pm) \<Rightarrow> nat pm" where
  "paren_expr ex = node (do {
     bump;
     if_p (at RParen) (do { bump; ret UnitExpr })
       (do {
          is_tuple \<leftarrow> with_indent 0 (do {
            ex 0;
            tuple \<leftarrow> tuple_loop RParen (do { ex 0; ret () });
            expect RParen;
            ret tuple
          });
          ret (if is_tuple then TupleExpr else ParenExpr)
        })
   })"

definition list_expr :: "(nat \<Rightarrow> nat pm) \<Rightarrow> nat pm" where
  "list_expr ex = node (do {
     bump;
     with_indent 0 (do {
       when_p (\<lambda>p. \<not> at RBrack p) (do {
         ex 0;
         list_loop RBrack (do { ex 0; ret () })
       });
       expect RBrack
     });
     ret ListExpr
   })"

definition record_expr :: "(nat \<Rightarrow> nat pm) \<Rightarrow> nat pm" where
  "record_expr ex = node (do {
     bump;
     with_indent 0 (if_p (at RBrace) (do { bump; ret RecordExpr }) (do {
       update \<leftarrow> gets (\<lambda>p. (at LowerIdent p \<and> nth_kind 1 p = Pipe) \<or> at UpperIdent p);
       (if update then do {
          if_p (at UpperIdent)
            (do { bump; while_p at_segment (do { bump; bump }) })
            bump;
          expect Pipe;
          ret ()
        } else ret ());
       comma_loop RBrace (do {
         node (do { expect LowerIdent; expect Eq; ex 0; ret RecordField });
         ret ()
       });
       expect RBrace;
       ret (if update then RecordUpdate else RecordExpr)
     }))
   })"

section \<open>Keyword forms\<close>

text \<open>The parameter list of a lambda or a binding: patterns up to \<open>stop\<close>.\<close>

definition param_list :: "syntax_kind \<Rightarrow> nat pm" where
  "param_list stop = node (do {
     while_p (\<lambda>p. at_any PAT_ATOM_START p \<and> \<not> at stop p) (do { pattern_app pattern; ret () });
     ret ParamList
   })"

definition lambda_expr :: "(nat \<Rightarrow> nat pm) \<Rightarrow> nat pm" where
  "lambda_expr ex = node (do {
     bump;
     param_list Arrow;
     expect Arrow;
     ex 0;
     ret LambdaExpr
   })"

definition if_expr :: "(nat \<Rightarrow> nat pm) \<Rightarrow> nat pm" where
  "if_expr ex = node (do {
     bump;
     ex 0;
     expect ThenKw;
     ex 0;
     expect ElseKw;
     ex 0;
     ret IfExpr
   })"

definition let_binding :: "(nat \<Rightarrow> nat pm) \<Rightarrow> nat \<Rightarrow> unit pm" where
  "let_binding ex anchor = do {
     if_p (\<lambda>p. at LowerIdent p \<and> nth_kind 1 p = Colon)
       (node (do {
          bump;
          bump;
          with_indent anchor ty;
          ret LetBinding
        }))
    (if_p (at LowerIdent)
       (node (do {
          bump;
          param_list Eq;
          expect Eq;
          with_indent anchor (ex 0);
          ret LetBinding
        }))
       (node (do {
          pattern;
          expect Eq;
          with_indent anchor (ex 0);
          ret DestructureBinding
        })));
     ret ()
   }"

definition let_expr :: "(nat \<Rightarrow> nat pm) \<Rightarrow> nat pm" where
  "let_expr ex = node (do {
     bump;
     anchor \<leftarrow> gets col;
     when_p (\<lambda>p. at InKw p \<or> at_end p) (error ''expected a let binding'');
     loop_p (\<lambda>_. if_p (\<lambda>p. at InKw p \<or> at_end p) (break ()) (do {
       let_binding ex anchor;
       if_p (at InKw) (break ())
      (if_p (\<lambda>p. newline_before p \<and> col p = anchor) (continue ())
         (break ()))
     })) ();
     expect InKw;
     ex 0;
     ret LetExpr
   })"

definition match_arm :: "(nat \<Rightarrow> nat pm) \<Rightarrow> nat \<Rightarrow> unit pm" where
  "match_arm ex pat_col = do {
     node (do {
       pattern;
       expect Arrow;
       body_col \<leftarrow> gets col;
       with_indent (max pat_col body_col) (ex 0);
       ret MatchArm
     });
     ret ()
   }"

definition case_expr :: "(nat \<Rightarrow> nat pm) \<Rightarrow> nat pm" where
  "case_expr ex = node (do {
     bump;
     ex 0;
     expect OfKw;
     anchor \<leftarrow> gets col;
     when_p at_end (error ''expected a case branch'');
     loop_p (\<lambda>_. if_p at_end (break ())
       (if_p (\<lambda>p. newline_before p \<and> col p \<noteq> anchor) (break ()) (do {
          match_arm ex anchor;
          if_p (\<lambda>p. \<not> (newline_before p \<and> col p = anchor)) (break ()) (continue ())
        }))) ();
     ret CaseExpr
   })"

section \<open>Atoms\<close>

definition multiline_literal :: "unit pm \<Rightarrow> nat pm" where
  "multiline_literal ml = node (do { ml; ret MultilineLiteral })"

definition upper_ref :: "nat pm" where
  "upper_ref = node (do {
     bump;
     qualified \<leftarrow> loop_p (\<lambda>qualified. if_p at_segment (do {
         value_segment \<leftarrow> gets (\<lambda>p. nth_kind 1 p = LowerIdent);
         bump;
         bump;
         (if value_segment then break True else continue True)
       }) (break qualified)) False;
     ret (if qualified then QualRefExpr else RefExpr)
   })"

definition atom :: "(nat \<Rightarrow> nat pm) \<Rightarrow> unit pm \<Rightarrow> nat pm \<Rightarrow> nat pm" where
  "atom ex ml prim =
     if_p (at_one [IntK, HexInt, Float]) (leaf_node Literal)
    (if_p (at StringK) (node (do {
        when_p (\<lambda>p. \<not> is_terminated_string (cur_text p)) (error unterminated_msg);
        bump;
        ret Literal
      }))
    (if_p (at CharK) (node (do {
        when_p (\<lambda>p. \<not> valid_char_literal (cur_text p)) (error char_error_msg);
        bump;
        ret Literal
      }))
    (if_p (at MultilineString) (multiline_literal ml)
    (if_p (at_one [TrueKw, FalseKw]) (leaf_node Literal)
    (if_p (at LowerIdent) (leaf_node RefExpr)
    (if_p (at UpperIdent) upper_ref
    (if_p (at Dot) (node (do { bump; expect LowerIdent; ret AccessorExpr }))
    (if_p (\<lambda>p. at Op p \<and> cur_text p = ''-'') (node (do { bump; do { prim; ret NegateExpr } }))
    (if_p (at LParen) (paren_expr ex)
    (if_p (at LBrack) (list_expr ex)
    (if_p (at LBrace) (record_expr ex)
    (if_p (at Backslash) (lambda_expr ex)
    (if_p (at IfKw) (if_expr ex)
    (if_p (at LetKw) (let_expr ex)
    (if_p (at CaseKw) (case_expr ex)
    (expected_node ''expected an expression''))))))))))))))))"

definition postfix :: "nat \<Rightarrow> nat pm" where
  "postfix = while_acc (\<lambda>p. at Dot p \<and> \<not> ws_before p \<and> nth_kind 1 p = LowerIdent)
     (\<lambda>cm. wrap cm (do { bump; bump; ret FieldAccess }))"

primrec primary_fuel :: "(nat \<Rightarrow> nat pm) \<Rightarrow> unit pm \<Rightarrow> nat \<Rightarrow> nat pm" where
  "primary_fuel ex ml 0 = do { fault; ret 0 }"
| "primary_fuel ex ml (Suc n) = do {
     cm \<leftarrow> atom ex ml (primary_fuel ex ml n);
     postfix cm
   }"

definition primary_expr :: "(nat \<Rightarrow> nat pm) \<Rightarrow> unit pm \<Rightarrow> nat pm" where
  "primary_expr ex ml = token_fuel (primary_fuel ex ml)"

section \<open>Application and operators\<close>

definition app_expr :: "(nat \<Rightarrow> nat pm) \<Rightarrow> unit pm \<Rightarrow> nat pm" where
  "app_expr ex ml = do {
     first \<leftarrow> primary_expr ex ml;
     if_p (\<lambda>p. \<not> arg_continues p) (ret first)
       (wrap first (do {
          while_p arg_continues (do {
            if_p is_negative_literal_arg
              (node (do {
                 bump;
                 node (do { bump; ret Literal });
                 ret NegateExpr
               }))
              (primary_expr ex ml);
            ret ()
          });
          ret CallExpr
        }))
   }"

text \<open>The Pratt loop stops at a token that is no operator of this expression, and at an operator
  that binds weaker than \<open>min_bp\<close>.\<close>

definition expr_loop :: "(nat \<Rightarrow> nat pm) \<Rightarrow> nat \<Rightarrow> nat \<Rightarrow> nat pm" where
  "expr_loop ex min_bp = while_acc (\<lambda>p. operator_continues p \<and> \<not> fst (bin_power p) < min_bp)
     (\<lambda>lhs. do {
        r_bp \<leftarrow> gets (\<lambda>p. snd (bin_power p));
        wrap lhs (do { bump; ex r_bp; ret BinExpr })
      })"

primrec expr_fuel :: "unit pm \<Rightarrow> nat \<Rightarrow> nat \<Rightarrow> nat pm" where
  "expr_fuel ml 0 = (\<lambda>min_bp. do { fault; ret 0 })"
| "expr_fuel ml (Suc n) = (\<lambda>min_bp. depth_guarded (do {
     lhs \<leftarrow> app_expr (expr_fuel ml n) ml;
     expr_loop (expr_fuel ml n) min_bp lhs
   }))"

definition expr_bp :: "unit pm \<Rightarrow> nat \<Rightarrow> nat pm" where
  "expr_bp ml = expr_fuel ml (Suc MAX_DEPTH)"

section \<open>What expressions guarantee\<close>

lemma ahead_operator [simp]: "ahead operator_continues"
  by (auto simp: ahead_def operator_continues_def dest: at_not_end)

lemma ahead_segment [simp]: "ahead at_segment"
  by (auto simp: ahead_def at_segment_def dest: at_not_end)

lemma ahead_arg [simp]: "ahead arg_continues"
  by (auto simp: ahead_def arg_continues_def)

lemma closes_paren_expr [keeps]: "(\<And>k. closes e (ex k)) \<Longrightarrow> closes e (paren_expr ex)"
  by (simp add: paren_expr_def keeps)

lemma closes_list_expr [keeps]: "(\<And>k. closes e (ex k)) \<Longrightarrow> closes e (list_expr ex)"
  by (simp add: list_expr_def keeps)

lemma closes_record_expr [keeps]: "(\<And>k. closes e (ex k)) \<Longrightarrow> closes e (record_expr ex)"
  by (simp add: record_expr_def keeps)

lemma exts_param_list [keeps]: "exts e False (\<lambda>_. True) (param_list stop)"
  by (simp add: param_list_def keeps)

lemma closes_lambda_expr [keeps]: "(\<And>k. closes e (ex k)) \<Longrightarrow> closes e (lambda_expr ex)"
  by (simp add: lambda_expr_def keeps)

lemma closes_if_expr [keeps]: "(\<And>k. closes e (ex k)) \<Longrightarrow> closes e (if_expr ex)"
  by (simp add: if_expr_def keeps)

lemma exts_let_binding [keeps]: "(\<And>k. closes e (ex k)) \<Longrightarrow>
    exts e True (\<lambda>_. True) (let_binding ex anchor)"
  by (simp add: let_binding_def keeps)

lemma closes_let_expr [keeps]: "(\<And>k. closes e (ex k)) \<Longrightarrow> closes e (let_expr ex)"
  by (simp add: let_expr_def keeps)

lemma exts_match_arm [keeps]: "(\<And>k. closes e (ex k)) \<Longrightarrow>
    exts e True (\<lambda>_. True) (match_arm ex anchor)"
  by (simp add: match_arm_def keeps)

lemma closes_case_expr [keeps]: "(\<And>k. closes e (ex k)) \<Longrightarrow> closes e (case_expr ex)"
  by (simp add: case_expr_def keeps)

lemma closes_multiline_literal [keeps]: "exts e True (\<lambda>_. True) ml \<Longrightarrow> closes e (multiline_literal ml)"
  by (simp add: multiline_literal_def keeps)

lemma closes_upper_ref [keeps]: "closes e upper_ref"
  by (simp add: upper_ref_def keeps)

lemma closes_atom:
  assumes ex: "\<And>k. closes (d, L, n) (ex k)" and ml: "exts (d, L, n) True (\<lambda>_. True) ml"
    and prim: "\<And>n'. n = Suc n' \<Longrightarrow> closes (d, L, n') prim"
  shows "closes (d, L, n) (atom ex ml prim)"
proof -
  have neg: "closes (d, L, n) (if_p (\<lambda>p. at Op p \<and> cur_text p = ''-'')
      (node (do { bump; do { prim; ret NegateExpr } })) h)" if "closes (d, L, n) h" for h
  proof (rule closes_if_p_bump[OF _ _ that])
    show "ahead (\<lambda>p. at Op p \<and> cur_text p = ''-'')" by simp
    show "exts (d, L, n') False is_plain (do { prim; ret NegateExpr })"
      if "n = Suc n'" for n' using prim[OF that] by (simp add: keeps)
  qed
  show ?thesis unfolding atom_def
    by (simp add: keeps ex ml neg)
qed

lemma recloses_postfix [keeps]: "recloses e False postfix"
  by (simp add: postfix_def keeps)

lemma closes_primary_fuel:
  assumes "\<And>m k. closes (d, L, m) (ex k)" "\<And>m. exts (d, L, m) True (\<lambda>_. True) ml"
  shows "closes (d, L, n) (primary_fuel ex ml (Suc n))"
proof (induction n rule: less_induct)
  case (less n)
  have "closes (d, L, n) (atom ex ml (primary_fuel ex ml n))"
    using less.IH by (intro closes_atom assms) auto
  then show ?case by (simp add: keeps)
qed

lemma closes_primary_expr:
  assumes "\<And>m k. closes (d, L, m) (ex k)" "\<And>m. exts (d, L, m) True (\<lambda>_. True) ml"
  shows "closes (d, L, n) (primary_expr ex ml)"
  unfolding primary_expr_def by (intro closes_token_fuel closes_primary_fuel assms)

lemma closes_app_expr:
  assumes "\<And>m k. closes (d, L, m) (ex k)" "\<And>m. exts (d, L, m) True (\<lambda>_. True) ml"
  shows "closes (d, L, n) (app_expr ex ml)"
  using closes_primary_expr[OF assms] by (simp add: app_expr_def keeps)

lemma recloses_expr_loop [keeps]: "(\<And>k. closes e (ex k)) \<Longrightarrow> recloses e False (expr_loop ex min_bp)"
  by (simp add: expr_loop_def keeps)

lemma closes_expr_fuel:
  assumes ml: "\<And>d m. exts (d, L, m) True (\<lambda>_. True) ml"
  shows "0 < n \<Longrightarrow> MAX_DEPTH < d + n \<Longrightarrow> closes (d, L, m) (expr_fuel ml n min_bp)"
proof (induction n arbitrary: d m min_bp)
  case (Suc n)
  show ?case unfolding expr_fuel.simps
  proof (rule closes_depth_guarded)
    assume "d < MAX_DEPTH"
    with Suc have ex: "closes (Suc d, L, m) (expr_fuel ml n k)" for m k by simp
    from closes_app_expr[OF this ml] ex
    show "closes (Suc d, L, m) (do { lhs \<leftarrow> app_expr (expr_fuel ml n) ml;
        expr_loop (expr_fuel ml n) min_bp lhs })" by (simp add: keeps)
  qed
qed simp

lemma closes_expr_bp:
  assumes "\<And>d m. exts (d, L, m) True (\<lambda>_. True) ml"
  shows "closes (d, L, m) (expr_bp ml min_bp)"
  unfolding expr_bp_def using closes_expr_fuel[OF assms] by (simp del: expr_fuel.simps)

section \<open>The operator loop is maximal\<close>

lemma continues_view [simp]:
  "operator_continues (p\<lparr>p_depth := d\<rparr>) = operator_continues p" "bin_power (p\<lparr>p_depth := d\<rparr>) = bin_power p"
  by (simp_all add: operator_continues_def bin_power_def at_def current_def tok_def newline_before_def
      col_def cur_text_def Let_def cong: option.case_cong)

lemma expr_loop_exit:
  assumes "\<And>k. closes e (ex k)" "closed p0 cm p" "pre e p"
  shows "\<not> (operator_continues (final (expr_loop ex min_bp cm) p) \<and>
    min_bp \<le> fst (bin_power (final (expr_loop ex min_bp cm) p)))"
proof -
  let ?c = "\<lambda>p. operator_continues p \<and> \<not> fst (bin_power p) < min_bp"
  let ?body = "\<lambda>lhs. do { r_bp \<leftarrow> gets (\<lambda>p. snd (bin_power p)); wrap lhs (do { bump; ex r_bp; ret BinExpr }) }"
  have "ahead ?c" "recloses e True ?body" using assms(1) by (simp_all add: keeps)
  from while_exit[OF this assms(2,3)] show ?thesis by (simp add: expr_loop_def not_less)
qed

lemma expr_bp_exit:
  assumes ml: "\<And>d m. exts (d, L, m) True (\<lambda>_. True) ml"
    and p: "pre (d, L, m) p" "p_depth p < MAX_DEPTH"
  shows "\<not> (operator_continues (final (expr_bp ml min_bp) p) \<and>
    min_bp \<le> fst (bin_power (final (expr_bp ml min_bp) p)))"
proof -
  let ?n = MAX_DEPTH
  let ?p1 = "p\<lparr>p_depth := p_depth p + 1\<rparr>"
  have p1: "pre (1, L, m) ?p1" using p by (simp add: pre_def inv_def)
  have ex: "closes (1, L, m) (expr_fuel ml ?n k)" for m k
    by (rule closes_expr_fuel[OF ml]) (simp_all add: MAX_DEPTH_def)
  note app = closesD[OF closes_app_expr[of 1 L, OF ex ml] p1]
  note m = closed_moved[OF app(1)]
  have p2: "pre (1, L, m) (final (app_expr (expr_fuel ml ?n) ml) ?p1)"
    by (rule pre_mono[OF p1]) (use m in auto)
  from expr_loop_exit[where min_bp = min_bp, OF ex app(1) p2] p(2) show ?thesis
    by (simp add: expr_bp_def depth_guarded_def depth_enter_def depth_leave_def)
qed

end
