(* ===== verification/Interp.thy ===== *)
theory Interp
  imports Grammar_Expr
begin

text \<open>
  \<open>rust/crates/syntax/src/interp.rs\<close>: a multiline string token is re-covered by string chunks and
  interpolations, and the body of an interpolation is parsed by the real expression grammar in a
  parser of its own, whose tree is then walked and re-emitted at its offset in the file. The lexer's
  engine (\<open>u\<close>, \<open>scan\<close>) and rowan's tree builder (\<open>rowan\<close>) are parameters. The nesting is bounded by
  the length of the source: a body is shorter than the token that holds it.
\<close>

section \<open>Splitting a multiline string\<close>

fun find_close :: "string \<Rightarrow> nat option" where
  "find_close (a # b # rest) =
     (if a = CHR ''}'' \<and> b = CHR ''}'' then Some 0 else map_option Suc (find_close (b # rest)))"
| "find_close _ = None"

definition emit_interpolation :: "(nat \<Rightarrow> nat \<Rightarrow> unit pm) \<Rightarrow> nat \<Rightarrow> nat \<Rightarrow> nat \<Rightarrow> nat \<Rightarrow> unit pm" where
  "emit_interpolation body open_at expr_start expr_end close_end = do {
     node (do {
       emit_slice InterpOpen open_at expr_start;
       body expr_start expr_end;
       emit_slice InterpClose expr_end close_end;
       ret Interpolation
     });
     ret ()
   }"

text \<open>The \<open>while i < close\<close> loop over the token's bytes \<open>bs\<close>; it returns the last \<open>chunk_start\<close>.\<close>

function interp_scan :: "(nat \<Rightarrow> nat \<Rightarrow> unit pm) \<Rightarrow> string \<Rightarrow> nat \<Rightarrow> nat \<Rightarrow> nat \<Rightarrow> nat \<Rightarrow> nat pm" where
  "interp_scan body bs a close i chunk_start =
     (if close \<le> i then ret chunk_start
      else if bs ! i = backslash \<and> i + 1 < close \<and> bs ! (i + 1) = CHR ''{'' then
        interp_scan body bs a close (i + 2) chunk_start
      else
        (case (if bs ! i = CHR ''{'' \<and> i + 1 < close \<and> bs ! (i + 1) = CHR ''{''
               then find_close (slice bs (i + 2) close) else None) of
           None \<Rightarrow> interp_scan body bs a close (i + 1) chunk_start
         | Some rel \<Rightarrow>
             (let expr_start = i + 2; expr_end = i + 2 + rel; interp_end = expr_end + 2 in do {
                (if chunk_start < i then emit_slice StringChunk (a + chunk_start) (a + i) else ret ());
                emit_interpolation body (a + i) (a + expr_start) (a + expr_end) (a + interp_end);
                interp_scan body bs a close interp_end interp_end
              })))"
  by pat_completeness auto
termination
  by (relation "measure (\<lambda>(body, bs, a, close, i, chunk_start). close - i)") auto

declare interp_scan.simps [simp del]

definition multiline_interior :: "(nat \<Rightarrow> nat \<Rightarrow> unit pm) \<Rightarrow> string \<Rightarrow> nat \<Rightarrow> nat \<Rightarrow> unit pm" where
  "multiline_interior body bs a b =
     (let n = length bs; op = min 3 n;
          close = (if 6 \<le> n \<and> drop (n - 3) bs = [dquote, dquote, dquote] then n - 3 else n) in do {
        (if 0 < op then emit_slice StringChunk a (a + op) else ret ());
        chunk_start \<leftarrow> interp_scan body bs a close op op;
        (if chunk_start < close then emit_slice StringChunk (a + chunk_start) (a + close) else ret ());
        (if close < n then emit_slice StringChunk (a + close) b else ret ())
      })"

definition multiline :: "(nat \<Rightarrow> nat \<Rightarrow> unit pm) \<Rightarrow> unit pm" where
  "multiline body = do {
     r \<leftarrow> gets cur_range;
     (case r of None \<Rightarrow> ret ()
      | Some (a, b) \<Rightarrow> do {
          bs \<leftarrow> gets (\<lambda>p. slice (p_src p) a b);
          skip_raw;
          multiline_interior body bs a b
        })
   }"

section \<open>The body of an interpolation\<close>

text \<open>\<open>emit_green_node\<close> returns the cursor that the source keeps in a mutable reference.\<close>

fun emit_green_node :: "green \<Rightarrow> nat \<Rightarrow> nat pm"
  and emit_green_children :: "green list \<Rightarrow> nat \<Rightarrow> nat pm" where
  "emit_green_node (GToken k t) cursor = do {
     emit_slice (kind_from_raw k) cursor (cursor + length t);
     ret (cursor + length t)
   }"
| "emit_green_node (GNode k ts) cursor = do {
     m \<leftarrow> start;
     cursor' \<leftarrow> emit_green_children ts cursor;
     complete m (kind_from_raw k);
     ret cursor'
   }"
| "emit_green_children [] cursor = ret cursor"
| "emit_green_children (t # ts) cursor = do {
     cursor' \<leftarrow> emit_green_node t cursor;
     emit_green_children ts cursor'
   }"

fun emit_flat :: "lex_token list \<Rightarrow> nat \<Rightarrow> unit pm" where
  "emit_flat [] base = ret ()"
| "emit_flat (t # raw) base = do {
     emit_slice (lt_kind t) (base + lt_start t) (base + lt_end t);
     emit_flat raw base
   }"

definition interp_body :: "unicode \<Rightarrow> scanner \<Rightarrow> (bcall list \<Rightarrow> green option) \<Rightarrow> nat pm \<Rightarrow>
    nat \<Rightarrow> nat \<Rightarrow> unit pm" where
  "interp_body u scan rowan sub_expr a b = do {
     bs \<leftarrow> gets (\<lambda>p. slice (p_src p) a b);
     file \<leftarrow> gets p_file;
     (case lex u scan bs of
        None \<Rightarrow> fault
      | Some raw \<Rightarrow>
          (let sub = final sub_expr (parser_new bs (layout bs raw) file);
               clean = (at_end sub \<and> p_diags sub = []);
               events = fin_events (finish sub) in
           if p_fault sub then fault
           else if clean then
             (case build_tree rowan bs raw events of
                None \<Rightarrow> fault
              | Some (green, depth) \<Rightarrow>
                  (if length (green_text green) = b - a
                   then do { emit_green_node green a; ret () }
                   else emit_flat raw a))
           else emit_flat raw a))
   }"

text \<open>One level of interpolation after the other.\<close>

primrec expr_level :: "unicode \<Rightarrow> scanner \<Rightarrow> (bcall list \<Rightarrow> green option) \<Rightarrow> nat \<Rightarrow> nat \<Rightarrow> nat pm" where
  "expr_level u scan rowan 0 = (\<lambda>min_bp. do { fault; ret 0 })"
| "expr_level u scan rowan (Suc l) =
     expr_bp (multiline (interp_body u scan rowan (expr_level u scan rowan l 0)))"

definition expr :: "unicode \<Rightarrow> scanner \<Rightarrow> (bcall list \<Rightarrow> green option) \<Rightarrow> nat pm" where
  "expr u scan rowan = State (\<lambda>p. run_state (expr_level u scan rowan (Suc (length (p_src p))) 0) p)"

section \<open>Node kinds of a replayed tree\<close>

text \<open>The sink opens nodes only of the kinds that the events start, and never a tombstone.\<close>

definition nodes_in :: "syntax_kind set \<Rightarrow> bcall list \<Rightarrow> bool" where
  "nodes_in K cs \<longleftrightarrow> (\<forall>r. StartNode r \<in> set cs \<longrightarrow> kind_from_raw r \<in> K)"

definition starts_in :: "syntax_kind set \<Rightarrow> event list \<Rightarrow> bool" where
  "starts_in K evs \<longleftrightarrow> (\<forall>k fp. Start k fp \<in> set evs \<longrightarrow> k = Tombstone \<or> k \<in> K)"

lemma nodes_in_simps [simp]:
  "nodes_in K []" "nodes_in K (cs @ ds) \<longleftrightarrow> nodes_in K cs \<and> nodes_in K ds"
  "nodes_in K (StartNode r # cs) \<longleftrightarrow> kind_from_raw r \<in> K \<and> nodes_in K cs"
  "nodes_in K (TokenCall k t # cs) \<longleftrightarrow> nodes_in K cs" "nodes_in K (FinishNode # cs) \<longleftrightarrow> nodes_in K cs"
  by (auto simp: nodes_in_def)

lemma nodes_in_trivia [simp]: "nodes_in K (map (\<lambda>t. token_call src (f t) t) ts)"
  by (auto simp: nodes_in_def token_call_def)

lemma starts_in_update: "starts_in K evs \<Longrightarrow> starts_in K (evs[i := tombstone])"
  by (auto simp: starts_in_def tombstone_def dest!: set_update_subset_insert[THEN subsetD])

lemma starts_in_follow:
  "follow fuel events idx fp kinds = Some (events', kinds') \<Longrightarrow> starts_in K events \<Longrightarrow>
   set kinds \<subseteq> insert Tombstone K \<Longrightarrow> starts_in K events' \<and> set kinds' \<subseteq> insert Tombstone K"
proof (induction fuel events idx fp kinds rule: follow.induct)
  case (3 fuel events idx fwd kinds)
  from 3(2) obtain kind fp where ev: "idx + fwd < length events" "events ! (idx + fwd) = Start kind fp"
    "follow fuel (events[idx + fwd := tombstone]) (idx + fwd) fp
      (if kind \<noteq> Tombstone then kinds @ [kind] else kinds) = Some (events', kinds')"
    by (auto simp: Let_def split: if_splits event.splits)
  from ev(1,2) 3(3) have "kind = Tombstone \<or> kind \<in> K" by (metis nth_mem starts_in_def)
  with ev 3 show ?case by (intro 3(1)[OF refl ev(1,2,3)] starts_in_update) auto
qed auto

lemma length_follow: "follow fuel events idx fp kinds = Some (events', kinds') \<Longrightarrow>
    length events' = length events"
  by (induction fuel events idx fp kinds rule: follow.induct)
    (auto simp: Let_def split: if_splits event.splits)

lemma nodes_in_start_nodes: "nodes_in K (sk_calls s) \<Longrightarrow> set ks \<subseteq> insert Tombstone K \<Longrightarrow>
    nodes_in K (sk_calls (foldl (\<lambda>s k. start_node k s) s ks))"
  by (induction ks arbitrary: s) (auto simp: start_node_def)

lemma nodes_in_eat_trivia [simp]: "nodes_in K (sk_calls (eat_trivia src raw s)) \<longleftrightarrow> nodes_in K (sk_calls s)"
  by (simp add: eat_trivia_def Let_def)

lemma nodes_in_build_step:
  assumes "build_step src raw last_ix events i s = Some (events', s')" "i < length events"
    and "nodes_in K (sk_calls s)" "starts_in K events"
  shows "nodes_in K (sk_calls s') \<and> starts_in K events' \<and> length events' = length events"
proof (cases "events ! i")
  case (Start kind fp)
  have k: "kind = Tombstone \<or> kind \<in> K" using assms(2,4) Start by (metis nth_mem starts_in_def)
  show ?thesis
  proof (cases "kind = Tombstone \<and> fp = None")
    case True
    with Start assms show ?thesis by (auto simp: build_step_def starts_in_update)
  next
    case False
    with Start assms(1) obtain kinds where
      f: "follow (length events) (events[i := tombstone]) i fp [kind] = Some (events', kinds)"
      "s' = foldl (\<lambda>s k. start_node k s) s (rev kinds)"
      by (auto simp: build_step_def Let_def)
    from starts_in_follow[OF f(1) starts_in_update[OF assms(4)]] k
    have "starts_in K events'" "set kinds \<subseteq> insert Tombstone K" by auto
    with f(2) nodes_in_start_nodes[OF assms(3), of "rev kinds"] length_follow[OF f(1)] show ?thesis by simp
  qed
next
  case (Token kind)
  with assms show ?thesis
    by (auto simp: build_step_def take_token_def Let_def token_call_def starts_in_update)
qed (use assms in \<open>auto simp: build_step_def finish_node_def skip_token_def emit_slice_call_def Let_def
    starts_in_update\<close>)

lemma nodes_in_build_run:
  "build_run src raw last_ix n events i s = Some (events', s') \<Longrightarrow> i + n \<le> length events \<Longrightarrow>
   nodes_in K (sk_calls s) \<Longrightarrow> starts_in K events \<Longrightarrow> nodes_in K (sk_calls s')"
proof (induction n arbitrary: events i s)
  case (Suc n)
  from Suc.prems(1) obtain events1 s1 where 1: "build_step src raw last_ix events i s = Some (events1, s1)"
    "build_run src raw last_ix n events1 (Suc i) s1 = Some (events', s')"
    by (auto split: option.splits)
  from nodes_in_build_step[OF 1(1) _ Suc.prems(3,4)] Suc.prems(2)
  have "nodes_in K (sk_calls s1)" "starts_in K events1" "length events1 = length events" by auto
  with Suc.prems(2) show ?case by (intro Suc.IH[OF 1(2)]) auto
qed simp

lemma nodes_in_build_calls: "build_calls src raw events = Some s \<Longrightarrow> starts_in K events \<Longrightarrow>
    nodes_in K (sk_calls s)"
  by (auto simp: build_calls_def empty_sink_def dest!: nodes_in_build_run[where K = K])

text \<open>What the events of a run allow: no tombstone, and no error node when they start none.\<close>

definition run_kinds :: "event list \<Rightarrow> syntax_kind set" where
  "run_kinds evs = {k. k \<noteq> Tombstone \<and> (k = Error \<longrightarrow> \<not> error_free evs)}"

lemma starts_in_run_kinds: "starts_in (run_kinds evs) evs"
  by (force simp: starts_in_def run_kinds_def error_free_def list_all_iff)

section \<open>Emitting slices\<close>

text \<open>
  \<open>emits e src b c P f\<close>: on the source \<open>src\<close> the action only appends events, finished nodes and slices
  whose texts run from byte \<open>b\<close> to byte \<open>c\<close> (which may depend on the result).
\<close>

definition emits :: "env \<Rightarrow> string \<Rightarrow> nat \<Rightarrow> ('a \<Rightarrow> nat) \<Rightarrow> ('a \<Rightarrow> bool) \<Rightarrow> 'a pm \<Rightarrow> bool" where
  "emits e src b c P f \<longleftrightarrow> (\<forall>p. pre e p \<longrightarrow> p_src p = src \<longrightarrow> P (result f p) \<and>
     (\<exists>es. final f p = p\<lparr>p_events := p_events p @ es\<rparr> \<and> forest es \<and> error_free es \<and>
       (\<forall>toks i. cov toks es (i, b) = Some (i, c (result f p)))))"

lemma emitsE:
  assumes "emits e src b c P f" "pre e p" "p_src p = src"
  obtains es where "P (result f p)" "final f p = p\<lparr>p_events := p_events p @ es\<rparr>" "forest es" "error_free es"
    "\<forall>toks i. cov toks es (i, b) = Some (i, c (result f p))"
  using assms unfolding emits_def by blast

lemma pre_events [simp]: "pre e (p\<lparr>p_events := ev\<rparr>) \<longleftrightarrow> pre e p"
  by (cases e) (simp add: pre_def inv_def)

lemma emits_ret [keeps]: "P x \<Longrightarrow> b = c x \<Longrightarrow> emits e src b c P (ret x)"
  by (auto simp: emits_def intro!: exI[of _ "[]"])

lemma emits_slice [keeps]: "b \<le> c \<Longrightarrow> emits e src b (\<lambda>_. c) (\<lambda>_. True) (emit_slice k b c)"
  by (auto simp: emits_def emit_slice_def cov_step_def intro!: exI[of _ "[RawSlice k b c]"]
      forest_single_leaf)

lemma emits_bind:
  assumes f: "emits e src b c P f" and g: "\<And>r. P r \<Longrightarrow> emits e src (c r) d Q (g r)"
  shows "emits e src b d Q (State_Monad.bind f g)"
  unfolding emits_def
proof (intro allI impI)
  fix p assume p: "pre e p" "p_src p = src"
  obtain es where P: "P (result f p)"
    and 1: "final f p = p\<lparr>p_events := p_events p @ es\<rparr>" "forest es" "error_free es"
    "\<forall>toks i. cov toks es (i, b) = Some (i, c (result f p))"
    by (rule emitsE[OF f p])
  have p1: "pre e (final f p)" "p_src (final f p) = src" using p by (simp_all add: 1)
  obtain fs where Q: "Q (result (g (result f p)) (final f p))"
    and 2: "final (g (result f p)) (final f p) = (final f p)\<lparr>p_events := p_events (final f p) @ fs\<rparr>"
    "forest fs" "error_free fs" "\<forall>toks i. cov toks fs (i, c (result f p)) = Some (i, d (result (g (result f p)) (final f p)))"
    by (rule emitsE[OF g[OF P] p1])
  show "Q (result (State_Monad.bind f g) p) \<and> (\<exists>es. final (State_Monad.bind f g) p =
      p\<lparr>p_events := p_events p @ es\<rparr> \<and> forest es \<and> error_free es \<and>
      (\<forall>toks i. cov toks es (i, b) = Some (i, d (result (State_Monad.bind f g) p))))"
    using Q 1 2 forest_append[OF 2(2) 1(2)]
    by (intro conjI exI[of _ "es @ fs"]) (simp_all add: cov_append)
qed

lemma emits_start_complete:
  assumes "emits e src b c P f" "is_plain kind"
  shows "emits e src b c P (do { m \<leftarrow> start; r \<leftarrow> f; complete m kind; ret r })"
  unfolding emits_def
proof (intro allI impI)
  let ?f = "do { m \<leftarrow> start; r \<leftarrow> f; complete m kind; ret r }"
  fix p assume p: "pre e p" "p_src p = src"
  let ?p1 = "final start p"
  have p1: "pre e ?p1" "p_src ?p1 = src" "?p1 = p\<lparr>p_events := p_events p @ [Start Tombstone None]\<rparr>"
    using p by (simp_all add: start_def)
  obtain es where P: "P (result f ?p1)"
    and 1: "final f ?p1 = ?p1\<lparr>p_events := p_events ?p1 @ es\<rparr>" "forest es" "error_free es"
    "\<forall>toks i. cov toks es (i, b) = Some (i, c (result f ?p1))"
    by (rule emitsE[OF assms(1) p1(1,2)])
  let ?es = "Start kind None # es @ [Finish]"
  have "final ?f p = p\<lparr>p_events := p_events p @ ?es\<rparr>" "result ?f p = result f ?p1"
    using 1(1) p1(3) by (simp_all add: start_def complete_def nth_append list_update_append)
  moreover have "forest ?es" using forest_single_chain[of "[(kind, es)]"] 1(2) assms(2) by simp
  ultimately show "P (result ?f p) \<and> (\<exists>es. final ?f p = p\<lparr>p_events := p_events p @ es\<rparr> \<and> forest es \<and>
      error_free es \<and> (\<forall>toks i. cov toks es (i, b) = Some (i, c (result ?f p))))"
    using P 1(3,4) assms(2) by (intro conjI exI[of _ ?es]) (simp_all add: cov_append)
qed

lemma emits_node:
  assumes "emits e src b (\<lambda>_. c) is_plain body"
  shows "emits e src b (\<lambda>_. c) (\<lambda>_. True) (node body)"
  unfolding emits_def
proof (intro allI impI)
  fix p assume p: "pre e p" "p_src p = src"
  let ?p1 = "final start p"
  have p1: "pre e ?p1" "p_src ?p1 = src" "?p1 = p\<lparr>p_events := p_events p @ [Start Tombstone None]\<rparr>"
    using p by (simp_all add: start_def)
  obtain es where k: "is_plain (result body ?p1)"
    and 1: "final body ?p1 = ?p1\<lparr>p_events := p_events ?p1 @ es\<rparr>" "forest es" "error_free es"
    "\<forall>toks i. cov toks es (i, b) = Some (i, c)"
    by (rule emitsE[OF assms p1(1,2)])
  let ?es = "Start (result body ?p1) None # es @ [Finish]"
  have "final (node body) p = p\<lparr>p_events := p_events p @ ?es\<rparr>"
    using 1(1) p1(3) by (simp add: node_def start_def complete_def nth_append list_update_append)
  moreover have "forest ?es" using forest_single_chain[of "[(result body ?p1, es)]"] 1(2) k by simp
  ultimately show "True \<and> (\<exists>es. final (node body) p = p\<lparr>p_events := p_events p @ es\<rparr> \<and>
      forest es \<and> error_free es \<and> (\<forall>toks i. cov toks es (i, b) = Some (i, c)))"
    using 1(3,4) k by (intro conjI TrueI exI[of _ ?es]) (simp_all add: cov_append)
qed

lemma emits_green_nodes:
  "nodes_in (Collect is_plain) (calls_of t) \<Longrightarrow>
     emits e src b (\<lambda>c. c) (\<lambda>c. c = b + length (green_text t)) (emit_green_node t b)"
  "nodes_in (Collect is_plain) (concat (map calls_of ts)) \<Longrightarrow>
     emits e src b (\<lambda>c. c) (\<lambda>c. c = b + length (concat (map green_text ts))) (emit_green_children ts b)"
proof (induction t b and ts b rule: emit_green_node_emit_green_children.induct)
  case (1 k t b)
  show ?case by (auto intro!: emits_bind[OF emits_slice] emits_ret)
next
  case (2 k ts b)
  then show ?case using emits_start_complete[of e src b _ _ "emit_green_children ts b"] by simp
next
  case (4 t ts b)
  have "emits e src (b + length (green_text t)) (\<lambda>c. c)
      (\<lambda>c. c = b + length (concat (map green_text (t # ts))))
      (emit_green_children ts (b + length (green_text t)))"
    using 4(2)[of "b + length (green_text t)"] 4(3) by (simp add: add.assoc)
  with 4 show ?case by (auto intro!: emits_bind[OF 4(1)])
qed (auto intro: emits_ret)

lemma emits_flat:
  "tiles x raw n \<Longrightarrow> emits e src (a + x) (\<lambda>_. a + n) (\<lambda>_. True) (emit_flat raw a)"
proof (induction raw arbitrary: x)
  case (Cons t raw)
  then have "emits e src (a + x) (\<lambda>_. a + lt_end t) (\<lambda>_. True)
      (emit_slice (lt_kind t) (a + lt_start t) (a + lt_end t))" by (auto intro: emits_slice)
  with Cons show ?case by (auto intro: emits_bind)
qed (auto intro: emits_ret)

lemma find_close_bound: "find_close s = Some r \<Longrightarrow> r + 2 \<le> length s"
  by (induction s arbitrary: r rule: find_close.induct) (auto split: if_splits)

section \<open>The split covers the token\<close>

lemma emits_interpolation:
  assumes "emits e src y (\<lambda>_. z) (\<lambda>_. True) (body y z)" "x \<le> y" "z \<le> w"
  shows "emits e src x (\<lambda>_. w) (\<lambda>_. True) (emit_interpolation body x y z w)"
  unfolding emit_interpolation_def
  by (rule emits_bind[OF emits_node emits_ret])
    (auto intro!: emits_bind[OF emits_slice] emits_bind[OF assms(1)] emits_ret assms(2,3))

lemma emits_interp_scan:
  assumes body: "\<And>y z. a \<le> y \<Longrightarrow> y \<le> z \<Longrightarrow> z + 2 \<le> a + length bs \<Longrightarrow> z - y < length bs \<Longrightarrow>
      emits e src y (\<lambda>_. z) (\<lambda>_. True) (body y z)"
    and close: "close \<le> length bs"
  shows "cs \<le> i \<Longrightarrow> i \<le> close \<Longrightarrow>
    emits e src (a + cs) (\<lambda>r. a + r) (\<lambda>r. r \<le> close) (interp_scan body bs a close i cs)"
proof (induction "close - i" arbitrary: i cs rule: less_induct)
  case less
  show ?case
  proof (cases "close \<le> i")
    case True
    with less.prems show ?thesis by (subst interp_scan.simps) (auto intro: emits_ret)
  next
    case False
    have IH: "emits e src (a + c) (\<lambda>r. a + r) (\<lambda>r. r \<le> close) (interp_scan body bs a close j c)"
      if "i < j" "j \<le> close" "c \<le> j" for j c
      using less.hyps[of j c] that False by simp
    show ?thesis
    proof (cases "bs ! i = backslash \<and> i + 1 < close \<and> bs ! (i + 1) = CHR ''{''")
      case True
      with False IH[of "i + 2" cs] less.prems show ?thesis by (subst interp_scan.simps) simp
    next
      case nesc: False
      let ?r = "if bs ! i = CHR ''{'' \<and> i + 1 < close \<and> bs ! (i + 1) = CHR ''{''
               then find_close (slice bs (i + 2) close) else None"
      show ?thesis
      proof (cases ?r)
        case None
        with False nesc IH[of "i + 1" cs] less.prems show ?thesis by (subst interp_scan.simps) auto
      next
        case (Some rel)
        then have "i + 1 < close" "find_close (slice bs (i + 2) close) = Some rel"
          by (auto split: if_splits)
        with find_close_bound close have b: "i + 2 + rel + 2 \<le> close" by fastforce
        then have "emits e src (a + i) (\<lambda>_. a + (i + 2 + rel + 2)) (\<lambda>_. True)
            (emit_interpolation body (a + i) (a + (i + 2)) (a + (i + 2 + rel)) (a + (i + 2 + rel + 2)))"
          using close by (intro emits_interpolation body) auto
        from emits_bind[OF this IH[of "i + 2 + rel + 2"]] b less.prems
        have "emits e src (a + i) (\<lambda>r. a + r) (\<lambda>r. r \<le> close) (do {
            emit_interpolation body (a + i) (a + (i + 2)) (a + (i + 2 + rel)) (a + (i + 2 + rel + 2));
            interp_scan body bs a close (i + 2 + rel + 2) (i + 2 + rel + 2) })" by simp
        moreover have "emits e src (a + cs) (\<lambda>_. a + i) (\<lambda>_. True)
            (if cs < i then emit_slice StringChunk (a + cs) (a + i) else ret ())"
          using less.prems by (auto intro: emits_slice emits_ret)
        ultimately show ?thesis
          unfolding interp_scan.simps[of body bs a close i cs] if_not_P[OF False] if_not_P[OF nesc]
            Some option.case Let_def
          by (blast intro: emits_bind)
      qed
    qed
  qed
qed

lemma emits_multiline_interior:
  assumes body: "\<And>y z. a \<le> y \<Longrightarrow> y \<le> z \<Longrightarrow> z + 2 \<le> b \<Longrightarrow> z - y < length bs \<Longrightarrow>
      emits e src y (\<lambda>_. z) (\<lambda>_. True) (body y z)"
    and b: "b = a + length bs"
  shows "emits e src a (\<lambda>_. b) (\<lambda>_. True) (multiline_interior body bs a b)"
proof -
  let ?n = "length bs" and ?op = "min 3 (length bs)"
  define close where "close = (if 6 \<le> ?n \<and> drop (?n - 3) bs = [dquote, dquote, dquote] then ?n - 3 else ?n)"
  have close: "?op \<le> close" "close \<le> ?n" by (auto simp: close_def)
  have 1: "emits e src a (\<lambda>_. a + ?op) (\<lambda>_. True)
      (if 0 < ?op then emit_slice StringChunk a (a + ?op) else ret ())"
    by (auto intro: emits_slice emits_ret)
  have 2: "emits e src (a + ?op) (\<lambda>r. a + r) (\<lambda>r. r \<le> close) (interp_scan body bs a close ?op ?op)"
    by (rule emits_interp_scan) (use close b in \<open>auto intro: body\<close>)
  have 3: "emits e src (a + r) (\<lambda>_. a + close) (\<lambda>_. True)
      (if r < close then emit_slice StringChunk (a + r) (a + close) else ret ())" if "r \<le> close" for r
    using that by (auto intro: emits_slice emits_ret)
  have 4: "emits e src (a + close) (\<lambda>_. b) (\<lambda>_. True)
      (if close < ?n then emit_slice StringChunk (a + close) b else ret ())"
    using close b by (auto intro: emits_slice emits_ret)
  show ?thesis unfolding multiline_interior_def Let_def close_def[symmetric]
    by (rule emits_bind[OF 1 emits_bind[OF 2 emits_bind[OF 3 4]]])
qed

lemma skip_then_emits:
  assumes p: "pre e p" "\<not> at_end p" and t: "t = p_toks p ! p_pos p"
    and f: "emits e (p_src p) (pt_start t) (\<lambda>_. pt_end t) (\<lambda>_. True) f"
  shows "ext p (final (do { skip_raw; f }) p)" "p_pos (final (do { skip_raw; f }) p) = p_pos p + 1"
proof -
  let ?p1 = "final skip_raw p"
  have inv: "inv p" by (rule pre_inv[OF p(1)])
  have pos: "p_pos p < p_limit p" "p_pos p < length (p_toks p)" using p(2) by (simp_all add: at_end_def)
  have p1: "?p1 = p\<lparr>p_events := p_events p @ [Skip], p_pos := p_pos p + 1\<rparr>"
    using p(2) by (simp add: skip_raw_def when_p_def)
  have "inv ?p1" "same_frame p ?p1" using inv pos by (simp_all add: p1 inv_def same_frame_def)
  then have pre1: "pre e ?p1" by (intro pre_mono[OF p(1)]) (simp_all add: p1)
  have src: "p_src ?p1 = p_src p" by (simp add: p1)
  obtain es where es: "final f ?p1 = ?p1\<lparr>p_events := p_events ?p1 @ es\<rparr>" "forest es" "error_free es"
    "\<forall>toks i. cov toks es (i, pt_start t) = Some (i, pt_end t)"
    by (rule emitsE[OF f pre1 src])
  have fin: "final f ?p1 = p\<lparr>p_events := p_events p @ Skip # es, p_pos := p_pos p + 1\<rparr>"
    by (subst es(1)) (simp add: p1)
  have "moved p (Skip # es) (final f ?p1)"
  proof (rule movedI)
    show "cov (p_toks p) (Skip # es) (here p) = Some (here (final f ?p1))"
      using pos es(4) t by (simp add: fin here_def cov_step_def tok_end_def)
    show "inv (final f ?p1)" "same_frame p (final f ?p1)"
      using inv pos by (simp_all add: fin inv_def same_frame_def)
    show "p_pos p \<le> p_pos (final f ?p1)" "budget p (final f ?p1)"
      by (simp_all add: fin budget_def)
    show "error_free (Skip # es) \<or> p_unit_errored (final f ?p1)" using es(3) by simp
  qed
  moreover have "forest (Skip # es)"
    using forest_append[OF es(2) forest_single_leaf[of Skip]] by simp
  ultimately show "ext p (final (do { skip_raw; f }) p)" unfolding ext_def
    by (intro exI[of _ "Skip # es"]) (simp add: fin)
  show "p_pos (final (do { skip_raw; f }) p) = p_pos p + 1" by (simp add: fin)
qed

lemma multiline_step:
  assumes body: "\<And>src y z. y \<le> z \<Longrightarrow> z \<le> length src \<Longrightarrow> z - y < length src \<Longrightarrow>
      emits e src y (\<lambda>_. z) (\<lambda>_. True) (body y z)"
    and p: "pre e p" "\<not> at_end p"
  shows "ext p (final (multiline body) p)" "p_pos (final (multiline body) p) = p_pos p + 1"
proof -
  let ?t = "p_toks p ! p_pos p" and ?bs = "slice (p_src p) (pt_start (p_toks p ! p_pos p)) (pt_end (p_toks p ! p_pos p))"
  have pos: "p_pos p < p_limit p" "p_pos p < length (p_toks p)"
    using p(2) by (simp_all add: at_end_def)
  then have range: "cur_range p = Some (pt_start ?t, pt_end ?t)"
    by (simp add: cur_range_def tok_def nth_opt_def)
  have t: "pt_start ?t \<le> pt_end ?t" "pt_end ?t \<le> length (p_src p)"
    using pre_inv[OF p(1)] pos by (auto simp: inv_def)
  have "emits e (p_src p) (pt_start ?t) (\<lambda>_. pt_end ?t) (\<lambda>_. True)
      (multiline_interior body ?bs (pt_start ?t) (pt_end ?t))"
    by (rule emits_multiline_interior) (use t in \<open>auto intro!: body\<close>)
  from skip_then_emits[OF p refl this]
  show "ext p (final (multiline body) p)" "p_pos (final (multiline body) p) = p_pos p + 1"
    by (simp_all add: multiline_def range)
qed

lemma exts_multiline:
  assumes body: "\<And>src y z. y \<le> z \<Longrightarrow> z \<le> length src \<Longrightarrow> z - y < length src \<Longrightarrow>
      emits e src y (\<lambda>_. z) (\<lambda>_. True) (body y z)"
  shows "exts e True (\<lambda>_. True) (multiline body)"
proof -
  have "ext p (final (multiline body) p) \<and> forward True p (final (multiline body) p)"
    if p: "pre e p" for p
  proof (cases "at_end p")
    case True
    then have "tok (p_pos p) p = None" by (auto simp: tok_def nth_opt_def at_end_def)
    then show ?thesis using ext_refl[OF pre_inv[OF p]] True
      by (simp add: multiline_def cur_range_def forward_def)
  next
    case False
    from multiline_step[OF body p this] show ?thesis by (simp add: forward_def)
  qed
  then show ?thesis by (simp add: exts_def)
qed

section \<open>The body parses or falls back, and covers itself\<close>

locale parser_env = logos_engine u scan + green_builder rowan
  for u :: unicode and scan :: scanner and rowan :: "bcall list \<Rightarrow> green option"

interpretation ref_env: parser_env ascii_unicode "ref_scan ascii_unicode" ref_rowan ..

lemma inv_parser_new:
  assumes "tiles 0 raw (length bs)" "length bs < 2 ^ 32"
  shows "inv (with_units bs (layout bs raw) file [0])"
proof -
  have "pt_start t \<le> pt_end t \<and> pt_end t \<le> length bs" if "t \<in> set (layout bs raw)" for t
    using tiles_bounds[OF assms(1) layout_token_in_raw[OF that]] by (simp add: strip_def)
  with assms(2) show ?thesis by (simp add: inv_def with_units_def nth_opt_def)
qed

text \<open>A closed run from the first token to the last replays into a tree over the whole text.\<close>

context parser_env
begin

lemma chain_tree:
  assumes raw: "tiles 0 raw (length bs)"
    and segs: "good_segs segs" "k \<noteq> Tombstone" "forest es"
    and ev: "evs = dangling segs @ Start k None # es @ [Finish]"
    and cov: "cov (layout bs raw) evs (0, 0) =
      Some (length (layout bs raw), tok_end (layout bs raw) (length (layout bs raw)))"
  obtains ts depth where "build_tree rowan bs raw evs = Some (GNode (kind_to_raw k) ts, depth)"
    "green_text (GNode (kind_to_raw k) ts) = bs" "nodes_in (run_kinds evs) (calls_of (GNode (kind_to_raw k) ts))"
proof -
  let ?segs = "segs @ [(k, es)]"
  have evs: "evs = chain_evs ?segs" by (simp add: ev chain_dangling)
  have good: "?segs \<noteq> []" "good_segs ?segs" using segs by auto
  obtain s ts where s: "build_calls bs raw evs = Some s"
    "sk_calls s = calls_of (GNode (kind_to_raw (fst (last ?segs))) ts)"
    "green_text (GNode (kind_to_raw (fst (last ?segs))) ts) = bs"
    using build_calls_text[OF raw good cov[unfolded evs]] unfolding evs by blast
  have "rowan (sk_calls s) = Some (GNode (kind_to_raw k) ts)" using s(2) by (simp add: builds del: calls_of.simps)
  with s nodes_in_build_calls[OF s(1) starts_in_run_kinds] show ?thesis
    by (intro that[of ts "sk_max_depth s"]) (simp_all add: build_tree_def)
qed

lemma emits_interp_body:
  assumes sub: "\<And>n. closes (0, l, n) sub" and ab: "a \<le> b" "b \<le> length src" "b - a < length src"
  shows "emits (d, Suc l, n) src a (\<lambda>_. b) (\<lambda>_. True) (interp_body u scan rowan sub a b)"
proof -
  let ?bs = "slice src a b"
  let ?f = "interp_body u scan rowan sub a b"
  have "\<exists>es. final ?f p = p\<lparr>p_events := p_events p @ es\<rparr> \<and> forest es \<and>
      error_free es \<and> (\<forall>toks i. cov toks es (i, a) = Some (i, b))" if p: "pre (d, Suc l, n) p" "p_src p = src" for p
  proof -
    have len: "length ?bs = b - a" "length ?bs < l" "length ?bs < 2 ^ 32"
      using ab p by (auto simp: pre_def inv_def)
    obtain raw where raw: "lex u scan ?bs = Some raw" "tiles 0 raw (length ?bs)"
      using lex_tiles[OF len(3)] by blast
    let ?s0 = "parser_new ?bs (layout ?bs raw) (p_file p)"
    have s0: "p_events ?s0 = []" "p_pos ?s0 = 0" "p_toks ?s0 = layout ?bs raw"
      "p_limit ?s0 = length (layout ?bs raw)" "p_src ?s0 = ?bs"
      by (simp_all add: parser_new_def with_units_def nth_opt_def)
    have "inv ?s0" unfolding parser_new_def by (rule inv_parser_new[OF raw(2) len(3)])
    then have "pre (0, l, length (layout ?bs raw)) ?s0"
      using len(2) by (simp add: pre_def s0)
    from closesD(1)[OF sub this] have cl: "closed ?s0 (result sub ?s0) (final sub ?s0)" .
    note m = closed_moved[OF cl]
    have flat: "emits (d, Suc l, n) src a (\<lambda>_. b) (\<lambda>_. True) (emit_flat raw a)"
      using emits_flat[OF raw(2), of "(d, Suc l, n)" src a] len(1) ab by simp
    show ?thesis
    proof (cases "at_end (final sub ?s0) \<and> p_diags (final sub ?s0) = []")
      case False
      then have "final ?f p = final (emit_flat raw a) p"
        using m raw(1) p(2) by (auto simp: interp_body_def inv_def Let_def)
      then show ?thesis using emitsE[OF flat p] by metis
    next
      case True
      then have pos: "p_pos (final sub ?s0) = length (layout ?bs raw)"
        using m s0 by (auto simp: at_end_def same_frame_def inv_def)
      obtain segs k es where c: "good_segs segs" "k \<noteq> Tombstone" "forest es"
        "p_events (final sub ?s0) = dangling segs @ Start k None # es @ [Finish]"
        "moved ?s0 (p_events (final sub ?s0)) (final sub ?s0)"
        using cl s0(1) unfolding closed_def by auto
      have "cov (layout ?bs raw) (p_events (final sub ?s0)) (0, 0) =
          Some (length (layout ?bs raw), tok_end (layout ?bs raw) (length (layout ?bs raw)))"
        using c(5) pos s0 by (auto simp: moved_def here_def same_frame_def tok_end_def)
      from chain_tree[OF raw(2) c(1-4) this] obtain ts depth where
        t: "build_tree rowan ?bs raw (p_events (final sub ?s0)) = Some (GNode (kind_to_raw k) ts, depth)"
        "green_text (GNode (kind_to_raw k) ts) = ?bs"
        "nodes_in (run_kinds (p_events (final sub ?s0))) (calls_of (GNode (kind_to_raw k) ts))"
        by blast
      have "\<not> p_unit_errored (final sub ?s0)"
        using c(5) True by (auto simp: moved_def budget_def parser_new_def with_units_def)
      then have "error_free (p_events (final sub ?s0))" using c(5) by (simp add: moved_def)
      then have "run_kinds (p_events (final sub ?s0)) = Collect is_plain"
        by (auto simp: run_kinds_def)
      then have plain: "nodes_in (Collect is_plain) (calls_of (GNode (kind_to_raw k) ts))"
        using t(3) by simp
      have eq: "final ?f p = final (emit_green_node (GNode (kind_to_raw k) ts) a) p"
        using m raw(1) p(2) True t(1,2) len(1)
        by (simp add: interp_body_def inv_def Let_def finish_def)
      obtain es where "final (emit_green_node (GNode (kind_to_raw k) ts) a) p = p\<lparr>p_events := p_events p @ es\<rparr>"
        "forest es" "error_free es"
        "\<forall>toks i. cov toks es (i, a) = Some (i, result (emit_green_node (GNode (kind_to_raw k) ts) a) p)"
        "result (emit_green_node (GNode (kind_to_raw k) ts) a) p = a + length (green_text (GNode (kind_to_raw k) ts))"
        by (rule emitsE[OF emits_green_nodes(1)[OF plain] p])
      then show ?thesis unfolding eq t(2) using len(1) ab(1)
        by (intro exI[of _ es]) (simp only: le_add_diff_inverse simp_thms)
    qed
  qed
  then show ?thesis by (simp add: emits_def)
qed

lemma closes_expr_level: "closes (d, l, n) (expr_level u scan rowan l min_bp)"
proof (induction l arbitrary: d n min_bp)
  case 0
  show ?case by (simp add: closes_def pre_def)
next
  case (Suc l)
  have "exts (d, Suc l, m) True (\<lambda>_. True) (multiline (interp_body u scan rowan (expr_level u scan rowan l 0)))"
    for d m
    by (intro exts_multiline emits_interp_body Suc.IH)
  then show ?case by (simp add: closes_expr_bp)
qed

lemma closes_expr [keeps]: "closes e (expr u scan rowan)"
proof -
  have "closed p (result (expr u scan rowan) p) (final (expr u scan rowan) p) \<and>
      forward True p (final (expr u scan rowan) p)" if p: "pre e p" for p
  proof -
    have "pre (0, Suc (length (p_src p)), length (p_toks p)) p"
      using pre_inv[OF p] by (simp add: pre_def)
    from closesD[OF closes_expr_level this] show ?thesis by (simp add: expr_def)
  qed
  then show ?thesis by (simp add: closes_def)
qed

end

section \<open>Properties of expressions and interpolations\<close>

text \<open>The end of an interpolation is the first \<open>}}\<close>: \<open>find_close\<close> returns a position exactly when two
  closing braces stand there and at no earlier position.\<close>

theorem find_close_leftmost:
  "find_close s = Some r \<longleftrightarrow> r + 1 < length s \<and> s ! r = CHR ''}'' \<and> s ! (r + 1) = CHR ''}'' \<and>
     (\<forall>k < r. \<not> (s ! k = CHR ''}'' \<and> s ! (k + 1) = CHR ''}''))"
proof (induction s arbitrary: r rule: find_close.induct)
  case (1 a b rest)
  show ?case
  proof (cases "a = CHR ''}'' \<and> b = CHR ''}''")
    case True
    then show ?thesis by (cases r) auto
  next
    case False
    then show ?thesis
      by (cases r) (auto simp: 1 All_less_Suc2)
  qed
qed auto


definition one_token :: parser where
  "one_token = parser_new ''x'' [\<lparr>pt_kind = LowerIdent, pt_start = 0, pt_end = 1,
     pt_newline_before = False, pt_col = 1, pt_ws_before = False\<rparr>] 0"

lemma inv_one_token: "inv one_token" "\<not> at_end one_token" "p_depth one_token = 0" "p_src one_token = ''x''"
  by (simp_all add: one_token_def parser_new_def with_units_def inv_def nth_opt_def at_end_def)


text \<open>C22: The Pratt loop is maximal. Below the depth limit, when an expression parsed at the minimum
  binding power \<open>min_bp\<close> returns, the next token is not an operator that continues the expression
  (on the same line or indented past the block) and binds at least as tightly as \<open>min_bp\<close>: no such
  operator is ever left to the caller.\<close>

theorem expr_takes_operators:
  fixes min_bp :: nat
  assumes "logos_engine u scan" "green_builder rowan" "inv p" "p_depth p < MAX_DEPTH"
    "length (p_src p) \<le> l"
  defines "p' \<equiv> final (expr_level u scan rowan (Suc l) min_bp) p"
  shows "\<not> (operator_continues p' \<and> min_bp \<le> fst (bin_power p'))"
proof -
  have env: "parser_env u scan rowan" by (rule parser_env.intro[OF assms(1,2)])
  have ml: "exts (d, Suc l, m) True (\<lambda>_. True) (multiline (interp_body u scan rowan (expr_level u scan rowan l 0)))"
    for d m
    by (intro exts_multiline parser_env.emits_interp_body[OF env] parser_env.closes_expr_level[OF env])
  have "pre (0, Suc l, length (p_toks p)) p" using assms(3,5) by (simp add: pre_def)
  from expr_bp_exit[OF ml this assms(4)] show ?thesis by (simp add: p'_def)
qed

theorem expr_takes_operators_witness:
  "\<not> (operator_continues (final (expr_level ascii_unicode (ref_scan ascii_unicode) ref_rowan (Suc 1) 5) one_token) \<and>
     5 \<le> fst (bin_power (final (expr_level ascii_unicode (ref_scan ascii_unicode) ref_rowan (Suc 1) 5) one_token)))"
  by (rule expr_takes_operators[OF ref_logos_engine ref_builder.green_builder_axioms inv_one_token(1)])
    (simp_all add: inv_one_token MAX_DEPTH_def)



end
