(* ===== verification/Grammar_Decl.thy ===== *)
theory Grammar_Decl
  imports Interp
begin

text \<open>
  The declarations of \<open>rust/crates/syntax/src/grammar.rs\<close>: the module header, imports, values,
  annotations, types, and \<open>source_file\<close>, the loop over the lexical top-level units. The expression
  production is the argument \<open>ex\<close>.
\<close>

section \<open>Module header and imports\<close>

definition module_name_p :: "nat pm" where
  "module_name_p = node (do {
     expect UpperIdent;
     while_p (\<lambda>p. at Dot p \<and> nth_kind 1 p = UpperIdent) (do { bump; bump });
     ret ModuleName
   })"

definition exposed_item :: "unit pm" where
  "exposed_item =
     if_p (at LowerIdent) (do { leaf_node ExposedValue; ret () })
    (if_p (at UpperIdent) (do {
        node (do {
          bump;
          when_p (at LParen) (do {
            node (do {
              bump;
              all \<leftarrow> eat DotDot;
              (if all then ret () else comma_loop RParen (do { expect UpperIdent; ret () }));
              expect RParen;
              ret ExposedCtorList
            });
            ret ()
          });
          ret ExposedType
        });
        ret ()
      })
    (if_p (at LParen) (do {
        node (do {
          bump;
          when_p (\<lambda>p. \<not> at RParen p) bump;
          expect RParen;
          ret ExposedOperator
        });
        ret ()
      })
    (err_and_bump ''expected an exposed value, type, or operator'')))"

definition exposing_list :: "syntax_kind \<Rightarrow> nat pm" where
  "exposing_list kind = node (do {
     bump;
     expect LParen;
     with_indent 0 (do {
       all \<leftarrow> eat DotDot;
       (if all then ret () else comma_loop RParen exposed_item);
       expect RParen
     });
     ret kind
   })"

definition module_header :: "nat pm" where
  "module_header = node (do {
     bump;
     module_name_p;
     when_p (at ExposingKw) (do { exposing_list ExposingList; ret () });
     ret ModuleHeader
   })"

definition import_decl :: "nat pm" where
  "import_decl = node (do {
     bump;
     module_name_p;
     when_p (at AsKw) (do {
       node (do {
         bump;
         if_p (\<lambda>p. at UpperIdent p \<or> at Underscore p) bump
           (error ''expected an alias name after `as`'');
         ret ImportAlias
       });
       ret ()
     });
     when_p (at ExposingKw) (do { exposing_list ImportExposing; ret () });
     ret Import
   })"

section \<open>Declarations\<close>

definition value_or_anno :: "nat pm \<Rightarrow> nat pm" where
  "value_or_anno ex = node (do {
     bump;
     if_p (at Colon)
       (do {
          bump;
          with_indent 1 ty;
          ret TypeAnnoDecl
        })
       (do {
          param_list Eq;
          expect Eq;
          body_col \<leftarrow> gets col;
          with_indent body_col ex;
          ret ValueDecl
        })
   })"

definition type_var_list :: "nat pm" where
  "type_var_list = node (do { while_p (at LowerIdent) bump; ret TypeVarList })"

definition variant :: "nat pm" where
  "variant = node (do {
     expect UpperIdent;
     while_p (\<lambda>p. at_any TYPE_ATOM_START p \<and> at_continuation p \<and> \<not> at Pipe p)
       (do { type_atom ty; ret () });
     ret UnionVariant
   })"

definition union_variants :: "nat pm" where
  "union_variants = node (do {
     variant;
     while_p (\<lambda>p. at Pipe p \<and> at_continuation p) (do { bump; variant; ret () });
     ret UnionVariantList
   })"

definition type_decl :: "nat pm" where
  "type_decl = node (do {
     bump;
     is_alias \<leftarrow> eat AliasKw;
     (if is_alias then do {
        expect UpperIdent;
        type_var_list;
        expect Eq;
        with_indent 1 ty;
        ret AliasDecl
      } else do {
        expect UpperIdent;
        type_var_list;
        expect Eq;
        with_indent 1 union_variants;
        ret UnionDecl
      })
   })"

definition decl :: "nat pm \<Rightarrow> unit pm" where
  "decl ex =
     if_p (at TypeKw) (do { type_decl; ret () })
    (if_p (at_one [LowerIdent, UpperIdent]) (do { value_or_anno ex; ret () })
    (err_and_bump ''expected a declaration''))"

section \<open>The source file\<close>

definition top_level_step :: "nat pm \<Rightarrow> (unit \<times> bool) pm" where
  "top_level_step ex = do {
     begin_unit;
     if_p at_end (break ()) (do {
       if_p (at_any DECL_START) (decl ex)
      (if_p at_block_boundary (err_and_bump ''expected a declaration'')
      (err_recover ''expected a declaration'' DECL_START));
       continue ()
     })
   }"

definition source_file :: "nat pm \<Rightarrow> nat pm" where
  "source_file ex = node (do {
     begin_unit;
     when_p (at ModuleKw) (do { module_header; ret () });
     begin_unit;
     while_p (at ImportKw) (do { import_decl; begin_unit });
     with_indent 1 (loop_p (\<lambda>_. top_level_step ex) ());
     ret SourceFile
   })"

section \<open>What declarations guarantee\<close>

lemma exts_module_name_p [keeps]: "exts e False (\<lambda>_. True) module_name_p"
  by (simp add: module_name_p_def keeps)

lemma exts_exposed_item [keeps]: "exts e False (\<lambda>_. True) exposed_item"
  by (simp add: exposed_item_def keeps exts_forget[OF exts_err_and_bump])

lemma exts_exposing_list [keeps]: "is_plain kind \<Longrightarrow> exts e False (\<lambda>_. True) (exposing_list kind)"
  by (simp add: exposing_list_def keeps)

lemma closes_module_header [keeps]: "closes e module_header"
  by (simp add: module_header_def keeps)

lemma closes_import_decl [keeps]: "closes e import_decl"
  by (simp add: import_decl_def keeps)

lemma closes_value_or_anno [keeps]: "closes e ex \<Longrightarrow> closes e (value_or_anno ex)"
  by (simp add: value_or_anno_def keeps)

lemma exts_type_var_list [keeps]: "exts e False (\<lambda>_. True) type_var_list"
  by (simp add: type_var_list_def keeps)

lemma exts_variant [keeps]: "exts e False (\<lambda>_. True) variant"
  by (simp add: variant_def keeps)

lemma exts_union_variants [keeps]: "exts e False (\<lambda>_. True) union_variants"
  by (simp add: union_variants_def keeps)

lemma closes_type_decl [keeps]: "closes e type_decl"
  by (simp add: type_decl_def keeps)

lemma exts_decl [keeps]: "closes e ex \<Longrightarrow> exts e True (\<lambda>_. True) (decl ex)"
  by (simp add: decl_def keeps)

end
