(* ===== verification/Source_File.thy ===== *)
theory Source_File
  imports Grammar_Decl
begin

text \<open>
  The top level: \<open>source_file\<close> reads one lexical unit after the other, each with a fresh diagnostic
  budget. The invariant relates the cursor, the unit it is in, the limit and the recorded errors;
  the loop ends at the last token, whatever the input.
\<close>

section \<open>The invariant across units\<close>

definition limit_of :: "nat list \<Rightarrow> nat \<Rightarrow> nat \<Rightarrow> nat" where
  "limit_of units n j = (case nth_opt units (j + 1) of Some l \<Rightarrow> l | None \<Rightarrow> n)"

definition units_ok :: "nat list \<Rightarrow> nat \<Rightarrow> bool" where
  "units_ok units n \<longleftrightarrow> sorted_wrt (<) units \<and> (\<forall>x \<in> set units. x \<le> n) \<and>
     (0 < n \<longrightarrow> units \<noteq> [] \<and> hd units = 0)"

definition site_ok :: "nat list \<Rightarrow> nat \<Rightarrow> error_site \<Rightarrow> bool" where
  "site_ok units n s \<longleftrightarrow> es_at s \<le> limit_of units n (es_unit s) \<and>
     (0 < n \<longrightarrow> es_unit s < length units \<and> units ! es_unit s \<le> es_at s)"

definition sites_ok :: "parser \<Rightarrow> bool" where
  "sites_ok p \<longleftrightarrow> map es_diag (p_sites p) = [0..<length (p_diags p)] \<and>
     sorted_wrt (<) (map es_unit (p_sites p)) \<and>
     (p_unit_errored p \<longleftrightarrow> (\<exists>s \<in> set (p_sites p). es_unit s = p_unit p)) \<and>
     (\<forall>s \<in> set (p_sites p). es_unit s \<le> p_unit p \<and> site_ok (p_units p) (length (p_toks p)) s)"

definition unit_ok :: "parser \<Rightarrow> bool" where
  "unit_ok p \<longleftrightarrow> units_ok (p_units p) (length (p_toks p)) \<and>
     p_limit p = limit_of (p_units p) (length (p_toks p)) (p_unit p) \<and>
     (p_toks p \<noteq> [] \<longrightarrow> p_unit p < length (p_units p) \<and> p_units p ! p_unit p \<le> p_pos p)"

definition tinv :: "parser \<Rightarrow> bool" where
  "tinv p \<longleftrightarrow> inv p \<and> unit_ok p \<and> sites_ok p"

lemma moved_sites_ok:
  assumes "sites_ok p" "unit_ok p" "moved p es p'"
  shows "sites_ok p'"
proof -
  from assms(3) have m: "inv p'" "same_frame p p'" "p_pos p \<le> p_pos p'" "budget p p'"
    by (simp_all add: moved_def)
  from m(4) show ?thesis unfolding budget_def
  proof (elim disjE conjE exE)
    assume "p_diags p' = p_diags p" "p_sites p' = p_sites p" "p_unit_errored p' = p_unit_errored p"
    with assms(1) m(2) show ?thesis by (simp add: sites_ok_def same_frame_def)
  next
    fix s d assume e: "\<not> p_unit_errored p" "p_unit_errored p'" "p_sites p' = p_sites p @ [s]"
      "p_diags p' = p_diags p @ [d]" "new_site p p' s"
    have lim: "p_pos p' \<le> limit_of (p_units p) (length (p_toks p)) (p_unit p)"
      using m(1,2) assms(2) by (simp add: inv_def same_frame_def unit_ok_def)
    have s: "es_diag s = length (p_diags p)" "es_unit s = p_unit p"
      "site_ok (p_units p) (length (p_toks p)) s"
      using e(5) lim assms(2) by (auto simp: new_site_def site_ok_def unit_ok_def)
    have "es_unit t < p_unit p" if "t \<in> set (p_sites p)" for t
      using assms(1) that e(1) by (auto simp: sites_ok_def le_less)
    with assms(1) s m(2) e show ?thesis
      by (auto simp: sites_ok_def same_frame_def sorted_wrt_append)
  qed
qed

lemma moved_tinv: "tinv p \<Longrightarrow> moved p es p' \<Longrightarrow> tinv p'"
  unfolding tinv_def using moved_sites_ok[of p es p']
  by (auto simp: moved_def unit_ok_def same_frame_def)

lemma next_unit:
  assumes "tinv p" "\<not> p_pos p < p_limit p" "p_pos p < length (p_toks p)"
  shows "p_unit p + 1 < length (p_units p)" "p_units p ! (p_unit p + 1) = p_pos p"
    "p_pos p < limit_of (p_units p) (length (p_toks p)) (p_unit p + 1)"
    "limit_of (p_units p) (length (p_toks p)) (p_unit p + 1) \<le> length (p_toks p)"
proof -
  let ?us = "p_units p"
  from assms have lim: "p_pos p = limit_of ?us (length (p_toks p)) (p_unit p)"
    by (auto simp: tinv_def inv_def unit_ok_def)
  with assms(3) show 1: "p_unit p + 1 < length ?us"
    by (auto simp: limit_of_def nth_opt_def split: if_splits)
  with lim show 2: "?us ! (p_unit p + 1) = p_pos p" by (simp add: limit_of_def nth_opt_def)
  have ok: "sorted_wrt (<) ?us" "\<forall>x \<in> set ?us. x \<le> length (p_toks p)"
    using assms(1) by (simp_all add: tinv_def unit_ok_def units_ok_def)
  show "p_pos p < limit_of ?us (length (p_toks p)) (p_unit p + 1)"
    using 2 sorted_wrt_nth_less[OF ok(1), of "p_unit p + 1" "p_unit p + 2"] assms(3)
    by (auto simp: limit_of_def nth_opt_def)
  show "limit_of ?us (length (p_toks p)) (p_unit p + 1) \<le> length (p_toks p)"
    using ok(2) by (auto simp: limit_of_def nth_opt_def)
qed

lemma final_begin_unit: "final begin_unit p =
    (if p_pos p < p_limit p \<or> length (p_toks p) \<le> p_pos p then p
     else p\<lparr>p_unit := p_unit p + 1,
       p_limit := limit_of (p_units p) (length (p_toks p)) (p_unit p + 1), p_unit_errored := False\<rparr>)"
  by (simp add: begin_unit_def when_p_def limit_of_def)

lemma tinv_begin_unit:
  assumes "tinv p"
  shows "tinv (final begin_unit p)"
    "at_end (final begin_unit p) \<Longrightarrow> p_pos p = length (p_toks p)"
proof -
  have cases: "p_pos p < p_limit p \<or> length (p_toks p) \<le> p_pos p \<or>
      (\<not> p_pos p < p_limit p \<and> p_pos p < length (p_toks p))" by auto
  have le: "p_pos p \<le> length (p_toks p)" using assms by (auto simp: tinv_def inv_def)
  note n = next_unit[OF assms]
  show "tinv (final begin_unit p)"
  proof (cases "p_pos p < p_limit p \<or> length (p_toks p) \<le> p_pos p")
    case False
    then have n: "p_unit p + 1 < length (p_units p)" "p_units p ! (p_unit p + 1) = p_pos p"
      "p_pos p < limit_of (p_units p) (length (p_toks p)) (p_unit p + 1)"
      "limit_of (p_units p) (length (p_toks p)) (p_unit p + 1) \<le> length (p_toks p)"
      using n by auto
    have "es_unit s \<noteq> Suc (p_unit p)" if "s \<in> set (p_sites p)" for s
      using assms that by (auto simp: tinv_def sites_ok_def)
    with False n assms show ?thesis
      by (auto simp: final_begin_unit tinv_def inv_def unit_ok_def sites_ok_def)
  qed (use assms in \<open>simp add: final_begin_unit\<close>)
  show "p_pos p = length (p_toks p)" if "at_end (final begin_unit p)"
    using that n(3) le by (auto simp: final_begin_unit at_end_def split: if_splits)
qed

section \<open>Steps of the top level\<close>

definition tops :: "parser \<Rightarrow> parser \<Rightarrow> bool" where
  "tops p p' \<longleftrightarrow> tinv p' \<and> p_src p' = p_src p \<and> p_toks p' = p_toks p \<and> p_file p' = p_file p \<and>
     p_units p' = p_units p \<and> p_block_indent p' = p_block_indent p \<and> p_depth p' = p_depth p \<and>
     p_pos p \<le> p_pos p' \<and> (\<exists>ss. p_sites p' = p_sites p @ ss) \<and>
     (\<exists>es. forest es \<and> p_events p' = p_events p @ es \<and> cov (p_toks p) es (here p) = Some (here p') \<and>
       (error_free es \<or> p_sites p' \<noteq> []))"

definition keeps_top :: "'a pm \<Rightarrow> bool" where
  "keeps_top f \<longleftrightarrow> (\<forall>p. tinv p \<longrightarrow> tops p (final f p))"

named_theorems tkeeps

lemma tops_refl: "tinv p \<Longrightarrow> tops p p"
  by (auto simp: tops_def intro!: exI[of _ "[]"])

lemma topsE:
  assumes "tops p p'"
  obtains es ss where "forest es" "p_events p' = p_events p @ es"
    "cov (p_toks p) es (here p) = Some (here p')" "error_free es \<or> p_sites p' \<noteq> []"
    "p_sites p' = p_sites p @ ss"
  using assms unfolding tops_def by blast

lemma tops_trans:
  assumes "tops p p1" "tops p1 p2"
  shows "tops p p2"
proof -
  obtain es ss where 1: "forest es" "p_events p1 = p_events p @ es"
    "cov (p_toks p) es (here p) = Some (here p1)" "error_free es \<or> p_sites p1 \<noteq> []"
    "p_sites p1 = p_sites p @ ss" by (rule topsE[OF assms(1)])
  obtain fs ts where 2: "forest fs" "p_events p2 = p_events p1 @ fs"
    "cov (p_toks p1) fs (here p1) = Some (here p2)" "error_free fs \<or> p_sites p2 \<noteq> []"
    "p_sites p2 = p_sites p1 @ ts" by (rule topsE[OF assms(2)])
  have "p_toks p1 = p_toks p" using assms(1) by (simp add: tops_def)
  with 1 2 have "forest (es @ fs) \<and> p_events p2 = p_events p @ es @ fs \<and>
      cov (p_toks p) (es @ fs) (here p) = Some (here p2) \<and>
      (error_free (es @ fs) \<or> p_sites p2 \<noteq> [])"
    by (auto simp: forest_append cov_append)
  moreover have "\<exists>us. p_sites p2 = p_sites p @ us" using 1(5) 2(5) by auto
  ultimately show ?thesis using assms unfolding tops_def by (auto intro: order_trans)
qed

lemma ext_tops:
  assumes "tinv p" "ext p p'"
  shows "tops p p'"
proof -
  obtain es where es: "forest es" "p_events p' = p_events p @ es" "moved p es p'"
    by (rule extE[OF assms(2)])
  have t: "tinv p'" by (rule moved_tinv[OF assms(1) es(3)])
  have "p_unit_errored p' \<Longrightarrow> p_sites p' \<noteq> []" using t by (auto simp: tinv_def sites_ok_def)
  moreover have "\<exists>ss. p_sites p' = p_sites p @ ss" using es(3) by (auto simp: moved_def budget_def)
  ultimately show ?thesis using es t unfolding tops_def
    by (intro conjI exI[of _ es]) (auto simp: moved_def same_frame_def)
qed

lemma tops_tinv: "tops p p' \<Longrightarrow> tinv p'"
  by (simp add: tops_def)

lemma pre_full: "inv p \<Longrightarrow> pre (0, Suc (length (p_src p)), length (p_toks p)) p"
  by (simp add: pre_def)

lemma exts_top: "(\<And>e. exts e False (\<lambda>_. True) f) \<Longrightarrow> keeps_top f"
  unfolding keeps_top_def using extsD(1) pre_full ext_tops by (metis tinv_def)

lemma top_begin_unit [tkeeps]: "keeps_top begin_unit"
  unfolding keeps_top_def tops_def
  using tinv_begin_unit(1) by (auto simp: final_begin_unit here_def intro!: exI[of _ "[]"])

lemma top_ret [tkeeps]: "keeps_top (ret x)"
  by (simp add: keeps_top_def tops_refl)

lemma top_bind [tkeeps]: "keeps_top f \<Longrightarrow> (\<And>r. keeps_top (g r)) \<Longrightarrow> keeps_top (State_Monad.bind f g)"
  unfolding keeps_top_def using tops_trans tops_tinv by simp blast

lemma top_if_p [tkeeps]: "keeps_top f \<Longrightarrow> keeps_top g \<Longrightarrow> keeps_top (if_p c f g)"
  by (simp add: keeps_top_def)

lemma top_when_p [tkeeps]: "keeps_top f \<Longrightarrow> keeps_top (when_p c f)"
  by (simp add: when_p_def tkeeps)

text \<open>A top-level loop ends, and where its body stops, it has established \<open>Q\<close>.\<close>

lemma top_loop_fuel:
  assumes top: "\<And>a. keeps_top (body a)"
    and go: "\<And>a p. tinv p \<Longrightarrow> snd (result (body a) p) \<Longrightarrow> p_pos p < p_pos (final (body a) p)"
    and stop: "\<And>a p. tinv p \<Longrightarrow> \<not> snd (result (body a) p) \<Longrightarrow> Q (final (body a) p)"
  shows "tinv p \<Longrightarrow> length (p_toks p) - p_pos p < fuel \<Longrightarrow>
    tops p (final (loop_fuel fuel body a) p) \<and> Q (final (loop_fuel fuel body a) p)"
proof (induction fuel arbitrary: a p)
  case (Suc fuel)
  let ?p1 = "final (body a) p"
  have 1: "tops p ?p1" using top Suc.prems(1) by (simp add: keeps_top_def)
  show ?case
  proof (cases "snd (result (body a) p)")
    case True
    from go[OF Suc.prems(1) True] 1 Suc.prems(2)
    have "length (p_toks ?p1) - p_pos ?p1 < fuel"
      by (auto simp: tops_def tinv_def inv_def)
    with Suc.IH[OF tops_tinv[OF 1] this] 1 True show ?thesis by (auto intro: tops_trans)
  next
    case False
    with 1 stop[OF Suc.prems(1) False] show ?thesis by simp
  qed
qed simp

lemma top_loop:
  assumes "\<And>a. keeps_top (body a)"
    and "\<And>a p. tinv p \<Longrightarrow> snd (result (body a) p) \<Longrightarrow> p_pos p < p_pos (final (body a) p)"
    and "\<And>a p. tinv p \<Longrightarrow> \<not> snd (result (body a) p) \<Longrightarrow> Q (final (body a) p)"
    and "tinv p"
  shows "tops p (final (loop_p body a) p)" "Q (final (loop_p body a) p)"
  using top_loop_fuel[of body Q p "Suc (length (p_toks p))" a, OF assms]
  by (simp_all add: loop_p_def del: loop_fuel.simps)

lemma tinv_view [simp]:
  "tinv (p\<lparr>p_block_indent := a\<rparr>) \<longleftrightarrow> tinv p" "tinv (p\<lparr>p_events := ev\<rparr>) \<longleftrightarrow> tinv p"
  by (simp_all add: tinv_def inv_def unit_ok_def sites_ok_def)

lemma tops_indent: "tops (p\<lparr>p_block_indent := a\<rparr>) p' \<Longrightarrow>
    tops p (p'\<lparr>p_block_indent := p_block_indent p\<rparr>)"
  by (auto simp: tops_def here_def)

lemma err_recover_forward:
  assumes p: "pre e p" "\<not> at_end p" "\<not> at_any ts p" "\<not> at_block_boundary p"
    and ts: "\<not> ts_contains ts Eof"
  shows "p_pos p < p_pos (final (err_recover msg ts) p)"
proof -
  let ?c = "\<lambda>p. \<not> at_end p \<and> \<not> at_any ts p \<and> \<not> at_block_boundary p"
  let ?p1 = "final start p"
  let ?p2 = "final (error msg) ?p1"
  have e: "exts e False (\<lambda>_. True) (error msg)" by (simp add: keeps)
  note 2 = extsD[OF e start_view(5)[OF p(1)]]
  have view: "current ?p2 = current p" "at_end ?p2 = at_end p" "newline_before ?p2 = newline_before p"
    "col ?p2 = col p" "p_block_indent ?p2 = p_block_indent p" "p_pos ?p2 = p_pos p"
    by (simp_all add: start_def error_def when_p_def current_def tok_def at_end_def
        newline_before_def col_def)
  have "?c ?p2" using p by (simp add: view at_any_def at_block_boundary_def)
  moreover have "ahead ?c" "exts e True (\<lambda>_. True) bump" by (simp_all add: keeps)
  ultimately have "p_pos ?p2 < p_pos (final (while_p ?c bump) ?p2)"
    by (intro while_entered[OF _ _ 2(4)])
  then show ?thesis using p
    by (simp add: err_recover_def node_def view complete_def split: event.splits)
qed

section \<open>The loop over the units\<close>

context parser_env
begin

abbreviation ex :: "nat pm" where
  "ex \<equiv> Interp.expr u scan rowan"

lemma top_decl [tkeeps]: "keeps_top (decl ex)"
  by (rule exts_top) (simp add: exts_forget keeps)

lemma top_step: "keeps_top (top_level_step ex)"
proof -
  have "keeps_top (err_and_bump msg)" "keeps_top (err_recover msg DECL_START)" for msg
    by (rule exts_top; simp add: exts_forget keeps)+
  then show ?thesis unfolding top_level_step_def by (intro tkeeps)
qed

lemma top_step_forward:
  assumes "tinv p" "snd (result (top_level_step ex) p)"
  shows "p_pos p < p_pos (final (top_level_step ex) p)"
proof -
  let ?p1 = "final begin_unit p"
  have p1: "tinv ?p1" "p_pos ?p1 = p_pos p" using tinv_begin_unit(1)[OF assms(1)]
    by (simp_all add: final_begin_unit)
  have pre: "pre (0, Suc (length (p_src ?p1)), length (p_toks ?p1)) ?p1"
    by (rule pre_full) (use p1 in \<open>simp add: tinv_def\<close>)
  have ne: "\<not> at_end ?p1" using assms(2) by (auto simp: top_level_step_def split: if_splits)
  have "p_pos ?p1 < p_pos (final (decl ex) ?p1)"
    using extsD(3)[OF exts_decl[OF closes_expr] pre] ne by (simp add: forward_def)
  moreover have "p_pos ?p1 < p_pos (final (err_and_bump msg) ?p1)" for msg
    using extsD(3)[OF exts_err_and_bump pre] ne by (simp add: forward_def)
  moreover have "\<not> at_any DECL_START ?p1 \<Longrightarrow> \<not> at_block_boundary ?p1 \<Longrightarrow>
      p_pos ?p1 < p_pos (final (err_recover msg DECL_START) ?p1)" for msg
    using err_recover_forward[OF pre ne] by simp
  ultimately show ?thesis using ne p1(2) by (simp add: top_level_step_def)
qed

lemma top_step_stop:
  assumes "tinv p" "\<not> snd (result (top_level_step ex) p)"
  shows "p_pos (final (top_level_step ex) p) = length (p_toks (final (top_level_step ex) p))"
proof -
  have "at_end (final begin_unit p)"
    using assms(2) by (auto simp: top_level_step_def split: if_splits)
  with tinv_begin_unit(2)[OF assms(1) this] show ?thesis
    by (simp add: top_level_step_def) (simp add: final_begin_unit)
qed

lemma top_imports: "keeps_top (while_p (at ImportKw) (do { import_decl; begin_unit }))"
proof -
  have imp: "keeps_top import_decl" by (rule exts_top) (simp add: keeps)
  let ?body = "\<lambda>a. if_p (at ImportKw) (do { b \<leftarrow> (do { import_decl; begin_unit }); continue b }) (break a)"
  have top: "keeps_top (?body a)" for a using imp by (intro tkeeps)
  have go: "p_pos p < p_pos (final (?body a) p)" if "tinv p" "snd (result (?body a) p)" for a p
  proof -
    have c: "at ImportKw p" using that(2) by (auto split: if_splits)
    have "p_pos p < p_pos (final import_decl p)"
      using extsD(3)[OF closes_exts[OF closes_import_decl] pre_full, of p True] that(1)
        at_not_end[OF c] by (simp add: tinv_def forward_def)
    with c show ?thesis by (simp add: final_begin_unit)
  qed
  show ?thesis unfolding keeps_top_def while_p_def while_acc_def
    using top_loop(1)[of ?body "\<lambda>_. True", OF top go] by simp
qed

lemma source_file_run:
  assumes "tinv p"
  obtains es where "forest es"
    "p_events (final (source_file ex) p) = p_events p @ Start SourceFile None # es @ [Finish]"
    "cov (p_toks p) es (here p) = Some (here (final (source_file ex) p))"
    "tops p (final (source_file ex) p)"
    "p_pos (final (source_file ex) p) = length (p_toks p)"
    "error_free es \<or> p_sites (final (source_file ex) p) \<noteq> []"
proof -
  let ?head = "do { begin_unit; when_p (at ModuleKw) (do { module_header; ret () }); begin_unit;
    while_p (at ImportKw) (do { import_decl; begin_unit }) }"
  let ?loop = "loop_p (\<lambda>_. top_level_step ex) ()"
  have "keeps_top module_header" by (rule exts_top) (simp add: keeps)
  then have head: "keeps_top ?head" by (intro tkeeps top_imports)
  let ?p1 = "final start p"
  have p1: "?p1 = p\<lparr>p_events := p_events p @ [Start Tombstone None]\<rparr>" by (simp add: start_def)
  define p2 where "p2 = final ?head ?p1"
  have 2: "tops ?p1 p2" unfolding p2_def using head assms by (simp only: keeps_top_def p1 tinv_view)
  let ?p3 = "p2\<lparr>p_block_indent := 1\<rparr>"
  have 3: "tinv ?p3" using 2 by (simp add: tops_def)
  note loop = top_loop[of "\<lambda>_. top_level_step ex" "\<lambda>p. p_pos p = length (p_toks p)",
      OF top_step top_step_forward top_step_stop 3, of "()"]
  define p4 where "p4 = final (with_indent 1 ?loop) p2"
  have p4: "p4 = (final ?loop ?p3)\<lparr>p_block_indent := p_block_indent p2\<rparr>"
    by (simp add: p4_def with_indent_def)
  have 4: "tops p2 p4" unfolding p4 by (rule tops_indent[OF loop(1)])
  have pos: "p_pos p4 = length (p_toks p4)" using loop(2) by (simp add: p4)
  from tops_trans[OF 2 4] have 5: "tops ?p1 p4" .
  then obtain es where es: "forest es" "p_events p4 = p_events ?p1 @ es"
    "cov (p_toks ?p1) es (here ?p1) = Some (here p4)" "error_free es \<or> p_sites p4 \<noteq> []"
    by (auto simp: tops_def)
  have fin: "final (source_file ex) p = p4\<lparr>p_events := p_events p @ Start SourceFile None # es @ [Finish]\<rparr>"
    using es(2)
    by (simp add: source_file_def node_def complete_def nth_append list_update_append
        flip: p2_def p4_def) (simp add: p4_def p2_def start_def)
  have "tops p (final (source_file ex) p)"
  proof -
    have "forest (Start SourceFile None # es @ [Finish])"
      using forest_single_chain[of "[(SourceFile, es)]"] es(1) by simp
    moreover have "cov (p_toks p) (Start SourceFile None # es @ [Finish]) (here p) = Some (here p4)"
      using es(3) by (simp add: p1 here_def cov_append)
    ultimately show ?thesis using 5 es(4) unfolding fin
      by (auto simp: tops_def p1 here_def)
  qed
  with es(1,3,4) pos 5 show ?thesis
    by (intro that[of es]) (auto simp: fin p1 here_def tops_def)
qed

end

end
