(* ===== verification/Units.thy ===== *)
theory Units
  imports Source_File
begin

text \<open>
  \<open>lexical_units\<close> of \<open>rust/crates/syntax/src/parser.rs\<close>: where the top-level units of a token stream
  start, and the runs of the grammar over a file or over one unit.
\<close>

section \<open>Runs of the grammar\<close>

definition run_grammar_one_unit :: "nat pm \<Rightarrow> string \<Rightarrow> ptoken list \<Rightarrow> nat \<Rightarrow> finished" where
  "run_grammar_one_unit ex src toks file =
     finish (final (source_file ex) (parser_new src toks file))"

section \<open>Units\<close>

definition text_at :: "string \<Rightarrow> ptoken list \<Rightarrow> nat \<Rightarrow> string option" where
  "text_at src toks i = map_option (\<lambda>t. slice src (pt_start t) (pt_end t)) (nth_opt toks i)"

definition kind_at :: "ptoken list \<Rightarrow> nat \<Rightarrow> syntax_kind option" where
  "kind_at toks i = map_option pt_kind (nth_opt toks i)"

definition same_line :: "ptoken list \<Rightarrow> nat \<Rightarrow> ptoken option" where
  "same_line toks j = Option.bind (nth_opt toks j)
     (\<lambda>t. if \<not> pt_newline_before t then Some t else None)"

definition last_opt :: "'a list \<Rightarrow> 'a option" where
  "last_opt xs = (if xs = [] then None else Some (last xs))"

text \<open>The first index from \<open>k\<close> on whose token starts a line.\<close>

definition next_line :: "ptoken list \<Rightarrow> nat \<Rightarrow> nat" where
  "next_line toks k = k + length (takeWhile (\<lambda>t. \<not> pt_newline_before t) (drop k toks))"

text \<open>The trial parse of an \<open>as\<close> line together with the unit before it, when there is one to make: the
  token at which it must fail for the line to begin a unit, and the run.\<close>

definition name_end :: "ptoken list \<Rightarrow> nat \<Rightarrow> nat" where
  "name_end toks i = i + 1 + length (takeWhile
     (\<lambda>t. \<not> pt_newline_before t \<and> pt_kind t \<in> {LowerIdent, Underscore}) (drop (i + 1) toks))"

definition declares_name :: "ptoken list \<Rightarrow> nat \<Rightarrow> syntax_kind option" where
  "declares_name toks i =
     (if \<not> ts_contains NAME_ONLY_KEYWORDS (pt_kind (toks ! i)) then None
      else (case same_line toks (name_end toks i) of
          None \<Rightarrow> None
        | Some e \<Rightarrow> (if pt_kind e \<in> {Eq, Colon} then Some (pt_kind e) else None)))"

definition alias_tail :: "ptoken list \<Rightarrow> nat \<Rightarrow> bool" where
  "alias_tail toks i \<longleftrightarrow> pt_kind (toks ! i) = AsKw \<and> name_end toks i = i + 2 \<and>
     pt_kind (toks ! (i + 1)) = LowerIdent \<and> declares_name toks i = Some Eq"

definition alias_trial :: "nat pm \<Rightarrow> string \<Rightarrow> ptoken list \<Rightarrow> nat list \<Rightarrow> nat \<Rightarrow> nat \<Rightarrow> (nat \<times> finished) option" where
  "alias_trial ex src toks units i file =
     (if \<not> alias_tail toks i then None
      else map_option (\<lambda>u0. (name_end toks i - u0,
          run_grammar_one_unit ex src (take (next_line toks (name_end toks i + 1) - u0) (drop u0 toks)) file))
        (last_opt units))"

definition keyword_names_a_declaration ::
  "nat pm \<Rightarrow> string \<Rightarrow> ptoken list \<Rightarrow> nat list \<Rightarrow> nat \<Rightarrow> nat \<Rightarrow> bool" where
  "keyword_names_a_declaration ex src toks units i file =
     (declares_name toks i \<noteq> None \<and>
      (case alias_trial ex src toks units i file of
         None \<Rightarrow> True
       | Some (accepted_to, fin) \<Rightarrow> list_ex (\<lambda>s. es_at s \<le> accepted_to) (fin_sites fin)))"

text \<open>One turn of the loop over the tokens, and the loop.\<close>

definition unit_step :: "nat pm \<Rightarrow> string \<Rightarrow> ptoken list \<Rightarrow> nat \<Rightarrow> nat list \<Rightarrow> nat \<Rightarrow> nat list" where
  "unit_step ex src toks file units i =
     (let t = toks ! i;
          col1 = (pt_newline_before t \<and> pt_col t = 1);
          line_start = (i = 0 \<or> (col1 \<and> ts_contains UNIT_START (pt_kind t)) \<or>
            (col1 \<and> keyword_names_a_declaration ex src toks units i file)) in
      if \<not> line_start then units
      else if (case last_opt units of
                 None \<Rightarrow> False
               | Some prev \<Rightarrow> kind_at toks (prev + 1) = Some Colon \<and>
                   text_at src toks prev = text_at src toks i \<and> kind_at toks (i + 1) \<noteq> Some Colon)
      then units
      else units @ [i])"

definition lexical_units :: "nat pm \<Rightarrow> string \<Rightarrow> ptoken list \<Rightarrow> nat \<Rightarrow> nat list" where
  "lexical_units ex src toks file = foldl (unit_step ex src toks file) [] [0..<length toks]"

text \<open>A panic of a trial is a panic of the run it is made for.\<close>

definition trial_faults :: "nat pm \<Rightarrow> string \<Rightarrow> ptoken list \<Rightarrow> nat \<Rightarrow> bool" where
  "trial_faults ex src toks file = list_ex (\<lambda>i.
     0 < i \<and> pt_newline_before (toks ! i) \<and> pt_col (toks ! i) = 1 \<and> \<not> ts_contains UNIT_START (pt_kind (toks ! i)) \<and>
     (case alias_trial ex src toks (foldl (unit_step ex src toks file) [] [0..<i]) i file of
        None \<Rightarrow> False | Some (_, fin) \<Rightarrow> fin_fault fin)) [0..<length toks]"

definition new_file :: "nat pm \<Rightarrow> string \<Rightarrow> ptoken list \<Rightarrow> nat \<Rightarrow> parser" where
  "new_file ex src toks file =
     (with_units src toks file (lexical_units ex src toks file))\<lparr>p_fault := trial_faults ex src toks file\<rparr>"

definition run_grammar :: "nat pm \<Rightarrow> string \<Rightarrow> ptoken list \<Rightarrow> nat \<Rightarrow> finished" where
  "run_grammar ex src toks file = finish (final (source_file ex) (new_file ex src toks file))"

section \<open>Units are a strictly increasing list that starts at the first token\<close>

lemma unit_steps:
  "sorted_wrt (<) (foldl (unit_step ex src toks file) [] [0..<n]) \<and>
   (\<forall>x \<in> set (foldl (unit_step ex src toks file) [] [0..<n]). x < n) \<and>
   (0 < n \<longrightarrow> foldl (unit_step ex src toks file) [] [0..<n] \<noteq> [] \<and>
     hd (foldl (unit_step ex src toks file) [] [0..<n]) = 0)"
proof (induction n)
  case (Suc n)
  let ?us = "foldl (unit_step ex src toks file) [] [0..<n]"
  have step: "foldl (unit_step ex src toks file) [] [0..<Suc n] = unit_step ex src toks file ?us n"
    by simp
  have "unit_step ex src toks file ?us n = ?us \<and> 0 < n \<or> unit_step ex src toks file ?us n = ?us @ [n]"
    by (cases n) (auto simp: unit_step_def last_opt_def Let_def)
  with Suc show ?case unfolding step by (auto simp: sorted_wrt_append less_Suc_eq)
qed simp

lemma units_ok_lexical: "units_ok (lexical_units ex src toks file) (length toks)"
  using unit_steps[of ex src toks "file" "length toks"]
  by (auto simp: units_ok_def lexical_units_def less_imp_le)

lemma lexical_units_less: "x \<in> set (lexical_units ex src toks file) \<Longrightarrow> x < length toks"
  using unit_steps[of ex src toks "file" "length toks"] by (simp add: lexical_units_def)

text \<open>The lexical units partition the token stream: their starts are strictly increasing indices
  of tokens, and the first unit starts at the first token, so that every token belongs to exactly
  one unit, whatever the tokens are and whatever the trial parse of an \<open>as\<close> line says.\<close>

theorem lexical_units_partition:
  "sorted_wrt (<) (lexical_units ex src toks file) \<and>
   set (lexical_units ex src toks file) \<subseteq> {..<length toks} \<and>
   (toks = [] \<or> hd (lexical_units ex src toks file) = 0 \<and> lexical_units ex src toks file \<noteq> [])"
  using unit_steps[of ex src toks "file" "length toks"] by (auto simp: lexical_units_def)

section \<open>A run over a file or a unit\<close>

definition toks_in :: "string \<Rightarrow> ptoken list \<Rightarrow> bool" where
  "toks_in src toks \<longleftrightarrow> (\<forall>t \<in> set toks. pt_start t \<le> pt_end t \<and> pt_end t \<le> length src)"

lemma limit_of_0: "limit_of units n 0 = (case nth_opt units 1 of Some l \<Rightarrow> l | None \<Rightarrow> n)"
  by (simp add: limit_of_def)

lemma tinv_with_units:
  assumes "toks_in src toks" "length src < 2 ^ 32" "units_ok units (length toks)"
  shows "tinv (with_units src toks file units)"
proof -
  have "limit_of units (length toks) 0 \<le> length toks"
    using assms(3) by (auto simp: limit_of_def nth_opt_def units_ok_def)
  moreover have "toks \<noteq> [] \<longrightarrow> 0 < length units \<and> units ! 0 = 0"
    using assms(3) by (auto simp: units_ok_def hd_conv_nth)
  ultimately show ?thesis using assms
    by (auto simp: tinv_def inv_def unit_ok_def sites_ok_def with_units_def limit_of_0 toks_in_def)
qed

lemma units_ok_one: "units_ok [0] n"
  by (simp add: units_ok_def)

lemma empty_run:
  "p_toks p = [] \<Longrightarrow> p_pos p = 0 \<Longrightarrow> p_limit p = 0 \<Longrightarrow> p_sites (final (source_file ex) p) = p_sites p"
  by (simp add: source_file_def node_def start_def final_begin_unit when_p_def at_def current_def
      tok_def while_p_def while_acc_def loop_p_def with_indent_def top_level_step_def at_end_def
      complete_def split: event.splits)

end
