(* ===== verification/Explain.thy ===== *)
theory Explain
  imports Units "HOL-Library.Product_Lexorder"
begin

text \<open>
  The part of \<open>rust/crates/syntax/src/lib.rs\<close> that turns a unit's one syntax error into an
  explanation: \<open>explain_errors\<close> joins a unit with the line at column 1 that it needs, and
  \<open>name_reserved_words\<close> finds the misused reserved word by trial parses. Both only rewrite or drop
  the diagnostics of a parse. An index out of range and a trial parse that faults are panics, the value \<open>None\<close>;
  the ranges of tokens are not checked again (they lie in the source, \<open>toks_in\<close>).
\<close>

section \<open>Messages\<close>

definition INDENT_MESSAGE :: string where
  "INDENT_MESSAGE = ''This line starts at column 1, so it begins a new declaration. '' @
     ''Indent it to continue the definition above.''"

definition reserved_word_message :: "string \<Rightarrow> string" where
  "reserved_word_message word = ''`'' @ word @
     ''` is a reserved word and cannot be used as a name. Pick another name. '' @
     ''The reserved words are: '' @ join '', '' RESERVED_WORDS @ ''.''"

definition MAX_FOLLOW :: nat where
  "MAX_FOLLOW = 4"

definition CHAIN_BUDGET :: nat where
  "CHAIN_BUDGET = 256"

section \<open>Trials\<close>

type_synonym rename = "nat \<times> syntax_kind"

definition before_enclosing_item :: "ptoken list \<Rightarrow> nat \<Rightarrow> bool" where
  "before_enclosing_item unit c = (case nth_opt unit (c + 1) of
     None \<Rightarrow> False
   | Some next \<Rightarrow>
       (let first = c - length (takeWhile (\<lambda>i. \<not> pt_newline_before (unit ! i)) (rev [1..<Suc c])) in
        pt_newline_before next \<and> pt_col next \<le> pt_col (unit ! first)))"

definition reserved :: "ptoken list \<Rightarrow> nat \<Rightarrow> bool" where
  "reserved unit i = (case nth_opt unit i of None \<Rightarrow> False | Some t \<Rightarrow> is_reserved_word (pt_kind t))"

definition token_src :: "string \<Rightarrow> ptoken \<Rightarrow> string" where
  "token_src src t = slice src (pt_start t) (pt_end t)"

definition min_site :: "error_site list \<Rightarrow> nat option" where
  "min_site sites = (case map es_at sites of [] \<Rightarrow> None | a # as \<Rightarrow> Some (foldl min a as))"

definition apply_renames :: "ptoken list \<Rightarrow> rename list \<Rightarrow> ptoken list" where
  "apply_renames unit renamed =
     foldl (\<lambda>trial (i, name). trial[i := (trial ! i)\<lparr>pt_kind := name\<rparr>]) unit renamed"

definition within :: "ptoken list \<Rightarrow> rename list \<Rightarrow> bool" where
  "within unit renamed = list_all (\<lambda>(i, _). i < length unit) renamed"

definition first_error :: "nat pm \<Rightarrow> string \<Rightarrow> nat \<Rightarrow> ptoken list \<Rightarrow> rename list \<Rightarrow> nat option option" where
  "first_error ex src file unit renamed =
     (if \<not> within unit renamed then None
      else (let fin = run_grammar ex src (apply_renames unit renamed) file in
        if fin_fault fin then None else Some (min_site (fin_sites fin))))"

text \<open>The loop that follows other uses of the same word, at the new error or just before it; \<open>at - 1\<close> wraps at 0, outside
  every unit. The use it finds may also stand before the word (\<open>earlier_use_followed\<close>).\<close>

primrec follow_uses :: "(rename list \<Rightarrow> nat option option) \<Rightarrow> string \<Rightarrow> ptoken list \<Rightarrow> nat \<Rightarrow> syntax_kind \<Rightarrow>
    nat \<Rightarrow> rename list \<Rightarrow> nat option \<Rightarrow> (rename list \<times> nat option) option" where
  "follow_uses err src unit c name 0 renamed reached = Some (renamed, reached)"
| "follow_uses err src unit c name (Suc n) renamed reached =
     (case reached of
        None \<Rightarrow> Some (renamed, reached)
      | Some a \<Rightarrow>
          (case find (\<lambda>i. reserved unit i \<and> \<not> list_ex (\<lambda>(r, _). r = i) renamed \<and>
                 token_src src (unit ! i) = token_src src (unit ! c))
               (if a = 0 then [a] else [a, a - 1]) of
             Some i \<Rightarrow> (let renamed' = renamed @ [(i, name)] in
               Option.bind (err renamed') (follow_uses err src unit c name n renamed'))
           | None \<Rightarrow> Some (renamed, reached)))"

definition rename_word :: "(rename list \<Rightarrow> nat option option) \<Rightarrow> string \<Rightarrow> ptoken list \<Rightarrow>
    rename list \<Rightarrow> nat \<Rightarrow> syntax_kind \<Rightarrow> (rename list \<times> nat option) option" where
  "rename_word err src unit base c name =
     (let renamed = base @ [(c, name)] in
      Option.bind (err renamed) (follow_uses err src unit c name MAX_FOLLOW renamed))"

definition NAMES :: "syntax_kind list" where
  "NAMES = [LowerIdent, UpperIdent]"

definition chains_at :: "ptoken list \<Rightarrow> nat \<Rightarrow> nat \<Rightarrow> bool" where
  "chains_at unit i err \<longleftrightarrow>
     i = err \<or> (i + 1 = err \<and> \<not> reserved unit err) \<or> before_enclosing_item unit i"

definition next_words :: "ptoken list \<Rightarrow> rename list \<Rightarrow> nat \<Rightarrow> nat \<Rightarrow> nat list" where
  "next_words unit renamed w a =
     sort_key (\<lambda>i. (i \<noteq> a, i + 1 \<noteq> a, i))
       (filter (\<lambda>i. reserved unit i \<and> \<not> list_ex (\<lambda>(r, _). r = i) renamed \<and> chains_at unit i a)
         [w + 1..<Suc (min a (length unit - 1))])"

section \<open>The chain search\<close>

text \<open>The budget is threaded through the search; the search over a list stops at the first success.\<close>

primrec any_within :: "('a \<Rightarrow> nat \<Rightarrow> (bool \<times> nat) option) \<Rightarrow> 'a list \<Rightarrow> nat \<Rightarrow> (bool \<times> nat) option" where
  "any_within f [] left = Some (False, left)"
| "any_within f (x # xs) left =
     Option.bind (f x left) (\<lambda>(found, left'). if found then Some (True, left') else any_within f xs left')"

type_synonym trial = "rename list \<Rightarrow> nat \<Rightarrow> syntax_kind \<Rightarrow> (rename list \<times> nat option) option"

type_synonym search = "rename list \<Rightarrow> nat \<Rightarrow> nat \<Rightarrow> (bool \<times> nat) option"

definition try_name :: "trial \<Rightarrow> (rename list \<Rightarrow> nat \<Rightarrow> nat \<Rightarrow> nat list) \<Rightarrow> search option \<Rightarrow>
    rename list \<Rightarrow> nat \<Rightarrow> syntax_kind \<Rightarrow> nat \<Rightarrow> (bool \<times> nat) option" where
  "try_name rn nx deeper base w name left =
     (if left = 0 then Some (False, 0)
      else Option.bind (rn base w name) (\<lambda>(renamed, reached).
        (case reached of
           None \<Rightarrow> Some (True, left - 1)
         | Some a \<Rightarrow>
             (case deeper of
                None \<Rightarrow> Some (False, left - 1)
              | Some go \<Rightarrow>
                  (if a \<le> w then Some (False, left - 1)
                   else any_within (go renamed) (nx renamed w a) (left - 1))))))"

primrec chain :: "trial \<Rightarrow> (rename list \<Rightarrow> nat \<Rightarrow> nat \<Rightarrow> nat list) \<Rightarrow> nat \<Rightarrow> search" where
  "chain rn nx 0 = (\<lambda>base w. any_within (try_name rn nx None base w) NAMES)"
| "chain rn nx (Suc depth) =
     (\<lambda>base w. any_within (try_name rn nx (Some (chain rn nx depth)) base w) NAMES)"

definition qualifies :: "nat pm \<Rightarrow> string \<Rightarrow> ptoken list \<Rightarrow> nat \<Rightarrow> nat \<Rightarrow> nat \<Rightarrow> bool option" where
  "qualifies ex src unit file plain c =
     (if c \<noteq> plain \<and> c + 1 \<noteq> plain \<and> \<not> before_enclosing_item unit c then Some False
      else
        (let chain_limit = length (filter (reserved unit) [0..<length unit]);
             depth = (if chains_at unit c plain then chain_limit else 0) in
         map_option fst (chain (rename_word (first_error ex src file unit) src unit) (next_words unit) depth
               [] c CHAIN_BUDGET)))"

primrec find_opt :: "('a \<Rightarrow> bool option) \<Rightarrow> 'a list \<Rightarrow> 'a option option" where
  "find_opt f [] = Some None"
| "find_opt f (x # xs) = Option.bind (f x) (\<lambda>found. if found then Some (Some x) else find_opt f xs)"

definition misused_word :: "nat pm \<Rightarrow> string \<Rightarrow> ptoken list \<Rightarrow> nat \<Rightarrow> nat option option" where
  "misused_word ex src unit file =
     Option.bind (first_error ex src file unit []) (\<lambda>first. case first of
        None \<Rightarrow> Some None
      | Some plain \<Rightarrow>
          find_opt (qualifies ex src unit file plain) (filter (reserved unit) [0..<length unit]))"

section \<open>Rewriting the diagnostics\<close>

definition unit_end :: "nat list \<Rightarrow> nat \<Rightarrow> ptoken list \<Rightarrow> nat" where
  "unit_end units j toks = (case nth_opt units j of Some e \<Rightarrow> e | None \<Rightarrow> length toks)"

definition tok_slice :: "ptoken list \<Rightarrow> nat \<Rightarrow> nat \<Rightarrow> ptoken list option" where
  "tok_slice toks a b = (if a \<le> b \<and> b \<le> length toks then Some (take (b - a) (drop a toks)) else None)"

definition set_opt :: "'a list \<Rightarrow> nat \<Rightarrow> 'a \<Rightarrow> 'a list option" where
  "set_opt xs i x = (if i < length xs then Some (xs[i := x]) else None)"

primrec fold_opt :: "('s \<Rightarrow> 'a \<Rightarrow> 's option) \<Rightarrow> 's \<Rightarrow> 'a list \<Rightarrow> 's option" where
  "fold_opt f s [] = Some s"
| "fold_opt f s (x # xs) = Option.bind (f s x) (\<lambda>s'. fold_opt f s' xs)"

definition name_reserved_word :: "nat pm \<Rightarrow> string \<Rightarrow> ptoken list \<Rightarrow> nat \<Rightarrow> nat list \<Rightarrow>
    diagnostic list \<Rightarrow> error_site \<Rightarrow> diagnostic list option" where
  "name_reserved_word ex src toks file units errors site = do {
     u0 \<leftarrow> nth_opt units (es_unit site);
     unit \<leftarrow> tok_slice toks u0 (unit_end units (es_unit site + 1) toks);
     word \<leftarrow> misused_word ex src unit file;
     (case word of
        None \<Rightarrow> Some errors
      | Some i \<Rightarrow> do {
          t \<leftarrow> nth_opt unit i;
          let msg = reserved_word_message (token_src src t);
          set_opt errors (es_diag site)
            (with_label (diagnostic_error ''E0001'' msg) (span_new file (pt_start t) (pt_end t)) msg)
        })
   }"

definition name_reserved_words :: "nat pm \<Rightarrow> string \<Rightarrow> ptoken list \<Rightarrow> nat \<Rightarrow> nat list \<Rightarrow>
    diagnostic list \<Rightarrow> error_site list \<Rightarrow> diagnostic list option" where
  "name_reserved_words ex src toks file units errors sites =
     fold_opt (name_reserved_word ex src toks file units) errors sites"

record joining =
  jn_errors :: "diagnostic list"
  jn_dropped :: "bool list"
  jn_joined :: "nat list"

definition join_unit :: "nat pm \<Rightarrow> string \<Rightarrow> ptoken list \<Rightarrow> nat \<Rightarrow> error_site list \<Rightarrow> nat list \<Rightarrow>
    joining \<Rightarrow> error_site \<Rightarrow> joining option" where
  "join_unit ex src toks file sites units st site = do {
     gone \<leftarrow> nth_opt (jn_dropped st) (es_diag site);
     (if gone \<or> es_unit site \<in> set (jn_joined st) then Some st
      else (case nth_opt units (es_unit site + 1) of
        None \<Rightarrow> Some st
      | Some next \<Rightarrow> do {
          t \<leftarrow> nth_opt toks next;
          (if pt_kind t \<noteq> LowerIdent then Some st
           else do {
             u0 \<leftarrow> nth_opt units (es_unit site);
             both \<leftarrow> tok_slice toks u0 (unit_end units (es_unit site + 2) toks);
             let fin = run_grammar_one_unit ex src both file;
             (if fin_fault fin then None
              else if fin_sites fin \<noteq> [] then Some st
              else do {
                errors \<leftarrow> set_opt (jn_errors st) (es_diag site) (with_label (diagnostic_error ''E0001'' INDENT_MESSAGE)
                  (span_new file (pt_start t) (pt_end t)) INDENT_MESSAGE);
                dropped \<leftarrow> fold_opt (\<lambda>d later. set_opt d (es_diag later) True) (jn_dropped st)
                  (filter (\<lambda>s. es_unit s = es_unit site + 1) sites);
                Some \<lparr>jn_errors = errors, jn_dropped = dropped, jn_joined = jn_joined st @ [es_unit site + 1]\<rparr>
              })
           })
        }))
   }"

definition join_units :: "nat pm \<Rightarrow> string \<Rightarrow> ptoken list \<Rightarrow> nat \<Rightarrow> diagnostic list \<Rightarrow>
    error_site list \<Rightarrow> nat list \<Rightarrow> joining option" where
  "join_units ex src toks file errors sites units =
     fold_opt (join_unit ex src toks file sites units)
       \<lparr>jn_errors = errors, jn_dropped = replicate (length errors) False, jn_joined = []\<rparr> sites"

text \<open>Whether a site keeps the grammar's own diagnostic.\<close>

definition still_named :: "joining \<Rightarrow> error_site \<Rightarrow> bool option" where
  "still_named st site = do {
     gone \<leftarrow> nth_opt (jn_dropped st) (es_diag site);
     (if gone then Some False
      else map_option (\<lambda>d. dg_message d \<noteq> INDENT_MESSAGE) (nth_opt (jn_errors st) (es_diag site)))
   }"

primrec filter_opt :: "('a \<Rightarrow> bool option) \<Rightarrow> 'a list \<Rightarrow> 'a list option" where
  "filter_opt f [] = Some []"
| "filter_opt f (x # xs) = do { keep \<leftarrow> f x; ys \<leftarrow> filter_opt f xs; Some (if keep then x # ys else ys) }"

text \<open>\<open>errors.retain\<close>: drop what is marked.\<close>

definition retain :: "bool list \<Rightarrow> 'a list \<Rightarrow> 'a list" where
  "retain dropped xs = map snd (filter (\<lambda>(d, _). \<not> d) (zip (dropped @ replicate (length xs) False) xs))"

definition explain_errors :: "nat pm \<Rightarrow> string \<Rightarrow> ptoken list \<Rightarrow> nat \<Rightarrow> diagnostic list \<Rightarrow>
    error_site list \<Rightarrow> nat list \<Rightarrow> diagnostic list option" where
  "explain_errors ex src toks file errors sites units = do {
     st \<leftarrow> join_units ex src toks file errors sites units;
     named \<leftarrow> filter_opt (still_named st) sites;
     errors' \<leftarrow> name_reserved_words ex src toks file units (jn_errors st) named;
     Some (retain (jn_dropped st) errors')
   }"

section \<open>Folding with panics\<close>

lemma fold_opt_inv:
  assumes "fold_opt f s xs = Some t" "P s" "\<And>s x t. x \<in> set xs \<Longrightarrow> P s \<Longrightarrow> f s x = Some t \<Longrightarrow> P t"
  shows "P t"
  using assms
proof (induction xs arbitrary: s)
  case (Cons x xs)
  then obtain s' where s': "f s x = Some s'" "fold_opt f s' xs = Some t" by (auto simp: bind_eq_Some_conv)
  show ?case by (rule Cons.IH[OF s'(2)]) (use Cons.prems s'(1) in auto)
qed simp

lemma fold_opt_total:
  assumes "P s" "\<And>s x. x \<in> set xs \<Longrightarrow> P s \<Longrightarrow> \<exists>t. f s x = Some t \<and> P t"
  shows "\<exists>t. fold_opt f s xs = Some t \<and> P t"
  using assms
proof (induction xs arbitrary: s)
  case (Cons x xs)
  then obtain s' where s': "f s x = Some s'" "P s'" by (meson list.set_intros(1))
  show ?case using Cons.IH[OF s'(2)] Cons.prems(2) s'(1) by auto
qed simp

section \<open>A named word is proved by a trial\<close>

lemma find_opt_Some: "find_opt f xs = Some (Some x) \<Longrightarrow> f x = Some True \<and> x \<in> set xs"
  by (induction xs) (auto simp: bind_eq_Some_conv split: if_splits)

lemma follow_uses_result:
  assumes "follow_uses err src unit c name n renamed reached = Some (renamed', reached')"
    and "err renamed = Some reached" and "\<forall>(i, k) \<in> set renamed. reserved unit i \<and> k \<in> set NAMES"
    and "name \<in> set NAMES"
  shows "err renamed' = Some reached' \<and> (\<exists>more. renamed' = renamed @ more) \<and>
    (\<forall>(i, k) \<in> set renamed'. reserved unit i \<and> k \<in> set NAMES)"
  using assms
proof (induction n arbitrary: renamed reached)
  case (Suc n)
  show ?case
  proof (cases reached)
    case None
    with Suc.prems show ?thesis by auto
  next
    case (Some a)
    let ?P = "\<lambda>i. reserved unit i \<and> \<not> list_ex (\<lambda>(r, _). r = i) renamed \<and>
      token_src src (unit ! i) = token_src src (unit ! c)"
    let ?f = "find ?P (if a = 0 then [a] else [a, a - 1])"
    show ?thesis
    proof (cases ?f)
      case None
      with Some Suc.prems show ?thesis by auto
    next
      case f: (Some i)
      then have "reserved unit i" by (auto simp: find_Some_iff)
      with Suc.prems have ok: "\<forall>(i, k) \<in> set (renamed @ [(i, name)]). reserved unit i \<and> k \<in> set NAMES" by auto
      obtain next_error where e: "err (renamed @ [(i, name)]) = Some next_error"
        "follow_uses err src unit c name n (renamed @ [(i, name)]) next_error = Some (renamed', reached')"
        using Suc.prems(1) Some f by (auto simp: Let_def bind_eq_Some_conv)
      from Suc.IH[OF e(2,1) ok Suc.prems(4)] show ?thesis by (metis append.assoc)
    qed
  qed
qed auto

lemma rename_word_result:
  assumes "rename_word err src unit base c name = Some (renamed, reached)"
    and "\<forall>(i, k) \<in> set base. reserved unit i \<and> k \<in> set NAMES" "reserved unit c" "name \<in> set NAMES"
  shows "err renamed = Some reached" "\<exists>more. renamed = base @ (c, name) # more"
    "\<forall>(i, k) \<in> set renamed. reserved unit i \<and> k \<in> set NAMES"
proof -
  obtain a where a: "err (base @ [(c, name)]) = Some a"
    "follow_uses err src unit c name MAX_FOLLOW (base @ [(c, name)]) a = Some (renamed, reached)"
    using assms(1) by (auto simp: rename_word_def Let_def bind_eq_Some_conv)
  have "\<forall>(i, k) \<in> set (base @ [(c, name)]). reserved unit i \<and> k \<in> set NAMES" using assms(2-4) by auto
  from follow_uses_result[OF a(2,1) this assms(4)]
  show "err renamed = Some reached" "\<exists>more. renamed = base @ (c, name) # more"
    "\<forall>(i, k) \<in> set renamed. reserved unit i \<and> k \<in> set NAMES" by auto
qed

lemma any_within_True: "any_within f xs b = Some (True, b2) \<Longrightarrow> \<exists>x \<in> set xs. \<exists>b' b''. f x b' = Some (True, b'')"
proof (induction xs arbitrary: b)
  case (Cons x xs)
  then obtain found left' where f: "f x b = Some (found, left')"
    "(if found then Some (True, left') else any_within f xs left') = Some (True, b2)"
    by (auto simp: bind_eq_Some_conv)
  show ?case
  proof (cases found)
    case True
    with f(1) show ?thesis by auto
  next
    case False
    with f(2) Cons.IH show ?thesis by auto
  qed
qed simp

text \<open>What a successful search has found: renames of reserved words that begin with the given ones
  and the start word, and that make the trial parse clean.\<close>

definition proved_by :: "(rename list \<Rightarrow> nat option option) \<Rightarrow> ptoken list \<Rightarrow> rename list \<Rightarrow> nat \<Rightarrow> bool" where
  "proved_by err unit base c \<longleftrightarrow> (\<exists>name \<in> set NAMES. \<exists>more. err (base @ (c, name) # more) = Some None \<and>
     (\<forall>(i, k) \<in> set (base @ (c, name) # more). reserved unit i \<and> k \<in> set NAMES))"

lemma try_name_proved:
  assumes t: "try_name (rename_word err src unit) (next_words unit) deeper base w name b = Some (True, b2)"
    and base: "\<forall>(i, k) \<in> set base. reserved unit i \<and> k \<in> set NAMES"
    and w: "reserved unit w" "name \<in> set NAMES"
    and deeper: "\<And>go base w b b2. deeper = Some go \<Longrightarrow> go base w b = Some (True, b2) \<Longrightarrow>
      \<forall>(i, k) \<in> set base. reserved unit i \<and> k \<in> set NAMES \<Longrightarrow> reserved unit w \<Longrightarrow>
      proved_by err unit base w"
  shows "proved_by err unit base w"
proof -
  obtain renamed reached where r: "rename_word err src unit base w name = Some (renamed, reached)"
    using t by (auto simp: try_name_def bind_eq_Some_conv split: if_splits)
  note rr = rename_word_result[OF r base w]
  show ?thesis
  proof (cases reached)
    case None
    with rr w(2) show ?thesis unfolding proved_by_def by metis
  next
    case (Some a)
    with t r obtain go where go: "deeper = Some go"
      "any_within (go renamed) (next_words unit renamed w a) (b - 1) = Some (True, b2)"
      by (auto simp: try_name_def split: if_splits option.splits)
    from any_within_True[OF go(2)] obtain w2 b' b'' where w2: "w2 \<in> set (next_words unit renamed w a)"
      "go renamed w2 b' = Some (True, b'')" by blast
    from w2(1) have "reserved unit w2" by (simp add: next_words_def)
    from deeper[OF go(1) w2(2) rr(3) this] obtain name2 more2 where
      "err (renamed @ (w2, name2) # more2) = Some None"
      "\<forall>(i, k) \<in> set (renamed @ (w2, name2) # more2). reserved unit i \<and> k \<in> set NAMES"
      by (auto simp: proved_by_def)
    moreover obtain more where "renamed = base @ (w, name) # more" using rr(2) by blast
    ultimately show ?thesis unfolding proved_by_def
      by (intro bexI[OF _ w(2)] exI[of _ "more @ (w2, name2) # more2"]) simp
  qed
qed

lemma chain_proved:
  assumes "chain (rename_word err src unit) (next_words unit) depth base w b = Some (True, b2)"
    and "\<forall>(i, k) \<in> set base. reserved unit i \<and> k \<in> set NAMES" "reserved unit w"
  shows "proved_by err unit base w"
  using assms
proof (induction depth arbitrary: base w b b2)
  case 0
  then obtain name b' b'' where
    t: "name \<in> set NAMES" "try_name (rename_word err src unit) (next_words unit) None base w name b' = Some (True, b'')"
    using any_within_True by fastforce
  show ?case by (rule try_name_proved[OF t(2) 0(2,3) t(1)]) simp
next
  case (Suc depth)
  let ?go = "chain (rename_word err src unit) (next_words unit) depth"
  from Suc.prems(1) obtain name b' b'' where
    t: "name \<in> set NAMES" "try_name (rename_word err src unit) (next_words unit) (Some ?go) base w name b' = Some (True, b'')"
    using any_within_True by fastforce
  show ?case
    by (rule try_name_proved[OF t(2) Suc.prems(2,3) t(1)]) (auto intro: Suc.IH)
qed

text \<open>The evaluation behind the witness: the unit \<open>else = 1\<close> fails at its first token, and parses with that
  token renamed.\<close>

abbreviation bare_token :: "syntax_kind \<Rightarrow> nat \<Rightarrow> nat \<Rightarrow> ptoken" where
 "bare_token k a b \<equiv> \<lparr>pt_kind = k, pt_start = a, pt_end = b, pt_newline_before = False, pt_col = a + 1, pt_ws_before = True\<rparr>"
lemmas trial_defs = first_error_def within_def min_site_def run_grammar_def new_file_def trial_faults_def finish_def apply_renames_def
  lexical_units_def unit_step_def last_opt_def with_units_def nth_opt_def source_file_def node_def start_def
  final_begin_unit when_p_def at_def current_def tok_def while_p_def while_acc_def loop_p_def with_indent_def
  top_level_step_def at_end_def at_any_def DECL_START_def at_block_boundary_def newline_before_def col_def
  err_recover_def error_def complete_def bump_def do_bump_def decl_def value_or_anno_def param_list_def expect_def
  eat_def leaf_node_def cur_span_def limit_of_def PAT_ATOM_START_def err_and_bump_def
lemma else_renamed_parses: "first_error (leaf_node Literal) ''else = 1'' 0 [bare_token ElseKw 0 4, bare_token Eq 5 6, bare_token IntK 7 8] [(0, LowerIdent)] = Some None"
  by (simp add: trial_defs upt_rec)
lemma else_kept_fails: "first_error (leaf_node Literal) ''else = 1'' 0 [bare_token ElseKw 0 4, bare_token Eq 5 6, bare_token IntK 7 8] [] = Some (Some 0)"
  by (simp add: trial_defs upt_rec)

lemma follow_uses_done: "follow_uses err src unit c name n renamed None = Some (renamed, None)"
  by (cases n) simp_all

lemma chain_at_once:
  assumes "err (base @ [(w, LowerIdent)]) = Some None" "0 < left"
  shows "map_option fst (chain (rename_word err src unit) nx depth base w left) = Some True"
  using assms by (cases depth) (simp_all add: NAMES_def try_name_def rename_word_def follow_uses_done)

lemma else_is_misused: "misused_word (leaf_node Literal) ''else = 1'' [bare_token ElseKw 0 4, bare_token Eq 5 6, bare_token IntK 7 8] 0 = Some (Some 0)"
proof -
  let ?u = "[bare_token ElseKw 0 4, bare_token Eq 5 6, bare_token IntK 7 8]"
  have r: "filter (reserved ?u) [0..<length ?u] = [0]"
    by (simp add: reserved_def nth_opt_def is_reserved_word_def upt_rec)
  have q: "qualifies (leaf_node Literal) ''else = 1'' ?u 0 0 0 = Some True"
    unfolding qualifies_def Let_def by (simp add: chain_at_once else_renamed_parses[simplified] CHAIN_BUDGET_def)
  show ?thesis unfolding misused_word_def r using else_kept_fails q by simp
qed

text \<open>C16: A reserved word is named as misused only when a trial proves it. If \<open>misused_word\<close> returns
  the token \<open>i\<close>, then the unit by itself has a syntax error, \<open>i\<close> is a reserved word of the unit, and
  there are renames, of \<open>i\<close> first and otherwise only of reserved words of the unit, to fresh names,
  with which the whole unit parses with no error. The further words may stand after \<open>i\<close> or before it: the loop
  that follows the uses of a word also finds an earlier one (\<open>earlier_use_followed\<close>), though the comments of the code
  speak of later uses only.\<close>

theorem misused_word_proved:
  assumes "misused_word ex src unit file = Some (Some i)"
  shows "i < length unit \<and> is_reserved_word (pt_kind (unit ! i)) \<and>
    fin_sites (run_grammar ex src unit file) \<noteq> [] \<and>
    (\<exists>name more. fin_sites (run_grammar ex src (apply_renames unit ((i, name) # more)) file) = [] \<and>
       (\<forall>(j, k) \<in> set ((i, name) # more). j < length unit \<and> is_reserved_word (pt_kind (unit ! j)) \<and>
          (k = LowerIdent \<or> k = UpperIdent)))"
proof (intro conjI)
  let ?err = "first_error ex src file unit"
  have res: "reserved unit j \<longleftrightarrow> j < length unit \<and> is_reserved_word (pt_kind (unit ! j))" for j
    by (simp add: reserved_def nth_opt_def)
  have none: "fin_sites (run_grammar ex src (apply_renames unit r) file) = [] \<longleftrightarrow> e = None" if "?err r = Some e" for r e
    using that by (cases "fin_sites (run_grammar ex src (apply_renames unit r) file)")
      (auto simp: first_error_def min_site_def Let_def split: if_splits)
  from assms obtain plain where plain: "?err [] = Some (Some plain)"
    and q: "qualifies ex src unit file plain i = Some True" "reserved unit i"
    by (auto simp: misused_word_def bind_eq_Some_conv split: option.splits dest!: find_opt_Some)
  from q(2) show "i < length unit" "is_reserved_word (pt_kind (unit ! i))" by (simp_all add: res)
  show "fin_sites (run_grammar ex src unit file) \<noteq> []"
    using none[OF plain] by (simp add: apply_renames_def)
  from q(1) have eligible: "\<not> (i \<noteq> plain \<and> i + 1 \<noteq> plain \<and> \<not> before_enclosing_item unit i)" by (auto simp: qualifies_def split: if_splits)
  obtain depth b2 where "chain (rename_word ?err src unit) (next_words unit) depth [] i CHAIN_BUDGET = Some (True, b2)"
    using q(1)[unfolded qualifies_def Let_def if_not_P[OF eligible]] by (auto simp del: chain.simps)
  then have "proved_by ?err unit [] i" by (rule chain_proved) (use q in simp_all)
  then obtain name more where p: "name \<in> set NAMES" "?err ((i, name) # more) = Some None"
    "\<forall>(j, k) \<in> set ((i, name) # more). reserved unit j \<and> k \<in> set NAMES"
    by (auto simp: proved_by_def)
  show "\<exists>name more. fin_sites (run_grammar ex src (apply_renames unit ((i, name) # more)) file) = [] \<and>
       (\<forall>(j, k) \<in> set ((i, name) # more). j < length unit \<and> is_reserved_word (pt_kind (unit ! j)) \<and>
          (k = LowerIdent \<or> k = UpperIdent))"
    using none[OF p(2)] p(3) by (intro exI[of _ name] exI[of _ more]) (auto simp: res NAMES_def)
qed

theorem misused_word_proved_witness:
  "\<exists>name more. fin_sites (run_grammar (leaf_node Literal) ''else = 1''
       (apply_renames [bare_token ElseKw 0 4, bare_token Eq 5 6, bare_token IntK 7 8] ((0, name) # more)) 0) = []"
  using misused_word_proved[OF else_is_misused] by blast

text \<open>After the second \<open>let\<close> of \<open>let x let\<close> is renamed, an error at \<open>x\<close> makes the loop rename the first \<open>let\<close> too.\<close>

lemma earlier_use_followed:
  "rename_word (\<lambda>r. Some (if length r = 1 then Some 1 else None)) ''let x let''
     [bare_token LetKw 0 3, bare_token LowerIdent 4 5, bare_token LetKw 6 9] [] 2 LowerIdent =
   Some ([(2, LowerIdent), (0, LowerIdent)], None)"
  by (simp add: rename_word_def MAX_FOLLOW_def eval_nat_numeral reserved_def nth_opt_def is_reserved_word_def token_src_def slice_def)

section \<open>Nothing panics\<close>

lemma within_append: "within unit (xs @ ys) \<longleftrightarrow> within unit xs \<and> within unit ys"
  by (simp add: within_def)

lemma reserved_within: "reserved unit i \<Longrightarrow> i < length unit"
  by (simp add: reserved_def nth_opt_def split: if_splits)

definition total_on :: "ptoken list \<Rightarrow> (rename list \<Rightarrow> nat option option) \<Rightarrow> bool" where
  "total_on unit err \<longleftrightarrow> (\<forall>r. within unit r \<longrightarrow> (\<exists>e. err r = Some e))"

lemma total_onD: "total_on unit err \<Longrightarrow> within unit r \<Longrightarrow> \<exists>e. err r = Some e"
  by (simp add: total_on_def)

lemma follow_uses_total:
  assumes "total_on unit err" "within unit renamed"
  shows "\<exists>r a. follow_uses err src unit c name n renamed reached = Some (r, a) \<and> within unit r"
  using assms(2)
proof (induction n arbitrary: renamed reached)
  case (Suc n)
  show ?case
  proof (cases reached)
    case (Some a)
    let ?P = "\<lambda>i. reserved unit i \<and> \<not> list_ex (\<lambda>(r, _). r = i) renamed \<and>
      token_src src (unit ! i) = token_src src (unit ! c)"
    show ?thesis
    proof (cases "find ?P (if a = 0 then [a] else [a, a - 1])")
      case f: (Some i)
      then have "reserved unit i" by (auto simp: find_Some_iff)
      then have w: "within unit (renamed @ [(i, name)])"
        using Suc.prems reserved_within by (auto simp: within_append) (simp add: within_def)
      with assms(1) obtain e where "err (renamed @ [(i, name)]) = Some e" using total_onD by blast
      then show ?thesis using Suc.IH[OF w, of e] Some f by (simp add: Let_def)
    qed (use Some Suc.prems in auto)
  qed (use Suc.prems in auto)
qed simp

lemma rename_word_total:
  assumes "total_on unit err" "within unit base" "c < length unit"
  shows "\<exists>r a. rename_word err src unit base c name = Some (r, a) \<and> within unit r"
proof -
  have w: "within unit (base @ [(c, name)])" using assms(2,3) by (simp add: within_append) (simp add: within_def)
  with assms(1) obtain e where "err (base @ [(c, name)]) = Some e" using total_onD by blast
  then show ?thesis using follow_uses_total[OF assms(1) w] by (simp add: rename_word_def)
qed

lemma any_within_total: "(\<And>x b. x \<in> set xs \<Longrightarrow> f x b \<noteq> None) \<Longrightarrow> any_within f xs b \<noteq> None"
proof (induction xs arbitrary: b)
  case (Cons x xs)
  then obtain found left' where "f x b = Some (found, left')" by fastforce
  with Cons show ?case by (cases found) auto
qed simp

lemma try_name_total:
  assumes "total_on unit err" "within unit base" "w < length unit"
    and "\<And>go base w b. deeper = Some go \<Longrightarrow> within unit base \<Longrightarrow> w < length unit \<Longrightarrow> go base w b \<noteq> None"
  shows "try_name (rename_word err src unit) (next_words unit) deeper base w name b \<noteq> None"
proof -
  obtain r a where r: "rename_word err src unit base w name = Some (r, a)" "within unit r"
    using rename_word_total[OF assms(1-3)] by blast
  have "any_within (go r) (next_words unit r w at) left \<noteq> None" if "deeper = Some go" for go at left
    by (rule any_within_total) (use assms(4)[OF that r(2)] reserved_within in \<open>auto simp: next_words_def\<close>)
  then show ?thesis using r(1) by (auto simp: try_name_def split: option.splits)
qed

lemma chain_total:
  assumes "total_on unit err"
  shows "within unit base \<Longrightarrow> w < length unit \<Longrightarrow>
    chain (rename_word err src unit) (next_words unit) depth base w b \<noteq> None"
proof (induction depth arbitrary: base w b)
  case 0
  show ?case unfolding chain.simps by (intro any_within_total try_name_total assms) (use 0 in auto)
next
  case (Suc depth)
  show ?case unfolding chain.simps by (intro any_within_total try_name_total assms) (use Suc in auto)
qed

lemma find_opt_total: "(\<And>x. x \<in> set xs \<Longrightarrow> f x \<noteq> None) \<Longrightarrow> find_opt f xs \<noteq> None"
proof (induction xs)
  case (Cons x xs)
  then obtain found where "f x = Some found" by fastforce
  with Cons show ?case by (cases found) auto
qed simp

lemma toks_in_renames: "toks_in src unit \<Longrightarrow> toks_in src (apply_renames unit r)"
proof (induction r arbitrary: unit)
  case (Cons x r)
  obtain i k where x: "x = (i, k)" by fastforce
  have "toks_in src (unit[i := (unit ! i)\<lparr>pt_kind := k\<rparr>])"
  proof (cases "i < length unit")
    case True
    then have "unit ! i \<in> set unit" by simp
    then show ?thesis using Cons.prems unfolding toks_in_def by (auto dest!: set_update_subset_insert[THEN subsetD])
  qed (use Cons.prems in \<open>simp add: list_update_beyond\<close>)
  from Cons.IH[OF this] show ?case by (simp add: apply_renames_def x)
qed (simp add: apply_renames_def)

lemma misused_word_total:
  assumes "\<And>toks. toks_in src toks \<Longrightarrow> \<not> fin_fault (run_grammar ex src toks file)" "toks_in src unit"
  shows "\<exists>w. misused_word ex src unit file = Some w \<and> (\<forall>i. w = Some i \<longrightarrow> i < length unit)"
proof -
  have err: "total_on unit (first_error ex src file unit)"
    using assms(1)[OF toks_in_renames[OF assms(2)]] by (simp add: total_on_def first_error_def Let_def)
  have "qualifies ex src unit file plain c \<noteq> None" if "c < length unit" for plain c
    using chain_total[OF err, of "[]" c src] that by (auto simp: qualifies_def Let_def within_def)
  then have "find_opt (qualifies ex src unit file plain) (filter (reserved unit) [0..<length unit]) \<noteq> None" for plain
    by (intro find_opt_total) auto
  moreover have "\<exists>e. first_error ex src file unit [] = Some e" using total_onD[OF err] by (simp add: within_def)
  ultimately have "misused_word ex src unit file \<noteq> None" by (auto simp: misused_word_def split: option.splits)
  moreover have "i < length unit" if "misused_word ex src unit file = Some (Some i)" for i
    using that by (auto simp: misused_word_def bind_eq_Some_conv split: option.splits dest!: find_opt_Some)
  ultimately show ?thesis by auto
qed

lemma toks_in_slice: "toks_in src toks \<Longrightarrow> tok_slice toks a b = Some unit \<Longrightarrow> toks_in src unit"
  by (auto simp: toks_in_def tok_slice_def split: if_splits dest!: in_set_takeD in_set_dropD)

lemma slice_between:
  assumes "sorted_wrt (<) units" "set units \<subseteq> {..<length toks}" "k < length units" "k < j"
  shows "\<exists>unit. tok_slice toks (units ! k) (unit_end units j toks) = Some unit"
proof -
  have "units ! k < length toks" using assms(2,3) nth_mem by blast
  moreover have "units ! k \<le> units ! j" "units ! j < length toks" if "j < length units"
    using assms(4) that sorted_wrt_nth_less[OF assms(1), of k j] subsetD[OF assms(2) nth_mem[OF that]] by auto
  ultimately show ?thesis by (auto simp: tok_slice_def unit_end_def nth_opt_def)
qed

lemma filter_opt_total: "(\<And>x. x \<in> set xs \<Longrightarrow> f x \<noteq> None) \<Longrightarrow> \<exists>ys. filter_opt f xs = Some ys \<and> set ys \<subseteq> set xs"
proof (induction xs)
  case (Cons x xs)
  then obtain b where "f x = Some b" by fastforce
  with Cons show ?case by fastforce
qed simp

definition jn_ok :: "nat \<Rightarrow> joining \<Rightarrow> bool" where
  "jn_ok n st \<longleftrightarrow> length (jn_errors st) = n \<and> length (jn_dropped st) = n"

lemma mark_total:
  assumes "\<And>s. s \<in> set ss \<Longrightarrow> es_diag s < length d"
  shows "\<exists>d'. fold_opt (\<lambda>d later. set_opt d (es_diag later) True) d ss = Some d' \<and> length d' = length d"
  by (rule fold_opt_total[where P = "\<lambda>d'. length d' = length d"]) (use assms in \<open>auto simp: set_opt_def\<close>)

lemma join_unit_total:
  assumes trial: "\<And>toks. toks_in src toks \<Longrightarrow> \<not> fin_fault (run_grammar_one_unit ex src toks file)"
    and toks: "toks_in src toks" and units: "sorted_wrt (<) units" "set units \<subseteq> {..<length toks}"
    and sites: "list_all (\<lambda>s. es_unit s < length units \<and> es_diag s < n) sites"
    and site: "site \<in> set sites" and st: "jn_ok n st"
  shows "\<exists>st'. join_unit ex src toks file sites units st site = Some st' \<and> jn_ok n st'"
proof -
  have s: "es_unit site < length units" "es_diag site < n" using sites site by (auto simp: list_all_iff)
  obtain gone where gone: "nth_opt (jn_dropped st) (es_diag site) = Some gone"
    using st s(2) by (simp add: nth_opt_def jn_ok_def)
  obtain u0 where u0: "nth_opt units (es_unit site) = Some u0" "u0 = units ! es_unit site" using s(1) by (simp add: nth_opt_def)
  obtain both where both: "tok_slice toks u0 (unit_end units (es_unit site + 2) toks) = Some both"
    using slice_between[OF units s(1), of "es_unit site + 2"] u0(2) by auto
  have fin: "\<not> fin_fault (run_grammar_one_unit ex src both file)" using trial toks_in_slice[OF toks both] by blast
  have later: "\<exists>d. fold_opt (\<lambda>d later. set_opt d (es_diag later) True) (jn_dropped st)
      (filter (\<lambda>s. es_unit s = es_unit site + 1) sites) = Some d \<and> length d = n"
    using mark_total[of "filter (\<lambda>s. es_unit s = es_unit site + 1) sites" "jn_dropped st"] sites st
    by (auto simp: list_all_iff jn_ok_def)
  have next_tok: "\<exists>t. nth_opt toks next = Some t" if "nth_opt units (es_unit site + 1) = Some next" for "next"
    using that subsetD[OF units(2) nth_mem] by (auto simp: nth_opt_def split: if_splits)
  have errs: "\<exists>e. set_opt (jn_errors st) (es_diag site) x = Some e \<and> length e = n" for x
    using st s(2) by (simp add: set_opt_def jn_ok_def)
  show ?thesis
  proof (cases "gone \<or> es_unit site \<in> set (jn_joined st) \<or> nth_opt units (es_unit site + 1) = None")
    case True
    then show ?thesis using st gone by (auto simp: join_unit_def)
  next
    case False
    then obtain "next" t where t: "nth_opt units (es_unit site + 1) = Some next" "nth_opt toks next = Some t"
      using next_tok by blast
    obtain e d where ed: "set_opt (jn_errors st) (es_diag site) (with_label (diagnostic_error ''E0001'' INDENT_MESSAGE)
        (span_new file (pt_start t) (pt_end t)) INDENT_MESSAGE) = Some e" "length e = n"
      "fold_opt (\<lambda>d later. set_opt d (es_diag later) True) (jn_dropped st)
        (filter (\<lambda>s. es_unit s = es_unit site + 1) sites) = Some d" "length d = n"
      using errs later by blast
    show ?thesis using False st t gone u0(1) both fin ed
      by (cases "pt_kind t \<noteq> LowerIdent \<or> fin_sites (run_grammar_one_unit ex src both file) \<noteq> []")
        (auto simp: join_unit_def jn_ok_def)
  qed
qed

lemma name_reserved_word_total:
  assumes trial: "\<And>toks. toks_in src toks \<Longrightarrow> \<not> fin_fault (run_grammar ex src toks file)"
    and toks: "toks_in src toks" and units: "sorted_wrt (<) units" "set units \<subseteq> {..<length toks}"
    and s: "es_unit site < length units" "es_diag site < length errors"
  shows "\<exists>e. name_reserved_word ex src toks file units errors site = Some e \<and> length e = length errors"
proof -
  obtain unit where unit: "tok_slice toks (units ! es_unit site) (unit_end units (es_unit site + 1) toks) = Some unit"
    using slice_between[OF units s(1), of "es_unit site + 1"] by auto
  obtain w where w: "misused_word ex src unit file = Some w" "\<And>i. w = Some i \<Longrightarrow> i < length unit"
    using misused_word_total[OF trial toks_in_slice[OF toks unit]] by blast
  show ?thesis
  proof (cases w)
    case None
    then show ?thesis using unit w(1) s(1) by (simp add: name_reserved_word_def nth_opt_def)
  next
    case (Some i)
    then show ?thesis using unit w s by (simp add: name_reserved_word_def nth_opt_def set_opt_def Let_def)
  qed
qed

lemma explain_errors_total:
  assumes trial: "\<And>toks. toks_in src toks \<Longrightarrow>
      \<not> fin_fault (run_grammar ex src toks file) \<and> \<not> fin_fault (run_grammar_one_unit ex src toks file)"
    and toks: "toks_in src toks" and units: "sorted_wrt (<) units" "set units \<subseteq> {..<length toks}"
    and sites: "list_all (\<lambda>s. es_unit s < length units \<and> es_diag s < length errors) sites"
  shows "\<exists>es. explain_errors ex src toks file errors sites units = Some es"
proof -
  let ?n = "length errors"
  have "\<exists>st. join_units ex src toks file errors sites units = Some st \<and> jn_ok ?n st"
    unfolding join_units_def
  proof (rule fold_opt_total)
    show "jn_ok ?n \<lparr>jn_errors = errors, jn_dropped = replicate ?n False, jn_joined = []\<rparr>" by (simp add: jn_ok_def)
    show "\<exists>t. join_unit ex src toks file sites units st site = Some t \<and> jn_ok ?n t"
      if "site \<in> set sites" "jn_ok ?n st" for st site
      by (rule join_unit_total[OF _ toks units sites that]) (use trial in blast)
  qed
  then obtain st where st: "join_units ex src toks file errors sites units = Some st" "jn_ok ?n st" by blast
  have "still_named st s \<noteq> None" if "s \<in> set sites" for s
    using that sites st(2) by (auto simp: still_named_def nth_opt_def jn_ok_def list_all_iff)
  then obtain named where named: "filter_opt (still_named st) sites = Some named" "set named \<subseteq> set sites"
    using filter_opt_total by blast
  have "\<exists>e. name_reserved_words ex src toks file units (jn_errors st) named = Some e \<and> length e = ?n"
    unfolding name_reserved_words_def
  proof (rule fold_opt_total)
    show "length (jn_errors st) = ?n" using st(2) by (simp add: jn_ok_def)
    fix e :: "diagnostic list" and site assume e: "site \<in> set named" "length e = ?n"
    then have "es_unit site < length units" "es_diag site < length e" using named(2) sites by (auto simp: list_all_iff)
    from name_reserved_word_total[OF _ toks units this, of ex "file"] trial e(2)
    show "\<exists>e'. name_reserved_word ex src toks file units e site = Some e' \<and> length e' = ?n" by simp
  qed
  then show ?thesis using st(1) named(1) by (auto simp: explain_errors_def)
qed

section \<open>Explaining never hides that there is an error\<close>

lemma length_name_reserved_words:
  assumes "name_reserved_words ex src toks file units errors sites = Some errors'"
  shows "length errors' = length errors"
  using assms unfolding name_reserved_words_def
  by (rule fold_opt_inv[where P = "\<lambda>e. length e = length errors"])
    (auto simp: name_reserved_word_def set_opt_def bind_eq_Some_conv Let_def split: option.splits if_splits)

lemma marked:
  assumes "fold_opt (\<lambda>d s. set_opt d (es_diag s) True) d ss = Some d'"
  shows "length d' = length d \<and> (k \<notin> es_diag ` set ss \<longrightarrow> d' ! k = d ! k)"
  using assms by (rule fold_opt_inv[where P = "\<lambda>d'. length d' = length d \<and> (k \<notin> es_diag ` set ss \<longrightarrow> d' ! k = d ! k)"])
    (auto simp: set_opt_def nth_list_update split: if_splits)

lemma join_unit_result:
  assumes "join_unit ex src toks file sites units st site = Some st'"
  shows "jn_ok n st \<Longrightarrow> jn_ok n st'"
    "k \<notin> es_diag ` set (filter (\<lambda>s. es_unit s = es_unit site + 1) sites) \<Longrightarrow> jn_dropped st' ! k = jn_dropped st ! k"
  using assms marked[of "jn_dropped st" "filter (\<lambda>s. es_unit s = es_unit site + 1) sites" _ k]
  by (auto simp: join_unit_def jn_ok_def set_opt_def bind_eq_Some_conv Let_def split: option.splits if_splits)

lemma join_units_ok:
  assumes "join_units ex src toks file errors sites units = Some st"
  shows "jn_ok (length errors) st"
  using assms unfolding join_units_def
  by (rule fold_opt_inv[where P = "jn_ok (length errors)"]) (simp add: jn_ok_def, erule join_unit_result(1), assumption)

text \<open>A site is only dropped by a site of the unit before it, so the first one stays.\<close>

lemma first_site_kept:
  assumes diags: "map es_diag sites = [0..<length errors]"
    and units: "sorted_wrt (<) (map es_unit sites)" and ne: "sites \<noteq> []"
    and st: "join_units ex src toks file errors sites units' = Some st"
  shows "\<not> jn_dropped st ! 0"
proof -
  obtain s0 rest where s0: "sites = s0 # rest" using ne by (cases sites) auto
  have len: "0 < length errors" using arg_cong[OF diags, of length] s0
    by (simp flip: length_greater_0_conv)
  have low: "es_unit s0 \<le> es_unit s" if "s \<in> set sites" for s
    using that units by (auto simp: s0 less_imp_le)
  have diag0: "es_unit s = es_unit s0" if "s \<in> set sites" "es_diag s = 0" for s
  proof -
    from that(1) obtain k where k: "k < length sites" "sites ! k = s" by (auto simp: in_set_conv_nth)
    then have "map es_diag sites ! k = es_diag s" by simp
    moreover have "length sites = length errors" using arg_cong[OF diags, of length] by simp
    ultimately have "k = 0" using diags that(2) k(1) by (simp add: nth_upt)
    with k s0 show ?thesis by simp
  qed
  have "0 \<notin> es_diag ` set (filter (\<lambda>t. es_unit t = es_unit s + 1) sites)" if "s \<in> set sites" for s
    using diag0 low[OF that] by fastforce
  then show ?thesis using st unfolding join_units_def
    by (elim fold_opt_inv[where P = "\<lambda>st. \<not> jn_dropped st ! 0"]) (use len in \<open>auto simp: join_unit_result(2)\<close>)
qed

lemma length_retain: "length (retain d xs) \<le> length xs"
  unfolding retain_def using length_filter_le[of _ "zip (d @ replicate (length xs) False) xs"] by (simp add: le_trans)

lemma retain_first: "d \<noteq> [] \<Longrightarrow> \<not> d ! 0 \<Longrightarrow> xs \<noteq> [] \<Longrightarrow> retain d xs \<noteq> []"
  by (cases d; cases xs) (auto simp: retain_def)

lemma explain_errors_empty:
  assumes "map es_diag sites = [0..<length errors]" "sorted_wrt (<) (map es_unit sites)"
    and "explain_errors ex src toks file errors sites units = Some es"
  shows "es = [] \<longleftrightarrow> sites = []" "length es \<le> length errors"
proof -
  obtain st named errors' where st: "join_units ex src toks file errors sites units = Some st"
    "filter_opt (still_named st) sites = Some named"
    "name_reserved_words ex src toks file units (jn_errors st) named = Some errors'" "es = retain (jn_dropped st) errors'"
    using assms(3) by (auto simp: explain_errors_def bind_eq_Some_conv)
  have len: "length errors' = length errors" "length (jn_dropped st) = length errors"
    using length_name_reserved_words[OF st(3)] join_units_ok[OF st(1)] by (simp_all add: jn_ok_def)
  show "length es \<le> length errors" using length_retain[of "jn_dropped st" errors'] len(1) st(4) by simp
  show "es = [] \<longleftrightarrow> sites = []"
  proof (cases "sites = []")
    case True
    with assms(1) have "errors = []" by (cases errors) auto
    with len(1) True st(4) show ?thesis by (simp add: retain_def)
  next
    case False
    then have "0 < length errors" using assms(1) by (cases errors) auto
    then have "jn_dropped st \<noteq> []" "errors' \<noteq> []" using len by auto
    from retain_first[OF this(1) first_site_kept[OF assms(1,2) False st(1)] this(2)] False st(4) show ?thesis by simp
  qed
qed

end
