(* ===== verification/Parse.thy ===== *)
theory Parse
  imports Explain
begin

text \<open>
  \<open>parse\<close> and the \<open>Parse\<close> value of \<open>rust/crates/syntax/src/lib.rs\<close>: lexing, layout, the grammar, the
  explanation of its errors and the replay into a green tree, composed as the source composes them.
  \<open>None\<close> is a panic, or a loop that does not end.
\<close>

record parse_result =
  pr_green :: green
  pr_errors :: "diagnostic list"
  pr_depth :: nat

definition parse :: "unicode \<Rightarrow> scanner \<Rightarrow> (bcall list \<Rightarrow> green option) \<Rightarrow> string \<Rightarrow> nat \<Rightarrow>
    parse_result option" where
  "parse u scan rowan src file = (case lex u scan src of
     None \<Rightarrow> None
   | Some raw \<Rightarrow>
       (let toks = layout src raw;
            ex = Interp.expr u scan rowan;
            p = final (source_file ex) (new_file ex src toks file);
            fin = finish p in
        if p_fault p then None
        else Option.bind (explain_errors ex src toks file (fin_diags fin) (fin_sites fin) (fin_units fin)) (\<lambda>errors.
          map_option (\<lambda>(green, depth). \<lparr>pr_green = green, pr_errors = errors, pr_depth = depth\<rparr>)
            (build_tree rowan src raw (fin_events fin)))))"

definition reprint :: "parse_result \<Rightarrow> string" where
  "reprint r = green_text (pr_green r)"

fun green_kinds :: "green \<Rightarrow> syntax_kind list" where
  "green_kinds (GToken k t) = []"
| "green_kinds (GNode k ts) = kind_from_raw k # concat (map green_kinds ts)"

definition error_node_count :: "parse_result \<Rightarrow> nat" where
  "error_node_count r = length (filter (\<lambda>k. k = Error) (green_kinds (pr_green r)))"

section \<open>A run over tokens of the source\<close>

lemma toks_in_layout:
  assumes "tiles 0 raw (length src)"
  shows "toks_in src (layout src raw)"
  using tiles_bounds[OF assms layout_token_in_raw] by (fastforce simp: toks_in_def strip_def)

lemma green_kinds_in: "nodes_in K (calls_of t) \<Longrightarrow> set (green_kinds t) \<subseteq> K"
proof (induction t)
  case (GNode k ts)
  then have "nodes_in K (concat (map calls_of ts))" by simp
  then have "nodes_in K (calls_of t)" if "t \<in> set ts" for t
    using that by (auto simp: nodes_in_def)
  with GNode show ?case by auto
qed simp

context parser_env
begin

lemma source_file_total:
  fixes fid :: nat
  assumes "toks_in src toks" "length src < 2 ^ 32" "units_ok units (length toks)"
  defines "p \<equiv> final (source_file ex) (with_units src toks fid units)"
  obtains es where "p_events p = Start SourceFile None # es @ [Finish]" "forest es"
    "cov toks es (0, 0) = Some (length toks, tok_end toks (length toks))"
    "\<not> p_fault p" "p_pos p = length toks" "sites_ok p" "p_units p = units" "p_toks p = toks"
    "p_block_indent p = 0" "p_depth p = 0" "error_free es \<or> p_sites p \<noteq> []"
proof -
  have t: "tinv (with_units src toks fid units)" by (rule tinv_with_units[OF assms(1-3)])
  obtain es where es: "forest es" "p_events p = [] @ Start SourceFile None # es @ [Finish]"
    "cov toks es (0, tok_end toks 0) = Some (here p)" "tops (with_units src toks fid units) p"
    "p_pos p = length toks" "error_free es \<or> p_sites p \<noteq> []"
    using source_file_run[OF t] by (auto simp: p_def with_units_def here_def)
  then show ?thesis
    by (intro that[of es])
      (auto simp: tops_def tinv_def inv_def here_def with_units_def tok_end_def unit_ok_def)
qed

text \<open>No run faults, and no trial that a run makes.\<close>

lemma one_unit_total:
  fixes fid :: nat
  assumes "toks_in src toks" "length src < 2 ^ 32"
  shows "\<not> fin_fault (run_grammar_one_unit ex src toks fid)"
  by (rule source_file_total[OF assms units_ok_one, where fid = fid])
    (simp add: run_grammar_one_unit_def parser_new_def finish_def)

lemma new_file_units:
  fixes fid :: nat
  assumes "toks_in src toks" "length src < 2 ^ 32"
  shows "new_file ex src toks fid = with_units src toks fid (lexical_units ex src toks fid)"
proof -
  have "\<not> fin_fault (snd r)" if r: "alias_trial ex src toks units i fid = Some r" for units i r
  proof -
    have "toks_in src (take n (drop m toks))" for n m
      using assms(1) by (auto simp: toks_in_def dest!: in_set_takeD in_set_dropD)
    from one_unit_total[OF this assms(2)] r show ?thesis by (auto simp: alias_trial_def split: if_splits)
  qed
  then have "\<not> trial_faults ex src toks fid"
    by (auto simp: trial_faults_def list_ex_iff split: option.splits)
  then show ?thesis by (simp add: new_file_def with_units_def)
qed

lemma run_total:
  fixes fid :: nat
  assumes "toks_in src toks" "length src < 2 ^ 32"
  shows "\<not> fin_fault (run_grammar ex src toks fid)"
  by (rule source_file_total[OF assms units_ok_lexical[of ex _ _ fid], where fid = fid])
    (simp add: run_grammar_def new_file_units[OF assms] finish_def)

lemma run_sites:
  fixes fid :: nat
  assumes "toks_in src toks" "length src < 2 ^ 32"
  defines "fin \<equiv> run_grammar ex src toks fid"
  shows "map es_diag (fin_sites fin) = [0..<length (fin_diags fin)]"
    "sorted_wrt (<) (map es_unit (fin_sites fin))"
    "\<forall>s \<in> set (fin_sites fin). site_ok (fin_units fin) (length toks) s"
    "fin_units fin = lexical_units ex src toks fid"
proof -
  let ?units = "lexical_units ex src toks fid"
  let ?p = "final (source_file ex) (with_units src toks fid ?units)"
  obtain es where p: "sites_ok ?p" "p_units ?p = ?units" "p_toks ?p = toks"
    by (rule source_file_total[OF assms(1,2) units_ok_lexical[of ex _ _ fid], where fid = fid])
  have fin: "fin_sites fin = p_sites ?p" "fin_diags fin = p_diags ?p" "fin_units fin = ?units"
    using p by (simp_all add: fin_def run_grammar_def new_file_units[OF assms(1,2)] finish_def)
  show "map es_diag (fin_sites fin) = [0..<length (fin_diags fin)]"
    "sorted_wrt (<) (map es_unit (fin_sites fin))"
    "\<forall>s \<in> set (fin_sites fin). site_ok (fin_units fin) (length toks) s"
    "fin_units fin = ?units"
    using p by (auto simp: fin sites_ok_def)
qed

lemma run_sites_units:
  assumes "toks_in src toks" "length src < 2 ^ 32"
  shows "length (fin_sites (run_grammar ex src toks fid)) \<le> length (lexical_units ex src toks fid)"
proof (cases "toks = []")
  case True
  then show ?thesis
    by (simp add: run_grammar_def new_file_def trial_faults_def finish_def empty_run with_units_def nth_opt_def
        lexical_units_def)
next
  case False
  let ?ss = "fin_sites (run_grammar ex src toks fid)"
  note r = run_sites[OF assms, of fid]
  have "distinct (map es_unit ?ss)" using r(2) by (simp add: strict_sorted_iff)
  moreover have "set (map es_unit ?ss) \<subseteq> {..<length (lexical_units ex src toks fid)}"
    using r(3,4) False by (auto simp: site_ok_def)
  ultimately show ?thesis
    using card_mono[of "{..<length (lexical_units ex src toks fid)}" "set (map es_unit ?ss)"]
      distinct_card[of "map es_unit ?ss"] by simp
qed

lemma parse_total:
  assumes "length src < 2 ^ 32"
  obtains raw r ts where "lex u scan src = Some raw" "tiles 0 raw (length src)"
    "parse u scan rowan src fid = Some r" "pr_green r = GNode (kind_to_raw SourceFile) ts"
    "green_text (pr_green r) = src"
    "let toks = layout src raw; fin = run_grammar ex src toks fid in
       explain_errors ex src toks fid (fin_diags fin) (fin_sites fin) (fin_units fin) = Some (pr_errors r)"
    "fin_sites (run_grammar ex src (layout src raw) fid) = [] \<longrightarrow> Error \<notin> set (green_kinds (pr_green r))"
proof -
  obtain raw where raw: "lex u scan src = Some raw" "tiles 0 raw (length src)"
    using lex_tiles[OF assms] by blast
  let ?toks = "layout src raw"
  let ?units = "lexical_units ex src ?toks fid"
  let ?p = "final (source_file ex) (with_units src ?toks fid ?units)"
  obtain es where p: "p_events ?p = Start SourceFile None # es @ [Finish]" "forest es"
    "cov ?toks es (0, 0) = Some (length ?toks, tok_end ?toks (length ?toks))" "\<not> p_fault ?p"
    "error_free es \<or> p_sites ?p \<noteq> []"
    by (rule source_file_total[OF toks_in_layout[OF raw(2)] assms units_ok_lexical[of ex _ _ fid], where fid = fid])
  have cov: "cov ?toks (p_events ?p) (0, 0) = Some (length ?toks, tok_end ?toks (length ?toks))"
    using p(3) by (simp add: p(1) cov_append)
  have ev: "p_events ?p = dangling [] @ Start SourceFile None # es @ [Finish]"
    by (simp add: p(1) dangling_def)
  have "good_segs []" "SourceFile \<noteq> Tombstone" by simp_all
  then obtain ts depth where
    t: "build_tree rowan src raw (p_events ?p) = Some (GNode (kind_to_raw SourceFile) ts, depth)"
      "green_text (GNode (kind_to_raw SourceFile) ts) = src"
      "nodes_in (run_kinds (p_events ?p)) (calls_of (GNode (kind_to_raw SourceFile) ts))"
    by (rule chain_tree[OF raw(2) _ _ p(2) ev cov])
  have kinds: "Error \<notin> set (green_kinds (GNode (kind_to_raw SourceFile) ts))" if "p_sites ?p = []"
  proof -
    from that p(5) have "error_free (p_events ?p)" by (simp add: p(1))
    then have "Error \<notin> run_kinds (p_events ?p)" by (simp add: run_kinds_def)
    with green_kinds_in[OF t(3)] show ?thesis by blast
  qed
  let ?fin = "run_grammar ex src ?toks fid"
  have toks: "toks_in src ?toks" by (rule toks_in_layout[OF raw(2)])
  have new: "new_file ex src ?toks fid = with_units src ?toks fid ?units" by (rule new_file_units[OF toks assms])
  note sites = run_sites[OF toks assms, of fid]
  have units: "sorted_wrt (<) (fin_units ?fin)" "set (fin_units ?fin) \<subseteq> {..<length ?toks}"
    using sites(4) lexical_units_partition[of ex src ?toks fid] by simp_all
  have "list_all (\<lambda>s. es_unit s < length (fin_units ?fin) \<and> es_diag s < length (fin_diags ?fin)) (fin_sites ?fin)"
  proof (cases "?toks = []")
    case True
    then have "length (fin_sites ?fin) \<le> 0" using run_sites_units[OF toks assms, of fid] by (simp add: lexical_units_def)
    then show ?thesis by simp
  next
    case False
    have "es_diag s < length (fin_diags ?fin)" if "s \<in> set (fin_sites ?fin)" for s
    proof -
      have "es_diag s \<in> set (map es_diag (fin_sites ?fin))" using that by simp
      then show ?thesis by (simp only: sites(1) set_upt) simp
    qed
    then show ?thesis using sites(3) False by (auto simp: list_all_iff site_ok_def)
  qed
  from explain_errors_total[OF _ toks units this, of ex fid] run_total[OF _ assms] one_unit_total[OF _ assms]
  obtain errors where errors: "explain_errors ex src ?toks fid (fin_diags ?fin) (fin_sites ?fin) (fin_units ?fin) = Some errors"
    by blast
  have p_run: "?fin = finish ?p" by (simp add: run_grammar_def new)
  show ?thesis
    by (rule that[OF raw, of "\<lparr>pr_green = GNode (kind_to_raw SourceFile) ts, pr_errors = errors, pr_depth = depth\<rparr>" ts])
      (use raw(1) p(4) t kinds errors in \<open>simp_all add: parse_def new Let_def p_run finish_def\<close>)
qed

end

end
