(* ===== verification/Kind_Class.thy ===== *)
theory Kind_Class
  imports Syntax_Kind Prelude
begin

text \<open>
  \<open>rust/crates/syntax/src/kind_class.rs\<close>: the table that classifies every kind as a language
  construct or not, and \<open>assert_total\<close>, the check that the table is total over the kinds.
\<close>

section \<open>The table\<close>

datatype kind_class = Construct | NonConstruct string

fun is_construct :: "kind_class \<Rightarrow> bool" where
  "is_construct Construct = True"
| "is_construct (NonConstruct reason) = False"

definition TRIVIA :: kind_class where
  "TRIVIA = NonConstruct (''lexical trivia '' @
     [CHR 0xE2, CHR 0x80, CHR 0x94] @
     '' preserved losslessly in the CST and asserted by the byte-exact '' @
     ''round-trip gate, but it denotes no language construct'')"

definition IDENT :: kind_class where
  "IDENT = NonConstruct (''identifier token '' @
     [CHR 0xE2, CHR 0x80, CHR 0x94] @
     '' the payload of whichever construct binds or references it '' @
     ''(ValueDecl, RefExpr, PatVar, TypeCon, '' @
     [CHR 0xE2, CHR 0x80, CHR 0xA6] @
     ''), not a construct itself'')"

definition KEYWORD :: kind_class where
  "KEYWORD = NonConstruct (''keyword token '' @
     [CHR 0xE2, CHR 0x80, CHR 0x94] @
     '' the marker of the node kind it introduces, which is classified '' @
     ''Construct; covering the node covers the keyword'')"

definition PUNCT :: kind_class where
  "PUNCT = NonConstruct (''punctuation/delimiter token '' @
     [CHR 0xE2, CHR 0x80, CHR 0x94] @
     '' structural glue inside a node kind that is itself classified '' @
     ''Construct'')"

definition INTERP :: kind_class where
  "INTERP = NonConstruct (''multiline-string interpolation sub-token '' @
     [CHR 0xE2, CHR 0x80, CHR 0x94] @
     '' an internal lexer product of the MultilineLiteral/Interpolation '' @
     ''nodes, which are classified Construct'')"

definition SENTINEL :: kind_class where
  "SENTINEL = NonConstruct (''internal sentinel '' @
     [CHR 0xE2, CHR 0x80, CHR 0x94] @
     '' never denotes source the user wrote (Error marks recovery, Eof marks '' @
     ''input end, Tombstone is a tree-builder artefact)'')"

definition KIND_CLASSES :: "(syntax_kind \<times> kind_class) list" where
  "KIND_CLASSES = [
    (Whitespace, TRIVIA), (Newline, TRIVIA), (LineComment, TRIVIA), (BlockComment, TRIVIA),
    (IntK, Construct), (HexInt, Construct), (Float, Construct), (StringK, Construct),
    (MultilineString, Construct), (CharK, Construct), (LowerIdent, IDENT), (UpperIdent, IDENT),
    (ModuleKw, KEYWORD), (ExposingKw, KEYWORD), (ImportKw, KEYWORD), (AsKw, KEYWORD),
    (TypeKw, KEYWORD), (AliasKw, KEYWORD), (IfKw, KEYWORD), (ThenKw, KEYWORD),
    (ElseKw, KEYWORD), (CaseKw, KEYWORD), (OfKw, KEYWORD), (LetKw, KEYWORD), (InKw, KEYWORD),
    (TrueKw, KEYWORD), (FalseKw, KEYWORD), (Eq, PUNCT), (Colon, PUNCT), (Colon2, PUNCT),
    (Dot, PUNCT), (DotDot, PUNCT), (Pipe, PUNCT), (Arrow, PUNCT), (Backslash, PUNCT),
    (Op, Construct), (LParen, PUNCT), (RParen, PUNCT), (LBrack, PUNCT), (RBrack, PUNCT),
    (LBrace, PUNCT), (RBrace, PUNCT), (Comma, PUNCT), (Underscore, PUNCT),
    (StringChunk, INTERP), (InterpOpen, INTERP), (InterpClose, INTERP), (Error, SENTINEL),
    (Eof, SENTINEL), (SourceFile, Construct), (ModuleHeader, Construct),
    (ModuleName, Construct), (ExposingList, Construct), (ExposedValue, Construct),
    (ExposedType, Construct), (ExposedCtorList, Construct), (ExposedOperator, Construct),
    (Import, Construct), (ImportAlias, Construct), (ImportExposing, Construct),
    (ValueDecl, Construct), (TypeAnnoDecl, Construct), (UnionDecl, Construct),
    (AliasDecl, Construct), (ParamList, Construct), (TypeVarList, Construct),
    (UnionVariantList, Construct), (UnionVariant, Construct), (TypeFun, Construct),
    (TypeApp, Construct), (TypeVar, Construct), (TypeCon, Construct), (TypeQual, Construct),
    (TypeRecord, Construct), (TypeRecordField, Construct), (TypeTuple, Construct),
    (TypeUnit, Construct), (TypeParen, Construct), (RowVar, Construct),
    (PatWildcard, Construct), (PatVar, Construct), (PatCtor, Construct),
    (PatCtorQual, Construct), (PatList, Construct), (PatCons, Construct),
    (PatTuple, Construct), (PatUnit, Construct), (PatRecord, Construct), (PatAlias, Construct),
    (PatInt, Construct), (PatFloat, Construct), (PatString, Construct), (PatChar, Construct),
    (PatBool, Construct), (PatParen, Construct), (PatNegate, Construct), (Literal, Construct),
    (MultilineLiteral, Construct), (Interpolation, Construct), (RefExpr, Construct),
    (QualRefExpr, Construct), (AccessorExpr, Construct), (FieldAccess, Construct),
    (ListExpr, Construct), (TupleExpr, Construct), (UnitExpr, Construct),
    (RecordExpr, Construct), (RecordUpdate, Construct), (RecordField, Construct),
    (ParenExpr, Construct), (NegateExpr, Construct), (BinExpr, Construct),
    (CallExpr, Construct), (LambdaExpr, Construct), (IfExpr, Construct), (ElseIf, Construct),
    (LetExpr, Construct), (LetBinding, Construct), (DestructureBinding, Construct),
    (CaseExpr, Construct), (MatchArm, Construct), (Tombstone, SENTINEL)]"

definition classify :: "syntax_kind \<Rightarrow> kind_class option" where
  "classify k = map_option snd (find (\<lambda>(kind, _). kind = k) KIND_CLASSES)"

definition construct_kinds :: "syntax_kind list" where
  "construct_kinds = map fst (filter (\<lambda>(_, c). is_construct c) KIND_CLASSES)"

definition kind_count :: nat where
  "kind_count = length KINDS"

section \<open>The totality check\<close>

text \<open>\<open>reason.trim().is_empty()\<close>, for the white space of ASCII.\<close>

definition blank :: "string \<Rightarrow> bool" where
  "blank s \<longleftrightarrow> list_all (\<lambda>c. c \<in> {CHR 0x09, CHR 0x0A, CHR 0x0B, CHR 0x0C, CHR 0x0D, CHR '' ''}) s"

definition unclassified :: "(syntax_kind \<times> kind_class) list \<Rightarrow> syntax_kind \<Rightarrow> string list" where
  "unclassified table k = (let hits = length (filter (\<lambda>(kind, _). kind = k) table) in
     if hits = 0 then [''UNCLASSIFIED kind `'' @ debug_name k @ ''` '' @ [CHR 0xE2, CHR 0x80, CHR 0x94] @
       '' add it to kind_class::KIND_CLASSES as Construct or NonConstruct(reason)'']
     else if hits = 1 then []
     else [''kind `'' @ debug_name k @ ''` classified '' @ show_nat hits @ '' times (duplicate row)''])"

definition stale :: "syntax_kind list \<Rightarrow> syntax_kind \<times> kind_class \<Rightarrow> string list" where
  "stale kinds row = (if fst row \<in> set kinds then []
     else [''stale row `'' @ debug_name (fst row) @ ''` '' @ [CHR 0xE2, CHR 0x80, CHR 0x94] @
       '' no such SyntaxKind''])"

definition unexplained :: "syntax_kind \<times> kind_class \<Rightarrow> string list" where
  "unexplained row = (case snd row of
     Construct \<Rightarrow> []
   | NonConstruct reason \<Rightarrow> (if blank reason
       then [''`'' @ debug_name (fst row) @ ''` is NonConstruct with an empty reason''] else []))"

definition problems :: "syntax_kind list \<Rightarrow> (syntax_kind \<times> kind_class) list \<Rightarrow> string list" where
  "problems kinds table = concat (map (unclassified table) kinds) @
     concat (map (stale kinds) table) @ concat (map unexplained table)"

fun join_problems :: "string list \<Rightarrow> string" where
  "join_problems [] = []"
| "join_problems [x] = x"
| "join_problems (x # y # xs) = x @ [CHR 0x0A] @ ''  - '' @ join_problems (y # xs)"

definition check_total :: "syntax_kind list \<Rightarrow> (syntax_kind \<times> kind_class) list \<Rightarrow> string + unit" where
  "check_total kinds table = (if problems kinds table = [] then Inr ()
     else Inl (''SyntaxKind classification is not total over KINDS ('' @ show_nat (length kinds) @
       '' kinds, '' @ show_nat (length table) @ '' rows):'' @ [CHR 0x0A] @ ''  - '' @
       join_problems (problems kinds table)))"

definition assert_total :: "string + unit" where
  "assert_total = check_total KINDS KIND_CLASSES"

section \<open>The check accepts exactly the total tables\<close>

lemma distinct_KINDS: "distinct KINDS"
proof -
  have "map as_u16 KINDS = [0..<122]" by (simp add: KINDS_def upt_rec)
  then have "distinct (map as_u16 KINDS)" by simp
  then show ?thesis by (simp add: distinct_map)
qed

lemma table_kinds: "map fst KIND_CLASSES = KINDS"
  by (simp add: KIND_CLASSES_def KINDS_def)

lemma length_filter_fst: "length (filter (\<lambda>(k', _). k' = k) table) = count_list (map fst table) k"
  by (induction table) auto

lemma unclassified_empty: "unclassified table k = [] \<longleftrightarrow> count_list (map fst table) k = 1"
  by (simp add: unclassified_def Let_def length_filter_fst)

lemma stale_empty: "stale kinds row = [] \<longleftrightarrow> fst row \<in> set kinds"
  by (simp add: stale_def)

lemma unexplained_empty: "unexplained row = [] \<longleftrightarrow>
    (case snd row of Construct \<Rightarrow> True | NonConstruct r \<Rightarrow> \<not> blank r)"
  by (simp add: unexplained_def split: kind_class.splits)

lemma problems_empty: "problems kinds table = [] \<longleftrightarrow>
    (\<forall>k \<in> set kinds. count_list (map fst table) k = 1) \<and> fst ` set table \<subseteq> set kinds \<and>
    (\<forall>row \<in> set table. case snd row of Construct \<Rightarrow> True | NonConstruct r \<Rightarrow> \<not> blank r)"
  by (simp add: problems_def unclassified_empty stale_empty unexplained_empty image_subset_iff)

lemma count_list_distinct: "distinct xs \<Longrightarrow> x \<in> set xs \<Longrightarrow> count_list xs x = 1"
  by (induction xs) auto

text \<open>The gate is exact. For any list of kinds and any table, \<open>assert_total\<close>'s check succeeds if
  and only if every kind has exactly one row, every row's kind is a kind, and every exclusion has a
  reason; any other table is an error, never a pass.\<close>

theorem check_total_exact:
  "check_total kinds table = Inr () \<longleftrightarrow>
     list_all (\<lambda>k. count_list (map fst table) k = 1) kinds \<and> fst ` set table \<subseteq> set kinds \<and>
     list_all (\<lambda>row. case snd row of Construct \<Rightarrow> True | NonConstruct r \<Rightarrow> \<not> blank r) table"
  by (simp add: check_total_def problems_empty list_all_iff)

text \<open>The committed table passes its gate: it classifies each of the 122 kinds exactly once, as
  the pinned test says 79 of them as constructs, and \<open>classify\<close> is therefore total.\<close>

theorem kind_classes_total:
  "assert_total = Inr () \<and> kind_count = 122 \<and> length construct_kinds = 79 \<and> classify k \<noteq> None"
proof (intro conjI)
  have "count_list KINDS k = 1" for k
    by (rule count_list_distinct[OF distinct_KINDS kind_in_KINDS])
  moreover have "list_all (\<lambda>row. case snd row of Construct \<Rightarrow> True | NonConstruct r \<Rightarrow> \<not> blank r) KIND_CLASSES"
    by (simp add: KIND_CLASSES_def TRIVIA_def IDENT_def KEYWORD_def PUNCT_def INTERP_def SENTINEL_def blank_def)
  moreover have "fst ` set KIND_CLASSES = set KINDS" using table_kinds by (metis list.set_map)
  ultimately have "problems KINDS KIND_CLASSES = []" by (simp add: problems_empty table_kinds list_all_iff)
  then show "assert_total = Inr ()" by (simp add: assert_total_def check_total_def)
  show "kind_count = 122" by (simp add: kind_count_def)
  show "length construct_kinds = 79"
    by (simp add: construct_kinds_def KIND_CLASSES_def TRIVIA_def IDENT_def KEYWORD_def PUNCT_def
        INTERP_def SENTINEL_def)
  have "k \<in> fst ` set KIND_CLASSES" using kind_in_KINDS[of k] table_kinds by (metis list.set_map)
  then show "classify k \<noteq> None" by (auto simp: classify_def find_None_iff)
qed

text \<open>A kind survives the trip through rowan's raw \<open>u16\<close>: \<open>kind_from_raw\<close> after \<open>kind_to_raw\<close> is the
  identity, different kinds have different discriminants, and a raw value outside the table reads
  back as \<open>Error\<close> instead of being transmuted.\<close>

theorem kind_u16_roundtrip:
  "from_u16 (as_u16 k) = k \<and> (as_u16 j = as_u16 k \<longleftrightarrow> j = k) \<and>
   map as_u16 KINDS = [0..<122] \<and> from_u16 (122 + v) = Error"
proof (intro conjI)
  show "map as_u16 KINDS = [0..<122]" by (simp add: KINDS_def upt_rec)
qed (simp_all add: from_u16_clamps)

end
