(* ===== verification/Sha256.thy ===== *)
theory Sha256
  imports Main "HOL-Library.Word"
begin

text \<open>
  The incremental SHA-256 of \<open>project/src/sha256.rs\<close>, which hashes the sources for the build stamp and
  the downloaded database bundles. The state is the record \<open>sha256\<close>; \<open>new\<close>, \<open>update\<close>, \<open>finish\<close>,
  \<open>update_no_len\<close> and \<open>compress\<close> are the operations. Words keep their width: \<open>u32\<close> additions wrap,
  and the bit count is a \<open>u64\<close>. The reference is the one-shot definition of FIPS 180-4: pad the
  message, cut it into blocks, expand each block with the recursive message schedule, fold the
  compression over the blocks. Arrays are lists, written with list updates; the byte slices keep
  the bounds the code's indices have.
\<close>

unbundle bit_operations_syntax

type_synonym u8 = "8 word"
type_synonym u32 = "32 word"
type_synonym u64 = "64 word"

section \<open>The implementation\<close>

definition K :: "u32 list" where
  "K = [
   1116352408, 1899447441, 3049323471, 3921009573, 961987163, 1508970993, 2453635748,
    2870763221, 3624381080, 310598401, 607225278, 1426881987, 1925078388, 2162078206,
    2614888103, 3248222580, 3835390401, 4022224774, 264347078, 604807628, 770255983,
    1249150122, 1555081692, 1996064986, 2554220882, 2821834349, 2952996808, 3210313671,
    3336571891, 3584528711, 113926993, 338241895, 666307205, 773529912, 1294757372, 1396182291,
    1695183700, 1986661051, 2177026350, 2456956037, 2730485921, 2820302411, 3259730800,
    3345764771, 3516065817, 3600352804, 4094571909, 275423344, 430227734, 506948616, 659060556,
    883997877, 958139571, 1322822218, 1537002063, 1747873779, 1955562222, 2024104815,
    2227730452, 2361852424, 2428436474, 2756734187, 3204031479, 3329325298]"

record sha256 =
  sh_h :: "u32 list"
  sh_buf :: "u8 list"
  sh_buf_len :: nat
  sh_len_bits :: u64

definition initial_hash :: "u32 list" where
  "initial_hash = [
   1779033703, 3144134277, 1013904242, 2773480762, 1359893119, 2600822924, 528734635,
    1541459225]"

definition sha256_new :: sha256 where
  "sha256_new = \<lparr>sh_h = initial_hash, sh_buf = replicate 64 0, sh_buf_len = 0, sh_len_bits = 0\<rparr>"

text \<open>\<open>u32::from_be_bytes\<close>, \<open>u32::to_be_bytes\<close>, \<open>u64::to_be_bytes\<close> and \<open>u32::rotate_right\<close>.\<close>

definition u32_from_be :: "u8 list \<Rightarrow> u32" where
  "u32_from_be bs = foldl (\<lambda>acc b. push_bit 8 acc OR ucast b) 0 bs"

definition u32_to_be :: "u32 \<Rightarrow> u8 list" where
  "u32_to_be w = map (\<lambda>k. ucast (drop_bit (8 * k) w)) [3, 2, 1, 0]"

definition u64_to_be :: "u64 \<Rightarrow> u8 list" where
  "u64_to_be w = map (\<lambda>k. ucast (drop_bit (8 * k) w)) [7, 6, 5, 4, 3, 2, 1, 0]"

definition rotate_right :: "u32 \<Rightarrow> nat \<Rightarrow> u32" where
  "rotate_right x n = word_rotr n x"

text \<open>The schedule array \<open>w\<close>: 64 zeros, the first 16 words filled from the block, then the rest in order.\<close>

definition load_word :: "u8 list \<Rightarrow> u32 list \<Rightarrow> nat \<Rightarrow> u32 list" where
  "load_word block w i = w[i := u32_from_be [block ! (i * 4), block ! (i * 4 + 1),
     block ! (i * 4 + 2), block ! (i * 4 + 3)]]"

definition extend_word :: "u32 list \<Rightarrow> nat \<Rightarrow> u32 list" where
  "extend_word w i =
     (let s0 = rotate_right (w ! (i - 15)) 7 XOR rotate_right (w ! (i - 15)) 18 XOR drop_bit 3 (w ! (i - 15));
          s1 = rotate_right (w ! (i - 2)) 17 XOR rotate_right (w ! (i - 2)) 19 XOR drop_bit 10 (w ! (i - 2)) in
      w[i := w ! (i - 16) + s0 + w ! (i - 7) + s1])"

definition schedule :: "u8 list \<Rightarrow> u32 list" where
  "schedule block = foldl extend_word (foldl (load_word block) (replicate 64 0) [0..<16]) [16..<64]"

type_synonym vars = "u32 \<times> u32 \<times> u32 \<times> u32 \<times> u32 \<times> u32 \<times> u32 \<times> u32"

fun round_step :: "u32 list \<Rightarrow> vars \<Rightarrow> nat \<Rightarrow> vars" where
  "round_step w (a, b, c, d, e, f, g, h) i =
     (let s1 = rotate_right e 6 XOR rotate_right e 11 XOR rotate_right e 25;
          ch = (e AND f) XOR (NOT e AND g);
          t1 = h + s1 + ch + K ! i + w ! i;
          s0 = rotate_right a 2 XOR rotate_right a 13 XOR rotate_right a 22;
          maj = (a AND b) XOR (a AND c) XOR (b AND c);
          t2 = s0 + maj in
      (t1 + t2, a, b, c, d + t1, e, f, g))"

fun vars_list :: "vars \<Rightarrow> u32 list" where
  "vars_list (a, b, c, d, e, f, g, h) = [a, b, c, d, e, f, g, h]"

definition load_vars :: "u32 list \<Rightarrow> vars" where
  "load_vars h = (h ! 0, h ! 1, h ! 2, h ! 3, h ! 4, h ! 5, h ! 6, h ! 7)"

text \<open>\<open>compress\<close> touches only the hash field, so it is a function of it.\<close>

definition compress :: "u32 list \<Rightarrow> u8 list \<Rightarrow> u32 list" where
  "compress h block = map2 (+) h (vars_list (foldl (round_step (schedule block)) (load_vars h) [0..<64]))"

text \<open>\<open>while data.len() >= 64\<close>.\<close>

function absorb :: "u32 list \<Rightarrow> u8 list \<Rightarrow> u32 list \<times> u8 list" where
  "absorb h data = (if length data < 64 then (h, data) else absorb (compress h (take 64 data)) (drop 64 data))"
  by pat_completeness auto
termination by (relation "measure (\<lambda>(h, data). length data)") auto

declare absorb.simps [simp del]

text \<open>The three steps of \<open>update\<close> after the length is counted: top up a partial buffer, hash whole
  blocks, keep the rest.\<close>

definition top_up :: "sha256 \<Rightarrow> u8 list \<Rightarrow> sha256 \<times> u8 list" where
  "top_up s data =
     (if 0 < sh_buf_len s then
        (let n = min (64 - sh_buf_len s) (length data);
             buf = take (sh_buf_len s) (sh_buf s) @ take n data @ drop (sh_buf_len s + n) (sh_buf s);
             s1 = s\<lparr>sh_buf := buf, sh_buf_len := sh_buf_len s + n\<rparr>;
             s2 = (if sh_buf_len s1 = 64 then s1\<lparr>sh_h := compress (sh_h s1) buf, sh_buf_len := 0\<rparr> else s1) in
         (s2, drop n data))
      else (s, data))"

definition keep_rest :: "sha256 \<Rightarrow> u8 list \<Rightarrow> sha256" where
  "keep_rest s data =
     (if data \<noteq> [] then s\<lparr>sh_buf := data @ drop (length data) (sh_buf s), sh_buf_len := length data\<rparr> else s)"

definition sha_update :: "sha256 \<Rightarrow> u8 list \<Rightarrow> sha256" where
  "sha_update s data =
     (let s0 = s\<lparr>sh_len_bits := sh_len_bits s + of_nat (length data) * 8\<rparr>;
          (s1, data1) = top_up s0 data;
          (h, rest) = absorb (sh_h s1) data1 in
      keep_rest (s1\<lparr>sh_h := h\<rparr>) rest)"

definition update_no_len :: "sha256 \<Rightarrow> u8 list \<Rightarrow> sha256" where
  "update_no_len s data = (sha_update s data)\<lparr>sh_len_bits := sh_len_bits s\<rparr>"

text \<open>\<open>while self.buf_len != 56\<close>; the fuel is proved to be enough below.\<close>

primrec pad_loop :: "nat \<Rightarrow> sha256 \<Rightarrow> sha256" where
  "pad_loop 0 s = s"
| "pad_loop (Suc n) s = (if sh_buf_len s = 56 then s else pad_loop n (update_no_len s [0]))"

definition finish :: "sha256 \<Rightarrow> u8 list" where
  "finish s =
     (let bits = sh_len_bits s;
          s1 = update_no_len s [0x80];
          s2 = pad_loop 64 s1;
          s3 = update_no_len s2 (u64_to_be bits) in
      concat (map u32_to_be (sh_h s3)))"

section \<open>The reference: FIPS 180-4\<close>

definition small_sigma :: "nat \<Rightarrow> nat \<Rightarrow> nat \<Rightarrow> u32 \<Rightarrow> u32" where
  "small_sigma p q r x = word_rotr p x XOR word_rotr q x XOR drop_bit r x"

definition big_sigma :: "nat \<Rightarrow> nat \<Rightarrow> nat \<Rightarrow> u32 \<Rightarrow> u32" where
  "big_sigma p q r x = word_rotr p x XOR word_rotr q x XOR word_rotr r x"

text \<open>The message schedule is a recursion on the word index, over the block read as 16 big-endian words.\<close>

fun message_word :: "u8 list \<Rightarrow> nat \<Rightarrow> u32" where
  "message_word block t =
     (if t < 16 then u32_from_be (take 4 (drop (4 * t) block))
      else small_sigma 17 19 10 (message_word block (t - 2)) + message_word block (t - 7) +
        small_sigma 7 18 3 (message_word block (t - 15)) + message_word block (t - 16))"

declare message_word.simps [simp del]

fun block_round :: "u8 list \<Rightarrow> vars \<Rightarrow> nat \<Rightarrow> vars" where
  "block_round block (a, b, c, d, e, f, g, h) t =
     (let t1 = h + big_sigma 6 11 25 e + ((e AND f) XOR (NOT e AND g)) + K ! t + message_word block t;
          t2 = big_sigma 2 13 22 a + ((a AND b) XOR (a AND c) XOR (b AND c)) in
      (t1 + t2, a, b, c, d + t1, e, f, g))"

definition block_hash :: "u32 list \<Rightarrow> u8 list \<Rightarrow> u32 list" where
  "block_hash h block = map2 (+) h (vars_list (foldl (block_round block) (load_vars h) [0..<64]))"

definition pad :: "u8 list \<Rightarrow> u8 list" where
  "pad m = m @ 0x80 # replicate ((119 - length m mod 64) mod 64) 0 @ u64_to_be (of_nat (8 * length m))"

fun blocks_of :: "u8 list \<Rightarrow> u8 list list" where
  "blocks_of m = (if length m < 64 then [] else take 64 m # blocks_of (drop 64 m))"

declare blocks_of.simps [simp del]

definition fips_digest :: "u8 list \<Rightarrow> u8 list" where
  "fips_digest m = concat (map u32_to_be (foldl block_hash initial_hash (blocks_of (pad m))))"

section \<open>One block\<close>

lemma foldl_upt_snoc: "foldl f a [m..<Suc n] = (if m \<le> n then f (foldl f a [m..<n]) n else a)"
  by simp

lemma load_words:
  assumes "length block = 64" "n \<le> 16"
  shows "length (foldl (load_word block) (replicate 64 0) [0..<n]) = 64 \<and>
    (\<forall>t < n. foldl (load_word block) (replicate 64 0) [0..<n] ! t = message_word block t)"
  using assms(2)
proof (induction n)
  case (Suc n)
  have "take 4 (drop (4 * n) block) =
      [block ! (n * 4), block ! (n * 4 + 1), block ! (n * 4 + 2), block ! (n * 4 + 3)]"
    using assms(1) Suc.prems by (intro nth_equalityI) (auto simp: less_Suc_eq numeral_eq_Suc mult.commute)
  with Suc show ?case
    by (auto simp: load_word_def nth_list_update message_word.simps[of block n] less_Suc_eq)
qed simp

lemma schedule_words:
  assumes "length block = 64" "16 \<le> n" "n \<le> 64"
  shows "length (foldl extend_word (foldl (load_word block) (replicate 64 0) [0..<16]) [16..<n]) = 64 \<and>
    (\<forall>t < n. foldl extend_word (foldl (load_word block) (replicate 64 0) [0..<16]) [16..<n] ! t =
       message_word block t)"
  using assms(2,3)
proof (induction n rule: dec_induct)
  case base
  then show ?case using load_words[OF assms(1), of 16] by simp
next
  case (step n)
  then show ?case
    by (auto simp: extend_word_def Let_def nth_list_update less_Suc_eq small_sigma_def rotate_right_def
        message_word.simps[of block n] ac_simps)
qed

lemma schedule_nth: "length block = 64 \<Longrightarrow> t < 64 \<Longrightarrow> schedule block ! t = message_word block t"
  using schedule_words[of block 64] by (simp add: schedule_def)

lemma round_agrees:
  "length block = 64 \<Longrightarrow> t < 64 \<Longrightarrow> round_step (schedule block) v t = block_round block v t"
  by (cases v rule: vars_list.cases)
    (simp only: round_step.simps block_round.simps Let_def schedule_nth big_sigma_def rotate_right_def)

lemma compress_block: "length block = 64 \<Longrightarrow> compress h block = block_hash h block"
  unfolding compress_def block_hash_def
  by (intro arg_cong2[where f = "map2 (+)"] arg_cong[where f = vars_list] foldl_cong) (simp_all add: round_agrees)

section \<open>The buffer\<close>

lemma absorb_short [simp]: "length m < 64 \<Longrightarrow> absorb h m = (h, m)"
  by (simp add: absorb.simps)

lemma absorb_append: "absorb h (xs @ ys) = (let (h', r) = absorb h xs in absorb h' (r @ ys))"
proof (induction h xs rule: absorb.induct)
  case (1 h xs)
  show ?case
  proof (cases "length xs < 64")
    case False
    then have "absorb h (xs @ ys) = absorb (compress h (take 64 xs)) (drop 64 xs @ ys)"
      by (subst absorb.simps) simp
    with 1[OF False] False show ?thesis by (simp add: absorb.simps[of h xs])
  qed simp
qed

lemma absorb_rest_short: "absorb h m = (h', r) \<Longrightarrow> length r < 64"
  by (induction h m rule: absorb.induct) (subst (asm) (2) absorb.simps, auto split: if_splits)

lemma absorb_rest: "absorb h m = (h', r) \<Longrightarrow> length r = length m mod 64"
proof (induction h m rule: absorb.induct)
  case (1 h m)
  then show ?case
    by (subst (asm) (2) absorb.simps) (auto split: if_splits simp: mod_if[of "length m" 64])
qed

lemma absorb_blocks: "fst (absorb h m) = foldl block_hash h (blocks_of m)"
proof (induction h m rule: absorb.induct)
  case (1 h m)
  then show ?case
    by (subst absorb.simps, subst blocks_of.simps) (simp add: compress_block)
qed

text \<open>What the state stands for: after hashing the message \<open>m\<close>, the hash of its whole blocks, the rest of
  it in the buffer, and its length in bits modulo \<open>2 ^ 64\<close>.\<close>

definition hashed :: "u8 list \<Rightarrow> sha256 \<Rightarrow> bool" where
  "hashed m s \<longleftrightarrow> absorb initial_hash m = (sh_h s, take (sh_buf_len s) (sh_buf s)) \<and>
     sh_buf_len s < 64 \<and> length (sh_buf s) = 64"

lemma hashed_new: "hashed [] sha256_new"
  by (simp add: hashed_def sha256_new_def)

lemma hashed_bits: "hashed m (s\<lparr>sh_len_bits := b\<rparr>) \<longleftrightarrow> hashed m s"
  by (simp add: hashed_def)

lemma hashed_len: "hashed m s \<Longrightarrow> sh_buf_len s = length m mod 64"
  using absorb_rest[of initial_hash m] by (fastforce simp: hashed_def)

text \<open>The buffered bytes and the new ones go through the same blocks as one string.\<close>

lemma top_up_absorb:
  assumes "sh_buf_len s < 64" "length (sh_buf s) = 64" "top_up s data = (s1, data1)"
  shows "absorb (sh_h s) (take (sh_buf_len s) (sh_buf s) @ data) =
      absorb (sh_h s1) (take (sh_buf_len s1) (sh_buf s1) @ data1)"
    "length (sh_buf s1) = 64" "sh_buf_len s1 < 64" "sh_buf_len s1 = 0 \<or> data1 = []"
    "sh_len_bits s1 = sh_len_bits s"
proof -
  let ?n = "min (64 - sh_buf_len s) (length data)"
  let ?b = "take (sh_buf_len s) (sh_buf s)"
  show "length (sh_buf s1) = 64" "sh_buf_len s1 < 64" "sh_buf_len s1 = 0 \<or> data1 = []"
    "sh_len_bits s1 = sh_len_bits s"
    using assms by (auto simp: top_up_def Let_def split: if_splits)
  consider "sh_buf_len s = 0" | "0 < sh_buf_len s" "length data < 64 - sh_buf_len s"
    | "0 < sh_buf_len s" "64 - sh_buf_len s \<le> length data" by linarith
  then show "absorb (sh_h s) (?b @ data) = absorb (sh_h s1) (take (sh_buf_len s1) (sh_buf s1) @ data1)"
  proof cases
    case 1
    with assms show ?thesis by (simp add: top_up_def)
  next
    case 2
    with assms show ?thesis by (auto simp: top_up_def Let_def)
  next
    case 3
    then have n: "?n = 64 - sh_buf_len s" by simp
    with 3 have s1: "s1 = s\<lparr>sh_buf := ?b @ take ?n data, sh_h := compress (sh_h s) (?b @ take ?n data), sh_buf_len := 0\<rparr>"
      "data1 = drop ?n data"
      using assms by (auto simp: top_up_def Let_def)
    have "\<not> sh_buf_len s + length data < 64" using 3 by arith
    then have "absorb (sh_h s) (?b @ data) =
        absorb (compress (sh_h s) (take 64 (?b @ data))) (drop 64 (?b @ data))"
      using 3 assms by (subst absorb.simps) simp
    then show ?thesis using s1[unfolded n] 3 assms by simp
  qed
qed

lemma hashed_update:
  assumes "hashed m s"
  shows "hashed (m @ data) (sha_update s data)"
    "sh_len_bits (sha_update s data) = sh_len_bits s + of_nat (length data) * 8"
proof -
  let ?s0 = "s\<lparr>sh_len_bits := sh_len_bits s + of_nat (length data) * 8\<rparr>"
  obtain s1 data1 where top: "top_up ?s0 data = (s1, data1)" by force
  note t = top_up_absorb[OF _ _ top]
  have s: "sh_buf_len ?s0 < 64" "length (sh_buf ?s0) = 64" using assms by (simp_all add: hashed_def)
  obtain h r where hr: "absorb (sh_h s1) data1 = (h, r)" by force
  have upd: "sha_update s data = keep_rest (s1\<lparr>sh_h := h\<rparr>) r"
    by (simp add: sha_update_def Let_def top hr)
  have len: "length r < 64" by (rule absorb_rest_short[OF hr])
  have "absorb initial_hash (m @ data) = absorb (sh_h s1) (take (sh_buf_len s1) (sh_buf s1) @ data1)"
  proof -
    have "absorb initial_hash (m @ data) = absorb (sh_h s) (take (sh_buf_len s) (sh_buf s) @ data)"
      using assms by (subst absorb_append) (simp add: hashed_def)
    then show ?thesis using t(1)[OF s] by simp
  qed
  moreover have "absorb (sh_h s1) (take (sh_buf_len s1) (sh_buf s1) @ data1) =
      (h, if r = [] then take (sh_buf_len s1) (sh_buf s1) else r)"
  proof (cases "data1 = []")
    case True
    with hr have "h = sh_h s1" "r = []" by simp_all
    with True t(2,3)[OF s] show ?thesis by simp
  next
    case False
    with t(4)[OF s] hr show ?thesis by auto
  qed
  ultimately show "hashed (m @ data) (sha_update s data)"
    using t(2,3)[OF s] len by (simp add: hashed_def upd keep_rest_def)
  show "sh_len_bits (sha_update s data) = sh_len_bits s + of_nat (length data) * 8"
    using t(5)[OF s] by (simp add: upd keep_rest_def)
qed

lemma hashed_no_len: "hashed m s \<Longrightarrow> hashed (m @ data) (update_no_len s data)"
  by (simp add: update_no_len_def hashed_bits hashed_update)

text \<open>How many zeros reach 56 modulo 64.\<close>

definition zeros :: "nat \<Rightarrow> nat" where
  "zeros n = (120 - n mod 64) mod 64"

lemma zeros_less: "zeros n < 64"
  by (simp add: zeros_def)

lemma zeros_done: "n mod 64 = 56 \<Longrightarrow> zeros n = 0"
  by (simp add: zeros_def)

lemma zeros_step:
  assumes "n mod 64 \<noteq> 56"
  shows "zeros n = Suc (zeros (Suc n))"
proof -
  define r where "r = n mod 64"
  have "Suc n mod 64 = (if r = 63 then 0 else Suc r)" "r < 64" by (simp_all add: r_def mod_Suc)
  moreover have "(120 - r) mod 64 = (if r \<le> 56 then 56 - r else 120 - r)" if "r < 64" for r :: nat
    using that by (simp add: mod_if[of "120 - r"])
  ultimately show ?thesis using assms by (auto simp: zeros_def simp flip: r_def)
qed

lemma zeros_pad: "(119 - n mod 64) mod 64 = zeros (Suc n)"
proof -
  define r where "r = n mod 64"
  have "Suc n mod 64 = (if r = 63 then 0 else Suc r)" "r < 64" by (simp_all add: r_def mod_Suc)
  then show ?thesis by (auto simp: zeros_def simp flip: r_def)
qed

lemma hashed_pad_loop:
  "hashed m s \<Longrightarrow> zeros (length m) \<le> n \<Longrightarrow> hashed (m @ replicate (zeros (length m)) 0) (pad_loop n s)"
proof (induction n arbitrary: m s)
  case (Suc n)
  show ?case
  proof (cases "length m mod 64 = 56")
    case True
    with Suc.prems show ?thesis by (simp add: hashed_len zeros_done)
  next
    case False
    have "hashed (m @ [0]) (update_no_len s [0])" by (rule hashed_no_len[OF Suc.prems(1)])
    from Suc.IH[OF this] show ?thesis
      using Suc.prems False by (simp add: hashed_len zeros_step)
  qed
qed simp

text \<open>C11: Hashing in pieces is FIPS 180-4. However a message is cut into pieces, empty ones included,
  feeding the pieces to \<open>update\<close> one after the other and calling \<open>finish\<close> returns the SHA-256 digest
  of the whole message as the standard defines it: the padding, the recursive message schedule and the
  rounds of every block, with 32-bit wrap-around.\<close>

theorem sha256_streaming: "finish (foldl sha_update sha256_new pieces) = fips_digest (concat pieces)"
proof -
  let ?m = "concat pieces" let ?s = "foldl sha_update sha256_new pieces"
  have feed: "hashed (concat ps) (foldl sha_update sha256_new ps) \<and>
      sh_len_bits (foldl sha_update sha256_new ps) = of_nat (8 * length (concat ps))" for ps
  proof (induction ps rule: rev_induct)
    case Nil
    show ?case using hashed_new by (simp add: sha256_new_def)
  next
    case (snoc d ps)
    then show ?case using hashed_update[of "concat ps" "foldl sha_update sha256_new ps" d]
      by (simp add: algebra_simps)
  qed
  let ?s1 = "update_no_len ?s [0x80]" let ?s2 = "pad_loop 64 ?s1"
  have "hashed (?m @ [0x80]) ?s1" by (rule hashed_no_len) (simp add: feed)
  from hashed_pad_loop[OF this, of 64]
  have "hashed (?m @ 0x80 # replicate (zeros (Suc (length ?m))) 0) ?s2"
    using zeros_less[of "Suc (length ?m)"] by simp
  from hashed_no_len[OF this, of "u64_to_be (of_nat (8 * length ?m))"]
  have "hashed (pad ?m) (update_no_len ?s2 (u64_to_be (sh_len_bits ?s)))"
    using feed[of pieces] by (simp add: pad_def zeros_pad)
  then have "sh_h (update_no_len ?s2 (u64_to_be (sh_len_bits ?s))) = fst (absorb initial_hash (pad ?m))"
    by (simp add: hashed_def)
  then show ?thesis by (simp add: finish_def fips_digest_def absorb_blocks)
qed

end
