(* ===== verification/Hir.thy ===== *)
theory Hir
  imports Base Diagnostics
begin

text \<open>
  The resolved intermediate representation of \<open>hir/src/ids.rs\<close> and \<open>hir/src/hir.rs\<close>: interned
  definitions, resolution results, and bodies whose expressions and patterns live in append-only
  arenas and refer to each other by index. An arena is a list, an id the index. A body is well
  formed when the children of every expression come before it, which holds because a body only
  grows through \<open>Body::expr\<close> and an expression is built from ids it already has. Numbers: \<open>i64\<close> is a
  64-bit word, \<open>f64\<close> its 64 bits.
\<close>

section \<open>Ids\<close>

datatype def_kind = KValue | KCtor | KTypeCon | KTypeAlias

record def_loc =
  dl_module :: nat
  dl_name :: string
  dl_kind :: def_kind

record ctor_ref =
  cr_def :: nat
  cr_type :: nat
  cr_index :: nat
  cr_arity :: nat

datatype res =
    RLocal nat
  | RDef nat
  | RKernel string string
  | RCtor ctor_ref
  | RForeign string string
  | RError

text \<open>The definition table: an interner keyed by module, name and kind.\<close>

type_synonym def_table = "(nat \<times> string \<times> def_kind) list"

definition def_intern :: "def_table \<Rightarrow> nat \<Rightarrow> string \<Rightarrow> def_kind \<Rightarrow> def_table \<times> nat" where
  "def_intern tbl module name kind = intern tbl (module, name, kind)"

definition def_loc_of :: "def_table \<Rightarrow> nat \<Rightarrow> def_loc option" where
  "def_loc_of tbl d = map_option (\<lambda>(m, n, k). \<lparr>dl_module = m, dl_name = n, dl_kind = k\<rparr>) (lookup tbl d)"

section \<open>Bodies\<close>

record let_anno =
  la_ty :: nat
  la_span :: span

record local_def =
  ld_binders :: "(string \<times> nat) list"
  ld_pat :: "nat option"
  ld_params :: "nat list"
  ld_body :: nat
  ld_anno :: "let_anno option"

record case_branch =
  cb_pat :: nat
  cb_body :: nat

datatype expr =
    EInt "64 word"
  | EFloat "64 word"
  | EStr string
  | EChr string
  | EBool bool
  | EUnit
  | EList "nat list"
  | ETuple "nat list"
  | ERecord "(string \<times> nat) list"
  | EUpdate nat "(string \<times> nat) list"
  | EVar res
  | ENegate nat
  | ELambda "nat list" nat
  | ECall nat "nat list"
  | EBinop string res nat nat
  | EIf "(nat \<times> nat) list" nat
  | ELet "local_def list" nat
  | ECase nat "case_branch list"
  | EAccessor string
  | EAccess nat string
  | EError

datatype pat =
    PAnything
  | PVar nat
  | PUnit
  | PBool bool
  | PChr string
  | PStr string
  | PInt "64 word"
  | PFloat "64 word"
  | PRecord "(string \<times> nat) list"
  | PAlias nat nat
  | PTuple "nat list"
  | PList "nat list"
  | PCons nat nat
  | PCtor "ctor_ref option" string "nat list"
  | PError

datatype hir_type =
    TVar string
  | TCon "(nat \<times> nat) option" string "nat list"
  | TForeign string string "nat list"
  | TLambda nat nat
  | TTuple "nat list"
  | TRecord "(string \<times> nat) list" "string option"
  | TUnit
  | TError

record body =
  bd_exprs :: "expr list"
  bd_pats :: "pat list"
  bd_types :: "hir_type list"
  bd_root :: "nat option"
  bd_anno :: "nat option"
  bd_params :: "nat list"
  bd_expr_spans :: "nat \<Rightarrow> span option"
  bd_pat_spans :: "nat \<Rightarrow> span option"

definition body_default :: body where
  "body_default = \<lparr>bd_exprs = [], bd_pats = [], bd_types = [], bd_root = None, bd_anno = None,
     bd_params = [], bd_expr_spans = Map.empty, bd_pat_spans = Map.empty\<rparr>"

definition body_expr :: "body \<Rightarrow> expr \<Rightarrow> body \<times> nat" where
  "body_expr b e = (b\<lparr>bd_exprs := bd_exprs b @ [e]\<rparr>, length (bd_exprs b))"

definition body_pat :: "body \<Rightarrow> pat \<Rightarrow> body \<times> nat" where
  "body_pat b p = (b\<lparr>bd_pats := bd_pats b @ [p]\<rparr>, length (bd_pats b))"

definition body_ty :: "body \<Rightarrow> hir_type \<Rightarrow> body \<times> nat" where
  "body_ty b t = (b\<lparr>bd_types := bd_types b @ [t]\<rparr>, length (bd_types b))"

definition expr_span :: "body \<Rightarrow> nat \<Rightarrow> span option" where
  "expr_span b e = bd_expr_spans b e"

definition pat_span :: "body \<Rightarrow> nat \<Rightarrow> span option" where
  "pat_span b p = bd_pat_spans b p"

text \<open>\<open>body.exprs[e]\<close> and \<open>body.pats[p]\<close>; an id of the body is always inside the arena.\<close>

abbreviation expr_at :: "body \<Rightarrow> nat \<Rightarrow> expr" where
  "expr_at b e \<equiv> bd_exprs b ! e"

abbreviation pat_at :: "body \<Rightarrow> nat \<Rightarrow> pat" where
  "pat_at b p \<equiv> bd_pats b ! p"

section \<open>Well-formed arenas\<close>

text \<open>The expressions an expression refers to, in the order the walkers meet them.\<close>

fun children :: "expr \<Rightarrow> nat list" where
  "children (EList xs) = xs"
| "children (ETuple xs) = xs"
| "children (ERecord fs) = map snd fs"
| "children (EUpdate base fs) = base # map snd fs"
| "children (ENegate x) = [x]"
| "children (ELambda ps b) = [b]"
| "children (ECall f args) = f # args"
| "children (EBinop op r lhs rhs) = [lhs, rhs]"
| "children (EIf arms els) = concat (map (\<lambda>(c, t). [c, t]) arms) @ [els]"
| "children (ELet defs b) = map ld_body defs @ [b]"
| "children (ECase subject branches) = subject # map cb_body branches"
| "children (EAccess x f) = [x]"
| "children _ = []"

definition exprs_ok :: "body \<Rightarrow> bool" where
  "exprs_ok b \<longleftrightarrow> (\<forall>e < length (bd_exprs b). \<forall>c \<in> set (children (expr_at b e)). c < e)"

lemma exprs_okD: "exprs_ok b \<Longrightarrow> e < length (bd_exprs b) \<Longrightarrow> c \<in> set (children (expr_at b e)) \<Longrightarrow> c < e"
  by (auto simp: exprs_ok_def)

lemma exprs_ok_default [simp]: "exprs_ok body_default"
  by (simp add: exprs_ok_def body_default_def)

lemma exprs_ok_expr:
  "exprs_ok b \<Longrightarrow> \<forall>c \<in> set (children e). c < length (bd_exprs b) \<Longrightarrow> body_expr b e = (b', i) \<Longrightarrow>
    exprs_ok b' \<and> expr_at b' i = e"
  by (auto simp: exprs_ok_def body_expr_def nth_append less_Suc_eq)

end
