(* ===== verification/Scc.thy ===== *)
theory Scc
  imports Main
begin

text \<open>
  The graph part of \<open>hir/src/value_cycle.rs\<close>: Tarjan's strongly connected components as \<open>sccs\<close> and
  its inner \<open>visit\<close> compute them, and the breadth-first \<open>cycle_path\<close> that names a cycle. The state
  \<open>St\<close> is the record \<open>tarjan\<close>; its stack is kept with the last pushed node first. A \<open>HashMap\<close> is a
  map, an \<open>IndexMap\<close> the list of its keys in insertion order, and the edges of a node without an
  entry are the empty list, as \<open>unwrap_or(&[])\<close> reads them. The recursion of \<open>visit\<close> carries fuel;
  the number of nodes is enough.
\<close>

section \<open>Strongly connected components\<close>

record 'k tarjan =
  tj_index :: nat
  tj_idx :: "'k \<Rightarrow> nat option"
  tj_low :: "'k \<Rightarrow> nat option"
  tj_on :: "'k set"
  tj_stack :: "'k list"
  tj_out :: "'k list list"

definition succs :: "('k \<Rightarrow> 'k list option) \<Rightarrow> 'k \<Rightarrow> 'k list" where
  "succs edges v = (case edges v of None \<Rightarrow> [] | Some es \<Rightarrow> es)"

definition enter :: "'k \<Rightarrow> 'k tarjan \<Rightarrow> 'k tarjan" where
  "enter v st = st\<lparr>tj_idx := (tj_idx st)(v \<mapsto> tj_index st), tj_low := (tj_low st)(v \<mapsto> tj_index st),
     tj_index := tj_index st + 1, tj_stack := v # tj_stack st, tj_on := insert v (tj_on st)\<rparr>"

definition lower :: "'k \<Rightarrow> nat \<Rightarrow> 'k tarjan \<Rightarrow> 'k tarjan" where
  "lower v x st = st\<lparr>tj_low := (tj_low st)(v \<mapsto> min (the (tj_low st v)) x)\<rparr>"

definition visit_edge :: "('k \<Rightarrow> 'k tarjan \<Rightarrow> 'k tarjan) \<Rightarrow> 'k list \<Rightarrow> 'k \<Rightarrow> 'k tarjan \<Rightarrow> 'k \<Rightarrow> 'k tarjan" where
  "visit_edge rec nodes v st w =
     (if w \<notin> set nodes then st
      else if tj_idx st w = None then (let st' = rec w st in lower v (the (tj_low st' w)) st')
      else if w \<in> tj_on st then lower v (the (tj_idx st w)) st
      else st)"

fun pop_until :: "'k \<Rightarrow> 'k list \<Rightarrow> 'k list \<times> 'k list" where
  "pop_until v [] = ([], [])"
| "pop_until v (w # stack) =
     (if w = v then ([w], stack) else let (scc, rest) = pop_until v stack in (w # scc, rest))"

definition close :: "'k \<Rightarrow> 'k tarjan \<Rightarrow> 'k tarjan" where
  "close v st =
     (if tj_low st v = tj_idx st v then
        (let (scc, rest) = pop_until v (tj_stack st) in
         st\<lparr>tj_stack := rest, tj_on := tj_on st - set scc, tj_out := tj_out st @ [scc]\<rparr>)
      else st)"

primrec visit :: "nat \<Rightarrow> 'k list \<Rightarrow> ('k \<Rightarrow> 'k list option) \<Rightarrow> 'k \<Rightarrow> 'k tarjan \<Rightarrow> 'k tarjan" where
  "visit 0 nodes edges v st = st"
| "visit (Suc n) nodes edges v st =
     close v (foldl (visit_edge (visit n nodes edges) nodes v) (enter v st) (succs edges v))"

definition tarjan_new :: "'k tarjan" where
  "tarjan_new = \<lparr>tj_index = 0, tj_idx = Map.empty, tj_low = Map.empty, tj_on = {}, tj_stack = [], tj_out = []\<rparr>"

definition visit_root :: "'k list \<Rightarrow> ('k \<Rightarrow> 'k list option) \<Rightarrow> 'k tarjan \<Rightarrow> 'k \<Rightarrow> 'k tarjan" where
  "visit_root nodes edges st k =
     (if tj_idx st k = None then visit (length nodes) nodes edges k st else st)"

definition sccs :: "'k list \<Rightarrow> ('k \<Rightarrow> 'k list option) \<Rightarrow> 'k list list" where
  "sccs nodes edges = tj_out (foldl (visit_root nodes edges) tarjan_new nodes)"

section \<open>A shortest cycle\<close>

text \<open>The walk back along \<open>prev\<close>; the path is built from the far end.\<close>

primrec back_path :: "nat \<Rightarrow> 'k \<Rightarrow> ('k \<Rightarrow> 'k option) \<Rightarrow> 'k \<Rightarrow> 'k list" where
  "back_path 0 start prev cur = []"
| "back_path (Suc n) start prev cur =
     (if cur = start then [] else cur # back_path n start prev (the (prev cur)))"

record 'k bfs =
  bf_prev :: "'k \<Rightarrow> 'k option"
  bf_queue :: "'k list"
  bf_seen :: "'k set"
  bf_hit :: "'k option"

text \<open>One edge \<open>k \<rightarrow> n\<close> of the search; \<open>bf_hit\<close> is the node whose edge closed the cycle, after which the
  code returns.\<close>

definition bfs_edge :: "'k \<Rightarrow> 'k set \<Rightarrow> 'k \<Rightarrow> 'k bfs \<Rightarrow> 'k \<Rightarrow> 'k bfs" where
  "bfs_edge start part k s n =
     (if bf_hit s \<noteq> None \<or> n \<notin> part then s
      else if n = start then s\<lparr>bf_hit := Some k\<rparr>
      else if n \<in> bf_seen s then s
      else s\<lparr>bf_seen := insert n (bf_seen s), bf_prev := (bf_prev s)(n \<mapsto> k), bf_queue := bf_queue s @ [n]\<rparr>)"

primrec bfs_loop :: "nat \<Rightarrow> 'k \<Rightarrow> 'k set \<Rightarrow> ('k \<Rightarrow> 'k list option) \<Rightarrow> 'k bfs \<Rightarrow> 'k bfs" where
  "bfs_loop 0 start part edges s = s"
| "bfs_loop (Suc n) start part edges s =
     (case bf_queue s of
        [] \<Rightarrow> s
      | k # q \<Rightarrow>
          (let s' = foldl (bfs_edge start part k) (s\<lparr>bf_queue := q\<rparr>) (succs edges k) in
           if bf_hit s' \<noteq> None then s' else bfs_loop n start part edges s'))"

definition cycle_path :: "'k \<Rightarrow> 'k set \<Rightarrow> ('k \<Rightarrow> 'k list option) \<Rightarrow> 'k list" where
  "cycle_path start part edges =
     (let s = bfs_loop (Suc (card part)) start part edges
         \<lparr>bf_prev = Map.empty, bf_queue = [start], bf_seen = {}, bf_hit = None\<rparr> in
      case bf_hit s of
        None \<Rightarrow> [start, start]
      | Some k \<Rightarrow> [start] @ rev (back_path (Suc (card part)) start (bf_prev s) k) @ [start])"

section \<open>What the search keeps\<close>

definition graph :: "'k list \<Rightarrow> ('k \<Rightarrow> 'k list option) \<Rightarrow> ('k \<times> 'k) set" where
  "graph nodes edges = {(a, b). a \<in> set nodes \<and> b \<in> set nodes \<and> b \<in> set (succs edges a)}"

definition same_scc :: "('k \<times> 'k) set \<Rightarrow> 'k \<Rightarrow> 'k set" where
  "same_scc G x = {y. (x, y) \<in> G\<^sup>* \<and> (y, x) \<in> G\<^sup>*}"

abbreviation num :: "'k tarjan \<Rightarrow> 'k \<Rightarrow> nat" where
  "num st x \<equiv> the (tj_idx st x)"

text \<open>The nodes that left the stack: their components are in the output.\<close>

abbreviation done_nodes :: "'k tarjan \<Rightarrow> 'k set" where
  "done_nodes st \<equiv> dom (tj_idx st) - set (tj_stack st)"

text \<open>The invariant between two steps, \<open>gs\<close> being the nodes whose \<open>visit\<close> has not returned: numbers
  grow up the stack, every node of the stack reaches an open node below it and is reached from
  every open node below it, closed nodes have no unvisited successor, and the output holds exactly
  the components of the nodes that left the stack, which lead nowhere else.\<close>

definition shape_ok :: "'k set \<Rightarrow> 'k set \<Rightarrow> 'k tarjan \<Rightarrow> bool" where
  "shape_ok V gs st \<longleftrightarrow> distinct (tj_stack st) \<and> set (tj_stack st) \<subseteq> dom (tj_idx st) \<and>
     dom (tj_idx st) \<subseteq> V \<and> tj_on st = set (tj_stack st) \<and> gs \<subseteq> set (tj_stack st) \<and>
     (\<forall>x \<in> dom (tj_idx st). num st x < tj_index st) \<and>
     sorted_wrt (\<lambda>a b. num st b < num st a) (tj_stack st)"

definition reach_ok :: "('k \<times> 'k) set \<Rightarrow> 'k set \<Rightarrow> 'k tarjan \<Rightarrow> bool" where
  "reach_ok G gs st \<longleftrightarrow>
     (\<forall>x \<in> set (tj_stack st). \<exists>g \<in> gs. num st g \<le> num st x \<and> (x, g) \<in> G\<^sup>*) \<and>
     (\<forall>g \<in> gs. \<forall>x \<in> set (tj_stack st). num st g \<le> num st x \<longrightarrow> (g, x) \<in> G\<^sup>*) \<and>
     (\<forall>x \<in> dom (tj_idx st) - gs. G `` {x} \<subseteq> dom (tj_idx st))"

definition out_ok :: "('k \<times> 'k) set \<Rightarrow> 'k tarjan \<Rightarrow> bool" where
  "out_ok G st \<longleftrightarrow> distinct (concat (tj_out st)) \<and> set (concat (tj_out st)) = done_nodes st \<and>
     (\<forall>c \<in> set (tj_out st). \<exists>x \<in> set c. set c = same_scc G x) \<and> G `` done_nodes st \<subseteq> done_nodes st"

definition tarjan_inv :: "'k set \<Rightarrow> ('k \<times> 'k) set \<Rightarrow> 'k set \<Rightarrow> 'k tarjan \<Rightarrow> bool" where
  "tarjan_inv V G gs st \<longleftrightarrow> shape_ok V gs st \<and> reach_ok G gs st \<and> out_ok G st"

lemmas inv_defs = tarjan_inv_def shape_ok_def reach_ok_def out_ok_def

text \<open>What a state \<open>st'\<close> is after some steps from \<open>st\<close> that numbered more nodes: the old numbers and
  low links stand, the new numbers are larger, and the stack only grew.\<close>

definition later :: "'k tarjan \<Rightarrow> 'k tarjan \<Rightarrow> 'k list \<Rightarrow> bool" where
  "later st st' new \<longleftrightarrow> tj_stack st' = new @ tj_stack st \<and> tj_idx st \<subseteq>\<^sub>m tj_idx st' \<and>
     (\<forall>u \<in> dom (tj_idx st). tj_low st' u = tj_low st u) \<and>
     (\<forall>u \<in> dom (tj_idx st') - dom (tj_idx st). tj_index st \<le> num st' u)"

text \<open>What \<open>visit v\<close> promises.\<close>

definition visited :: "('k \<times> 'k) set \<Rightarrow> 'k \<Rightarrow> 'k tarjan \<Rightarrow> 'k tarjan \<Rightarrow> 'k list \<Rightarrow> bool" where
  "visited G v st st' new \<longleftrightarrow> later st st' new \<and> v \<in> dom (tj_idx st') \<and> tj_low st' v \<noteq> None \<and>
     (if new = [] then the (tj_low st' v) = num st' v
      else the (tj_low st' v) \<le> num st' v \<and>
        (\<exists>x \<in> set (tj_stack st'). num st' x = the (tj_low st' v) \<and> (v, x) \<in> G\<^sup>*)) \<and>
     (\<forall>x \<in> set new. \<forall>y \<in> G `` {x} \<inter> set (tj_stack st). the (tj_low st' v) \<le> num st' y)"

lemma visited_dom: "visited G v st st' new \<Longrightarrow> insert v (dom (tj_idx st)) \<subseteq> dom (tj_idx st')"
  using map_le_implies_dom_le[of "tj_idx st" "tj_idx st'"] by (auto simp: visited_def later_def)

lemma num_later: "tj_idx st \<subseteq>\<^sub>m tj_idx st' \<Longrightarrow> x \<in> dom (tj_idx st) \<Longrightarrow> tj_idx st' x = tj_idx st x"
  by (metis map_le_def)

lemma dom_later: "tj_idx st \<subseteq>\<^sub>m tj_idx st' \<Longrightarrow> dom (tj_idx st) \<subseteq> dom (tj_idx st')"
  by (rule map_le_implies_dom_le)

lemma tarjan_inv_lower [simp]: "tarjan_inv V G gs (lower v x st) \<longleftrightarrow> tarjan_inv V G gs st"
  by (simp add: inv_defs lower_def)

lemma pop_until_split:
  "v \<notin> set new \<Longrightarrow> pop_until v (new @ v # rest) = (new @ [v], rest)"
  by (induction new) auto

lemma tarjan_inv_enter:
  assumes inv: "tarjan_inv V G gs st" and v: "v \<in> V" "tj_idx st v = None" "\<forall>g \<in> gs. (g, v) \<in> G\<^sup>*"
  shows "tarjan_inv V G (insert v gs) (enter v st)"
proof -
  have sh: "shape_ok V gs st" and re: "reach_ok G gs st" and ou: "out_ok G st" using inv by (simp_all add: tarjan_inv_def)
  have nv: "v \<notin> dom (tj_idx st)" using v(2) by auto
  then have ns: "v \<notin> set (tj_stack st)" using sh by (auto simp: shape_ok_def)
  have lt: "num st x < tj_index st" if "x \<in> set (tj_stack st)" for x
    using sh that by (auto simp: shape_ok_def)
  have same: "num (enter v st) x = num st x" if "x \<in> set (tj_stack st)" for x
    using that ns by (auto simp: enter_def)
  have "sorted_wrt (\<lambda>a b. num st b < num st a) (tj_stack st)" using sh by (simp add: shape_ok_def)
  then have "sorted_wrt (\<lambda>a b. num (enter v st) b < num (enter v st) a) (tj_stack st)"
    by (rule sorted_wrt_mono_rel[rotated]) (simp only: same)
  moreover have "num (enter v st) b < num (enter v st) v" if "b \<in> set (tj_stack st)" for b
    using that lt same by (simp add: enter_def)
  moreover have "tj_stack (enter v st) = v # tj_stack st" by (simp add: enter_def)
  ultimately have sorted: "sorted_wrt (\<lambda>a b. num (enter v st) b < num (enter v st) a) (tj_stack (enter v st))"
    by simp
  have "num (enter v st) x < tj_index (enter v st)" if "x \<in> dom (tj_idx (enter v st))" for x
    using that sh by (auto simp: enter_def shape_ok_def less_Suc_eq)
  moreover have "distinct (tj_stack st)" "set (tj_stack st) \<subseteq> dom (tj_idx st)" "dom (tj_idx st) \<subseteq> V"
    "tj_on st = set (tj_stack st)" "gs \<subseteq> set (tj_stack st)" using sh by (simp_all add: shape_ok_def)
  ultimately have "shape_ok V (insert v gs) (enter v st)"
    unfolding shape_ok_def using sorted ns v(1) by (auto simp: enter_def)
  moreover have "reach_ok G (insert v gs) (enter v st)"
    unfolding reach_ok_def
  proof (intro conjI ballI impI)
    fix x assume "x \<in> set (tj_stack (enter v st))"
    then consider "x = v" | "x \<in> set (tj_stack st)" by (auto simp: enter_def)
    then show "\<exists>g \<in> insert v gs. num (enter v st) g \<le> num (enter v st) x \<and> (x, g) \<in> G\<^sup>*"
    proof cases
      case 2
      with re obtain g where "g \<in> gs" "num st g \<le> num st x" "(x, g) \<in> G\<^sup>*" by (auto simp: reach_ok_def)
      moreover have "g \<in> set (tj_stack st)" using \<open>g \<in> gs\<close> sh by (auto simp: shape_ok_def)
      ultimately show ?thesis using 2 same by auto
    qed auto
  next
    fix g x assume a: "g \<in> insert v gs" "x \<in> set (tj_stack (enter v st))"
      "num (enter v st) g \<le> num (enter v st) x"
    consider "x = v" | "x \<in> set (tj_stack st)" "g = v" | "x \<in> set (tj_stack st)" "g \<in> gs" "g \<noteq> v"
      using a by (auto simp: enter_def)
    then show "(g, x) \<in> G\<^sup>*"
    proof cases
      case 1
      with a(1) v(3) show ?thesis by auto
    next
      case 2
      with a(3) same[of x] lt[of x] show ?thesis by (simp add: enter_def)
    next
      case 3
      then have "g \<in> set (tj_stack st)" using sh by (auto simp: shape_ok_def)
      with 3 a(3) same re show ?thesis by (auto simp: reach_ok_def)
    qed
  next
    fix x assume "x \<in> dom (tj_idx (enter v st)) - insert v gs"
    then show "G `` {x} \<subseteq> dom (tj_idx (enter v st))" using re by (fastforce simp: reach_ok_def enter_def)
  qed
  moreover have "done_nodes (enter v st) = done_nodes st" using nv ns by (auto simp: enter_def)
  then have "out_ok G (enter v st)" using ou by (simp add: out_ok_def) (simp add: enter_def)
  ultimately show ?thesis by (simp add: tarjan_inv_def)
qed

text \<open>Closing \<open>v\<close> once all its edges are processed. \<open>stack0\<close> is the stack before \<open>v\<close> was entered.\<close>

definition ready :: "('k \<times> 'k) set \<Rightarrow> 'k \<Rightarrow> 'k list \<Rightarrow> 'k list \<Rightarrow> 'k tarjan \<Rightarrow> bool" where
  "ready G v new stack0 st \<longleftrightarrow> tj_stack st = new @ v # stack0 \<and> tj_low st v \<noteq> None \<and>
     the (tj_low st v) \<le> num st v \<and>
     (\<exists>x \<in> set (tj_stack st). num st x = the (tj_low st v) \<and> (v, x) \<in> G\<^sup>*) \<and>
     (\<forall>x \<in> set new \<union> {v}. \<forall>y \<in> G `` {x} \<inter> set stack0. the (tj_low st v) \<le> num st y) \<and>
     G `` {v} \<subseteq> dom (tj_idx st)"

lemma stack_nums:
  assumes "shape_ok V gs st" "tj_stack st = new @ v # stack0"
  shows "\<And>x. x \<in> set new \<Longrightarrow> num st v < num st x" "\<And>y. y \<in> set stack0 \<Longrightarrow> num st y < num st v"
    "v \<notin> set new" "v \<notin> set stack0" "set new \<inter> set stack0 = {}"
  using assms by (auto simp: shape_ok_def sorted_wrt_append)

lemma close_stays:
  assumes inv: "tarjan_inv V G (insert v gs) st" and gs: "gs \<subseteq> set stack0"
    and rd: "ready G v new stack0 st" and low: "the (tj_low st v) \<noteq> num st v"
  shows "tarjan_inv V G gs st"
proof -
  have sh: "shape_ok V (insert v gs) st" and re: "reach_ok G (insert v gs) st" using inv by (simp_all add: tarjan_inv_def)
  have stk: "tj_stack st = new @ v # stack0" using rd by (simp add: ready_def)
  note nums = stack_nums[OF sh stk]
  from rd low obtain x0 where x0: "x0 \<in> set (tj_stack st)" "num st x0 < num st v" "(v, x0) \<in> G\<^sup>*"
    by (fastforce simp: ready_def)
  from re x0(1) obtain g0 where g0: "g0 \<in> insert v gs" "num st g0 \<le> num st x0" "(x0, g0) \<in> G\<^sup>*"
    unfolding reach_ok_def by blast
  then have g: "g0 \<in> gs" "num st g0 < num st v" "(v, g0) \<in> G\<^sup>*" using x0 by auto
  have "reach_ok G gs st"
    unfolding reach_ok_def
  proof (intro conjI ballI impI)
    fix x assume "x \<in> set (tj_stack st)"
    with re obtain h where h: "h \<in> insert v gs" "num st h \<le> num st x" "(x, h) \<in> G\<^sup>*"
      unfolding reach_ok_def by blast
    show "\<exists>g \<in> gs. num st g \<le> num st x \<and> (x, g) \<in> G\<^sup>*"
    proof (cases "h = v")
      case True
      with h g have "num st g0 \<le> num st x" "(x, g0) \<in> G\<^sup>*" by auto
      with g(1) show ?thesis by blast
    next
      case False
      with h show ?thesis by blast
    qed
  next
    fix h x assume "h \<in> gs" "x \<in> set (tj_stack st)" "num st h \<le> num st x"
    then show "(h, x) \<in> G\<^sup>*" using re unfolding reach_ok_def by blast
  next
    fix x assume x: "x \<in> dom (tj_idx st) - gs"
    show "G `` {x} \<subseteq> dom (tj_idx st)"
    proof (cases "x = v")
      case True
      with rd show ?thesis by (simp add: ready_def)
    next
      case False
      with x re show ?thesis unfolding reach_ok_def by blast
    qed
  qed
  moreover have "shape_ok V gs st" using sh by (auto simp: shape_ok_def)
  ultimately show ?thesis using inv by (simp add: tarjan_inv_def)
qed

lemma rtrancl_stays: "(x, y) \<in> G\<^sup>* \<Longrightarrow> G `` S \<subseteq> S \<Longrightarrow> x \<in> S \<Longrightarrow> y \<in> S"
  by (induction rule: rtrancl_induct) auto

lemma component_closed:
  assumes inv: "tarjan_inv V G (insert v gs) st" and gs: "gs \<subseteq> set stack0"
    and rd: "ready G v new stack0 st" and low: "the (tj_low st v) = num st v"
  shows "G `` (set new \<union> {v} \<union> done_nodes st) \<subseteq> set new \<union> {v} \<union> done_nodes st"
    "set new \<union> {v} = same_scc G v"
proof -
  let ?C = "set new \<union> {v}" let ?O = "done_nodes st"
  have sh: "shape_ok V (insert v gs) st" and re: "reach_ok G (insert v gs) st" and ou: "out_ok G st"
    using inv by (simp_all add: tarjan_inv_def)
  have stk: "tj_stack st = new @ v # stack0" using rd by (simp add: ready_def)
  note nums = stack_nums[OF sh stk]
  have step: "y \<in> ?C \<union> ?O" if "x \<in> ?C" "(x, y) \<in> G" for x y
  proof -
    have "y \<in> dom (tj_idx st)"
    proof (cases "x = v")
      case True
      with rd that(2) show ?thesis by (auto simp: ready_def)
    next
      case False
      with that(1) nums(5) gs have "x \<notin> insert v gs" by auto
      moreover have "x \<in> dom (tj_idx st)" using that(1) sh stk by (auto simp: shape_ok_def)
      ultimately show ?thesis using re that(2) unfolding reach_ok_def by blast
    qed
    moreover have "y \<notin> set stack0"
    proof
      assume y: "y \<in> set stack0"
      then have "the (tj_low st v) \<le> num st y" using rd that unfolding ready_def by blast
      with low nums(2)[OF y] show False by simp
    qed
    ultimately show ?thesis using stk by auto
  qed
  moreover have "G `` ?O \<subseteq> ?O" using ou by (simp add: out_ok_def)
  ultimately show cl: "G `` (?C \<union> ?O) \<subseteq> ?C \<union> ?O" by blast
  show "?C = same_scc G v"
  proof (intro equalityI subsetI)
    fix x assume x: "x \<in> ?C"
    then have xs: "x \<in> set (tj_stack st)" using stk by auto
    have "num st v \<le> num st x" using x nums(1)[of x] by auto
    with xs re have "(v, x) \<in> G\<^sup>*" unfolding reach_ok_def by blast
    moreover have "(x, v) \<in> G\<^sup>*"
    proof -
      from xs re obtain g where g: "g \<in> insert v gs" "(x, g) \<in> G\<^sup>*" unfolding reach_ok_def by blast
      have "g \<in> ?C \<union> ?O" by (rule rtrancl_stays[OF g(2) cl]) (use x in auto)
      with g(1) gs stk nums(5) have "g = v" by auto
      with g(2) show ?thesis by simp
    qed
    ultimately show "x \<in> same_scc G v" by (simp add: same_scc_def)
  next
    fix y assume "y \<in> same_scc G v"
    then have y: "(v, y) \<in> G\<^sup>*" "(y, v) \<in> G\<^sup>*" by (simp_all add: same_scc_def)
    have "y \<in> ?C \<union> ?O" by (rule rtrancl_stays[OF y(1) cl]) simp
    moreover have "y \<notin> ?O"
    proof
      assume "y \<in> ?O"
      then have "v \<in> ?O" using rtrancl_stays[OF y(2)] ou unfolding out_ok_def by blast
      with stk show False by simp
    qed
    ultimately show "y \<in> ?C" by blast
  qed
qed

lemma close_pops:
  assumes inv: "tarjan_inv V G (insert v gs) st" and gs: "gs \<subseteq> set stack0"
    and rd: "ready G v new stack0 st" and low: "the (tj_low st v) = num st v"
  shows "tarjan_inv V G gs (close v st) \<and> tj_stack (close v st) = stack0 \<and>
    tj_idx (close v st) = tj_idx st \<and> tj_low (close v st) = tj_low st"
proof -
  have sh: "shape_ok V (insert v gs) st" and re: "reach_ok G (insert v gs) st" and ou: "out_ok G st"
    using inv by (simp_all add: tarjan_inv_def)
  have stk: "tj_stack st = new @ v # stack0" using rd by (simp add: ready_def)
  note nums = stack_nums[OF sh stk] and comp = component_closed[OF inv gs rd low]
  have vd: "v \<in> dom (tj_idx st)" using sh by (auto simp: shape_ok_def)
  then have "tj_low st v = tj_idx st v" using rd low by (auto simp: ready_def)
  then have cl: "close v st = st\<lparr>tj_stack := stack0, tj_on := tj_on st - set (new @ [v]),
      tj_out := tj_out st @ [new @ [v]]\<rparr>"
    by (simp add: close_def stk pop_until_split[OF nums(3)])
  let ?s = "close v st"
  have "shape_ok V gs ?s" using sh gs stk by (auto simp: cl shape_ok_def sorted_wrt_append)
  moreover have "reach_ok G gs ?s"
    unfolding reach_ok_def
  proof (intro conjI ballI impI)
    fix x assume "x \<in> set (tj_stack ?s)"
    then have x: "x \<in> set stack0" by (simp add: cl)
    then have "x \<in> set (tj_stack st)" using stk by simp
    with re obtain g where g: "g \<in> insert v gs" "num st g \<le> num st x" "(x, g) \<in> G\<^sup>*"
      unfolding reach_ok_def by blast
    with nums(2)[OF x] have "g \<in> gs" by auto
    with g show "\<exists>g \<in> gs. num ?s g \<le> num ?s x \<and> (x, g) \<in> G\<^sup>*" by (auto simp: cl)
  next
    fix h x assume "h \<in> gs" "x \<in> set (tj_stack ?s)" "num ?s h \<le> num ?s x"
    then show "(h, x) \<in> G\<^sup>*" using re stk by (simp add: cl reach_ok_def)
  next
    fix x assume x: "x \<in> dom (tj_idx ?s) - gs"
    show "G `` {x} \<subseteq> dom (tj_idx ?s)"
      using x re rd by (cases "x = v") (auto simp: cl reach_ok_def ready_def)
  qed
  moreover have dn: "done_nodes ?s = set new \<union> {v} \<union> done_nodes st"
    using sh stk nums(4,5) vd by (auto simp: cl shape_ok_def)
  have "out_ok G ?s"
    unfolding out_ok_def dn
  proof (intro conjI ballI)
    have "distinct (new @ [v])" "set (new @ [v]) \<inter> done_nodes st = {}"
      using sh stk by (auto simp: shape_ok_def)
    then show "distinct (concat (tj_out ?s))" using ou by (auto simp: cl out_ok_def)
    show "set (concat (tj_out ?s)) = set new \<union> {v} \<union> done_nodes st" using ou by (auto simp: cl out_ok_def)
    show "\<exists>x \<in> set c. set c = same_scc G x" if "c \<in> set (tj_out ?s)" for c
    proof (cases "c = new @ [v]")
      case True
      then have "v \<in> set c" "set c = same_scc G v" using comp(2) by auto
      then show ?thesis by blast
    next
      case False
      with that ou show ?thesis by (simp add: cl out_ok_def)
    qed
    show "G `` (set new \<union> {v} \<union> done_nodes st) \<subseteq> set new \<union> {v} \<union> done_nodes st" by (rule comp(1))
  qed
  ultimately show ?thesis by (simp add: tarjan_inv_def cl)
qed

text \<open>The state of the edge loop of \<open>v\<close>: the edges to \<open>ws\<close> are processed, \<open>new\<close> is what was pushed.\<close>

definition looping :: "('k \<times> 'k) set \<Rightarrow> 'k \<Rightarrow> 'k tarjan \<Rightarrow> 'k set \<Rightarrow> 'k list \<Rightarrow> 'k tarjan \<Rightarrow> bool" where
  "looping G v st0 ws new st \<longleftrightarrow>
     tj_stack st = new @ v # tj_stack st0 \<and> tj_idx (enter v st0) \<subseteq>\<^sub>m tj_idx st \<and>
     (\<forall>u \<in> dom (tj_idx st0). tj_low st u = tj_low st0 u) \<and>
     (\<forall>u \<in> dom (tj_idx st) - dom (tj_idx st0). tj_index st0 \<le> num st u) \<and>
     tj_low st v \<noteq> None \<and> the (tj_low st v) \<le> num st v \<and>
     (\<exists>x \<in> set (tj_stack st). num st x = the (tj_low st v) \<and> (v, x) \<in> G\<^sup>*) \<and>
     (\<forall>x \<in> set new. \<forall>y \<in> G `` {x} \<inter> set (tj_stack st0). the (tj_low st v) \<le> num st y) \<and>
     ws \<subseteq> dom (tj_idx st) \<and> (\<forall>w \<in> ws \<inter> set (tj_stack st0). the (tj_low st v) \<le> num st w)"

lemma looping_enter: "tj_idx st0 v = None \<Longrightarrow> looping G v st0 {} [] (enter v st0)"
  by (auto simp: looping_def enter_def)

lemma looping_lower:
  assumes lp: "looping G v st0 ws new st" and v: "tj_idx st0 v = None"
    and x: "x \<in> set (tj_stack st)" "x \<in> dom (tj_idx st)" "(v, x) \<in> G\<^sup>*"
  shows "looping G v st0 (insert x ws) new (lower v (num st x) st)"
proof -
  have "\<exists>y \<in> set (tj_stack st). num st y = min (the (tj_low st v)) (num st x) \<and> (v, y) \<in> G\<^sup>*"
    using lp x by (cases "the (tj_low st v) \<le> num st x") (auto simp: looping_def min_def)
  then show ?thesis
    using lp v x(2) by (auto simp: looping_def lower_def min.coboundedI1)
qed

lemma looping_visited:
  assumes lp: "looping G v st0 ws new st" and v: "tj_idx st0 v = None" "tj_idx st v = Some (tj_index st0)"
    and sh: "shape_ok V gs st" and vd: "visited G w st s new'" and w: "tj_idx st w = None" "(v, w) \<in> G"
  shows "looping G v st0 (insert w ws) (new' @ new) (lower v (the (tj_low s w)) s)"
proof -
  let ?l = "min (the (tj_low st v)) (the (tj_low s w))"
  have stk: "tj_stack st = new @ v # tj_stack st0" using lp by (simp add: looping_def)
  have lt: "later st s new'" using vd by (simp add: visited_def)
  then have le: "tj_idx st \<subseteq>\<^sub>m tj_idx s" and stk': "tj_stack s = new' @ new @ v # tj_stack st0"
    using stk by (simp_all add: later_def)
  have vdom: "v \<in> dom (tj_idx st)" using v(2) by auto
  have lowv: "tj_low s v = tj_low st v" using lt vdom by (simp add: later_def)
  have dom0: "dom (tj_idx st0) \<subseteq> dom (tj_idx st)"
  proof -
    have "tj_idx (enter v st0) \<subseteq>\<^sub>m tj_idx st" using lp by (simp add: looping_def)
    from dom_later[OF this] show ?thesis by (simp add: enter_def)
  qed
  have same: "tj_idx s x = tj_idx st x" if "x \<in> dom (tj_idx st)" for x using num_later[OF le that] .
  have stdom: "set (tj_stack st) \<subseteq> dom (tj_idx st)" using sh by (simp add: shape_ok_def)
  have wns: "w \<notin> set (tj_stack st0)" using w(1) stdom stk by auto
  have idx: "tj_index st0 < tj_index st" using sh vdom v(2)
    unfolding shape_ok_def by (metis option.sel)
  have wv: "the (tj_low st v) \<le> num s v" using lp same[OF vdom] by (simp add: looping_def)
  have "\<exists>x \<in> set (tj_stack s). num s x = ?l \<and> (v, x) \<in> G\<^sup>*"
  proof (cases "the (tj_low st v) \<le> the (tj_low s w)")
    case True
    from lp obtain x where "x \<in> set (tj_stack st)" "num st x = the (tj_low st v)" "(v, x) \<in> G\<^sup>*"
      by (auto simp: looping_def)
    moreover from this stdom have "tj_idx s x = tj_idx st x" by (intro same) blast
    ultimately show ?thesis using True stk stk' by (intro bexI[of _ x]) (auto simp: min_def)
  next
    case False
    have "new' \<noteq> []"
    proof
      assume "new' = []"
      then have "the (tj_low s w) = num s w" using vd by (simp add: visited_def)
      moreover have "tj_index st \<le> num s w" using lt vd w(1) by (auto simp: later_def visited_def)
      ultimately show False using False idx v(2) lp by (auto simp: looping_def)
    qed
    with vd obtain x where "x \<in> set (tj_stack s)" "num s x = the (tj_low s w)" "(w, x) \<in> G\<^sup>*"
      by (auto simp: visited_def)
    with False w(2) show ?thesis by (intro bexI[of _ x]) (auto simp: min_def)
  qed
  moreover have "?l \<le> num s y" if "x \<in> set (new' @ new)" "(x, y) \<in> G" "y \<in> set (tj_stack st0)" for x y
  proof (cases "x \<in> set new'")
    case True
    with that vd stk have "the (tj_low s w) \<le> num s y" by (auto simp: visited_def)
    then show ?thesis by simp
  next
    case False
    with that lp have "the (tj_low st v) \<le> num st y" by (auto simp: looping_def)
    moreover have "num s y = num st y" using that(3) stk stdom by (subst same) auto
    ultimately show ?thesis by simp
  qed
  moreover have "?l \<le> num s y" if "y \<in> insert w ws" "y \<in> set (tj_stack st0)" for y
  proof -
    have "the (tj_low st v) \<le> num st y" using that lp wns by (auto simp: looping_def)
    moreover have "num s y = num st y" using that(2) stk stdom by (subst same) auto
    ultimately show ?thesis by simp
  qed
  moreover have "tj_idx (enter v st0) \<subseteq>\<^sub>m tj_idx s" using lp le by (auto simp: looping_def intro: map_le_trans)
  moreover have "tj_low s u = tj_low st0 u" if "u \<in> dom (tj_idx st0)" for u
  proof -
    have "tj_low st u = tj_low st0 u" using lp that by (simp add: looping_def)
    moreover have "tj_low s u = tj_low st u" using lt that dom0 unfolding later_def by blast
    ultimately show ?thesis by simp
  qed
  moreover have "tj_index st0 \<le> num s u" if "u \<in> dom (tj_idx s)" "u \<notin> dom (tj_idx st0)" for u
  proof (cases "u \<in> dom (tj_idx st)")
    case True
    with that(2) lp have "tj_index st0 \<le> num st u" by (auto simp: looping_def)
    then show ?thesis by (simp add: same[OF True])
  next
    case False
    with that(1) lt have "tj_index st \<le> num s u" unfolding later_def by blast
    with idx show ?thesis by simp
  qed
  moreover have "insert w ws \<subseteq> dom (tj_idx s)"
  proof -
    have "ws \<subseteq> dom (tj_idx st)" using lp by (simp add: looping_def)
    then show ?thesis using visited_dom[OF vd] by blast
  qed
  moreover have "tj_low s v \<noteq> None" "v \<notin> dom (tj_idx st0)" using lp lowv v(1) by (auto simp: looping_def)
  ultimately show ?thesis
    using wv lowv stk' by (auto simp: looping_def lower_def min.coboundedI1)
qed

text \<open>One edge of the loop. The state after it is again in the loop, with the edge processed.\<close>

definition visit_meets :: "'k set \<Rightarrow> ('k \<times> 'k) set \<Rightarrow> nat \<Rightarrow> ('k \<Rightarrow> 'k tarjan \<Rightarrow> 'k tarjan) \<Rightarrow> bool" where
  "visit_meets V G n vis \<longleftrightarrow> (\<forall>gs v st. tarjan_inv V G gs st \<longrightarrow> v \<in> V \<longrightarrow> tj_idx st v = None \<longrightarrow>
     (\<forall>g \<in> gs. (g, v) \<in> G\<^sup>*) \<longrightarrow> card (V - dom (tj_idx st)) \<le> n \<longrightarrow>
     tarjan_inv V G gs (vis v st) \<and> (\<exists>new. visited G v st (vis v st) new))"

lemma visit_edge_step:
  assumes vis: "visit_meets (set nodes) G n vis" and G: "w \<in> set nodes \<Longrightarrow> (v, w) \<in> G"
    and inv: "tarjan_inv (set nodes) G (insert v gs) st" and lp: "looping G v st0 ws new st"
    and v: "tj_idx st0 v = None" and card: "card (set nodes - dom (tj_idx st)) \<le> n"
    and idx0: "tj_idx st v = Some (tj_index st0)" and gs: "gs \<subseteq> set (tj_stack st0)"
  shows "\<exists>new'. tarjan_inv (set nodes) G (insert v gs) (visit_edge vis nodes v st w) \<and>
    looping G v st0 (ws \<union> {w} \<inter> set nodes) new' (visit_edge vis nodes v st w) \<and>
    dom (tj_idx st) \<subseteq> dom (tj_idx (visit_edge vis nodes v st w))"
proof -
  have sh: "shape_ok (set nodes) (insert v gs) st" and re: "reach_ok G (insert v gs) st"
    using inv by (simp_all add: tarjan_inv_def)
  have stk: "tj_stack st = new @ v # tj_stack st0" using lp by (simp add: looping_def)
  consider "w \<notin> set nodes" | "w \<in> set nodes" "tj_idx st w = None"
    | "w \<in> set nodes" "tj_idx st w \<noteq> None" "w \<in> tj_on st"
    | "w \<in> set nodes" "tj_idx st w \<noteq> None" "w \<notin> tj_on st" by blast
  then show ?thesis
  proof cases
    case 1
    with inv lp show ?thesis by (auto simp: visit_edge_def)
  next
    case 3
    then have w: "w \<in> set (tj_stack st)" "w \<in> dom (tj_idx st)" "(v, w) \<in> G\<^sup>*"
      using sh G by (auto simp: shape_ok_def)
    have "visit_edge vis nodes v st w = lower v (num st w) st" "ws \<union> {w} \<inter> set nodes = insert w ws"
      using 3 by (auto simp: visit_edge_def)
    moreover have "tj_idx (lower v (num st w) st) = tj_idx st" by (simp add: lower_def)
    ultimately show ?thesis using inv looping_lower[OF lp v w] by (intro exI[of _ new]) simp
  next
    case 4
    have "w \<notin> set (tj_stack st0)" using 4 sh stk by (auto simp: shape_ok_def)
    with lp 4 have "looping G v st0 (ws \<union> {w} \<inter> set nodes) new st" by (auto simp: looping_def)
    with 4 inv show ?thesis by (auto simp: visit_edge_def)
  next
    case 2
    let ?s = "vis w st"
    have vG: "(v, w) \<in> G" using G 2 by simp
    have "(g, w) \<in> G\<^sup>*" if "g \<in> insert v gs" for g
    proof -
      have "num st g \<le> num st v"
      proof -
        have "g = v \<or> g \<in> set (tj_stack st0)" using that gs by auto
        with stack_nums(2)[OF sh stk] show ?thesis by (auto intro: less_imp_le)
      qed
      moreover have "v \<in> set (tj_stack st)" by (simp add: stk)
      ultimately have "(g, v) \<in> G\<^sup>*" using re that unfolding reach_ok_def by blast
      from this vG show ?thesis by (rule rtrancl_into_rtrancl)
    qed
    with vis inv 2 card obtain new' where inv': "tarjan_inv (set nodes) G (insert v gs) ?s"
      and vd: "visited G w st ?s new'" unfolding visit_meets_def by blast
    have "visit_edge vis nodes v st w = lower v (the (tj_low ?s w)) ?s" "ws \<union> {w} \<inter> set nodes = insert w ws"
      using 2 by (auto simp: visit_edge_def Let_def)
    moreover have "dom (tj_idx st) \<subseteq> dom (tj_idx (lower v (the (tj_low ?s w)) ?s))"
      using vd by (auto simp: lower_def visited_def later_def dest!: dom_later)
    ultimately show ?thesis
      using inv' looping_visited[OF lp v idx0 sh vd _ vG] 2 by (intro exI[of _ "new' @ new"]) simp
  qed
qed

lemma visit_edges_loop:
  assumes vis: "visit_meets (set nodes) G n vis" and G: "\<And>w. w \<in> set ws \<Longrightarrow> w \<in> set nodes \<Longrightarrow> (v, w) \<in> G"
    and v: "tj_idx st0 v = None" and gs: "gs \<subseteq> set (tj_stack st0)"
  shows "tarjan_inv (set nodes) G (insert v gs) st \<Longrightarrow> looping G v st0 W new st \<Longrightarrow>
    card (set nodes - dom (tj_idx st)) \<le> n \<Longrightarrow>
    \<exists>new'. tarjan_inv (set nodes) G (insert v gs) (foldl (visit_edge vis nodes v) st ws) \<and>
      looping G v st0 (W \<union> set ws \<inter> set nodes) new' (foldl (visit_edge vis nodes v) st ws)"
  using G
proof (induction ws arbitrary: st W new)
  case (Cons w ws)
  have idx: "tj_idx st v = Some (tj_index st0)"
    using Cons.prems(2) num_later[of "enter v st0" st v] by (auto simp: looping_def enter_def)
  from visit_edge_step[OF vis _ Cons.prems(1,2) v Cons.prems(3) idx gs, of w] Cons.prems(4)
  obtain new' where step: "tarjan_inv (set nodes) G (insert v gs) (visit_edge vis nodes v st w)"
    "looping G v st0 (W \<union> {w} \<inter> set nodes) new' (visit_edge vis nodes v st w)"
    "dom (tj_idx st) \<subseteq> dom (tj_idx (visit_edge vis nodes v st w))" by auto
  have "card (set nodes - dom (tj_idx (visit_edge vis nodes v st w))) \<le> card (set nodes - dom (tj_idx st))"
    by (rule card_mono) (use step(3) in auto)
  from Cons.IH[OF step(1,2) order_trans[OF this Cons.prems(3)]] Cons.prems(4) show ?case
    by (auto simp: Int_insert_left Un_assoc)
qed auto

lemma visit_correct: "visit_meets (set nodes) (graph nodes edges) n (visit n nodes edges)"
proof (induction n)
  case 0
  show ?case
    unfolding visit_meets_def
  proof (intro allI impI)
    fix gs v and st :: "'a tarjan"
    assume "v \<in> set nodes" "tj_idx st v = None" "card (set nodes - dom (tj_idx st)) \<le> 0"
    then show "tarjan_inv (set nodes) (graph nodes edges) gs (visit 0 nodes edges v st) \<and>
        (\<exists>new. visited (graph nodes edges) v st (visit 0 nodes edges v st) new)" by auto
  qed
next
  case (Suc n)
  let ?G = "graph nodes edges"
  show ?case
    unfolding visit_meets_def
  proof (intro allI impI)
    fix gs v and st0 :: "'a tarjan"
    assume inv: "tarjan_inv (set nodes) ?G gs st0" and v: "v \<in> set nodes" "tj_idx st0 v = None"
      and gv: "\<forall>g \<in> gs. (g, v) \<in> ?G\<^sup>*" and card: "card (set nodes - dom (tj_idx st0)) \<le> Suc n"
    have gs: "gs \<subseteq> set (tj_stack st0)" and stdom: "set (tj_stack st0) \<subseteq> dom (tj_idx st0)"
      using inv by (simp_all add: inv_defs)
    let ?st = "foldl (visit_edge (visit n nodes edges) nodes v) (enter v st0) (succs edges v)"
    have "set nodes - dom (tj_idx (enter v st0)) = set nodes - dom (tj_idx st0) - {v}" by (auto simp: enter_def)
    moreover have "v \<in> set nodes - dom (tj_idx st0)" using v by auto
    ultimately have "card (set nodes - dom (tj_idx (enter v st0))) \<le> n"
      using card card_Diff_singleton[of v "set nodes - dom (tj_idx st0)"] by simp
    from visit_edges_loop[OF Suc _ v(2) gs tarjan_inv_enter[OF inv v gv] looping_enter[OF v(2)] this,
        of "succs edges v"] v(1)
    obtain new where inv1: "tarjan_inv (set nodes) ?G (insert v gs) ?st"
      and lp: "looping ?G v st0 (set (succs edges v) \<inter> set nodes) new ?st"
      by (auto simp: graph_def)
    have "?G `` {v} \<subseteq> set (succs edges v) \<inter> set nodes" by (auto simp: graph_def)
    with lp have rd: "ready ?G v new (tj_stack st0) ?st" unfolding looping_def ready_def by blast
    have vs: "visit (Suc n) nodes edges v st0 = close v ?st" by simp
    have le: "tj_idx st0 \<subseteq>\<^sub>m tj_idx ?st"
      using lp v(2) by (auto simp: looping_def enter_def map_le_def dom_def split: if_splits)
    have idx: "tj_idx ?st v = Some (tj_index st0)"
      using lp num_later[of "enter v st0" ?st v] by (auto simp: looping_def enter_def)
    show "tarjan_inv (set nodes) ?G gs (visit (Suc n) nodes edges v st0) \<and>
        (\<exists>new. visited ?G v st0 (visit (Suc n) nodes edges v st0) new)"
    proof (cases "the (tj_low ?st v) = num ?st v")
      case True
      note cl = close_pops[OF inv1 gs rd True]
      have "visited ?G v st0 (close v ?st) []"
        using cl lp le idx True by (auto simp: visited_def later_def looping_def)
      with cl show ?thesis unfolding vs by blast
    next
      case False
      then have "close v ?st = ?st" by (auto simp: close_def)
      moreover have "visited ?G v st0 ?st (new @ [v])"
        using lp le idx rd by (auto simp: visited_def later_def looping_def ready_def)
      ultimately show ?thesis unfolding vs using close_stays[OF inv1 gs rd False] by auto
    qed
  qed
qed

lemma tarjan_inv_new: "tarjan_inv V G {} tarjan_new"
  by (simp add: inv_defs tarjan_new_def)

lemma visit_roots:
  assumes "set ks \<subseteq> set nodes" "tarjan_inv (set nodes) (graph nodes edges) {} st"
  shows "tarjan_inv (set nodes) (graph nodes edges) {} (foldl (visit_root nodes edges) st ks) \<and>
    dom (tj_idx st) \<union> set ks \<subseteq> dom (tj_idx (foldl (visit_root nodes edges) st ks))"
  using assms
proof (induction ks arbitrary: st)
  case (Cons k ks)
  have "card (set nodes - dom (tj_idx st)) \<le> length nodes"
    by (meson Diff_subset List.finite_set card_length card_mono le_trans)
  then have "tj_idx st k = None \<Longrightarrow> tarjan_inv (set nodes) (graph nodes edges) {} (visit (length nodes) nodes edges k st) \<and>
      (\<exists>new. visited (graph nodes edges) k st (visit (length nodes) nodes edges k st) new)"
    using visit_correct[of nodes edges "length nodes"] Cons.prems unfolding visit_meets_def by simp
  then have "tarjan_inv (set nodes) (graph nodes edges) {} (visit_root nodes edges st k) \<and>
      insert k (dom (tj_idx st)) \<subseteq> dom (tj_idx (visit_root nodes edges st k))"
    using Cons.prems by (cases "tj_idx st k = None") (auto 0 3 simp: visit_root_def dest: visited_dom)
  with Cons.IH[of "visit_root nodes edges st k"] Cons.prems(1) show ?case
    by (simp, blast intro: subset_trans)
qed auto

lemma sccs_partition:
  "distinct (concat (sccs nodes edges)) \<and> set (concat (sccs nodes edges)) = set nodes \<and>
   (\<forall>c \<in> set (sccs nodes edges). \<exists>x \<in> set c. set c = same_scc (graph nodes edges) x)"
proof -
  let ?s = "foldl (visit_root nodes edges) tarjan_new nodes"
  from visit_roots[OF subset_refl tarjan_inv_new, of nodes edges]
  have inv: "tarjan_inv (set nodes) (graph nodes edges) {} ?s" and "set nodes \<subseteq> dom (tj_idx ?s)" by blast+
  moreover from inv have "tj_stack ?s = []" by (cases "tj_stack ?s") (auto simp: inv_defs)
  ultimately show ?thesis by (auto simp: inv_defs sccs_def)
qed

section \<open>The named cycle is a cycle\<close>

definition inner_edges :: "'k set \<Rightarrow> ('k \<Rightarrow> 'k list option) \<Rightarrow> ('k \<times> 'k) set" where
  "inner_edges part edges = {(a, b). a \<in> part \<and> b \<in> part \<and> b \<in> set (succs edges a)}"

text \<open>\<open>ds\<close> lists the discovered nodes in order, the start first; each other node was reached by an edge
  from an earlier one, which \<open>prev\<close> records.\<close>

definition discovered :: "('k \<times> 'k) set \<Rightarrow> 'k \<Rightarrow> 'k set \<Rightarrow> 'k bfs \<Rightarrow> 'k list \<Rightarrow> bool" where
  "discovered E start part s ds \<longleftrightarrow> distinct ds \<and> ds \<noteq> [] \<and> ds ! 0 = start \<and>
     insert start (bf_seen s) = set ds \<and> start \<notin> bf_seen s \<and> set ds \<subseteq> part \<and>
     (\<forall>i < length ds. 0 < i \<longrightarrow> (\<exists>j < i. bf_prev s (ds ! i) = Some (ds ! j) \<and> (ds ! j, ds ! i) \<in> E)) \<and>
     (\<forall>k. bf_hit s = Some k \<longrightarrow> k \<in> set ds \<and> (k, start) \<in> E)"

lemma bfs_edge_keeps:
  assumes ds: "discovered E start part s ds" and q: "set ds = P \<union> set (bf_queue s)"
    and k: "k \<in> P" and e: "n \<in> part \<Longrightarrow> (k, n) \<in> E"
    and rel: "ds = ps @ bf_queue s"
  shows "\<exists>ds'. discovered E start part (bfs_edge start part k s n) ds' \<and> set ds \<subseteq> set ds' \<and>
    ds' = ps @ bf_queue (bfs_edge start part k s n) \<and>
    (bf_hit s \<noteq> None \<longrightarrow> bf_hit (bfs_edge start part k s n) \<noteq> None) \<and>
    (bf_hit (bfs_edge start part k s n) = None \<longrightarrow> n \<in> part \<longrightarrow> n \<noteq> start \<and> n \<in> set ds')"
proof -
  consider "bf_hit s \<noteq> None \<or> n \<notin> part" | "bf_hit s = None" "n \<in> part" "n = start"
    | "bf_hit s = None" "n \<in> part" "n \<noteq> start" "n \<in> bf_seen s"
    | "bf_hit s = None" "n \<in> part" "n \<noteq> start" "n \<notin> bf_seen s" by blast
  then show ?thesis
  proof cases
    case 1
    with ds rel show ?thesis by (intro exI[of _ ds]) (auto simp: bfs_edge_def)
  next
    case 2
    have "k \<in> set ds" using q k by simp
    with 2 ds e rel show ?thesis by (intro exI[of _ ds]) (auto simp: bfs_edge_def discovered_def)
  next
    case 3
    then have "n \<in> set ds" using ds by (auto simp: discovered_def)
    with 3 ds rel show ?thesis by (intro exI[of _ ds]) (auto simp: bfs_edge_def)
  next
    case 4
    let ?s = "bfs_edge start part k s n" let ?ds = "ds @ [n]"
    have s: "?s = s\<lparr>bf_seen := insert n (bf_seen s), bf_prev := (bf_prev s)(n \<mapsto> k), bf_queue := bf_queue s @ [n]\<rparr>"
      using 4 by (simp add: bfs_edge_def)
    have nds: "n \<notin> set ds" using 4 ds by (auto simp: discovered_def)
    have "\<exists>j < i. bf_prev ?s (?ds ! i) = Some (?ds ! j) \<and> (?ds ! j, ?ds ! i) \<in> E"
      if i: "i < length ?ds" "0 < i" for i
    proof (cases "i < length ds")
      case True
      with ds i obtain j where j: "j < i" "bf_prev s (ds ! i) = Some (ds ! j)" "(ds ! j, ds ! i) \<in> E"
        by (auto simp: discovered_def)
      moreover have "ds ! i \<noteq> n" using nds True by auto
      ultimately show ?thesis using True by (intro exI[of _ j]) (simp add: s nth_append)
    next
      case False
      with i have "i = length ds" by simp
      have "k \<in> set ds" using q k by simp
      then obtain j where "j < length ds" "ds ! j = k" by (auto simp: in_set_conv_nth)
      with \<open>i = length ds\<close> 4 e show ?thesis by (intro exI[of _ j]) (simp add: s nth_append)
    qed
    moreover have "?ds ! 0 = start" "?ds \<noteq> []" using ds by (auto simp: discovered_def nth_append)
    ultimately have "discovered E start part ?s ?ds"
      using ds nds 4 by (auto simp: discovered_def s)
    with 4 rel show ?thesis by (intro exI[of _ ?ds]) (simp add: s, blast)
  qed
qed

lemma bfs_edges_keep:
  assumes "discovered E start part s ds" "ds = ps @ bf_queue s" "k \<in> set ps"
    "\<And>n. n \<in> set ns \<Longrightarrow> n \<in> part \<Longrightarrow> (k, n) \<in> E"
  shows "\<exists>ds'. discovered E start part (foldl (bfs_edge start part k) s ns) ds' \<and> set ds \<subseteq> set ds' \<and>
    ds' = ps @ bf_queue (foldl (bfs_edge start part k) s ns) \<and>
    (bf_hit s \<noteq> None \<longrightarrow> bf_hit (foldl (bfs_edge start part k) s ns) \<noteq> None) \<and>
    (bf_hit (foldl (bfs_edge start part k) s ns) = None \<longrightarrow>
       (\<forall>n \<in> set ns \<inter> part. n \<noteq> start \<and> n \<in> set ds'))"
  using assms
proof (induction ns arbitrary: s ds)
  case (Cons n ns)
  have "set ds = set ps \<union> set (bf_queue s)" using Cons.prems(2) by simp
  from bfs_edge_keeps[OF Cons.prems(1) this Cons.prems(3) _ Cons.prems(2), of n] Cons.prems(4)
  obtain ds1 where d1: "discovered E start part (bfs_edge start part k s n) ds1" "set ds \<subseteq> set ds1"
    "ds1 = ps @ bf_queue (bfs_edge start part k s n)"
    "bf_hit s \<noteq> None \<longrightarrow> bf_hit (bfs_edge start part k s n) \<noteq> None"
    "bf_hit (bfs_edge start part k s n) = None \<longrightarrow> n \<in> part \<longrightarrow> n \<noteq> start \<and> n \<in> set ds1" by auto
  from Cons.IH[OF d1(1,3) Cons.prems(3)] Cons.prems(4) obtain ds2 where
    "discovered E start part (foldl (bfs_edge start part k) (bfs_edge start part k s n) ns) ds2"
    "set ds1 \<subseteq> set ds2"
    "ds2 = ps @ bf_queue (foldl (bfs_edge start part k) (bfs_edge start part k s n) ns)"
    "bf_hit (bfs_edge start part k s n) \<noteq> None \<longrightarrow>
       bf_hit (foldl (bfs_edge start part k) (bfs_edge start part k s n) ns) \<noteq> None"
    "bf_hit (foldl (bfs_edge start part k) (bfs_edge start part k s n) ns) = None \<longrightarrow>
       (\<forall>n \<in> set ns \<inter> part. n \<noteq> start \<and> n \<in> set ds2)" by auto
  with d1 show ?case by (intro exI[of _ ds2]) auto
qed auto

lemma bfs_loop_finds:
  assumes E: "E = inner_edges part edges" and fin: "finite part" and cyc: "(start, start) \<in> E\<^sup>+"
  shows "discovered E start part s ds \<Longrightarrow> ds = ps @ bf_queue s \<Longrightarrow> bf_hit s = None \<Longrightarrow>
    (\<forall>k \<in> set ps. \<forall>n. (k, n) \<in> E \<longrightarrow> n \<noteq> start \<and> n \<in> set ds) \<Longrightarrow> card part < n + length ps \<Longrightarrow>
    \<exists>ds' k. discovered E start part (bfs_loop n start part edges s) ds' \<and>
      bf_hit (bfs_loop n start part edges s) = Some k"
proof (induction n arbitrary: s ds ps)
  case 0
  have "length ds \<le> card part" using 0(1) fin by (metis card_mono discovered_def distinct_card)
  with 0(2,5) show ?case by simp
next
  case (Suc n)
  show ?case
  proof (cases "bf_queue s")
    case Nil
    with Suc.prems(2) have ps: "ps = ds" by simp
    have "start \<in> set ds" using Suc.prems(1) by (auto simp: discovered_def)
    have "y \<in> set ds \<and> y \<noteq> start" if "(start, y) \<in> E\<^sup>+" for y
      using that
    proof (induction rule: trancl_induct)
      case (base y)
      with Suc.prems(4) ps \<open>start \<in> set ds\<close> show ?case by auto
    next
      case (step y z)
      with Suc.prems(4) ps show ?case by auto
    qed
    with cyc show ?thesis by blast
  next
    case (Cons k q)
    let ?s = "foldl (bfs_edge start part k) (s\<lparr>bf_queue := q\<rparr>) (succs edges k)"
    have k: "k \<in> part" using Suc.prems(1,2) Cons by (auto simp: discovered_def)
    have "discovered E start part (s\<lparr>bf_queue := q\<rparr>) ds" using Suc.prems(1) by (simp add: discovered_def)
    from bfs_edges_keep[OF this, of "ps @ [k]" k "succs edges k"] Suc.prems(2) Cons k
    obtain ds' where d: "discovered E start part ?s ds'" "set ds \<subseteq> set ds'" "ds' = (ps @ [k]) @ bf_queue ?s"
      "bf_hit ?s = None \<longrightarrow> (\<forall>n \<in> set (succs edges k) \<inter> part. n \<noteq> start \<and> n \<in> set ds')"
      by (auto simp: E inner_edges_def)
    show ?thesis
    proof (cases "bf_hit ?s")
      case (Some k')
      with d(1) Cons show ?thesis by auto
    next
      case None
      have "\<forall>k' \<in> set (ps @ [k]). \<forall>n. (k', n) \<in> E \<longrightarrow> n \<noteq> start \<and> n \<in> set ds'"
        using Suc.prems(4) d(2,4) None by (auto simp: E inner_edges_def)
      from Suc.IH[OF d(1,3) None this] Suc.prems(5) None Cons show ?thesis by simp
    qed
  qed
qed

lemma back_path_linked:
  assumes ds: "discovered E start part s ds"
  shows "i < length ds \<Longrightarrow> i < n \<Longrightarrow> \<exists>bp. back_path n start (bf_prev s) (ds ! i) = bp \<and>
    successively (\<lambda>a b. (a, b) \<in> E) (start # rev bp) \<and> last (start # rev bp) = ds ! i \<and> set bp \<subseteq> set ds"
proof (induction n arbitrary: i)
  case (Suc n)
  show ?case
  proof (cases "i = 0")
    case True
    with ds show ?thesis by (simp add: discovered_def)
  next
    case False
    with ds Suc.prems(1) obtain j where j: "j < i" "bf_prev s (ds ! i) = Some (ds ! j)" "(ds ! j, ds ! i) \<in> E"
      by (auto simp: discovered_def)
    have ne: "ds ! i \<noteq> start"
      using ds False Suc.prems(1) nth_eq_iff_index_eq[of ds i 0] by (auto simp: discovered_def)
    from Suc.IH[of j] j(1) Suc.prems obtain bp where bp: "back_path n start (bf_prev s) (ds ! j) = bp"
      "successively (\<lambda>a b. (a, b) \<in> E) (start # rev bp)" "last (start # rev bp) = ds ! j" "set bp \<subseteq> set ds"
      by auto
    have "successively (\<lambda>a b. (a, b) \<in> E) ((start # rev bp) @ [ds ! i])"
      unfolding successively_append_iff using bp j by simp
    with bp j(2) ne Suc.prems(1) show ?thesis by simp
  qed
qed simp

lemma cycle_path_cycle:
  assumes "finite part" "start \<in> part" "(start, start) \<in> (inner_edges part edges)\<^sup>+"
  shows "\<exists>mid. cycle_path start part edges = start # mid @ [start] \<and> set mid \<subseteq> part \<and>
    successively (\<lambda>a b. (a, b) \<in> inner_edges part edges) (cycle_path start part edges)"
proof -
  let ?E = "inner_edges part edges"
  let ?init = "\<lparr>bf_prev = Map.empty, bf_queue = [start], bf_seen = {}, bf_hit = None\<rparr>"
  let ?s = "bfs_loop (Suc (card part)) start part edges ?init"
  have "discovered ?E start part ?init [start]" using assms(2) by (simp add: discovered_def)
  from bfs_loop_finds[OF refl assms(1,3) this, of "[]" "Suc (card part)"]
  obtain ds k where d: "discovered ?E start part ?s ds" and hit: "bf_hit ?s = Some k" by auto
  then have k: "k \<in> set ds" "(k, start) \<in> ?E" by (auto simp: discovered_def)
  then obtain i where i: "i < length ds" "ds ! i = k" by (auto simp: in_set_conv_nth)
  have "length ds \<le> card part" using d assms(1) by (metis card_mono discovered_def distinct_card)
  with i have "i < Suc (card part)" by simp
  from back_path_linked[OF d i(1) this] i(2) obtain bp where bp:
    "back_path (Suc (card part)) start (bf_prev ?s) k = bp"
    "successively (\<lambda>a b. (a, b) \<in> ?E) (start # rev bp)" "last (start # rev bp) = k" "set bp \<subseteq> set ds" by auto
  have path: "cycle_path start part edges = start # rev bp @ [start]"
    by (simp add: cycle_path_def hit bp(1) del: bfs_loop.simps back_path.simps)
  moreover have "successively (\<lambda>a b. (a, b) \<in> ?E) ((start # rev bp) @ [start])"
    unfolding successively_append_iff using bp(2,3) k(2) by simp
  moreover have "set bp \<subseteq> part" using bp(4) d by (auto simp: discovered_def)
  ultimately show ?thesis by (intro exI[of _ "rev bp"]) simp
qed

end
