(* ===== verification/Value_Cycle.thy ===== *)
theory Value_Cycle
  imports Hir Scc
begin

text \<open>
  The check \<open>[E1018]\<close> of \<open>hir/src/value_cycle.rs\<close>: a value that is defined in terms of itself. The
  references a definition evaluates while it is computed (\<open>reads\<close>, from the walk \<open>walk\<close>) are the edges
  of a graph over the definitions of a module, and over the definitions of every \<open>let\<close>; \<open>report\<close>
  turns each strongly connected component with a cycle and a value into one diagnostic that names
  a cycle. The walk's callback only collects what it is called with, so the walk returns that list. Its
  recursion over the arena carries fuel; one more than the index of the expression is enough in a
  well-formed body.
\<close>

section \<open>The references a body evaluates\<close>

definition is_lambda :: "expr \<Rightarrow> bool" where
  "is_lambda e = (case e of ELambda _ _ \<Rightarrow> True | _ \<Rightarrow> False)"

definition deferred :: "body \<Rightarrow> local_def \<Rightarrow> bool" where
  "deferred b d \<longleftrightarrow> ld_pat d = None \<and> (ld_params d \<noteq> [] \<or> is_lambda (expr_at b (ld_body d)))"

text \<open>The callee and the argument of an operator: \<open>x |> f\<close> and \<open>f <| x\<close> call \<open>f\<close>.\<close>

definition pipe_call :: "res \<Rightarrow> nat \<Rightarrow> nat \<Rightarrow> (nat \<times> nat) option" where
  "pipe_call r lhs rhs =
     (case r of
        RKernel _ func \<Rightarrow> (if func = ''apR'' then Some (rhs, lhs) else if func = ''apL'' then Some (lhs, rhs) else None)
      | _ \<Rightarrow> None)"

primrec walk :: "nat \<Rightarrow> body \<Rightarrow> nat \<Rightarrow> nat option \<Rightarrow> (res \<times> nat option) list" where
  "walk 0 b e called_with = []"
| "walk (Suc n) b e called_with =
     (case expr_at b e of
        EVar r \<Rightarrow> [(r, called_with)]
      | ELambda _ _ \<Rightarrow> []
      | ECall callee args \<Rightarrow>
          walk n b callee (Some ((case called_with of Some k \<Rightarrow> k | None \<Rightarrow> 0) + length args)) @
          concat (map (\<lambda>a. walk n b a None) args)
      | EBinop _ r lhs rhs \<Rightarrow>
          (case pipe_call r lhs rhs of
             Some (callee, arg) \<Rightarrow> walk n b callee (Some 1) @ walk n b arg None
           | None \<Rightarrow> walk n b lhs None @ walk n b rhs None)
      | ELet defs inner \<Rightarrow>
          concat (map (\<lambda>d. if deferred b d then [] else walk n b (ld_body d) None) defs) @ walk n b inner None
      | EList xs \<Rightarrow> concat (map (\<lambda>x. walk n b x None) xs)
      | ETuple xs \<Rightarrow> concat (map (\<lambda>x. walk n b x None) xs)
      | ERecord fs \<Rightarrow> concat (map (\<lambda>(_, x). walk n b x None) fs)
      | EUpdate base fs \<Rightarrow> walk n b base None @ concat (map (\<lambda>(_, x). walk n b x None) fs)
      | ENegate x \<Rightarrow> walk n b x None
      | EAccess x _ \<Rightarrow> walk n b x None
      | EIf arms els \<Rightarrow>
          concat (map (\<lambda>(c, t). walk n b c None @ walk n b t None) arms) @ walk n b els None
      | ECase subject branches \<Rightarrow>
          walk n b subject None @ concat (map (\<lambda>br. walk n b (cb_body br) None) branches)
      | _ \<Rightarrow> [])"

definition reads :: "body \<Rightarrow> nat \<Rightarrow> (res \<times> nat option) list" where
  "reads b e = walk (Suc e) b e None"

definition run_root :: "body \<Rightarrow> nat \<Rightarrow> nat" where
  "run_root b e = (case expr_at b e of ELambda _ inner \<Rightarrow> inner | _ \<Rightarrow> e)"

definition lambda_params :: "body \<Rightarrow> nat \<Rightarrow> nat" where
  "lambda_params b e = (case expr_at b e of ELambda params _ \<Rightarrow> length params | _ \<Rightarrow> 0)"

definition def_arity :: "body \<Rightarrow> nat" where
  "def_arity b = length (bd_params b) + (case bd_root b of Some r \<Rightarrow> lambda_params b r | None \<Rightarrow> 0)"

definition is_value_body :: "body \<Rightarrow> bool" where
  "is_value_body b \<longleftrightarrow> bd_params b = [] \<and>
     \<not> (case bd_root b of Some r \<Rightarrow> is_lambda (expr_at b r) | None \<Rightarrow> False)"

section \<open>Reporting\<close>

record vnode =
  vn_name :: string
  vn_is_value :: bool
  vn_span :: "span option"

definition ellipsis :: string where
  "ellipsis = [CHR 0xE2, CHR 0x80, CHR 0xA6]"

definition cycle_message :: "string list \<Rightarrow> string" where
  "cycle_message names =
     (let first = hd names; shown = join '' -> '' names in
      if length names = 2 then
        ''The value `'' @ first @ ''` is defined in terms of itself. A value is computed '' @
        ''once, the first time it is read, so a value that reads itself while it is '' @
        ''computed never finishes. Give it a parameter (`'' @ first @ '' _ = '' @ ellipsis @ ''`, called as '' @
        ''`'' @ first @ '' ()`) when it really is a loop, or compute it from other values. '' @
        ''See docs/errors/E1018-value-cycle.md''
      else
        ''The value `'' @ first @ ''` is defined in terms of itself through '' @ shown @ ''. A value '' @
        ''is computed once, the first time it is read, so a cycle of values never '' @
        ''finishes. Break the cycle: compute one of them from other values, or give '' @
        ''one a parameter (`'' @ first @ '' _ = '' @ ellipsis @ ''`, called as `'' @ first @ '' ()`) when it really '' @
        ''is a loop. See docs/errors/E1018-value-cycle.md'')"

definition cycle_diagnostic :: "('k \<times> vnode) list \<Rightarrow> 'k list \<Rightarrow> diagnostic" where
  "cycle_diagnostic nodes path =
     (let names = map (\<lambda>k. vn_name (the (map_of nodes k))) path;
          d = diagnostic_error ''E1018'' (cycle_message names) in
      case vn_span (the (map_of nodes (hd path))) of
        None \<Rightarrow> d
      | Some sp \<Rightarrow> with_label d sp (''`'' @ hd names @ ''` reads itself: '' @ join '' -> '' names))"

definition is_cyclic :: "('k \<Rightarrow> 'k list option) \<Rightarrow> 'k list \<Rightarrow> bool" where
  "is_cyclic edges scc \<longleftrightarrow> 1 < length scc \<or> hd scc \<in> set (succs edges (hd scc))"

definition report_scc :: "('k \<times> vnode) list \<Rightarrow> ('k \<Rightarrow> 'k list option) \<Rightarrow> 'k list \<Rightarrow> 'k list list" where
  "report_scc nodes edges scc =
     (if \<not> is_cyclic edges scc then []
      else (case find (\<lambda>(k, nd). k \<in> set scc \<and> vn_is_value nd) nodes of
              None \<Rightarrow> []
            | Some (start, _) \<Rightarrow> [cycle_path start (set scc) edges]))"

definition report :: "('k \<times> vnode) list \<Rightarrow> ('k \<Rightarrow> 'k list option) \<Rightarrow> diagnostic list" where
  "report nodes edges =
     map (cycle_diagnostic nodes) (concat (map (report_scc nodes edges) (sccs (map fst nodes) edges)))"

section \<open>One let\<close>

definition let_owner :: "local_def list \<Rightarrow> nat \<Rightarrow> nat option" where
  "let_owner defs =
     map_of (rev (concat (map (\<lambda>(i, d). map (\<lambda>(_, l). (l, i)) (ld_binders d)) (enumerate 0 defs))))"

definition let_arity :: "body \<Rightarrow> local_def \<Rightarrow> nat" where
  "let_arity b d = (if ld_pat d \<noteq> None then 0 else length (ld_params d) + lambda_params b (ld_body d))"

definition let_node :: "body \<Rightarrow> local_def \<Rightarrow> vnode" where
  "let_node b d = \<lparr>vn_name = join '', '' (map fst (ld_binders d)),
     vn_is_value = (ld_pat d \<noteq> None \<or> ld_params d = [] \<and> \<not> is_lambda (expr_at b (ld_body d))),
     vn_span = expr_span b (ld_body d)\<rparr>"

text \<open>A reference is an edge when it reads a value, or calls a function with all its arguments.\<close>

definition runs :: "nat \<Rightarrow> nat option \<Rightarrow> bool" where
  "runs arity called_with \<longleftrightarrow> arity = 0 \<or> (case called_with of Some k \<Rightarrow> arity \<le> k | None \<Rightarrow> False)"

definition let_edges :: "body \<Rightarrow> local_def list \<Rightarrow> nat \<Rightarrow> nat list" where
  "let_edges b defs i =
     (let d = defs ! i;
          run = (if ld_pat d \<noteq> None then ld_body d else run_root b (ld_body d)) in
      List.map_filter (\<lambda>(r, called_with).
        case r of
          RLocal l \<Rightarrow>
            (case let_owner defs l of
               Some j \<Rightarrow> (if runs (let_arity b (defs ! j)) called_with then Some j else None)
             | None \<Rightarrow> None)
        | _ \<Rightarrow> None) (reads b run))"

definition let_nodes :: "body \<Rightarrow> local_def list \<Rightarrow> (nat \<times> vnode) list" where
  "let_nodes b defs = map (\<lambda>(i, d). (i, let_node b d)) (enumerate 0 defs)"

definition let_graph :: "body \<Rightarrow> local_def list \<Rightarrow> nat \<Rightarrow> nat list option" where
  "let_graph b defs i = (if i < length defs then Some (let_edges b defs i) else None)"

definition check_let :: "body \<Rightarrow> local_def list \<Rightarrow> diagnostic list" where
  "check_let b defs = report (let_nodes b defs) (let_graph b defs)"

section \<open>One module\<close>

text \<open>\<open>bodies\<close> is the \<open>IndexMap\<close> from definitions to bodies, \<open>names\<close> their names and spans.\<close>

type_synonym bodies = "(nat \<times> body) list"
type_synonym names = "nat \<Rightarrow> (string \<times> span option) option"

definition top_arity :: "bodies \<Rightarrow> nat \<Rightarrow> nat option" where
  "top_arity bodies = map_of (map (\<lambda>(d, b). (d, def_arity b)) (filter (\<lambda>(_, b). bd_root b \<noteq> None) bodies))"

definition top_edges :: "bodies \<Rightarrow> body \<Rightarrow> nat \<Rightarrow> nat list" where
  "top_edges bodies b root =
     List.map_filter (\<lambda>(r, called_with).
       case r of
         RDef d \<Rightarrow>
           (case top_arity bodies d of
              Some n \<Rightarrow> (if runs n called_with then Some d else None)
            | None \<Rightarrow> None)
       | _ \<Rightarrow> None) (reads b (run_root b root))"

definition top_nodes :: "bodies \<Rightarrow> names \<Rightarrow> (nat \<times> vnode) list" where
  "top_nodes bodies names = List.map_filter (\<lambda>(d, b).
     case (bd_root b, names d) of
       (Some root, Some (name, sp)) \<Rightarrow>
         Some (d, \<lparr>vn_name = name, vn_is_value = is_value_body b, vn_span = sp\<rparr>)
     | _ \<Rightarrow> None) bodies"

definition top_graph :: "bodies \<Rightarrow> names \<Rightarrow> nat \<Rightarrow> nat list option" where
  "top_graph bodies names = map_of (List.map_filter (\<lambda>(d, b).
     case (bd_root b, names d) of
       (Some root, Some _) \<Rightarrow> Some (d, top_edges bodies b root)
     | _ \<Rightarrow> None) bodies)"

definition body_lets :: "body \<Rightarrow> local_def list list" where
  "body_lets b = List.map_filter (\<lambda>e. case e of ELet defs _ \<Rightarrow> Some defs | _ \<Rightarrow> None) (bd_exprs b)"

definition cycle_check :: "bodies \<Rightarrow> names \<Rightarrow> diagnostic list" where
  "cycle_check bodies names =
     report (top_nodes bodies names) (top_graph bodies names) @
     concat (map (\<lambda>(_, b). concat (map (check_let b) (body_lets b))) bodies)"

section \<open>The walk ends\<close>

lemma walk_fuel:
  assumes "exprs_ok b"
  shows "e < length (bd_exprs b) \<Longrightarrow> e < n \<Longrightarrow> e < m \<Longrightarrow> walk n b e c = walk m b e c"
proof (induction e arbitrary: n m c rule: less_induct)
  case (less e)
  obtain n' m' where nm: "n = Suc n'" "m = Suc m'" using less.prems(2,3) by (metis not0_implies_Suc not_less0)
  have IH: "walk n' b x c = walk m' b x c" if "x \<in> set (children (expr_at b e))" for x c
  proof -
    have "x < e" by (rule exprs_okD[OF assms less.prems(1) that])
    with less.prems nm show ?thesis by (intro less.IH) auto
  qed
  show ?case
  proof (cases "expr_at b e")
    case (EBinop op r lhs rhs)
    with IH nm show ?thesis by (auto simp: pipe_call_def split: res.splits option.splits)
  next
    case (ELet defs inner)
    with IH nm show ?thesis by (auto intro!: arg_cong[where f = concat] split: option.splits)
  next
    case (ERecord fs)
    with IH have "(k, x) \<in> set fs \<Longrightarrow> walk n' b x None = walk m' b x None" for k x by force
    with ERecord nm show ?thesis by (auto intro!: arg_cong[where f = concat])
  next
    case (EUpdate base fs)
    with IH have "walk n' b base None = walk m' b base None" by force
    moreover have "walk n' b x None = walk m' b x None" if "(k, x) \<in> set fs" for k x
      by (rule IH) (use EUpdate that in force)
    ultimately show ?thesis using nm EUpdate by (auto intro!: arg_cong[where f = concat])
  next
    case (EIf arms els)
    have "walk n' b els None = walk m' b els None" by (rule IH) (simp add: EIf)
    moreover have "walk n' b c None = walk m' b c None" "walk n' b t None = walk m' b t None"
      if "(c, t) \<in> set arms" for c t
      by (rule IH, use EIf that in \<open>auto intro!: bexI[of _ "(c, t)"]\<close>)+
    ultimately show ?thesis using EIf nm by (auto intro!: arg_cong[where f = concat])
  qed (use IH nm in \<open>auto intro!: arg_cong[where f = concat]\<close>)
qed

text \<open>The walk of a body ends by itself. In a body whose children come before their parents, any fuel
  above the index of an expression gives the references that \<open>reads\<close> collects: none is missed for
  lack of fuel, however deep the body is.\<close>

theorem walk_complete:
  assumes "exprs_ok b" "e < length (bd_exprs b)" "e < n"
  shows "walk n b e None = reads b e"
  unfolding reads_def by (rule walk_fuel[OF assms(1,2,3)]) simp

section \<open>A report is a cycle through a value\<close>

definition self_reading :: "('k \<times> vnode) list \<Rightarrow> ('k \<Rightarrow> 'k list option) \<Rightarrow> bool" where
  "self_reading nodes edges \<longleftrightarrow>
     (\<exists>(k, nd) \<in> set nodes. vn_is_value nd \<and> (k, k) \<in> (graph (map fst nodes) edges)\<^sup>+)"

lemma same_scc_eq: "y \<in> same_scc G x \<Longrightarrow> same_scc G y = same_scc G x"
  by (auto simp: same_scc_def intro: rtrancl_trans)

lemma cyclic_scc:
  assumes scc: "set c = same_scc (graph ks edges) k" "k \<in> set c" "distinct c" and ks: "k \<in> set ks"
  shows "is_cyclic edges c \<longleftrightarrow> (k, k) \<in> (graph ks edges)\<^sup>+"
proof
  let ?G = "graph ks edges"
  assume cyc: "is_cyclic edges c"
  show "(k, k) \<in> ?G\<^sup>+"
  proof (cases "\<exists>y \<in> set c. y \<noteq> k")
    case True
    then obtain y where "(k, y) \<in> ?G\<^sup>*" "(y, k) \<in> ?G\<^sup>*" "y \<noteq> k"
      unfolding scc(1) by (auto simp: same_scc_def)
    then show ?thesis by (metis rtranclD trancl_rtrancl_trancl)
  next
    case False
    with scc(2,3) have "c = [k]" by (cases c; cases "tl c") auto
    with cyc ks show ?thesis by (auto simp: is_cyclic_def graph_def)
  qed
next
  let ?G = "graph ks edges"
  assume "(k, k) \<in> ?G\<^sup>+"
  then obtain y where y: "(k, y) \<in> ?G" "(y, k) \<in> ?G\<^sup>*" by (metis tranclD)
  then have yc: "y \<in> set c" unfolding scc(1) by (auto simp: same_scc_def)
  show "is_cyclic edges c"
  proof (cases "length c = 1")
    case True
    then obtain z where "c = [z]" by (auto simp: length_Suc_conv)
    with scc(2) yc y(1) show ?thesis by (auto simp: is_cyclic_def graph_def)
  next
    case False
    moreover have "c \<noteq> []" using yc by auto
    ultimately have "1 < length c" by (cases c; cases "tl c") auto
    then show ?thesis by (simp add: is_cyclic_def)
  qed
qed

lemma inner_cycle:
  assumes "(k, y) \<in> (graph ks edges)\<^sup>+" "(y, k) \<in> (graph ks edges)\<^sup>*"
  shows "(k, y) \<in> (inner_edges (same_scc (graph ks edges) k) edges)\<^sup>+"
  using assms
proof (induction rule: trancl_induct)
  case (base y)
  then show ?case by (auto simp: inner_edges_def same_scc_def graph_def)
next
  case (step y z)
  then have "(y, k) \<in> (graph ks edges)\<^sup>*" by (meson converse_rtrancl_into_rtrancl)
  moreover have "(y, z) \<in> inner_edges (same_scc (graph ks edges) k) edges"
    using step calculation by (auto simp: inner_edges_def same_scc_def graph_def intro: trancl_into_rtrancl rtrancl_into_rtrancl)
  ultimately show ?case using step by (auto intro: trancl_into_trancl)
qed

text \<open>What one component reports, for a component of the partition.\<close>

lemma scc_of_key:
  assumes "c \<in> set (sccs ks edges)" "k \<in> set c"
  shows "set c = same_scc (graph ks edges) k" "distinct c" "k \<in> set ks" "set c \<subseteq> set ks"
proof -
  note part = sccs_partition[of ks edges]
  from part assms(1) obtain x where "set c = same_scc (graph ks edges) x" by blast
  with assms(2) same_scc_eq show "set c = same_scc (graph ks edges) k" by metis
  show "distinct c" using part assms(1) by (auto simp: distinct_concat_iff)
  show "set c \<subseteq> set ks" using part assms(1) by auto
  then show "k \<in> set ks" using assms(2) by auto
qed

lemma report_scc_cycle:
  assumes c: "c \<in> set (sccs (map fst nodes) edges)" and p: "p \<in> set (report_scc nodes edges c)"
  shows "\<exists>start nd mid. p = start # mid @ [start] \<and> (start, nd) \<in> set nodes \<and> vn_is_value nd \<and>
    successively (\<lambda>a b. (a, b) \<in> graph (map fst nodes) edges) p"
proof -
  let ?G = "graph (map fst nodes) edges"
  from p obtain start nd where f: "find (\<lambda>(k, nd). k \<in> set c \<and> vn_is_value nd) nodes = Some (start, nd)"
    and cyc: "is_cyclic edges c" and path: "p = cycle_path start (set c) edges"
    by (cases "find (\<lambda>(k, nd). k \<in> set c \<and> vn_is_value nd) nodes") (auto simp: report_scc_def split: if_splits)
  from f have nd: "(start, nd) \<in> set nodes" "start \<in> set c" "vn_is_value nd" by (auto simp: find_Some_iff dest: nth_mem)
  note scc = scc_of_key[OF c nd(2)]
  have "(start, start) \<in> ?G\<^sup>+" using cyclic_scc[OF scc(1) nd(2) scc(2,3)] cyc by simp
  from inner_cycle[OF this] have "(start, start) \<in> (inner_edges (set c) edges)\<^sup>+" unfolding scc(1) by simp
  from cycle_path_cycle[OF _ nd(2) this] obtain mid where m: "p = start # mid @ [start]"
    "successively (\<lambda>a b. (a, b) \<in> inner_edges (set c) edges) p" unfolding path by auto
  have "inner_edges (set c) edges \<subseteq> ?G" using scc(4) by (auto simp: inner_edges_def graph_def)
  then have "successively (\<lambda>a b. (a, b) \<in> ?G) p" by (intro successively_mono[OF m(2)]) auto
  with m(1) nd show ?thesis by blast
qed

lemma successively_trancl: "successively (\<lambda>a b. (a, b) \<in> R) (a # mid @ [b]) \<Longrightarrow> (a, b) \<in> R\<^sup>+"
  by (induction mid arbitrary: a) (auto intro: trancl_into_trancl2)

lemma report_empty: "report nodes edges = [] \<longleftrightarrow> \<not> self_reading nodes edges"
proof
  assume empty: "report nodes edges = []"
  show "\<not> self_reading nodes edges"
  proof
    assume "self_reading nodes edges"
    then obtain k nd where k: "(k, nd) \<in> set nodes" "vn_is_value nd" "(k, k) \<in> (graph (map fst nodes) edges)\<^sup>+"
      by (auto simp: self_reading_def)
    then have "k \<in> set (concat (sccs (map fst nodes) edges))" using sccs_partition[of "map fst nodes" edges] by force
    then obtain c where c: "c \<in> set (sccs (map fst nodes) edges)" "k \<in> set c" by auto
    note scc = scc_of_key[OF c]
    have "is_cyclic edges c" using cyclic_scc[OF scc(1) c(2) scc(2,3)] k(3) by simp
    moreover have "find (\<lambda>(k, nd). k \<in> set c \<and> vn_is_value nd) nodes \<noteq> None"
      using k c(2) by (auto simp: find_None_iff)
    ultimately have "report_scc nodes edges c \<noteq> []" by (auto simp: report_scc_def)
    with empty c(1) show False by (auto simp: report_def)
  qed
next
  assume none: "\<not> self_reading nodes edges"
  show "report nodes edges = []"
  proof (rule ccontr)
    assume "report nodes edges \<noteq> []"
    then obtain c p where c: "c \<in> set (sccs (map fst nodes) edges)" and p: "p \<in> set (report_scc nodes edges c)"
      by (fastforce simp: report_def)
    from report_scc_cycle[OF this] obtain start nd mid where s: "p = start # mid @ [start]"
      "(start, nd) \<in> set nodes" "vn_is_value nd" "successively (\<lambda>a b. (a, b) \<in> graph (map fst nodes) edges) p" by blast
    have "(start, start) \<in> (graph (map fst nodes) edges)\<^sup>+"
      by (rule successively_trancl) (use s in simp)
    with s none show False by (auto simp: self_reading_def)
  qed
qed

text \<open>C9: The check is exact. A module is refused with \<open>[E1018]\<close> exactly when some value reads itself
  through the references evaluated while it is computed: a top-level value through the top-level
  definitions, or a \<open>let\<close> value through the definitions of its \<open>let\<close>. Cycles of functions alone are
  never reported, and no cycle through a value is missed.\<close>

theorem cycle_check_exact:
  "cycle_check bodies names = [] \<longleftrightarrow>
     \<not> self_reading (top_nodes bodies names) (top_graph bodies names) \<and>
     \<not> (\<exists>(d, b) \<in> set bodies. \<exists>defs \<in> set (body_lets b). self_reading (let_nodes b defs) (let_graph b defs))"
  by (auto simp: cycle_check_def check_let_def report_empty)

text \<open>Every diagnostic names a cycle that exists. Each one is built from a path that starts at a
  value, follows evaluated references from each definition to the next, and comes back to that
  value.\<close>

theorem report_names_cycles:
  "\<exists>paths. report nodes edges = map (cycle_diagnostic nodes) paths \<and>
     list_all (\<lambda>p. \<exists>start nd mid. p = start # mid @ [start] \<and> (start, nd) \<in> set nodes \<and> vn_is_value nd \<and>
       successively (\<lambda>a b. (a, b) \<in> graph (map fst nodes) edges) p) paths"
  unfolding report_def list_all_iff using report_scc_cycle[of _ nodes edges] by fastforce

end
