(* ===== verification/Exhaustive.thy ===== *)
theory Exhaustive
  imports Hir "HOL-Library.List_Lexorder" "HOL-Library.Char_ord"
begin

text \<open>
  The exhaustiveness check \<open>[E3001]\<close> of \<open>ty/src/exhaustive.rs\<close>: \<open>check_body\<close> walks every expression of a
  body and \<open>check_case\<close> compares the constructor heads of a \<open>case\<close> with the members of their union. Of
  \<open>World\<close> (\<open>ty/src/sig.rs\<close>) only the three tables the check reads are in the record \<open>world\<close>. The
  \<open>BTreeSet\<close> of covered names is a sorted list. Both recursions go down an arena and carry fuel: one
  more than the index is enough in a well-formed body.
\<close>

section \<open>Heads\<close>

record world =
  wd_ctor_union :: "string \<Rightarrow> string option"
  wd_union_ctors :: "string \<Rightarrow> string list option"
  wd_union_members_by_def :: "nat \<Rightarrow> string list option"

datatype head = Cover | HCtor string "nat option" | HLiteral | HOther

primrec classify_fuel :: "nat \<Rightarrow> body \<Rightarrow> nat \<Rightarrow> head" where
  "classify_fuel 0 b p = HOther"
| "classify_fuel (Suc n) b p =
     (case pat_at b p of
        PAnything \<Rightarrow> Cover
      | PVar _ \<Rightarrow> Cover
      | PRecord _ \<Rightarrow> Cover
      | PTuple _ \<Rightarrow> Cover
      | PUnit \<Rightarrow> Cover
      | PAlias inner _ \<Rightarrow> classify_fuel n b inner
      | PCtor ctor name _ \<Rightarrow> HCtor name (map_option cr_type ctor)
      | PBool t \<Rightarrow> HCtor (if t then ''True'' else ''False'') None
      | PInt _ \<Rightarrow> HLiteral
      | PStr _ \<Rightarrow> HLiteral
      | PChr _ \<Rightarrow> HLiteral
      | _ \<Rightarrow> HOther)"

definition classify_pat :: "body \<Rightarrow> nat \<Rightarrow> head" where
  "classify_pat b p = classify_fuel (Suc p) b p"

section \<open>One case\<close>

definition em_dash_utf8 :: string where
  "em_dash_utf8 = [CHR 0xE2, CHR 0x80, CHR 0x94]"

definition ERROR_DETAILS_CORE :: "string list" where
  "ERROR_DETAILS_CORE = [''FfiPanic'', ''TypeMismatch'', ''HttpStatus'', ''JsonDecode'', ''Custom'']"

definition open_union_text :: string where
  "open_union_text =
     ''`Sky.Core.Error.ErrorDetails` gained `Domain DomainFailure` in v0.28.0: the failures of a '' @
     ''stdlib domain (for example Std.Ai) or of your app. Add a `_ ->` branch, or use the '' @
     ''generic helpers `Error.domain`, `Error.isRetryable` and `Error.retryAfter` (or a '' @
     ''domain''  @ [CHR 0x27] @ ''s typed view, such as `Std.Ai.Failure.fromError`), so later domains need no '' @
     ''change here. See docs/migration/v0.28.md#a-new-errordetails-variant.''"

definition open_union_hint :: "string list \<Rightarrow> string list \<Rightarrow> string option" where
  "open_union_hint members missing =
     (let is_error_details = list_ex (\<lambda>c. c = ''Domain'') members \<and>
            list_all (\<lambda>c. list_ex (\<lambda>a. a = c) members) ERROR_DETAILS_CORE in
      if \<not> is_error_details \<or> \<not> list_ex (\<lambda>m. m = ''Domain'') missing then None
      else Some open_union_text)"

definition subject_label :: "body \<Rightarrow> nat \<Rightarrow> string \<Rightarrow> label list" where
  "subject_label b subject msg =
     (case expr_span b subject of None \<Rightarrow> [] | Some s \<Rightarrow> [\<lparr>lb_span = s, lb_message = msg\<rparr>])"

definition e3001 :: "body \<Rightarrow> nat \<Rightarrow> string \<Rightarrow> string option \<Rightarrow> diagnostic" where
  "e3001 b subject rest suggestion =
     \<lparr>dg_severity = SevWarning, dg_code = ''E3001'',
      dg_message = ''This `case` does not cover all cases '' @ em_dash_utf8 @ rest,
      dg_labels = subject_label b subject ''this `case` is not exhaustive'', dg_suggestion = suggestion\<rparr>"

text \<open>The loop over the branches: the covered names, the first union named, whether a literal was met;
  \<open>None\<close> is the early return of a covering head.\<close>

record heads =
  hd_covered :: "string list"
  hd_union :: "nat option"
  hd_literal :: bool

fun collect :: "body \<Rightarrow> case_branch list \<Rightarrow> heads \<Rightarrow> heads option" where
  "collect b [] h = Some h"
| "collect b (br # brs) h =
     (case classify_pat b (cb_pat br) of
        Cover \<Rightarrow> None
      | HCtor c def \<Rightarrow> collect b brs (h\<lparr>hd_covered := List.insort_insert c (hd_covered h),
          hd_union := (case hd_union h of Some d \<Rightarrow> Some d | None \<Rightarrow> def)\<rparr>)
      | HLiteral \<Rightarrow> collect b brs (h\<lparr>hd_literal := True\<rparr>)
      | HOther \<Rightarrow> collect b brs h)"

definition no_heads :: heads where
  "no_heads = \<lparr>hd_covered = [], hd_union = None, hd_literal = False\<rparr>"

definition or_else :: "'a option \<Rightarrow> 'a option \<Rightarrow> 'a option" where
  "or_else a b = (case a of None \<Rightarrow> b | Some x \<Rightarrow> Some x)"

definition union_members :: "world \<Rightarrow> heads \<Rightarrow> string list option" where
  "union_members w h =
     or_else (Option.bind (hd_union h) (wd_union_members_by_def w))
       (case hd_covered h of [] \<Rightarrow> None
        | first # _ \<Rightarrow> Option.bind (wd_ctor_union w first) (wd_union_ctors w))"

definition check_case :: "body \<Rightarrow> world \<Rightarrow> nat \<Rightarrow> case_branch list \<Rightarrow> diagnostic list" where
  "check_case b w subject branches =
     (case collect b branches no_heads of
        None \<Rightarrow> []
      | Some h \<Rightarrow>
          (if hd_covered h = [] \<and> hd_literal h then
             [e3001 b subject '' literal patterns need a catch-all `_` arm'' None]
           else if hd_covered h = [] then []
           else (case union_members w h of
                   None \<Rightarrow> []
                 | Some members \<Rightarrow>
                     (let missing = filter (\<lambda>c. c \<notin> set (hd_covered h)) members in
                      if missing \<noteq> [] then
                        [e3001 b subject ('' missing: '' @ join '', '' missing) (open_union_hint members missing)]
                      else []))))"

section \<open>The walk\<close>

primrec walk_cases :: "nat \<Rightarrow> body \<Rightarrow> world \<Rightarrow> nat \<Rightarrow> diagnostic list" where
  "walk_cases 0 b w e = []"
| "walk_cases (Suc n) b w e =
     (case expr_at b e of
        ECase subject branches \<Rightarrow>
          walk_cases n b w subject @ check_case b w subject branches @
          concat (map (\<lambda>br. walk_cases n b w (cb_body br)) branches)
      | EList xs \<Rightarrow> concat (map (walk_cases n b w) xs)
      | ETuple xs \<Rightarrow> concat (map (walk_cases n b w) xs)
      | ERecord fs \<Rightarrow> concat (map (\<lambda>(_, v). walk_cases n b w v) fs)
      | EUpdate base fs \<Rightarrow> walk_cases n b w base @ concat (map (\<lambda>(_, v). walk_cases n b w v) fs)
      | ENegate x \<Rightarrow> walk_cases n b w x
      | EAccess x _ \<Rightarrow> walk_cases n b w x
      | ELambda _ inner \<Rightarrow> walk_cases n b w inner
      | ECall f args \<Rightarrow> walk_cases n b w f @ concat (map (walk_cases n b w) args)
      | EBinop _ _ lhs rhs \<Rightarrow> walk_cases n b w lhs @ walk_cases n b w rhs
      | EIf arms els \<Rightarrow>
          concat (map (\<lambda>(c, t). walk_cases n b w c @ walk_cases n b w t) arms) @ walk_cases n b w els
      | ELet defs inner \<Rightarrow> concat (map (\<lambda>d. walk_cases n b w (ld_body d)) defs) @ walk_cases n b w inner
      | _ \<Rightarrow> [])"

definition check_body :: "body \<Rightarrow> world \<Rightarrow> diagnostic list" where
  "check_body b w = (case bd_root b of Some root \<Rightarrow> walk_cases (Suc root) b w root | None \<Rightarrow> [])"

section \<open>What one case must cover\<close>

text \<open>The specification reads patterns by itself: the pattern under the aliases, and what it covers. A literal of an
  infinite type, floats included (so the comment of \<open>Head::Literal\<close>), never covers its type.\<close>

primrec alias_target :: "nat \<Rightarrow> body \<Rightarrow> nat \<Rightarrow> nat" where
  "alias_target 0 b p = p"
| "alias_target (Suc n) b p = (case pat_at b p of PAlias inner _ \<Rightarrow> alias_target n b inner | _ \<Rightarrow> p)"

definition branch_pattern :: "body \<Rightarrow> case_branch \<Rightarrow> pat" where
  "branch_pattern b br = pat_at b (alias_target (cb_pat br) b (cb_pat br))"

fun pattern_head :: "pat \<Rightarrow> head" where
  "pattern_head (PCtor ctor name _) = HCtor name (map_option cr_type ctor)"
| "pattern_head (PBool t) = HCtor (if t then ''True'' else ''False'') None"
| "pattern_head (PInt _) = HLiteral"
| "pattern_head (PFloat _) = HLiteral"
| "pattern_head (PStr _) = HLiteral"
| "pattern_head (PChr _) = HLiteral"
| "pattern_head (PList _) = HOther"
| "pattern_head (PCons _ _) = HOther"
| "pattern_head (PAlias _ _) = HOther"
| "pattern_head PError = HOther"
| "pattern_head _ = Cover"

definition branch_heads :: "body \<Rightarrow> case_branch list \<Rightarrow> head list" where
  "branch_heads b branches = map (\<lambda>br. pattern_head (branch_pattern b br)) branches"

definition ctor_heads :: "head list \<Rightarrow> string set" where
  "ctor_heads hs = {c. \<exists>d. HCtor c d \<in> set hs}"

text \<open>The union the constructors belong to: the first one a head resolved to, else the one the smallest
  covered name is registered under.\<close>

definition case_union :: "world \<Rightarrow> head list \<Rightarrow> string list option" where
  "case_union w hs =
     or_else (Option.bind (find (\<lambda>d. True) (List.map_filter (\<lambda>h. case h of HCtor _ d \<Rightarrow> d | _ \<Rightarrow> None) hs))
         (wd_union_members_by_def w))
       (if ctor_heads hs = {} then None
        else Option.bind (wd_ctor_union w (Min (ctor_heads hs))) (wd_union_ctors w))"

definition heads_cover :: "world \<Rightarrow> head list \<Rightarrow> bool" where
  "heads_cover w hs \<longleftrightarrow> Cover \<in> set hs \<or>
     (if ctor_heads hs = {} then HLiteral \<notin> set hs
      else (case case_union w hs of None \<Rightarrow> True | Some members \<Rightarrow> set members \<subseteq> ctor_heads hs))"

definition case_covered :: "body \<Rightarrow> world \<Rightarrow> case_branch list \<Rightarrow> bool" where
  "case_covered b w branches \<longleftrightarrow> heads_cover w (branch_heads b branches)"

text \<open>The cases on which the code departs from this: the only literals are floats, and nothing else forces coverage.\<close>

definition float_only :: "body \<Rightarrow> case_branch list \<Rightarrow> bool" where
  "float_only b branches \<longleftrightarrow> list_ex (\<lambda>br. \<exists>x. branch_pattern b br = PFloat x) branches \<and>
     list_all (\<lambda>br. (\<exists>x. branch_pattern b br = PFloat x) \<or> pattern_head (branch_pattern b br) = HOther) branches"

lemma float_only_uncovered: "float_only b branches \<Longrightarrow> \<not> case_covered b w branches"
proof -
  assume f: "float_only b branches"
  then have "branch_heads b branches = map (\<lambda>br. if \<exists>x. branch_pattern b br = PFloat x then HLiteral else HOther) branches"
    unfolding branch_heads_def by (intro map_cong refl) (auto simp: float_only_def list_all_iff)
  moreover have "\<exists>br \<in> set branches. \<exists>x. branch_pattern b br = PFloat x" using f by (simp add: float_only_def list_ex_iff)
  ultimately show ?thesis by (auto simp: case_covered_def heads_cover_def ctor_heads_def)
qed

text \<open>The heads as the code classifies them: a float is no literal there.\<close>

definition code_heads :: "body \<Rightarrow> case_branch list \<Rightarrow> head list" where
  "code_heads b branches = map (\<lambda>br. classify_pat b (cb_pat br)) branches"

lemma classify_target:
  "classify_fuel (Suc n) b p = (case pat_at b (alias_target n b p) of PFloat _ \<Rightarrow> HOther | q \<Rightarrow> pattern_head q)"
proof (induction n arbitrary: p)
  case 0
  show ?case by (simp split: pat.split)
next
  case (Suc n)
  show ?case
  proof (cases "pat_at b p")
    case (PAlias inner nm)
    then show ?thesis using Suc[of inner] by simp
  qed simp_all
qed

lemma code_head:
  "classify_pat b (cb_pat br) = (if \<exists>x. branch_pattern b br = PFloat x then HOther else pattern_head (branch_pattern b br))"
  by (auto simp: classify_pat_def classify_target branch_pattern_def simp del: classify_fuel.simps split: pat.split)

lemma no_literal: "HLiteral \<notin> set (map g xs) \<longleftrightarrow> (\<forall>x \<in> set xs. g x \<noteq> HLiteral)"
  by force

lemma code_heads_cover: "heads_cover w (code_heads b branches) \<longleftrightarrow> case_covered b w branches \<or> float_only b branches"
proof -
  let ?f = "\<lambda>br. \<exists>x. branch_pattern b br = PFloat x" and ?h = "\<lambda>br. pattern_head (branch_pattern b br)"
  have heads: "code_heads b branches = map (\<lambda>br. if ?f br then HOther else ?h br) branches" by (simp add: code_heads_def code_head)
  have float: "?h br = HLiteral" if "?f br" for br using that by auto
  have mem: "h \<in> set (code_heads b branches) \<longleftrightarrow> h \<in> set (branch_heads b branches)" if "h \<noteq> HLiteral" "h \<noteq> HOther" for h
    using that float by (auto simp: heads branch_heads_def)
  have cover: "Cover \<in> set (code_heads b branches) \<longleftrightarrow> Cover \<in> set (branch_heads b branches)" by (simp add: mem)
  have ctors: "ctor_heads (code_heads b branches) = ctor_heads (branch_heads b branches)" by (simp add: ctor_heads_def mem)
  have "List.map_filter (\<lambda>h. case h of HCtor _ d \<Rightarrow> d | _ \<Rightarrow> None) (code_heads b branches) =
      List.map_filter (\<lambda>h. case h of HCtor _ d \<Rightarrow> d | _ \<Rightarrow> None) (branch_heads b branches)"
    unfolding heads branch_heads_def by (induction branches) (auto simp: map_filter_simps float split: option.split)
  then have union: "case_union w (code_heads b branches) = case_union w (branch_heads b branches)"
    by (simp only: case_union_def ctors)
  show ?thesis
  proof (cases "Cover \<in> set (branch_heads b branches) \<or> ctor_heads (branch_heads b branches) \<noteq> {}")
    case True
    have "\<not> float_only b branches"
    proof
      assume f: "float_only b branches"
      have "h \<in> {HLiteral, HOther}" if "h \<in> set (branch_heads b branches)" for h
        using that f float by (fastforce simp: branch_heads_def float_only_def list_all_iff)
      with True show False by (fastforce simp: ctor_heads_def)
    qed
    with True show ?thesis unfolding case_covered_def heads_cover_def cover ctors union by auto
  next
    case False
    then have none: "?h br \<in> {HLiteral, HOther}" if "br \<in> set branches" for br
      using that by (cases "?h br") (force simp: branch_heads_def ctor_heads_def)+
    have "heads_cover w (code_heads b branches) \<longleftrightarrow> (\<forall>br \<in> set branches. ?f br \<or> ?h br = HOther)"
    proof -
      have "heads_cover w (code_heads b branches) \<longleftrightarrow> HLiteral \<notin> set (code_heads b branches)"
        using False unfolding heads_cover_def cover ctors by simp
      also have "\<dots> \<longleftrightarrow> (\<forall>br \<in> set branches. (if ?f br then HOther else ?h br) \<noteq> HLiteral)" 
        unfolding heads by (rule no_literal)
      also have "\<dots> \<longleftrightarrow> (\<forall>br \<in> set branches. ?f br \<or> ?h br = HOther)"
        by (intro ball_cong refl) (use none in \<open>auto dest!: none\<close>)
      finally show ?thesis .
    qed
    moreover have "case_covered b w branches \<longleftrightarrow> (\<forall>br \<in> set branches. ?h br = HOther)"
    proof -
      have "case_covered b w branches \<longleftrightarrow> HLiteral \<notin> set (branch_heads b branches)"
        using False unfolding heads_cover_def case_covered_def by simp
      also have "\<dots> \<longleftrightarrow> (\<forall>br \<in> set branches. ?h br \<noteq> HLiteral)" unfolding branch_heads_def by (rule no_literal)
      also have "\<dots> \<longleftrightarrow> (\<forall>br \<in> set branches. ?h br = HOther)"
        by (intro ball_cong refl) (auto dest!: none)
      finally show ?thesis .
    qed
    ultimately show ?thesis unfolding float_only_def list_all_iff list_ex_iff by blast
  qed
qed

lemma find_True: "find (\<lambda>d. True) xs = (case xs of [] \<Rightarrow> None | x # _ \<Rightarrow> Some x)"
  by (cases xs) auto

lemma collect_heads:
  "sorted (hd_covered h) \<Longrightarrow> distinct (hd_covered h) \<Longrightarrow>
   (case collect b brs h of
      None \<Rightarrow> Cover \<in> set (code_heads b brs)
    | Some h' \<Rightarrow> Cover \<notin> set (code_heads b brs) \<and> sorted (hd_covered h') \<and> distinct (hd_covered h') \<and>
        set (hd_covered h') = set (hd_covered h) \<union> ctor_heads (code_heads b brs) \<and>
        hd_union h' = or_else (hd_union h)
          (find (\<lambda>d. True) (List.map_filter (\<lambda>h. case h of HCtor _ d \<Rightarrow> d | _ \<Rightarrow> None) (code_heads b brs))) \<and>
        (hd_literal h' \<longleftrightarrow> hd_literal h \<or> HLiteral \<in> set (code_heads b brs)))"
proof (induction brs arbitrary: h)
  case Nil
  show ?case using Nil by (simp add: code_heads_def ctor_heads_def or_else_def map_filter_simps split: option.splits)
next
  case (Cons br brs)
  show ?case
  proof (cases "classify_pat b (cb_pat br)")
    case Cover
    then show ?thesis by (simp add: code_heads_def)
  next
    case (HCtor c d)
    let ?h = "h\<lparr>hd_covered := List.insort_insert c (hd_covered h),
      hd_union := (case hd_union h of Some d \<Rightarrow> Some d | None \<Rightarrow> d)\<rparr>"
    have "sorted (hd_covered ?h)" "distinct (hd_covered ?h)"
      using Cons.prems by (simp_all add: sorted_insort_insert distinct_insort_insert)
    from Cons.IH[OF this] HCtor show ?thesis
      by (auto simp: code_heads_def ctor_heads_def map_filter_simps or_else_def set_insort_insert
          split: option.splits)
  next
    case HLiteral
    from Cons.IH[of "h\<lparr>hd_literal := True\<rparr>"] Cons.prems HLiteral show ?thesis
      by (auto simp: code_heads_def ctor_heads_def map_filter_simps split: option.splits)
  next
    case HOther
    from Cons.IH[of h] Cons.prems HOther show ?thesis
      by (auto simp: code_heads_def ctor_heads_def map_filter_simps split: option.splits)
  qed
qed

lemma check_case_code: "check_case b w subject branches = [] \<longleftrightarrow> heads_cover w (code_heads b branches)"
proof -
  let ?hs = "code_heads b branches"
  note ch = collect_heads[of no_heads b branches, unfolded no_heads_def, simplified]
  show ?thesis
  proof (cases "collect b branches no_heads")
    case None
    with ch show ?thesis by (simp add: check_case_def heads_cover_def no_heads_def)
  next
    case (Some h)
    with ch have h: "Cover \<notin> set ?hs" "sorted (hd_covered h)" "distinct (hd_covered h)"
      "set (hd_covered h) = ctor_heads ?hs"
      "hd_union h = find (\<lambda>d. True) (List.map_filter (\<lambda>h. case h of HCtor _ d \<Rightarrow> d | _ \<Rightarrow> None) ?hs)"
      "hd_literal h \<longleftrightarrow> HLiteral \<in> set ?hs"
      by (simp_all add: no_heads_def or_else_def)
    have "Min (ctor_heads ?hs) = hd (hd_covered h)" if "hd_covered h \<noteq> []"
      using that h(2) unfolding h(4)[symmetric] by (cases "hd_covered h") (auto simp: Min_insert2)
    then have "union_members w h = case_union w ?hs"
      using h(4) by (cases "hd_covered h") (auto simp: union_members_def case_union_def h(5))
    moreover have "hd_covered h = [] \<longleftrightarrow> ctor_heads ?hs = {}" using h(4) by auto
    ultimately show ?thesis using Some h(1,4,6)
      by (auto simp: check_case_def heads_cover_def Let_def filter_empty_conv split: option.splits)
  qed
qed

lemma check_case_ok: "check_case b w subject branches = [] \<longleftrightarrow> case_covered b w branches \<or> float_only b branches"
  by (simp only: check_case_code code_heads_cover)

section \<open>What a body must cover\<close>

definition child_of :: "body \<Rightarrow> (nat \<times> nat) set" where
  "child_of b = {(e, c). e < length (bd_exprs b) \<and> c \<in> set (children (expr_at b e))}"

definition case_diags :: "body \<Rightarrow> world \<Rightarrow> nat \<Rightarrow> diagnostic list" where
  "case_diags b w e = (case expr_at b e of ECase subject branches \<Rightarrow> check_case b w subject branches | _ \<Rightarrow> [])"

lemma walk_cases_step:
  "set (walk_cases (Suc n) b w e) =
     set (case_diags b w e) \<union> (\<Union>c \<in> set (children (expr_at b e)). set (walk_cases n b w c))"
  by (cases "expr_at b e") (auto simp: case_diags_def)

lemma walk_cases_set:
  assumes "exprs_ok b"
  shows "e < length (bd_exprs b) \<Longrightarrow> e < n \<Longrightarrow>
    set (walk_cases n b w e) = (\<Union>x \<in> (child_of b)\<^sup>* `` {e}. set (case_diags b w x))"
proof (induction e arbitrary: n rule: less_induct)
  case (less e)
  obtain n' where n: "n = Suc n'" using less.prems(2) by (cases n) auto
  have IH: "set (walk_cases n' b w c) = (\<Union>x \<in> (child_of b)\<^sup>* `` {c}. set (case_diags b w x))"
    if "c \<in> set (children (expr_at b e))" for c
    using exprs_okD[OF assms less.prems(1) that] less.prems n by (intro less.IH) auto
  have "(child_of b)\<^sup>* `` {e} = insert e (\<Union>c \<in> set (children (expr_at b e)). (child_of b)\<^sup>* `` {c})"
    using less.prems(1)
    by (auto simp: child_of_def elim: converse_rtranclE intro: converse_rtrancl_into_rtrancl)
  then show ?case unfolding n walk_cases_step using IH by auto
qed

text \<open>C10: The check is exact on head coverage, except for floats. The checker accepts a body exactly when every \<open>case\<close> of
  the body, however deeply nested and wherever it stands, covers its subject's heads (a branch covers
  everything, or no branch names a constructor or a literal, or the branches name every constructor of
  their union, where a union that is unknown is accepted) or is one of the uncovered cases that it misses: those whose only
  literals are floats (\<open>float_only_uncovered\<close>), which its own comment says should be refused. Each other \<open>case\<close> gets its warning.\<close>

theorem check_body_exact:
  assumes "exprs_ok b" "bd_root b = Some root" "root < length (bd_exprs b)"
  shows "check_body b w = [] \<longleftrightarrow>
    (\<forall>e subject branches. (root, e) \<in> (child_of b)\<^sup>* \<longrightarrow> expr_at b e = ECase subject branches \<longrightarrow>
      case_covered b w branches \<or> float_only b branches)"
proof -
  have "check_body b w = [] \<longleftrightarrow> (\<forall>e \<in> (child_of b)\<^sup>* `` {root}. case_diags b w e = [])"
    using walk_cases_set[OF assms(1,3), of "Suc root" w] by (auto simp: check_body_def assms(2) simp flip: set_empty)
  moreover have "case_diags b w e = [] \<longleftrightarrow> (\<forall>subject branches. expr_at b e = ECase subject branches \<longrightarrow>
      case_covered b w branches \<or> float_only b branches)" for e
    by (auto simp: case_diags_def check_case_ok split: expr.splits)
  ultimately show ?thesis by auto
qed

text \<open>The witness: a \<open>case\<close> over a Bool with only a \<open>True\<close> branch, inside a list, is refused.\<close>

definition half_bool :: body where
  "half_bool = body_default\<lparr>bd_pats := [PBool True],
     bd_exprs := [EVar (RLocal 0), EUnit, ECase 0 [\<lparr>cb_pat = 0, cb_body = 1\<rparr>], EList [2]], bd_root := Some 3\<rparr>"

definition bool_world :: world where
  "bool_world = \<lparr>wd_ctor_union = [''True'' \<mapsto> ''Bool'', ''False'' \<mapsto> ''Bool''],
     wd_union_ctors = [''Bool'' \<mapsto> [''True'', ''False'']], wd_union_members_by_def = Map.empty\<rparr>"

lemma half_bool_case: "\<not> (case_covered half_bool bool_world [\<lparr>cb_pat = 0, cb_body = 1\<rparr>] \<or> float_only half_bool [\<lparr>cb_pat = 0, cb_body = 1\<rparr>])"
proof -
  have p: "branch_pattern half_bool \<lparr>cb_pat = 0, cb_body = 1\<rparr> = PBool True"
    by (simp add: branch_pattern_def half_bool_def)
  have hs: "branch_heads half_bool [\<lparr>cb_pat = 0, cb_body = 1\<rparr>] = [HCtor ''True'' None]"
    using p by (simp add: branch_heads_def)
  have c: "ctor_heads [HCtor ''True'' None] = {''True''}" by (auto simp: ctor_heads_def)
  show ?thesis unfolding case_covered_def heads_cover_def hs c
    by (simp add: case_union_def c or_else_def bool_world_def map_filter_simps float_only_def p[simplified])
qed

theorem check_body_exact_witness: "check_body half_bool bool_world \<noteq> []"
proof -
  have ok: "exprs_ok half_bool"
    by (auto simp: exprs_ok_def half_bool_def less_Suc_eq)
  have "(3, 2) \<in> child_of half_bool" by (simp add: child_of_def half_bool_def)
  moreover have "expr_at half_bool 2 = ECase 0 [\<lparr>cb_pat = 0, cb_body = 1\<rparr>]" by (simp add: half_bool_def)
  ultimately show ?thesis
    using check_body_exact[OF ok, of 3 bool_world] half_bool_case
    by (auto simp: half_bool_def)
qed

text \<open>A \<open>case\<close> whose branches are all float literals is accepted: \<open>classify_pat\<close> has no arm for them.\<close>

lemma float_literals_unchecked:
  assumes "\<forall>br \<in> set branches. \<exists>x. pat_at b (cb_pat br) = PFloat x"
  shows "check_case b w subject branches = []"
proof -
  have "\<exists>x. branch_pattern b br = PFloat x" if "br \<in> set branches" for br
    using bspec[OF assms that] by (cases "cb_pat br") (auto simp: branch_pattern_def)
  then have "branches \<noteq> [] \<Longrightarrow> float_only b branches"
    by (cases branches) (auto simp: float_only_def list_all_iff)
  then show ?thesis by (cases "branches = []") (auto simp: check_case_ok case_covered_def heads_cover_def branch_heads_def ctor_heads_def)
qed

end
