(* ===== verification/Re2_Syntax.thy ===== *)
theory Re2_Syntax
  imports Rust_Text
begin

text \<open>
  The validator of literal regular expressions, \<open>ty/src/re2_syntax.rs\<close>: a port of the checks of Go's
  \<open>regexp/syntax\<close> parser. A pattern is the list of its Unicode scalar values; every index of the code
  is compared with an ASCII character after ASCII characters, so byte and character positions agree
  there, and every slice ends at a character. Errors are the left side of a sum. The parse stack is a
  list with the top first. The main loop and the loop over a class carry fuel; both consume at least
  one character per step. \<open>char::is_alphanumeric\<close> is the parameter \<open>alnum\<close>.
\<close>

section \<open>Texts\<close>

definition strip_char :: "nat \<Rightarrow> nat list \<Rightarrow> nat list option" where
  "strip_char c s = (case s of d # t \<Rightarrow> (if d = c then Some t else None) | [] \<Rightarrow> None)"

text \<open>\<open>&s[..s.len() - rest.len()]\<close> for a suffix \<open>rest\<close> of \<open>s\<close>.\<close>

definition up_to :: "nat list \<Rightarrow> nat list \<Rightarrow> nat list" where
  "up_to s rest = take (length s - length rest) s"

section \<open>Failures\<close>

datatype re2_error = InvalidCharRange | InvalidEscape | InvalidNamedCapture | InvalidPerlOp
  | InvalidRepeatOp | InvalidRepeatSize | MissingBracket | MissingParen | MissingRepeatArgument
  | TrailingBackslash | UnexpectedParen

fun error_text :: "re2_error \<Rightarrow> string" where
  "error_text InvalidCharRange = ''invalid character class range''"
| "error_text InvalidEscape = ''invalid escape sequence''"
| "error_text InvalidNamedCapture = ''invalid named capture''"
| "error_text InvalidPerlOp = ''invalid or unsupported Perl syntax''"
| "error_text InvalidRepeatOp = ''invalid nested repetition operator''"
| "error_text InvalidRepeatSize = ''invalid repeat count''"
| "error_text MissingBracket = ''missing closing ]''"
| "error_text MissingParen = ''missing closing )''"
| "error_text MissingRepeatArgument = ''missing argument to repetition operator''"
| "error_text TrailingBackslash = ''trailing backslash at end of expression''"
| "error_text UnexpectedParen = ''unexpected )''"

record re2_failure =
  rf_code :: re2_error
  rf_expr :: "nat list"

definition failure_message :: "re2_failure \<Rightarrow> nat list" where
  "failure_message f = codes ''error parsing regexp: '' @ codes (error_text (rf_code f)) @ codes '': `'' @
     rf_expr f @ codes ''`''"

type_synonym 'a re2 = "re2_failure + 'a"

definition re2_fail :: "re2_error \<Rightarrow> nat list \<Rightarrow> 'a re2" where
  "re2_fail code expr = Inl \<lparr>rf_code = code, rf_expr = expr\<rparr>"

text \<open>The \<open>?\<close> operator.\<close>

definition try_re :: "'a re2 \<Rightarrow> ('a \<Rightarrow> 'b re2) \<Rightarrow> 'b re2" where
  "try_re m k = (case m of Inl f \<Rightarrow> Inl f | Inr x \<Rightarrow> k x)"

section \<open>The parse stack\<close>

datatype re_node = LeftParen | VerticalBar | Repeat bool int int re_node | Group "re_node list"

definition is_pseudo :: "re_node \<Rightarrow> bool" where
  "is_pseudo n \<longleftrightarrow> n = LeftParen \<or> n = VerticalBar"

fun repeat_is_valid :: "re_node \<Rightarrow> int \<Rightarrow> bool" where
  "repeat_is_valid (Repeat counted lo_count hi_count sub) n =
     (if \<not> counted then repeat_is_valid sub n
      else if hi_count = 0 then True
      else (let m = (if hi_count < 0 then lo_count else hi_count) in
            if n < m then False
            else repeat_is_valid sub (if 0 < m then n div m else n)))"
| "repeat_is_valid (Group subs) n = list_all (\<lambda>s. repeat_is_valid s n) subs"
| "repeat_is_valid _ n = True"

definition stack_concat :: "re_node list \<Rightarrow> re_node list" where
  "stack_concat st = Group (rev (takeWhile (\<lambda>n. \<not> is_pseudo n) st)) # dropWhile (\<lambda>n. \<not> is_pseudo n) st"

definition vertical_bar :: "re_node list \<Rightarrow> re_node list" where
  "vertical_bar st = VerticalBar # stack_concat st"

definition alternate :: "re_node list \<Rightarrow> re_node list" where
  "alternate st =
     (let s = stack_concat st in
      Group (filter (\<lambda>n. n \<noteq> VerticalBar) (rev (takeWhile (\<lambda>n. n \<noteq> LeftParen) s))) #
        dropWhile (\<lambda>n. n \<noteq> LeftParen) s)"

definition right_paren :: "re_node list \<Rightarrow> nat list \<Rightarrow> re_node list re2" where
  "right_paren st whole =
     (case alternate st of
        re1 # re2 # rest \<Rightarrow>
          (if re2 \<noteq> LeftParen then re2_fail UnexpectedParen whole else Inr (Group [re1] # rest))
      | _ \<Rightarrow> re2_fail UnexpectedParen whole)"

definition repeat_op :: "re_node list \<Rightarrow> int \<Rightarrow> int \<Rightarrow> bool \<Rightarrow> nat list \<Rightarrow> nat list \<Rightarrow> nat list \<Rightarrow>
    (re_node list \<times> nat list) re2" where
  "repeat_op st lo_count hi_count is_counted before after0 last_repeat =
     (let after = (case strip_char (chr CHR ''?'') after0 of Some rest \<Rightarrow> rest | None \<Rightarrow> after0) in
      if last_repeat \<noteq> [] then re2_fail InvalidRepeatOp (up_to last_repeat after)
      else (let op_text = up_to before after in
        case st of
          [] \<Rightarrow> re2_fail MissingRepeatArgument op_text
        | sub # below \<Rightarrow>
            (if is_pseudo sub then re2_fail MissingRepeatArgument op_text
             else (let re = Repeat is_counted lo_count hi_count sub in
               if is_counted \<and> (2 \<le> lo_count \<or> 2 \<le> hi_count) \<and> \<not> repeat_is_valid re 1000
               then re2_fail InvalidRepeatSize op_text
               else Inr (re # below, after)))))"

section \<open>Repeat counts\<close>

definition is_digit :: "nat \<Rightarrow> bool" where
  "is_digit c \<longleftrightarrow> chr CHR ''0'' \<le> c \<and> c \<le> chr CHR ''9''"

definition digits_value :: "nat list \<Rightarrow> int" where
  "digits_value ds = foldl (\<lambda>acc d. 10 * acc + int (d - chr CHR ''0'')) 0 ds"

definition parse_int :: "nat list \<Rightarrow> (int \<times> nat list) option" where
  "parse_int s =
     (if s = [] \<or> \<not> is_digit (hd s) then None
      else if 2 \<le> length s \<and> hd s = chr CHR ''0'' \<and> is_digit (s ! 1) then None
      else (let digits = takeWhile is_digit s in
        Some (if 8 < length digits then -1 else digits_value digits, drop (length digits) s)))"

definition parse_repeat :: "nat list \<Rightarrow> (int \<times> int \<times> nat list) option" where
  "parse_repeat s0 =
     (case strip_char (chr CHR ''{'') s0 of
        None \<Rightarrow> None
      | Some s \<Rightarrow>
          (case parse_int s of
             None \<Rightarrow> None
           | Some (lo_count, s) \<Rightarrow>
               (case strip_char (chr CHR '','') s of
                  Some s \<Rightarrow>
                    (case strip_char (chr CHR ''}'') s of
                       Some rest \<Rightarrow> Some (lo_count, -1, rest)
                     | None \<Rightarrow>
                         (case parse_int s of
                            None \<Rightarrow> None
                          | Some (hi_count, s) \<Rightarrow>
                              (if hi_count < 0 then map_option (\<lambda>rest. (-1, hi_count, rest)) (strip_char (chr CHR ''}'') s)
                               else map_option (\<lambda>rest. (lo_count, hi_count, rest)) (strip_char (chr CHR ''}'') s))))
                | None \<Rightarrow> map_option (\<lambda>rest. (lo_count, lo_count, rest)) (strip_char (chr CHR ''}'') s))))"

section \<open>Escapes and classes\<close>

definition unhex :: "nat \<Rightarrow> nat option" where
  "unhex c =
     (if is_digit c then Some (c - chr CHR ''0'')
      else if chr CHR ''a'' \<le> c \<and> c \<le> chr CHR ''f'' then Some (c - chr CHR ''a'' + 10)
      else if chr CHR ''A'' \<le> c \<and> c \<le> chr CHR ''F'' then Some (c - chr CHR ''A'' + 10)
      else None)"

definition is_octal :: "nat \<Rightarrow> bool" where
  "is_octal c \<longleftrightarrow> chr CHR ''0'' \<le> c \<and> c \<le> chr CHR ''7''"

text \<open>Up to two more octal digits after the first.\<close>

primrec octal_digits :: "nat \<Rightarrow> nat \<Rightarrow> nat list \<Rightarrow> nat \<times> nat list" where
  "octal_digits 0 r t = (r, t)"
| "octal_digits (Suc n) r t =
     (case t of
        d # t' \<Rightarrow> (if is_octal d then octal_digits n (r * 8 + (d - chr CHR ''0'')) t' else (r, t))
      | [] \<Rightarrow> (r, t))"

definition octal :: "nat \<Rightarrow> nat list \<Rightarrow> nat \<times> nat list" where
  "octal first t = octal_digits 2 (first - chr CHR ''0'') t"

definition invalid_escape :: "nat list \<Rightarrow> nat list \<Rightarrow> 'a re2" where
  "invalid_escape s t = re2_fail InvalidEscape (up_to s t)"

text \<open>The loop over \<open>\x{...}\<close>.\<close>

fun hex_braces :: "nat list \<Rightarrow> nat \<Rightarrow> nat \<Rightarrow> nat list \<Rightarrow> (nat \<times> nat list) re2" where
  "hex_braces s nhex r [] = invalid_escape s []"
| "hex_braces s nhex r (d # t) =
     (if d = chr CHR ''}'' then (if nhex = 0 then invalid_escape s t else Inr (r, t))
      else (case unhex d of
              None \<Rightarrow> invalid_escape s t
            | Some v \<Rightarrow>
                (if 0x10FFFF < r * 16 + v then invalid_escape s t
                 else hex_braces s (nhex + 1) (r * 16 + v) t)))"

definition hex_escape :: "nat list \<Rightarrow> nat list \<Rightarrow> (nat \<times> nat list) re2" where
  "hex_escape s t =
     (case t of
        [] \<Rightarrow> invalid_escape s t
      | c1 # t \<Rightarrow>
          (if c1 = chr CHR ''{'' then hex_braces s 0 0 t
           else (case t of
                   [] \<Rightarrow> invalid_escape s t
                 | c2 # t \<Rightarrow>
                     (case (unhex c1, unhex c2) of
                        (Some x, Some y) \<Rightarrow> Inr (x * 16 + y, t)
                      | _ \<Rightarrow> invalid_escape s t))))"

definition ascii_alnum :: "nat \<Rightarrow> bool" where
  "ascii_alnum c \<longleftrightarrow> is_digit c \<or> chr CHR ''a'' \<le> c \<and> c \<le> chr CHR ''z'' \<or> chr CHR ''A'' \<le> c \<and> c \<le> chr CHR ''Z''"

definition parse_escape_value :: "nat list \<Rightarrow> (nat \<times> nat list) re2" where
  "parse_escape_value s =
     (case tl s of
        [] \<Rightarrow> re2_fail TrailingBackslash []
      | c # t \<Rightarrow>
          (if chr CHR ''1'' \<le> c \<and> c \<le> chr CHR ''7'' then
             (case t of
                d # _ \<Rightarrow> (if is_octal d then Inr (octal c t) else invalid_escape s t)
              | [] \<Rightarrow> invalid_escape s t)
           else if c = chr CHR ''0'' then Inr (octal c t)
           else if c = chr CHR ''x'' then hex_escape s t
           else if c = chr CHR ''a'' then Inr (7, t)
           else if c = chr CHR ''f'' then Inr (12, t)
           else if c = chr CHR ''n'' then Inr (10, t)
           else if c = chr CHR ''r'' then Inr (13, t)
           else if c = chr CHR ''t'' then Inr (9, t)
           else if c = chr CHR ''v'' then Inr (11, t)
           else if c < 0x80 \<and> \<not> ascii_alnum c then Inr (c, t)
           else invalid_escape s t))"

definition parse_escape :: "nat list \<Rightarrow> nat list re2" where
  "parse_escape s = try_re (parse_escape_value s) (\<lambda>(_, rest). Inr rest)"

definition parse_perl_class_escape :: "nat list \<Rightarrow> nat list option" where
  "parse_perl_class_escape s =
     (if length s < 2 \<or> s ! 0 \<noteq> chr CHR 0x5C then None
      else if s ! 1 \<in> set (codes ''dDsSwW'') then Some (drop 2 s) else None)"

definition parse_unicode_class :: "nat list \<Rightarrow> nat list option re2" where
  "parse_unicode_class s =
     (if length s < 2 \<or> s ! 0 \<noteq> chr CHR 0x5C \<or> s ! 1 \<noteq> chr CHR ''p'' \<and> s ! 1 \<noteq> chr CHR ''P'' then Inr None
      else
        (case drop 2 s of
           [] \<Rightarrow> re2_fail InvalidCharRange (take 2 s)
         | c # _ \<Rightarrow>
             (let check = (\<lambda>sq rest name0.
                (let name = (case strip_char (chr CHR ''^'') name0 of Some n \<Rightarrow> n | None \<Rightarrow> name0) in
                 if name = [] \<or> c \<noteq> chr CHR ''{'' \<and> name \<notin> (\<lambda>x. [x]) ` set (codes ''CLMNPSZ'')
                 then re2_fail InvalidCharRange sq
                 else Inr (Some rest))) in
              if c \<noteq> chr CHR ''{'' then check (take 3 s) (drop 3 s) [c]
              else (case find_text [chr CHR ''}''] s of
                      None \<Rightarrow> re2_fail InvalidCharRange s
                    | Some fin \<Rightarrow> check (take (fin + 1) s) (drop (fin + 1) s) (take (fin - 3) (drop 3 s))))))"

definition POSIX_NAMES :: "nat list list" where
  "POSIX_NAMES = map codes [''alnum'', ''alpha'', ''ascii'', ''blank'', ''cntrl'', ''digit'', ''graph'',
     ''lower'', ''print'', ''punct'', ''space'', ''upper'', ''word'', ''xdigit'']"

definition parse_named_class :: "nat list \<Rightarrow> nat list option re2" where
  "parse_named_class s =
     (if take 2 s \<noteq> codes ''[:'' then Inr None
      else (case find_text (codes '':]'') (drop 2 s) of
              None \<Rightarrow> Inr None
            | Some i \<Rightarrow>
                (let name = take (i + 4) s;
                     inner0 = take i (drop 2 name);
                     inner = (case strip_char (chr CHR ''^'') inner0 of Some n \<Rightarrow> n | None \<Rightarrow> inner0) in
                 if inner \<notin> set POSIX_NAMES then re2_fail InvalidCharRange name
                 else Inr (Some (drop (i + 4) s)))))"

definition parse_class_char :: "nat list \<Rightarrow> nat list \<Rightarrow> (nat \<times> nat list) re2" where
  "parse_class_char s whole_class =
     (case s of
        [] \<Rightarrow> re2_fail MissingBracket whole_class
      | c # t \<Rightarrow> (if c = chr CHR 0x5C then parse_escape_value s else Inr (c, t)))"

text \<open>One character or range of a class.\<close>

definition class_range :: "nat list \<Rightarrow> nat list \<Rightarrow> nat list re2" where
  "class_range s rng =
     try_re (parse_class_char rng s) (\<lambda>(lo, t).
       if 2 \<le> length t \<and> t ! 0 = chr CHR ''-'' \<and> t ! 1 \<noteq> chr CHR '']'' then
         try_re (parse_class_char (tl t) s) (\<lambda>(hi, t).
           if hi < lo then re2_fail InvalidCharRange (up_to rng t) else Inr t)
       else Inr t)"

definition class_item :: "nat list \<Rightarrow> nat list \<Rightarrow> nat list re2" where
  "class_item s t =
     try_re (if 2 < length t \<and> take 2 t = codes ''[:'' then parse_named_class t else Inr None) (\<lambda>named.
       case named of
         Some rest \<Rightarrow> Inr rest
       | None \<Rightarrow> try_re (parse_unicode_class t) (\<lambda>uni.
           case uni of
             Some rest \<Rightarrow> Inr rest
           | None \<Rightarrow> (case parse_perl_class_escape t of Some rest \<Rightarrow> Inr rest | None \<Rightarrow> class_range s t)))"

primrec class_loop :: "nat \<Rightarrow> nat list \<Rightarrow> bool \<Rightarrow> nat list \<Rightarrow> nat list re2" where
  "class_loop 0 s first t = Inr t"
| "class_loop (Suc n) s first t =
     (if t = [] \<or> hd t \<noteq> chr CHR '']'' \<or> first then try_re (class_item s t) (class_loop n s False)
      else Inr (tl t))"

definition parse_class :: "nat list \<Rightarrow> nat list re2" where
  "parse_class s =
     (let t0 = tl s; t = (case strip_char (chr CHR ''^'') t0 of Some rest \<Rightarrow> rest | None \<Rightarrow> t0) in
      class_loop (length s + 1) s True t)"

section \<open>Groups and flags\<close>

definition is_valid_capture_name :: "(nat \<Rightarrow> bool) \<Rightarrow> nat list \<Rightarrow> bool" where
  "is_valid_capture_name alnum name \<longleftrightarrow> name \<noteq> [] \<and> list_all (\<lambda>c. c = chr CHR ''_'' \<or> alnum c) name"

text \<open>The loop over the flags: \<open>Inl\<close> the rest at the break, \<open>Inr\<close> whether a group opens and the rest.\<close>

fun flag_loop :: "bool \<Rightarrow> bool \<Rightarrow> nat list \<Rightarrow> nat list + (bool \<times> nat list)" where
  "flag_loop neg saw_flag [] = Inl []"
| "flag_loop neg saw_flag (c # t) =
     (if c \<in> set (codes ''imsU'') then flag_loop neg True t
      else if c = chr CHR ''-'' then (if neg then Inl t else flag_loop True False t)
      else if c = chr CHR '':'' \<or> c = chr CHR '')'' then
        (if neg \<and> \<not> saw_flag then Inl t else Inr (c = chr CHR '':'', t))
      else Inl t)"

definition parse_perl_flags :: "(nat \<Rightarrow> bool) \<Rightarrow> re_node list \<Rightarrow> nat list \<Rightarrow> (re_node list \<times> nat list) re2" where
  "parse_perl_flags alnum st s =
     (let starts_with_p = 4 < length s \<and> s ! 2 = chr CHR ''P'' \<and> s ! 3 = chr CHR ''<'';
          starts_with_name = 3 < length s \<and> s ! 2 = chr CHR ''<'' in
      if starts_with_p \<or> starts_with_name then
        (let expr_start = (if starts_with_p then 4 else 3) in
         case find_text [chr CHR ''>''] s of
           None \<Rightarrow> re2_fail InvalidNamedCapture s
         | Some fin \<Rightarrow>
             (if \<not> is_valid_capture_name alnum (take (fin - expr_start) (drop expr_start s))
              then re2_fail InvalidNamedCapture (take (fin + 1) s)
              else Inr (LeftParen # st, drop (fin + 1) s)))
      else
        (case flag_loop False False (drop 2 s) of
           Inr (opens, t) \<Rightarrow> Inr (if opens then LeftParen # st else st, t)
         | Inl t \<Rightarrow> re2_fail InvalidPerlOp (up_to s t)))"

definition parse_backslash :: "re_node list \<Rightarrow> nat list \<Rightarrow> (re_node list \<times> nat list) re2" where
  "parse_backslash st t =
     (if 2 \<le> length t \<and> t ! 1 \<in> set (codes ''AbBz'') then Inr (Group [] # st, drop 2 t)
      else if 2 \<le> length t \<and> t ! 1 = chr CHR ''C'' then re2_fail InvalidEscape (take 2 t)
      else if 2 \<le> length t \<and> t ! 1 = chr CHR ''Q'' then
        (let rest = drop 2 t;
             (quoted, after) = (case find_text [chr CHR 0x5C, chr CHR ''E''] rest of
                               Some i \<Rightarrow> (take i rest, drop (i + 2) rest)
                             | None \<Rightarrow> (rest, [])) in
         Inr (replicate (length quoted) (Group []) @ st, after))
      else try_re (parse_unicode_class t) (\<lambda>uni.
        case uni of
          Some rest \<Rightarrow> Inr (Group [] # st, rest)
        | None \<Rightarrow>
            (case parse_perl_class_escape t of
               Some rest \<Rightarrow> Inr (Group [] # st, rest)
             | None \<Rightarrow> try_re (parse_escape t) (\<lambda>rest. Inr (Group [] # st, rest)))))"

section \<open>The main loop\<close>

text \<open>One step: the new stack, the rest, and the text a following repeat would be nested in.\<close>

definition validate_step :: "(nat \<Rightarrow> bool) \<Rightarrow> nat list \<Rightarrow> nat list \<Rightarrow> re_node list \<Rightarrow> nat list \<Rightarrow>
    (re_node list \<times> nat list \<times> nat list) re2" where
  "validate_step alnum whole last_repeat st t =
     (let c = hd t; atom = Inr (Group [] # st, tl t, []) in
      if c = chr CHR ''('' then
        (if 2 \<le> length t \<and> t ! 1 = chr CHR ''?'' then
           try_re (parse_perl_flags alnum st t) (\<lambda>(st, t). Inr (st, t, []))
         else Inr (LeftParen # st, tl t, []))
      else if c = chr CHR ''|'' then Inr (vertical_bar st, tl t, [])
      else if c = chr CHR '')'' then try_re (right_paren st whole) (\<lambda>st. Inr (st, tl t, []))
      else if c \<in> set (codes ''^$.'') then atom
      else if c = chr CHR ''['' then try_re (parse_class t) (\<lambda>rest. Inr (Group [] # st, rest, []))
      else if c \<in> set (codes ''*+?'') then
        try_re (repeat_op st 0 0 False t (tl t) last_repeat) (\<lambda>(st, after). Inr (st, after, t))
      else if c = chr CHR ''{'' then
        (case parse_repeat t of
           None \<Rightarrow> atom
         | Some (lo_count, hi_count, after) \<Rightarrow>
             (if lo_count < 0 \<or> 1000 < lo_count \<or> 1000 < hi_count \<or> 0 \<le> hi_count \<and> hi_count < lo_count
              then re2_fail InvalidRepeatSize (up_to t after)
              else try_re (repeat_op st lo_count hi_count True t after last_repeat) (\<lambda>(st, rest). Inr (st, rest, t))))
      else if c = chr CHR 0x5C then try_re (parse_backslash st t) (\<lambda>(st, rest). Inr (st, rest, []))
      else atom)"

primrec validate_loop :: "(nat \<Rightarrow> bool) \<Rightarrow> nat \<Rightarrow> nat list \<Rightarrow> nat list \<Rightarrow> re_node list \<Rightarrow> nat list \<Rightarrow> re_node list re2" where
  "validate_loop alnum 0 whole last_repeat st t = Inr st"
| "validate_loop alnum (Suc n) whole last_repeat st t =
     (if t = [] then Inr st
      else try_re (validate_step alnum whole last_repeat st t) (\<lambda>(st, t, rep). validate_loop alnum n whole rep st t))"

definition re2_validate :: "(nat \<Rightarrow> bool) \<Rightarrow> nat list \<Rightarrow> unit re2" where
  "re2_validate alnum pattern =
     try_re (validate_loop alnum (length pattern) pattern [] [] pattern) (\<lambda>st.
       if length (alternate st) \<noteq> 1 then re2_fail MissingParen pattern else Inr ())"

section \<open>Every step consumes, every error quotes the pattern\<close>

text \<open>A result inside \<open>s\<close>: a failure quotes a part of \<open>s\<close>, a success leaves a proper suffix of \<open>s\<close>.\<close>

definition within :: "nat list \<Rightarrow> ('a \<Rightarrow> nat list) \<Rightarrow> 'a re2 \<Rightarrow> bool" where
  "within s rest r \<longleftrightarrow> (case r of Inl f \<Rightarrow> sublist (rf_expr f) s | Inr x \<Rightarrow> strict_suffix (rest x) s)"

definition opt_within :: "nat list \<Rightarrow> nat list option re2 \<Rightarrow> bool" where
  "opt_within s r \<longleftrightarrow> (case r of Inl f \<Rightarrow> sublist (rf_expr f) s
     | Inr None \<Rightarrow> True | Inr (Some t) \<Rightarrow> strict_suffix t s)"

lemma within_simps [simp]:
  "within s rest (Inl f) \<longleftrightarrow> sublist (rf_expr f) s"
  "within s rest (Inr x) \<longleftrightarrow> strict_suffix (rest x) s"
  "within s rest (re2_fail code e) \<longleftrightarrow> sublist e s"
  "opt_within s (re2_fail code e) \<longleftrightarrow> sublist e s"
  "opt_within s (Inr None)" "opt_within s (Inr (Some t)) \<longleftrightarrow> strict_suffix t s"
  by (simp_all add: within_def opt_within_def re2_fail_def)

lemma sublist_take [simp]: "sublist (take n s) s"
  by (intro prefix_imp_sublist take_is_prefix)

lemma sublist_up_to [simp]: "sublist (up_to s t) s"
  by (simp add: up_to_def)

lemma strict_suffix_drop: "s \<noteq> [] \<Longrightarrow> 0 < n \<Longrightarrow> strict_suffix (drop n s) s"
  by (auto simp: strict_suffix_def suffix_drop) (metis diff_less length_drop length_greater_0_conv less_irrefl)

lemma strict_suffix_tl: "s \<noteq> [] \<Longrightarrow> strict_suffix (tl s) s"
  using strict_suffix_drop[of s 1] by (simp add: drop_Suc)

lemma suffix_strict_trans: "suffix t u \<Longrightarrow> strict_suffix u s \<Longrightarrow> strict_suffix t s"
  by (meson suffix_order.le_less_trans)

lemma suffix_sublist_trans: "sublist e t \<Longrightarrow> suffix t s \<Longrightarrow> sublist e s"
  by (meson suffix_imp_sublist sublist_order.order_trans)

lemma within_suffix: "within t rest r \<Longrightarrow> suffix t s \<Longrightarrow> within s rest r"
  by (cases r) (auto intro: suffix_sublist_trans suffix_order.less_le_trans)

lemma within_try: "(\<And>x. m = Inr x \<Longrightarrow> within s rest (k x)) \<Longrightarrow> (\<And>f. m = Inl f \<Longrightarrow> sublist (rf_expr f) s) \<Longrightarrow>
    within s rest (try_re m k)"
  by (cases m) (simp_all add: try_re_def)

lemma octal_digits_suffix: "suffix (snd (octal_digits n r t)) t"
  by (induction n arbitrary: r t) (auto split: list.splits intro: suffix_ConsI)

lemma octal_suffix: "suffix (snd (octal c t)) t"
  by (simp add: octal_def octal_digits_suffix)

lemma hex_braces_within: "within s snd (hex_braces s nhex r t) \<or> \<not> strict_suffix t s"
proof (induction s nhex r t rule: hex_braces.induct)
  case (2 s nhex r d t)
  have "strict_suffix (d # t) s \<Longrightarrow> strict_suffix t s" by (meson suffix_strict_trans suffix_Cons suffix_order.refl)
  with 2 show ?case by (auto simp: invalid_escape_def split: option.splits)
qed (simp add: invalid_escape_def)

lemma parse_escape_value_within: "within s snd (parse_escape_value s)"
proof (cases "tl s")
  case Nil
  then show ?thesis by (simp add: parse_escape_value_def)
next
  case (Cons c t)
  then have t: "strict_suffix t s" by (cases s) (auto simp: strict_suffix_def suffix_ConsI)
  have "strict_suffix (snd (octal d t)) s" for d by (rule suffix_strict_trans[OF octal_suffix t])
  moreover have "within s snd (hex_escape s t)"
  proof -
    have sub: "strict_suffix u s" if "suffix u t" for u by (rule suffix_strict_trans[OF that t])
    then have "within s snd (hex_braces s 0 0 u)" if "suffix u t" for u
      using hex_braces_within[of s 0 0 u] that by blast
    note hb = this
    show ?thesis
    proof (cases t)
      case Nil
      then show ?thesis by (simp add: hex_escape_def invalid_escape_def)
    next
      case (Cons c1 t1)
      show ?thesis
      proof (cases "c1 = chr CHR ''{''")
        case True
        with hb[of t1] Cons show ?thesis by (simp add: hex_escape_def suffix_ConsI del: hex_braces.simps)
      next
        case False
        have "strict_suffix (tl t1) s" by (rule sub) (simp add: Cons suffix_ConsI suffix_tl)
        with False Cons show ?thesis
          by (cases t1; cases "unhex c1"; cases "unhex (hd t1)") (simp_all add: hex_escape_def invalid_escape_def)
      qed
    qed
  qed
  ultimately show ?thesis
    using t Cons by (auto simp: parse_escape_value_def invalid_escape_def split: list.split)
qed

lemma parse_unicode_class_within: "opt_within s (parse_unicode_class s)"
proof -
  have "strict_suffix (drop n s) s" if "2 \<le> length s" "0 < n" for n
    by (rule strict_suffix_drop) (use that in auto)
  then show ?thesis
    by (auto simp: parse_unicode_class_def Let_def split: list.splits option.splits)
qed

lemma parse_perl_class_within: "parse_perl_class_escape s = Some t \<Longrightarrow> strict_suffix t s"
  by (auto simp: parse_perl_class_escape_def split: if_splits intro!: strict_suffix_drop)

lemma parse_named_class_within: "s \<noteq> [] \<Longrightarrow> opt_within s (parse_named_class s)"
  by (auto simp: parse_named_class_def Let_def split: option.splits intro!: strict_suffix_drop)

lemma parse_class_char_within:
  "suffix s whole \<Longrightarrow> case parse_class_char s whole of Inl f \<Rightarrow> sublist (rf_expr f) whole | Inr (_, t) \<Rightarrow> strict_suffix t s"
  using parse_escape_value_within[of s]
  by (auto simp: parse_class_char_def re2_fail_def strict_suffix_def suffix_ConsI split: list.splits sum.splits
      intro: suffix_sublist_trans)

lemma class_range_within:
  assumes "suffix rng s"
  shows "case class_range s rng of Inl f \<Rightarrow> sublist (rf_expr f) s | Inr t \<Rightarrow> strict_suffix t rng"
proof (cases "parse_class_char rng s")
  case (Inl f)
  with parse_class_char_within[OF assms] show ?thesis by (simp add: class_range_def try_re_def)
next
  case (Inr lt)
  obtain lo t where lt: "lt = (lo, t)" by force
  have t: "strict_suffix t rng" using parse_class_char_within[OF assms] Inr lt by simp
  have tt: "suffix (tl t) s" using t assms by (metis strict_suffix_def suffix_order.trans suffix_tl)
  show ?thesis
  proof (cases "parse_class_char (tl t) s")
    case (Inl f)
    with parse_class_char_within[OF tt] t Inr lt show ?thesis by (simp add: class_range_def try_re_def)
  next
    case (Inr ht)
    obtain hi u where ht: "ht = (hi, u)" by force
    have "strict_suffix u (tl t)" using parse_class_char_within[OF tt] Inr ht by simp
    then have "strict_suffix u rng" using t by (meson strict_suffix_def suffix_order.less_le_trans suffix_order.trans suffix_tl)
    moreover have "sublist (up_to rng u) s" using assms sublist_up_to by (rule suffix_sublist_trans[rotated])
    ultimately show ?thesis using t Inr ht lt \<open>parse_class_char rng s = Inr lt\<close>
      by (simp add: class_range_def try_re_def re2_fail_def)
  qed
qed

lemma class_item_within:
  assumes "suffix t s"
  shows "case class_item s t of Inl f \<Rightarrow> sublist (rf_expr f) s | Inr u \<Rightarrow> strict_suffix u t"
proof -
  let ?named = "if 2 < length t \<and> take 2 t = codes ''[:'' then parse_named_class t else Inr None"
  have "opt_within t ?named" using parse_named_class_within[of t] by (cases "t = []") auto
  moreover have "opt_within t (parse_unicode_class t)" by (rule parse_unicode_class_within)
  ultimately show ?thesis
    using class_range_within[OF assms] parse_perl_class_within[of t] assms
    by (auto simp: class_item_def try_re_def opt_within_def split: sum.splits option.splits intro: suffix_sublist_trans)
qed

lemma class_loop_within: "strict_suffix t s \<Longrightarrow> within s id (class_loop n s first t)"
proof (induction n arbitrary: first t)
  case (Suc n)
  have ts: "suffix t s" using Suc.prems by (simp add: strict_suffix_def)
  show ?case
  proof (cases "t = [] \<or> hd t \<noteq> chr CHR '']'' \<or> first")
    case True
    show ?thesis
    proof (cases "class_item s t")
      case (Inr u)
      then have "strict_suffix u s" using class_item_within[OF ts] Suc.prems
        by (metis strict_suffix_def suffix_strict_trans sum.simps(6))
      with Suc.IH True Inr show ?thesis by (auto simp: try_re_def)
    qed (use True class_item_within[OF ts] in \<open>auto simp: try_re_def\<close>)
  next
    case False
    with Suc.prems show ?thesis by (auto intro: suffix_strict_trans suffix_tl)
  qed
qed simp

lemma parse_class_within: "s \<noteq> [] \<Longrightarrow> within s id (parse_class s)"
proof -
  assume ne: "s \<noteq> []"
  have "strict_suffix (case strip_char (chr CHR ''^'') (tl s) of Some rest \<Rightarrow> rest | None \<Rightarrow> tl s) s"
    using strict_suffix_tl[OF ne]
    by (auto simp: strip_char_def split: list.splits option.splits intro: suffix_strict_trans suffix_ConsI)
  then show ?thesis unfolding parse_class_def Let_def by (rule class_loop_within)
qed

lemma flag_loop_suffix:
  "case flag_loop neg saw t of Inl u \<Rightarrow> suffix u t | Inr (opens, u) \<Rightarrow> suffix u t"
proof (induction t arbitrary: neg saw)
  case (Cons c t)
  have more: "case r of Inl u \<Rightarrow> suffix u (c # t) | Inr (opens, u) \<Rightarrow> suffix u (c # t)"
    if "case r of Inl u \<Rightarrow> suffix u t | Inr (opens, u) \<Rightarrow> suffix u t" for r :: "nat list + bool \<times> nat list"
    using that by (auto intro: suffix_ConsI split: sum.splits)
  show ?case unfolding flag_loop.simps by (intro more) (simp add: Cons.IH del: flag_loop.simps)
qed simp

lemma parse_perl_flags_within:
  assumes "2 \<le> length s"
  shows "within s snd (parse_perl_flags alnum st s)"
proof -
  have ne: "s \<noteq> []" using assms by auto
  have "strict_suffix u s" if "suffix u (drop 2 s)" for u
    by (rule suffix_strict_trans[OF that]) (simp add: strict_suffix_drop ne)
  with flag_loop_suffix[where neg = False and saw = False and t = "drop 2 s"] ne show ?thesis
    by (auto simp: parse_perl_flags_def Let_def within_simps split: option.splits sum.splits
        intro!: strict_suffix_drop)
qed

lemma parse_escape_within: "within s id (parse_escape s)"
  using parse_escape_value_within[of s] by (auto simp: parse_escape_def try_re_def within_def split: sum.splits)

lemma parse_backslash_within:
  assumes "t \<noteq> []"
  shows "within t snd (parse_backslash st t)"
proof -
  have d: "strict_suffix (drop n t) t" if "0 < n" for n using assms that by (rule strict_suffix_drop)
  consider (cls) "2 \<le> length t" "t ! 1 \<in> set (codes ''AbBz'')" | (byte) "2 \<le> length t" "t ! 1 = chr CHR ''C''"
    | (quote) "2 \<le> length t" "t ! 1 = chr CHR ''Q''"
    | (other) "\<not> (2 \<le> length t \<and> t ! 1 \<in> set (codes ''AbBz''))" "\<not> (2 \<le> length t \<and> t ! 1 = chr CHR ''C'')"
        "\<not> (2 \<le> length t \<and> t ! 1 = chr CHR ''Q'')" by blast
  then show ?thesis
  proof cases
    case cls
    then show ?thesis by (simp add: parse_backslash_def d)
  next
    case byte
    then show ?thesis by (simp add: parse_backslash_def codes_def scalar_def)
  next
    case quote
    have "strict_suffix [] t" using assms by (simp add: strict_suffix_def)
    with quote d show ?thesis
      by (auto simp: parse_backslash_def codes_def scalar_def Let_def split: option.splits)
  next
    case other
    then have "parse_backslash st t = try_re (parse_unicode_class t) (\<lambda>uni.
        case uni of Some rest \<Rightarrow> Inr (Group [] # st, rest)
        | None \<Rightarrow> (case parse_perl_class_escape t of Some rest \<Rightarrow> Inr (Group [] # st, rest)
            | None \<Rightarrow> try_re (parse_escape t) (\<lambda>rest. Inr (Group [] # st, rest))))"
      unfolding parse_backslash_def by (simp only: if_False)
    with parse_unicode_class_within[of t] parse_perl_class_within[of t] parse_escape_within[of t]
    show ?thesis by (auto simp: try_re_def opt_within_def within_def split: sum.splits option.splits)
  qed
qed

lemma repeat_op_within:
  assumes "strict_suffix after0 before" "suffix before whole" "suffix last_repeat whole"
  shows "case repeat_op st lo_count hi_count counted before after0 last_repeat of
      Inl f \<Rightarrow> sublist (rf_expr f) whole | Inr (st, rest) \<Rightarrow> strict_suffix rest before"
proof -
  have "suffix (case strip_char (chr CHR ''?'') after0 of Some rest \<Rightarrow> rest | None \<Rightarrow> after0) after0"
    by (auto simp: strip_char_def suffix_ConsI split: list.splits option.splits)
  then have "strict_suffix (case strip_char (chr CHR ''?'') after0 of Some rest \<Rightarrow> rest | None \<Rightarrow> after0) before"
    using assms(1) by (rule suffix_strict_trans)
  moreover have "sublist (up_to before u) whole" "sublist (up_to last_repeat u) whole" for u
    using assms(2,3) by (meson suffix_sublist_trans sublist_up_to)+
  ultimately show ?thesis
    by (auto simp: repeat_op_def Let_def re2_fail_def split: list.split)
qed

lemma parse_int_suffix: "parse_int s = Some (v, t) \<Longrightarrow> suffix t s"
  by (auto simp: parse_int_def Let_def suffix_drop split: if_splits)

lemma strip_char_suffix: "strip_char c s = Some t \<Longrightarrow> strict_suffix t s"
  by (auto simp: strip_char_def strict_suffix_def suffix_ConsI split: list.splits if_splits)

lemma parse_repeat_suffix: "parse_repeat s = Some (lo_count, hi_count, t) \<Longrightarrow> strict_suffix t s"
  unfolding parse_repeat_def
  by (auto split: option.splits if_splits dest!: parse_int_suffix strip_char_suffix)
    (meson suffix_order.less_trans suffix_order.less_le_trans suffix_order.le_less_trans)+

text \<open>A step from \<open>t\<close> inside the pattern \<open>whole\<close>: an error quotes the pattern, a success consumes.\<close>

definition step_ok :: "nat list \<Rightarrow> nat list \<Rightarrow> (re_node list \<times> nat list \<times> nat list) re2 \<Rightarrow> bool" where
  "step_ok whole t r \<longleftrightarrow> (case r of Inl f \<Rightarrow> sublist (rf_expr f) whole
     | Inr (st, u, rep) \<Rightarrow> strict_suffix u t \<and> suffix rep whole)"

lemma step_ok_simps [simp]:
  "step_ok whole t (Inr (st, u, rep)) \<longleftrightarrow> strict_suffix u t \<and> suffix rep whole"
  "step_ok whole t (re2_fail code e) \<longleftrightarrow> sublist e whole"
  by (simp_all add: step_ok_def re2_fail_def)

lemma step_ok_within: "within t rest m \<Longrightarrow> suffix t whole \<Longrightarrow>
    step_ok whole t (try_re m (\<lambda>x. Inr (st x, rest x, [])))"
  by (auto simp: step_ok_def try_re_def within_def intro: suffix_sublist_trans split: sum.splits)

lemma step_ok_repeat:
  assumes "strict_suffix after0 t" "suffix t whole" "suffix last_repeat whole"
  shows "step_ok whole t
    (try_re (repeat_op st lo_count hi_count counted t after0 last_repeat) (\<lambda>(st, after). Inr (st, after, t)))"
  using repeat_op_within[OF assms, of st lo_count hi_count counted] assms(2)
  by (auto simp: step_ok_def try_re_def split: sum.splits)

lemma validate_step_within:
  assumes "t \<noteq> []" "suffix t whole" "suffix last_repeat whole"
  shows "step_ok whole t (validate_step alnum whole last_repeat st t)"
proof -
  have tl: "strict_suffix (tl t) t" using assms(1) by (rule strict_suffix_tl)
  note flags = step_ok_within[OF parse_perl_flags_within assms(2), where st = fst]
  note cls = step_ok_within[OF parse_class_within[OF assms(1)] assms(2), where st = "\<lambda>_. Group [] # st"]
  note esc = step_ok_within[OF parse_backslash_within[OF assms(1)] assms(2), where st = fst]
  have par: "step_ok whole t (try_re (right_paren st whole) (\<lambda>st. Inr (st, tl t, [])))"
    using tl by (auto simp: right_paren_def try_re_def re2_fail_def step_ok_def split: list.splits)
  note bare = step_ok_repeat[OF tl assms(2,3), of st 0 0 False]
  have counted: "step_ok whole t (case parse_repeat t of
      None \<Rightarrow> Inr (Group [] # st, tl t, [])
    | Some (lo_count, hi_count, after) \<Rightarrow>
        (if lo_count < 0 \<or> 1000 < lo_count \<or> 1000 < hi_count \<or> 0 \<le> hi_count \<and> hi_count < lo_count
         then re2_fail InvalidRepeatSize (up_to t after)
         else try_re (repeat_op st lo_count hi_count True t after last_repeat) (\<lambda>(st, rest). Inr (st, rest, t))))"
    using tl step_ok_repeat[OF parse_repeat_suffix assms(2,3)] suffix_sublist_trans[OF sublist_up_to assms(2)]
    by (auto split: option.split)
  show ?thesis
    using flags cls esc par bare counted tl unfolding validate_step_def Let_def case_prod_beta
    by (simp del: codes_def)
qed

lemma validate_loop_within:
  "suffix t whole \<Longrightarrow> suffix rep whole \<Longrightarrow> validate_loop alnum n whole rep st t = Inl f \<Longrightarrow>
    sublist (rf_expr f) whole"
proof (induction n arbitrary: rep st t)
  case (Suc n)
  then have ne: "t \<noteq> []" by (auto split: if_splits)
  have ok: "step_ok whole t (validate_step alnum whole rep st t)"
    using ne Suc.prems(1,2) by (rule validate_step_within)
  with Suc ne show ?case
    by (auto simp: step_ok_def try_re_def strict_suffix_def split: sum.splits
        intro: Suc.IH suffix_order.trans)
qed simp

lemma validate_loop_fuel:
  "suffix t whole \<Longrightarrow> suffix rep whole \<Longrightarrow> length t \<le> n \<Longrightarrow>
    validate_loop alnum (n + k) whole rep st t = validate_loop alnum n whole rep st t"
proof (induction n arbitrary: rep st t)
  case 0
  then show ?case by (cases k) simp_all
next
  case (Suc n)
  show ?case
  proof (cases "t = []")
    case False
    have ok: "step_ok whole t (validate_step alnum whole rep st t)"
      using False Suc.prems(1,2) by (rule validate_step_within)
    show ?thesis
    proof (cases "validate_step alnum whole rep st t")
      case (Inr x)
      obtain st' u r where x: "x = (st', u, r)" by (cases x)
      have u: "strict_suffix u t" "suffix r whole" using ok Inr x by simp_all
      then have "length u \<le> n" "suffix u whole"
        using Suc.prems suffix_length_less[of u t] by (auto simp: strict_suffix_def intro: suffix_order.trans)
      with Suc.IH[of u r st'] u False Inr x show ?thesis by (simp add: try_re_def)
    qed (use False in \<open>simp add: try_re_def\<close>)
  qed simp
qed

lemma class_loop_fuel:
  "suffix t s \<Longrightarrow> length t < n \<Longrightarrow> class_loop (n + k) s first t = class_loop n s first t"
proof (induction n arbitrary: first t)
  case (Suc n)
  show ?case
  proof (cases "class_item s t")
    case (Inr u)
    then have u: "strict_suffix u t" using class_item_within[OF Suc.prems(1)] by simp
    then have "length u < n" "suffix u s"
      using Suc.prems suffix_length_less[OF u] by (auto simp: strict_suffix_def intro: suffix_order.trans)
    with Suc.IH[of u False] Inr show ?thesis by (simp add: try_re_def)
  qed (simp add: try_re_def)
qed simp

section \<open>What the validator accepts\<close>

text \<open>The largest product of counted repetitions along a path of nested nodes.\<close>

fun worst_repeat :: "re_node \<Rightarrow> int" where
  "worst_repeat (Repeat counted lo_count hi_count sub) =
     (if \<not> counted then worst_repeat sub
      else if hi_count = 0 then 1
      else (let m = (if hi_count < 0 then lo_count else hi_count) in
            if 0 < m then m * worst_repeat sub else worst_repeat sub))"
| "worst_repeat (Group subs) = foldr max (map worst_repeat subs) 1"
| "worst_repeat _ = 1"

lemma foldr_max_le: "foldr max xs (a :: int) \<le> n \<longleftrightarrow> a \<le> n \<and> (\<forall>x\<in>set xs. x \<le> n)"
  by (induction xs) auto

lemma worst_repeat_pos: "1 \<le> worst_repeat re"
proof (induction re rule: worst_repeat.induct)
  case (1 counted lo_count hi_count sub)
  have "1 \<le> m * worst_repeat sub" if "0 < m" "1 \<le> worst_repeat sub" for m
    using mult_mono[of 1 m 1 "worst_repeat sub"] that by simp
  with 1 show ?case by (auto simp: Let_def)
next
  case (2 subs)
  have "1 \<le> foldr max xs (1 :: int)" for xs by (induction xs) auto
  then show ?case by simp
qed simp_all

lemma product_le_iff: "0 < m \<Longrightarrow> (1 :: int) \<le> w \<Longrightarrow> m * w \<le> n \<longleftrightarrow> m \<le> n \<and> w \<le> n div m"
proof
  assume m: "0 < m" and w: "1 \<le> w" and "m * w \<le> n"
  moreover have "m \<le> m * w" using mult_left_mono[OF w, of m] m by simp
  moreover have "w \<le> n div m" using zdiv_mono1[OF \<open>m * w \<le> n\<close> m] m by simp
  ultimately show "m \<le> n \<and> w \<le> n div m" using \<open>m * w \<le> n\<close> by linarith
next
  assume m: "0 < m" and "m \<le> n \<and> w \<le> n div m"
  then have "m * w \<le> m * (n div m)" by simp
  also have "\<dots> \<le> n" using m mult_div_mod_eq[of m n] pos_mod_sign[OF m, of n] by linarith
  finally show "m * w \<le> n" .
qed

lemma repeat_is_valid_worst: "1 \<le> n \<Longrightarrow> repeat_is_valid re n \<longleftrightarrow> worst_repeat re \<le> n"
proof (induction re n rule: repeat_is_valid.induct)
  case (1 counted lo_count hi_count sub n)
  let ?m = "if hi_count < 0 then lo_count else hi_count"
  show ?case
  proof (cases "counted \<and> hi_count \<noteq> 0 \<and> 0 < ?m")
    case True
    then have "1 \<le> n div ?m \<longleftrightarrow> ?m \<le> n" by (simp add: pos_imp_zdiv_pos_iff int_one_le_iff_zero_less)
    with True 1 product_le_iff[of ?m "worst_repeat sub" n] worst_repeat_pos[of sub]
    show ?thesis by (auto simp: Let_def not_less)
  next
    case False
    with 1 show ?thesis by (auto simp: Let_def)
  qed
next
  case (2 subs n)
  then show ?case by (simp add: foldr_max_le list_all_iff)
qed simp_all

text \<open>The depth of the open groups after reading a text of plain characters, bars and parentheses.\<close>

fun group_depth :: "nat \<Rightarrow> nat list \<Rightarrow> nat option" where
  "group_depth d [] = Some d"
| "group_depth d (c # t) =
     (if c = chr CHR ''('' then group_depth (d + 1) t
      else if c = chr CHR '')'' then (if d = 0 then None else group_depth (d - 1) t)
      else group_depth d t)"

definition plain_char :: "nat \<Rightarrow> bool" where
  "plain_char c \<longleftrightarrow> c \<notin> set (codes ''^$.[*+?{'') \<and> c \<noteq> chr CHR 0x5C"

definition opened :: "re_node list \<Rightarrow> nat" where
  "opened st = length (filter (\<lambda>n. n = LeftParen) st)"

lemma opened_simps [simp]: "opened [] = 0" "opened (LeftParen # st) = opened st + 1"
  "opened (Group gs # st) = opened st" "opened (VerticalBar # st) = opened st"
  by (simp_all add: opened_def)

lemma opened_dropWhile: "(\<And>n. n \<in> set st \<Longrightarrow> n = LeftParen \<Longrightarrow> \<not> P n) \<Longrightarrow> opened (dropWhile P st) = opened st"
  by (induction st) (auto simp: opened_def)

lemma opened_concat [simp]: "opened (stack_concat st) = opened st"
  by (simp add: stack_concat_def opened_dropWhile is_pseudo_def)

lemma dropWhile_opened: "dropWhile (\<lambda>n. n \<noteq> LeftParen) st =
    (if opened st = 0 then [] else LeftParen # tl (dropWhile (\<lambda>n. n \<noteq> LeftParen) st))"
  by (induction st) (auto simp: opened_def)

lemma alternate_shape: "\<exists>gs. alternate st = Group gs #
    (if opened st = 0 then [] else LeftParen # tl (dropWhile (\<lambda>n. n \<noteq> LeftParen) (stack_concat st)))"
  using dropWhile_opened[of "stack_concat st"] by (simp add: alternate_def Let_def)

lemma right_paren_opened:
  "right_paren st whole = (if opened st = 0 then re2_fail UnexpectedParen whole
     else Inr (Group [hd (alternate st)] # tl (dropWhile (\<lambda>n. n \<noteq> LeftParen) (stack_concat st))))"
  using alternate_shape[of st] by (auto simp: right_paren_def)

lemma opened_tl: "opened st \<noteq> 0 \<Longrightarrow>
    opened (tl (dropWhile (\<lambda>n. n \<noteq> LeftParen) (stack_concat st))) = opened st - 1"
  using opened_dropWhile[of "stack_concat st" "\<lambda>n. n \<noteq> LeftParen"] dropWhile_opened[of "stack_concat st"]
  by (metis One_nat_def add_diff_cancel_right' opened_concat opened_simps(2))

lemma validate_loop_groups:
  "list_all plain_char t \<Longrightarrow> length t \<le> n \<Longrightarrow>
    (case group_depth (opened st) t of
       None \<Rightarrow> validate_loop alnum n whole [] st t = re2_fail UnexpectedParen whole
     | Some d \<Rightarrow> \<exists>st'. validate_loop alnum n whole [] st t = Inr st' \<and> opened st' = d)"
proof (induction n arbitrary: st t)
  case (Suc n)
  show ?case
  proof (cases t)
    case (Cons c u)
    have u: "list_all plain_char u" "length u \<le> n" and c: "plain_char c" using Suc.prems Cons by simp_all
    have q: "\<not> (2 \<le> length t \<and> t ! 1 = chr CHR ''?'')"
      using u(1) Cons by (cases u) (auto simp: plain_char_def codes_def)
    have num: "chr CHR ''('' = 40" "chr CHR ''|'' = 124" "chr CHR '')'' = 41" by (simp_all add: scalar_def)
    have step: "validate_step alnum whole [] st t =
      (if c = chr CHR ''('' then Inr (LeftParen # st, u, [])
       else if c = chr CHR ''|'' then Inr (vertical_bar st, u, [])
       else if c = chr CHR '')'' then try_re (right_paren st whole) (\<lambda>st. Inr (st, u, []))
       else Inr (Group [] # st, u, []))"
      using c q Cons by (auto simp: validate_step_def Let_def plain_char_def codes_def num)
    consider (open_paren) "c = 40" | (bar) "c = 124" | (close_paren) "c = 41" | (other) "c \<notin> {40, 124, 41}" by blast
    then show ?thesis
    proof cases
      case open_paren
      with Suc.IH[OF u, of "LeftParen # st"] Cons step show ?thesis
        by (simp add: num try_re_def split: option.splits)
    next
      case bar
      with Suc.IH[OF u, of "vertical_bar st"] Cons step show ?thesis
        by (simp add: num try_re_def vertical_bar_def split: option.splits)
    next
      case close_paren
      show ?thesis
      proof (cases "opened st = 0")
        case True
        with close_paren Cons step show ?thesis by (simp add: num right_paren_opened try_re_def re2_fail_def)
      next
        case False
        with Suc.IH[OF u, of "Group [hd (alternate st)] # tl (dropWhile (\<lambda>n. n \<noteq> LeftParen) (stack_concat st))"]
          opened_tl[OF False] close_paren Cons step show ?thesis
          by (simp add: num right_paren_opened try_re_def split: option.splits)
      qed
    next
      case other
      with Suc.IH[OF u, of "Group [] # st"] Cons step show ?thesis
        by (simp add: num try_re_def split: option.splits)
    qed
  qed simp
qed simp

section \<open>Properties\<close>

text \<open>C13: every error names a part of the pattern: the excerpt of a failure is a contiguous part of it.\<close>

theorem excerpt_in_pattern: "re2_validate alnum p = Inl f \<Longrightarrow> sublist (rf_expr f) p"
proof -
  assume "re2_validate alnum p = Inl f"
  then show ?thesis
    using validate_loop_within[of p p "[]"]
    by (cases "validate_loop alnum (length p) p [] [] p")
      (auto simp: re2_validate_def try_re_def re2_fail_def split: if_splits)
qed

lemma excerpt_in_pattern_witness: "sublist [42, 42] (codes ''a**'')"
proof -
  have "re2_validate (\<lambda>_. True) (codes ''a**'') = Inl \<lparr>rf_code = InvalidRepeatOp, rf_expr = [42, 42]\<rparr>"
    by code_simp
  from excerpt_in_pattern[OF this] show ?thesis by simp
qed

text \<open>C12: parentheses: a pattern of plain characters, bars and parentheses is accepted exactly when
  its parentheses balance. A closing parenthesis without an open one and an open one that is never
  closed have errors of their own, which quote the whole pattern.\<close>

theorem parentheses_balance:
  assumes "list_all plain_char p"
  shows "re2_validate alnum p = (case group_depth 0 p of
     None \<Rightarrow> re2_fail UnexpectedParen p
   | Some d \<Rightarrow> if d = 0 then Inr () else re2_fail MissingParen p)"
proof (cases "group_depth 0 p")
  case None
  then show ?thesis
    using validate_loop_groups[of p "length p" alnum p "[]"] assms
    by (simp add: re2_validate_def try_re_def re2_fail_def)
next
  case (Some d)
  then obtain st where st: "validate_loop alnum (length p) p [] [] p = Inr st" "opened st = d"
    using validate_loop_groups[of p "length p" alnum p "[]"] assms by auto
  have "length (alternate st) = 1 \<longleftrightarrow> d = 0"
    using alternate_shape[of st] st(2) by (auto split: if_splits)
  with st Some show ?thesis by (simp add: re2_validate_def try_re_def)
qed

lemma parentheses_balance_witness:
  "re2_validate (\<lambda>_. True) (codes ''(a|b)(c'') = re2_fail MissingParen (codes ''(a|b)(c'')"
proof -
  have "list_all plain_char (codes ''(a|b)(c'')" "group_depth 0 (codes ''(a|b)(c'') = Some 1" by code_simp+
  with parentheses_balance[of "codes ''(a|b)(c''" "\<lambda>_. True"] show ?thesis by simp
qed

text \<open>C14: the repetition bound: the check of nested counted repetitions, which divides the bound on
  the way down, accepts a node exactly when the product of the counts along every path stays within the
  bound.\<close>

theorem repetition_bound: "1 \<le> n \<Longrightarrow> repeat_is_valid re n \<longleftrightarrow> worst_repeat re \<le> n"
  by (rule repeat_is_valid_worst)

lemma repetition_bound_witness:
  "\<not> repeat_is_valid (Repeat True 2 (-1) (Group [Repeat True 0 501 (Group [])])) 1000"
proof -
  have "\<not> worst_repeat (Repeat True 2 (-1) (Group [Repeat True 0 501 (Group [])])) \<le> 1000" by simp
  with repetition_bound[of 1000] show ?thesis by simp
qed

text \<open>the validator terminates: the main loop needs at most one step per character of the
  pattern, and the loop over a class at most one more than the characters left, so a larger bound never
  changes a result.\<close>

theorem validator_terminates:
  "validate_loop alnum (length p + k) p [] [] p = validate_loop alnum (length p) p [] [] p \<and>
   class_loop (length s + 1 + k) s True (drop m s) = class_loop (length s + 1) s True (drop m s)"
proof
  show "validate_loop alnum (length p + k) p [] [] p = validate_loop alnum (length p) p [] [] p"
    by (rule validate_loop_fuel) simp_all
  show "class_loop (length s + 1 + k) s True (drop m s) = class_loop (length s + 1) s True (drop m s)"
    by (rule class_loop_fuel) (simp_all add: suffix_drop)
qed

end
