(* ===== verification/Super_Type.thy ===== *)
theory Super_Type
  imports "HOL-Library.Word" "HOL-Library.Sublist"
begin

text \<open>
  The bounds of a type variable and the identity of nominal types: \<open>SuperType\<close> of \<open>ty/src/unify.rs\<close> and
  \<open>ty/src/nominal.rs\<close>. A set of bounds is the byte the code keeps, one flag per bit. Names are the
  strings of their bytes.
\<close>

unbundle bit_operations_syntax

section \<open>The flags\<close>

type_synonym super_type = "8 word"

definition Number :: super_type where "Number = 1"
definition Comparable :: super_type where "Comparable = 2"
definition Appendable :: super_type where "Appendable = 4"
definition CompAppend :: super_type where "CompAppend = 2 OR 4"
definition Encodable :: super_type where "Encodable = 8"
definition GoValue :: super_type where "GoValue = 16"
definition IntLit :: super_type where "IntLit = 32"
definition NumVar :: super_type where "NumVar = 64"

lemmas flag_defs = Number_def Comparable_def Appendable_def CompAppend_def Encodable_def GoValue_def
  IntLit_def NumVar_def

definition st_has :: "super_type \<Rightarrow> super_type \<Rightarrow> bool" where
  "st_has s o' \<longleftrightarrow> s AND o' = o' \<and> o' \<noteq> 0"

definition st_union :: "super_type \<Rightarrow> super_type \<Rightarrow> super_type" where
  "st_union s o' = s OR o'"

definition st_intersect :: "super_type \<Rightarrow> super_type \<Rightarrow> super_type" where
  "st_intersect s o' = s AND o'"

definition st_minus :: "super_type \<Rightarrow> super_type \<Rightarrow> super_type" where
  "st_minus s o' = s AND NOT o'"

definition closure :: "super_type \<Rightarrow> super_type" where
  "closure s =
     (let b = s;
          b = (if b AND 32 \<noteq> 0 then b OR 1 else b);
          b = (if b AND 1 \<noteq> 0 then b OR 2 else b);
          b = (if b AND 2 \<noteq> 0 then b OR 8 else b) in b)"

definition is_satisfiable :: "super_type \<Rightarrow> bool" where
  "is_satisfiable s \<longleftrightarrow>
     \<not> (st_has s Number \<and> st_has s Appendable) \<and> \<not> (st_has s GoValue \<and> st_intersect s (1 OR 2 OR 4) \<noteq> 0)"

definition for_elements :: "super_type \<Rightarrow> super_type" where
  "for_elements s = st_intersect (closure s) (st_union Comparable Encodable)"

definition label :: "super_type \<Rightarrow> string" where
  "label s =
     (let b = closure s in
      if st_has b GoValue then ''govalue''
      else if st_has b Number then ''number''
      else if st_has b CompAppend then ''compappend''
      else if st_has b Comparable then ''comparable''
      else if st_has b Appendable \<and> st_has b Encodable then ''encappend''
      else if st_has b Appendable then ''appendable''
      else ''encodable'')"

definition starts_with :: "string \<Rightarrow> string \<Rightarrow> bool" where
  "starts_with s p \<longleftrightarrow> take (length p) s = p"

definition PREFIXES :: "(string \<times> super_type) list" where
  "PREFIXES = [(''govalue'', GoValue), (''compappend'', CompAppend), (''comparable'', Comparable),
     (''appendable'', Appendable), (''encappend'', 4 OR 8), (''encodable'', Encodable), (''number'', Number)]"

definition from_var_name :: "string \<Rightarrow> super_type option" where
  "from_var_name name = map_option (\<lambda>(p, b). closure b) (find (\<lambda>(p, b). starts_with name p) PREFIXES)"

definition ascii_digit :: "char \<Rightarrow> bool" where
  "ascii_digit c \<longleftrightarrow> of_char c \<in> {48..57 :: nat}"

definition minted_label :: "string \<Rightarrow> string option" where
  "minted_label name = find (\<lambda>p. starts_with name p \<and> drop (length p) name \<noteq> [] \<and>
     list_all ascii_digit (drop (length p) name))
     [''govalue'', ''compappend'', ''comparable'', ''appendable'', ''encappend'', ''encodable'', ''number'']"

section \<open>Reading the flags\<close>

text \<open>Every flag is one bit, so that a question about sets of bounds is one about bits.\<close>

lemma bit_byte: "bit (1 :: super_type) n \<longleftrightarrow> n = 0" "bit (2 :: super_type) n \<longleftrightarrow> n = 1"
  "bit (4 :: super_type) n \<longleftrightarrow> n = 2" "bit (6 :: super_type) n \<longleftrightarrow> n = 1 \<or> n = 2"
  "bit (7 :: super_type) n \<longleftrightarrow> n = 0 \<or> n = 1 \<or> n = 2" "bit (8 :: super_type) n \<longleftrightarrow> n = 3"
  "bit (12 :: super_type) n \<longleftrightarrow> n = 2 \<or> n = 3" "bit (16 :: super_type) n \<longleftrightarrow> n = 4"
  "bit (32 :: super_type) n \<longleftrightarrow> n = 5" "bit (64 :: super_type) n \<longleftrightarrow> n = 6"
proof -
  have *: "bit (2 ^ k :: super_type) n \<longleftrightarrow> n = k" if "k < 8" for k
    using that by (auto simp: bit_exp_iff possible_bit_def)
  have one: "bit (1 :: super_type) n \<longleftrightarrow> n = 0" "bit (2 :: super_type) n \<longleftrightarrow> n = 1"
    "bit (4 :: super_type) n \<longleftrightarrow> n = 2" "bit (8 :: super_type) n \<longleftrightarrow> n = 3" "bit (16 :: super_type) n \<longleftrightarrow> n = 4"
    "bit (32 :: super_type) n \<longleftrightarrow> n = 5" "bit (64 :: super_type) n \<longleftrightarrow> n = 6"
  proof -
    have "(1 :: super_type) = 2 ^ 0" "(2 :: super_type) = 2 ^ 1" "(4 :: super_type) = 2 ^ 2" "(8 :: super_type) = 2 ^ 3"
      "(16 :: super_type) = 2 ^ 4" "(32 :: super_type) = 2 ^ 5" "(64 :: super_type) = 2 ^ 6" by simp_all
    then show "bit (1 :: super_type) n \<longleftrightarrow> n = 0" "bit (2 :: super_type) n \<longleftrightarrow> n = 1"
      "bit (4 :: super_type) n \<longleftrightarrow> n = 2" "bit (8 :: super_type) n \<longleftrightarrow> n = 3" "bit (16 :: super_type) n \<longleftrightarrow> n = 4"
      "bit (32 :: super_type) n \<longleftrightarrow> n = 5" "bit (64 :: super_type) n \<longleftrightarrow> n = 6"
      using *[of 0] *[of 1] *[of 2] *[of 3] *[of 4] *[of 5] *[of 6] by (simp_all only:)
  qed
  have "(6 :: super_type) = 2 OR 4" "(7 :: super_type) = 1 OR 2 OR 4" "(12 :: super_type) = 4 OR 8" by simp_all
  then have "bit (6 :: super_type) n \<longleftrightarrow> bit (2 :: super_type) n \<or> bit (4 :: super_type) n"
    "bit (7 :: super_type) n \<longleftrightarrow> bit (1 :: super_type) n \<or> bit (2 :: super_type) n \<or> bit (4 :: super_type) n"
    "bit (12 :: super_type) n \<longleftrightarrow> bit (4 :: super_type) n \<or> bit (8 :: super_type) n"
    by (simp_all only: bit_or_iff)
  with one show "bit (1 :: super_type) n \<longleftrightarrow> n = 0" "bit (2 :: super_type) n \<longleftrightarrow> n = 1"
    "bit (4 :: super_type) n \<longleftrightarrow> n = 2" "bit (6 :: super_type) n \<longleftrightarrow> n = 1 \<or> n = 2"
    "bit (7 :: super_type) n \<longleftrightarrow> n = 0 \<or> n = 1 \<or> n = 2" "bit (8 :: super_type) n \<longleftrightarrow> n = 3"
    "bit (12 :: super_type) n \<longleftrightarrow> n = 2 \<or> n = 3" "bit (16 :: super_type) n \<longleftrightarrow> n = 4"
    "bit (32 :: super_type) n \<longleftrightarrow> n = 5" "bit (64 :: super_type) n \<longleftrightarrow> n = 6"
    by (simp_all only:)
qed

lemma flag_bits:
  "bit Number n \<longleftrightarrow> n = 0" "bit Comparable n \<longleftrightarrow> n = 1" "bit Appendable n \<longleftrightarrow> n = 2"
  "bit CompAppend n \<longleftrightarrow> n = 1 \<or> n = 2" "bit Encodable n \<longleftrightarrow> n = 3" "bit GoValue n \<longleftrightarrow> n = 4"
  "bit IntLit n \<longleftrightarrow> n = 5" "bit NumVar n \<longleftrightarrow> n = 6"
  by (simp_all only: flag_defs bit_byte bit_or_iff)

lemma super_zero: "s = (0 :: super_type) \<longleftrightarrow> (\<forall>n. \<not> bit s n)"
proof
  assume "\<forall>n. \<not> bit s n"
  then show "s = 0" by (intro bit_eqI) simp
qed simp

lemma and_nonzero: "s AND t \<noteq> (0 :: super_type) \<longleftrightarrow> (\<exists>n. bit s n \<and> bit t n)"
  unfolding super_zero bit_and_iff by simp

lemma and_flag: "(s AND 1 \<noteq> (0 :: super_type)) = bit s 0" "(s AND 2 \<noteq> (0 :: super_type)) = bit s 1"
  "(s AND 32 \<noteq> (0 :: super_type)) = bit s 5"
  unfolding and_nonzero bit_byte by auto

lemma and_sub: "s AND t = (t :: super_type) \<longleftrightarrow> (\<forall>n. bit t n \<longrightarrow> bit s n)"
proof
  assume "s AND t = t"
  then show "\<forall>n. bit t n \<longrightarrow> bit s n" by (metis bit_and_iff)
next
  assume "\<forall>n. bit t n \<longrightarrow> bit s n"
  then show "s AND t = t" by (intro bit_eqI) (auto simp: bit_and_iff)
qed

lemma st_has_flag [simp]:
  "st_has s Number \<longleftrightarrow> bit s 0" "st_has s Comparable \<longleftrightarrow> bit s 1" "st_has s Appendable \<longleftrightarrow> bit s 2"
  "st_has s CompAppend \<longleftrightarrow> bit s 1 \<and> bit s 2" "st_has s Encodable \<longleftrightarrow> bit s 3" "st_has s GoValue \<longleftrightarrow> bit s 4"
  "st_has s IntLit \<longleftrightarrow> bit s 5" "st_has s NumVar \<longleftrightarrow> bit s 6"
  unfolding st_has_def and_sub flag_bits by (auto simp: flag_defs)

lemma bit_st_union [simp]: "bit (st_union s t) n \<longleftrightarrow> bit s n \<or> bit t n"
  by (simp add: st_union_def bit_or_iff)

lemma bit_st_minus [simp]: "bit (st_minus s t) n \<longleftrightarrow> bit s n \<and> \<not> bit t n"
  using bit_imp_le_length[of s n] by (auto simp: st_minus_def bit_and_iff bit_not_iff possible_bit_def)

lemma bit_closure [simp]: "bit (closure s) n \<longleftrightarrow> bit s n \<or> (n = 0 \<and> bit s 5) \<or>
    (n = 1 \<and> (bit s 0 \<or> bit s 5)) \<or> (n = 3 \<and> (bit s 1 \<or> bit s 0 \<or> bit s 5))"
  unfolding closure_def Let_def and_flag
  by (simp only: bit_or_iff bit_byte split: if_split) auto

lemma bit_for_elements [simp]: "bit (for_elements s) n \<longleftrightarrow>
    n = 1 \<and> bit (closure s) 1 \<or> n = 3 \<and> bit (closure s) 3"
  unfolding for_elements_def st_intersect_def st_union_def bit_and_iff bit_or_iff flag_bits by auto

lemma super_eqI: "(\<And>n. n < 8 \<Longrightarrow> bit s n \<longleftrightarrow> bit t n) \<Longrightarrow> s = (t :: super_type)"
  by (rule bit_word_eqI) simp

lemma is_satisfiable_bits: "is_satisfiable s \<longleftrightarrow>
    \<not> (bit s 0 \<and> bit s 2) \<and> \<not> (bit s 4 \<and> (bit s 0 \<or> bit s 1 \<or> bit s 2))"
proof -
  have "st_intersect s (1 OR 2 OR 4) \<noteq> 0 \<longleftrightarrow> bit s 0 \<or> bit s 1 \<or> bit s 2"
    unfolding st_intersect_def and_nonzero bit_or_iff bit_byte by auto
  then show ?thesis by (auto simp: is_satisfiable_def)
qed

section \<open>Properties of the bounds\<close>

text \<open>Closing a set of bounds is a closure operator (it only adds, adds nothing twice, keeps
  inclusions), and it decides satisfiability: a number cannot be appendable, and a Go value has no
  order.\<close>

theorem closure_operator:
  "(\<forall>n. \<not> bit s n \<or> bit (closure s) n) \<and> closure (closure s) = closure s \<and>
   closure (st_union s t) = st_union (closure s) (closure t) \<and>
   (is_satisfiable (closure s) = (\<not> ((bit s 0 \<or> bit s 5) \<and> bit s 2) \<and>
      \<not> (bit s 4 \<and> (bit s 0 \<or> bit s 1 \<or> bit s 2 \<or> bit s 5))))"
  by (auto simp: is_satisfiable_bits intro!: super_eqI)

text \<open>A bound survives generalisation by its name. For every satisfiable set of the five bounds
  a scheme can carry, the label followed by any digits reads back as the closed set, except that a
  Go value that must also be encodable reads back as a Go value alone.\<close>

theorem label_roundtrip:
  assumes "s < 32" "s \<noteq> 0" "is_satisfiable s"
  shows "from_var_name (label s @ ds) = Some (if bit s 4 then GoValue else closure s)"
proof -
  have "from_var_name (label s @ ds) = from_var_name (label s)"
    by (simp add: label_def Let_def from_var_name_def PREFIXES_def starts_with_def)
  moreover have "list_all (\<lambda>n. let s = word_of_nat n in s = 0 \<or> \<not> is_satisfiable s \<or>
      from_var_name (label s) = Some (if bit s 4 then GoValue else closure s)) [0..<32]"
    by code_simp
  moreover have "unat s \<in> set [0..<32]" using assms(1) by (simp add: word_less_nat_alt)
  ultimately show ?thesis using assms(2,3) by (force simp: list_all_iff Let_def)
qed

end
