(* ===== verification/Nominal.thy ===== *)
theory Nominal
  imports Super_Type
begin

text \<open>
  The identity of nominal types, \<open>ty/src/nominal.rs\<close>: a name is bare (\<open>Shape\<close>) or qualified by the
  module that declares it (\<open>Conflate.Alpha.Shape\<close>), and a bare name matches every module's.
\<close>

definition base_name :: "string \<Rightarrow> string" where
  "base_name name = rev (takeWhile (\<lambda>c. c \<noteq> CHR ''.'') (rev name))"

definition is_qualified :: "string \<Rightarrow> bool" where
  "is_qualified name \<longleftrightarrow> CHR ''.'' \<in> set name"

definition GO_TYPE_PREFIX :: string where
  "GO_TYPE_PREFIX = ''go@''"

definition go_type :: "string \<Rightarrow> string \<Rightarrow> string" where
  "go_type package name = GO_TYPE_PREFIX @ package @ ''.'' @ name"

definition is_go_type :: "string \<Rightarrow> bool" where
  "is_go_type name \<longleftrightarrow> starts_with name GO_TYPE_PREFIX"

definition qualify :: "string \<Rightarrow> string \<Rightarrow> string" where
  "qualify module name = module @ ''.'' @ name"

definition same :: "string \<Rightarrow> string \<Rightarrow> bool" where
  "same a b \<longleftrightarrow>
     (if a = b then True
      else if is_go_type a \<or> is_go_type b then False
      else if base_name a \<noteq> base_name b then False
      else \<not> (is_qualified a \<and> is_qualified b))"

definition strip_name :: "string \<Rightarrow> string" where
  "strip_name name =
     (if starts_with name GO_TYPE_PREFIX then drop (length GO_TYPE_PREFIX) name else base_name name)"

definition most_specific :: "string \<Rightarrow> string \<Rightarrow> string" where
  "most_specific a b = (if is_qualified a then a else b)"

lemma base_qualify: "CHR ''.'' \<notin> set n \<Longrightarrow> base_name (m @ CHR ''.'' # n) = n"
  by (auto simp: base_name_def takeWhile_append)

lemma base_bare: "\<not> is_qualified n \<Longrightarrow> base_name n = n"
proof -
  assume "\<not> is_qualified n"
  then have "takeWhile (\<lambda>c. c \<noteq> CHR ''.'') (rev n) = rev n"
    by (subst takeWhile_eq_all_conv) (auto simp: is_qualified_def)
  then show ?thesis unfolding base_name_def by (simp only: rev_rev_ident)
qed

text \<open>Nominal identity. Two qualified names of one type name are the same type exactly when the
  modules are equal, a bare name is the same type as that name of any module that is not a Go
  package, a Go type is the same as itself only, and the representative of two names that are the same is
  the same as both of them and qualified when one of them is.\<close>

theorem nominal_identity:
  "(same (qualify m n) (qualify m' n) \<longleftrightarrow> m = m') \<and>
   (is_qualified b \<or> is_go_type b \<or> is_go_type (qualify m b) \<or> same b (qualify m b)) \<and>
   (same (go_type p n) t \<longleftrightarrow> t = go_type p n) \<and>
   (\<not> same a b \<or> same a (most_specific a b) \<and> same b (most_specific a b) \<and>
      (is_qualified (most_specific a b) \<longleftrightarrow> is_qualified a \<or> is_qualified b))"
proof (intro conjI)
  show "same (qualify m n) (qualify m' n) \<longleftrightarrow> m = m'"
    by (auto simp: same_def qualify_def is_qualified_def)
  show "is_qualified b \<or> is_go_type b \<or> is_go_type (qualify m b) \<or> same b (qualify m b)"
    by (cases "is_qualified b")
      (simp_all add: same_def qualify_def base_bare base_qualify is_qualified_def)
  show "same (go_type p n) t \<longleftrightarrow> t = go_type p n"
    by (auto simp: same_def go_type_def is_go_type_def starts_with_def GO_TYPE_PREFIX_def)
  show "\<not> same a b \<or> same a (most_specific a b) \<and> same b (most_specific a b) \<and>
      (is_qualified (most_specific a b) \<longleftrightarrow> is_qualified a \<or> is_qualified b)"
    by (auto simp: same_def most_specific_def)
qed

text \<open>The relation is not transitive: a bare name joins two modules' types.\<close>

lemma same_not_transitive: "same ''A.T'' ''T'' \<and> same ''T'' ''B.T'' \<and> \<not> same ''A.T'' ''B.T''"
  by code_simp

end
