(* ===== verification/Union_Find.thy ===== *)
theory Union_Find
  imports Nominal
begin

text \<open>
  The store of the unifier (\<open>UnionFind\<close> of \<open>ty/src/unify.rs\<close>) and its operations on classes: fresh
  variables, \<open>find\<close> with path compression, \<open>union\<close> by rank, and the contents of a class. A \<open>TyVarId\<close> is
  the index of its slot; the store has at most \<open>2 ^ 32\<close> of them. A record's \<open>BTreeMap\<close> is the list of
  its entries with ascending names. The chains of links are followed with fuel, the number of slots,
  which is proved to be enough.
\<close>

section \<open>The store\<close>

type_synonym row = "(string \<times> nat) list"

datatype flat_ty = App string "nat list" | Fun nat nat | Record row "nat option" | Tuple "nat list" | UnitTy

datatype content = Flex | FlexSuper super_type | Rigid string | Structure flat_ty | Err

datatype slot = Root content nat | Link nat

record uf =
  uf_slots :: "slot list"
  uf_pending :: "(super_type \<times> nat) list"
  uf_rigid_needs :: "(string \<times> super_type) list"
  uf_rigid_missing :: "(string \<times> super_type) list"
  uf_int_literals :: "nat list"
  uf_mark :: "32 word list"
  uf_epoch :: "32 word"
  uf_contravariant :: bool

definition uf_new :: uf where
  "uf_new = \<lparr>uf_slots = [], uf_pending = [], uf_rigid_needs = [], uf_rigid_missing = [], uf_int_literals = [],
     uf_mark = [], uf_epoch = 0, uf_contravariant = False\<rparr>"

definition is_lit :: "content \<Rightarrow> bool" where
  "is_lit c = (case c of FlexSuper s \<Rightarrow> st_has s IntLit | _ \<Rightarrow> False)"

definition fresh :: "content \<Rightarrow> uf \<Rightarrow> nat \<times> uf" where
  "fresh c st =
     (let v = length (uf_slots st) in
      (v, st\<lparr>uf_int_literals := (if is_lit c then uf_int_literals st @ [v] else uf_int_literals st),
             uf_slots := uf_slots st @ [Root c 0]\<rparr>))"

definition fresh_flex :: "uf \<Rightarrow> nat \<times> uf" where
  "fresh_flex = fresh Flex"

text \<open>The first loop of \<open>find\<close> walks to the root, the second points every link of the walk at it.\<close>

primrec root_of :: "nat \<Rightarrow> slot list \<Rightarrow> nat \<Rightarrow> nat" where
  "root_of 0 ss v = v"
| "root_of (Suc n) ss v = (case ss ! v of Link p \<Rightarrow> root_of n ss p | Root _ _ \<Rightarrow> v)"

primrec compress_path :: "nat \<Rightarrow> nat \<Rightarrow> slot list \<Rightarrow> nat \<Rightarrow> slot list" where
  "compress_path 0 r ss v = ss"
| "compress_path (Suc n) r ss v =
     (case ss ! v of Link p \<Rightarrow> compress_path n r (ss[v := Link r]) p | Root _ _ \<Rightarrow> ss)"

definition uf_find :: "nat \<Rightarrow> uf \<Rightarrow> nat \<times> uf" where
  "uf_find v st =
     (let ss = uf_slots st; r = root_of (length ss) ss v in
      (r, st\<lparr>uf_slots := compress_path (length ss) r ss v\<rparr>))"

definition uf_rank :: "uf \<Rightarrow> nat \<Rightarrow> nat" where
  "uf_rank st r = (case uf_slots st ! r of Root _ k \<Rightarrow> k | Link _ \<Rightarrow> 0)"

definition slot_content :: "uf \<Rightarrow> nat \<Rightarrow> content" where
  "slot_content st r = (case uf_slots st ! r of Root c _ \<Rightarrow> c | Link _ \<Rightarrow> Flex)"

definition content_of :: "nat \<Rightarrow> uf \<Rightarrow> content \<times> uf" where
  "content_of v st = (let (r, st) = uf_find v st in (slot_content st r, st))"

datatype kind = KError | KFlex | KOther

definition kind_of :: "uf \<Rightarrow> nat \<Rightarrow> kind" where
  "kind_of st r = (case uf_slots st ! r of
     Root Err _ \<Rightarrow> KError | Root Flex _ \<Rightarrow> KFlex | Link _ \<Rightarrow> KFlex | Root _ _ \<Rightarrow> KOther)"

definition take_content :: "nat \<Rightarrow> uf \<Rightarrow> content \<times> uf" where
  "take_content r st = (case uf_slots st ! r of
     Root c k \<Rightarrow> (c, st\<lparr>uf_slots := (uf_slots st)[r := Root Flex k]\<rparr>) | Link _ \<Rightarrow> (Flex, st))"

definition set_content :: "nat \<Rightarrow> content \<Rightarrow> uf \<Rightarrow> uf" where
  "set_content v c st =
     (let (r, st) = uf_find v st in
      case uf_slots st ! r of
        Root _ k \<Rightarrow> st\<lparr>uf_slots := (uf_slots st)[r := Root c k]\<rparr> | Link _ \<Rightarrow> st)"

definition uf_union :: "nat \<Rightarrow> nat \<Rightarrow> content \<Rightarrow> uf \<Rightarrow> uf" where
  "uf_union a b c st =
     (let (ra, st) = uf_find a st; (rb, st) = uf_find b st in
      if ra = rb then set_content ra c st
      else
        (let rank_a = uf_rank st ra; rank_b = uf_rank st rb;
             (root, child, rank) = (if rank_b \<le> rank_a then (ra, rb, rank_a) else (rb, ra, rank_b));
             rank = (if rank_a = rank_b then rank + 1 else rank) in
         st\<lparr>uf_slots := (uf_slots st)[child := Link root, root := Root c rank]\<rparr>))"

definition link_fresh :: "nat \<Rightarrow> nat \<Rightarrow> uf \<Rightarrow> uf" where
  "link_fresh root child st =
     (let (root, st) = uf_find root st; (child, st) = uf_find child st;
          st = (case uf_slots st ! root of
                  Root c k \<Rightarrow> (if k = 0 then st\<lparr>uf_slots := (uf_slots st)[root := Root c 1]\<rparr> else st)
                | Link _ \<Rightarrow> st) in
      st\<lparr>uf_slots := (uf_slots st)[child := Link root]\<rparr>)"

definition flat_children :: "flat_ty \<Rightarrow> nat list" where
  "flat_children ft = (case ft of
     App _ args \<Rightarrow> args | Fun a b \<Rightarrow> [a, b]
   | Record fs e \<Rightarrow> map snd fs @ (case e of Some r \<Rightarrow> [r] | None \<Rightarrow> [])
   | Tuple xs \<Rightarrow> xs | UnitTy \<Rightarrow> [])"

section \<open>Classes\<close>

text \<open>\<open>links ss v k r\<close>: the links from \<open>v\<close> reach the root \<open>r\<close> in \<open>k\<close> steps.\<close>

inductive links :: "slot list \<Rightarrow> nat \<Rightarrow> nat \<Rightarrow> nat \<Rightarrow> bool" for ss where
  here: "v < length ss \<Longrightarrow> ss ! v = Root c k \<Longrightarrow> links ss v 0 v"
| step: "v < length ss \<Longrightarrow> ss ! v = Link p \<Longrightarrow> links ss p n r \<Longrightarrow> links ss v (Suc n) r"

inductive_simps links_simps: "links ss v k r"
inductive_cases links_0E: "links ss v 0 r"
inductive_cases links_SucE: "links ss v (Suc k) r"

definition linked :: "slot list \<Rightarrow> bool" where
  "linked ss \<longleftrightarrow> (\<forall>v < length ss. \<exists>k r. links ss v k r)"

definition is_root :: "slot list \<Rightarrow> nat \<Rightarrow> bool" where
  "is_root ss r \<longleftrightarrow> r < length ss \<and> (\<exists>c k. ss ! r = Root c k)"

lemma links_deterministic: "links ss v k r \<Longrightarrow> links ss v k' r' \<Longrightarrow> k' = k \<and> r' = r"
proof (induction arbitrary: k' r' rule: links.induct)
  case (here v c k)
  from here(3) here(1,2) show ?case by cases auto
next
  case (step v p n r)
  from step(5) step(1,2) step.IH show ?case by cases auto
qed

lemma links_ends: "links ss v k r \<Longrightarrow> v < length ss \<and> is_root ss r"
  by (induction rule: links.induct) (auto simp: is_root_def)

lemma links_root: "is_root ss r \<Longrightarrow> links ss r 0 r"
  by (auto simp: is_root_def intro: links.here)

text \<open>A links visits no slot twice, so it is shorter than the store.\<close>

lemma links_tail: "links ss v k r \<Longrightarrow> j \<le> k \<Longrightarrow> \<exists>u. links ss u j r"
proof (induction rule: links.induct)
  case (step v p n r)
  then show ?case by (cases "j = Suc n") (auto intro: links.step)
qed (auto intro: links.here)

lemma links_short: "links ss v k r \<Longrightarrow> k < length ss"
proof -
  assume c: "links ss v k r"
  then have "\<forall>j\<le>k. \<exists>u. links ss u j r" using links_tail by blast
  then obtain f where f: "\<forall>j\<le>k. links ss (f j) j r" by metis
  then have "inj_on f {..k}" by (intro inj_onI) (metis atMost_iff links_deterministic)
  moreover have "f ` {..k} \<subseteq> {..<length ss}" using f links_ends by blast
  ultimately have "card {..k} \<le> card {..<length ss}" by (intro card_inj_on_le) auto
  then show ?thesis by simp
qed

lemma root_of_links: "links ss v k r \<Longrightarrow> k \<le> n \<Longrightarrow> root_of n ss v = r"
proof (induction arbitrary: n rule: links.induct)
  case (here v c k)
  then show ?case by (cases n) auto
next
  case (step v p j r)
  then show ?case by (cases n) auto
qed

text \<open>The representative of a variable: what \<open>find\<close> returns.\<close>

definition rep :: "slot list \<Rightarrow> nat \<Rightarrow> nat" where
  "rep ss v = root_of (length ss) ss v"

lemma rep_links: "links ss v k r \<Longrightarrow> rep ss v = r"
  unfolding rep_def by (rule root_of_links) (auto dest: links_short)

lemma linked_rep: "linked ss \<Longrightarrow> v < length ss \<Longrightarrow> \<exists>k. links ss v k (rep ss v)"
  using rep_links unfolding linked_def by metis

lemma rep_root: "linked ss \<Longrightarrow> v < length ss \<Longrightarrow> is_root ss (rep ss v)"
  using linked_rep links_ends by blast

lemma rep_less: "linked ss \<Longrightarrow> v < length ss \<Longrightarrow> rep ss v < length ss"
  using rep_root by (auto simp: is_root_def)

lemma rep_of_root: "is_root ss r \<Longrightarrow> rep ss r = r"
  using links_root rep_links by blast

lemma rep_rep: "linked ss \<Longrightarrow> v < length ss \<Longrightarrow> rep ss (rep ss v) = rep ss v"
  by (intro rep_of_root rep_root)

section \<open>Path compression\<close>

text \<open>Pointing a link at its representative shortens chains and changes no representative.\<close>

lemma links_shortcut:
  assumes u: "ss ! u = Link p" "links ss u ku r"
  shows "links ss v k q \<Longrightarrow> \<exists>k' \<le> k. links (ss[u := Link r]) v k' q"
proof (induction rule: links.induct)
  case (here v c k)
  then have "v \<noteq> u" using u(1) by auto
  with here show ?case by (intro exI[of _ 0]) (auto intro: links.here)
next
  case (step v p' n q)
  show ?case
  proof (cases "v = u")
    case True
    have "links ss u (Suc n) q" using step(1-3) True by (auto intro: links.step)
    with u(2) have "q = r" by (metis links_deterministic)
    moreover have "is_root (ss[u := Link r]) r"
      using links_ends[OF u(2)] u(1) by (auto simp: is_root_def nth_list_update)
    then have "links (ss[u := Link r]) u (Suc 0) r"
      using step(1) True by (auto intro!: links.step links_root)
    ultimately show ?thesis using True by auto
  next
    case False
    then show ?thesis using step by (auto intro!: links.step)
  qed
qed

lemma compress_path_links:
  "links ss v k r \<Longrightarrow> linked ss \<Longrightarrow>
     length (compress_path n r ss v) = length ss \<and>
     (\<forall>u. is_root ss u \<longrightarrow> compress_path n r ss v ! u = ss ! u) \<and>
     (\<forall>u. is_root (compress_path n r ss v) u \<longleftrightarrow> is_root ss u) \<and>
     (\<forall>u j q. links ss u j q \<longrightarrow> (\<exists>j' \<le> j. links (compress_path n r ss v) u j' q))"
proof (induction n arbitrary: ss v k)
  case (Suc n)
  show ?case
  proof (cases "ss ! v")
    case (Link p)
    let ?ss = "ss[v := Link r]"
    have short: "\<exists>j'\<le>j. links ?ss u j' q" if "links ss u j q" for u j q
      using links_shortcut[OF Link Suc.prems(1) that] .
    from Suc.prems(1) Link obtain j where "links ss p j r" by cases auto
    with short obtain j' where p: "links ?ss p j' r" by blast
    have "linked ?ss" using Suc.prems(2) short unfolding linked_def by fastforce
    note IH = Suc.IH[OF p this]
    have eq: "compress_path (Suc n) r ss v = compress_path n r ?ss p" using Link by simp
    have root: "is_root ?ss u \<longleftrightarrow> is_root ss u" for u
      using Link by (cases "v = u") (auto simp: is_root_def nth_list_update)
    have "is_root ss u \<Longrightarrow> ?ss ! u = ss ! u" for u
      using Link by (cases "v = u") (auto simp: is_root_def)
    then have "\<forall>u. is_root ss u \<longrightarrow> compress_path n r ?ss p ! u = ss ! u" using IH root by metis
    moreover have "\<forall>u j q. links ss u j q \<longrightarrow> (\<exists>j' \<le> j. links (compress_path n r ?ss p) u j' q)"
      using IH short by (meson le_trans)
    ultimately show ?thesis unfolding eq using IH root by simp
  qed auto
qed auto

lemma find_spec:
  assumes "linked (uf_slots st)" "v < length (uf_slots st)" "uf_find v st = (r, st')"
  shows "r = rep (uf_slots st) v \<and> (\<exists>ss. st' = st\<lparr>uf_slots := ss\<rparr> \<and> length ss = length (uf_slots st) \<and> linked ss \<and>
      (\<forall>u. is_root ss u \<longleftrightarrow> is_root (uf_slots st) u) \<and> (\<forall>u. is_root ss u \<longrightarrow> ss ! u = uf_slots st ! u) \<and>
      (\<forall>u < length ss. rep ss u = rep (uf_slots st) u) \<and>
      (\<forall>u j q. links (uf_slots st) u j q \<longrightarrow> (\<exists>j' \<le> j. links ss u j' q)))"
proof -
  let ?ss = "uf_slots st"
  obtain k where k: "links ?ss v k (rep ?ss v)" using linked_rep[OF assms(1,2)] by blast
  define ss where "ss = compress_path (length ?ss) (rep ?ss v) ?ss v"
  have eq: "r = rep ?ss v" "st' = st\<lparr>uf_slots := ss\<rparr>"
    using assms(3) by (auto simp: uf_find_def Let_def rep_def ss_def)
  note c = compress_path_links[OF k assms(1), of "length ?ss", folded ss_def]
  then have "linked ss" using assms(1) unfolding linked_def by metis
  moreover have "\<forall>u < length ss. rep ss u = rep ?ss u"
    using c linked_rep[OF assms(1)] rep_links by metis
  ultimately show ?thesis using eq c by auto
qed

section \<open>Updates of a root\<close>

lemma links_set_root:
  assumes "is_root ss r"
  shows "links (ss[r := Root c k]) v j q \<longleftrightarrow> links ss v j q"
proof
  assume "links (ss[r := Root c k]) v j q"
  then show "links ss v j q"
  proof (induction rule: links.induct)
    case (here v c' k')
    then show ?case using assms by (cases "v = r") (auto simp: is_root_def intro: links.here)
  next
    case (step v p n q)
    then show ?case using assms by (cases "v = r") (auto simp: is_root_def intro: links.step)
  qed
next
  assume "links ss v j q"
  then show "links (ss[r := Root c k]) v j q"
  proof (induction rule: links.induct)
    case (here v c' k')
    then show ?case using assms by (cases "v = r") (auto simp: is_root_def intro: links.here)
  next
    case (step v p n q)
    then show ?case using assms by (cases "v = r") (auto simp: is_root_def intro: links.step)
  qed
qed

lemma rep_eqI: "linked ss \<Longrightarrow> length ss' = length ss \<Longrightarrow>
    (\<And>v k r. links ss v k r \<Longrightarrow> \<exists>k'. links ss' v k' (f r)) \<Longrightarrow> v < length ss \<Longrightarrow> rep ss' v = f (rep ss v)"
  using linked_rep rep_links by metis

lemma linked_set_root: "linked ss \<Longrightarrow> is_root ss r \<Longrightarrow> linked (ss[r := Root c k])"
  by (simp add: linked_def links_set_root)

lemma rep_set_root: "linked ss \<Longrightarrow> is_root ss r \<Longrightarrow> v < length ss \<Longrightarrow> rep (ss[r := Root c k]) v = rep ss v"
  by (rule rep_eqI[where f = id, simplified]) (auto simp: links_set_root)

lemma links_link:
  assumes "is_root ss root" "is_root ss child" "root \<noteq> child"
  shows "links ss v k r \<Longrightarrow>
    links (ss[child := Link root]) v (if r = child then Suc k else k) (if r = child then root else r)"
proof (induction rule: links.induct)
  case (here v c k)
  show ?case
  proof (cases "v = child")
    case True
    have "links (ss[child := Link root]) root 0 root"
      using assms by (auto intro!: links_root simp: is_root_def)
    with True here links.step[of child "ss[child := Link root]" root 0 root] show ?thesis by simp
  qed (use here in \<open>auto intro: links.here\<close>)
next
  case (step v p n r)
  moreover have "v \<noteq> child" using step(2) assms by (auto simp: is_root_def)
  ultimately show ?case by (auto intro: links.step split: if_splits)
qed

lemma linked_link: "linked ss \<Longrightarrow> is_root ss root \<Longrightarrow> is_root ss child \<Longrightarrow> root \<noteq> child \<Longrightarrow>
    linked (ss[child := Link root])"
  unfolding linked_def using links_link by (metis length_list_update)

lemma rep_link: "linked ss \<Longrightarrow> is_root ss root \<Longrightarrow> is_root ss child \<Longrightarrow> root \<noteq> child \<Longrightarrow> v < length ss \<Longrightarrow>
    rep (ss[child := Link root]) v = (if rep ss v = child then root else rep ss v)"
proof (rule rep_eqI[where f = "\<lambda>r. if r = child then root else r"])
  assume "is_root ss root" "is_root ss child" "root \<noteq> child"
  from links_link[OF this] show "\<exists>k'. links (ss[child := Link root]) v k' (if r = child then root else r)"
    if "links ss v k r" for v k r using that by blast
qed simp_all

lemma is_root_link: "is_root ss root \<Longrightarrow> root \<noteq> child \<Longrightarrow> is_root (ss[child := Link root]) root"
  by (simp add: is_root_def)

section \<open>The classes of a store\<close>

abbreviation size_of :: "uf \<Rightarrow> nat" where
  "size_of st \<equiv> length (uf_slots st)"

definition class_of :: "uf \<Rightarrow> nat \<Rightarrow> nat" where
  "class_of st v = rep (uf_slots st) v"

definition cont :: "uf \<Rightarrow> nat \<Rightarrow> content" where
  "cont st v = slot_content st (class_of st v)"

definition content_children :: "content \<Rightarrow> nat list" where
  "content_children c = (case c of Structure ft \<Rightarrow> flat_children ft | _ \<Rightarrow> [])"

text \<open>A store is well formed when every links of links ends and every child is a variable.\<close>

definition uf_ok :: "uf \<Rightarrow> bool" where
  "uf_ok st \<longleftrightarrow> linked (uf_slots st) \<and>
     (\<forall>r. is_root (uf_slots st) r \<longrightarrow> (\<forall>c \<in> set (content_children (slot_content st r)). c < size_of st))"

lemma class_less [simp]: "uf_ok st \<Longrightarrow> v < size_of st \<Longrightarrow> class_of st v < size_of st"
  by (simp add: uf_ok_def class_of_def rep_less)

lemma class_class [simp]: "uf_ok st \<Longrightarrow> v < size_of st \<Longrightarrow> class_of st (class_of st v) = class_of st v"
  by (simp add: uf_ok_def class_of_def rep_rep)

lemma cont_class [simp]: "uf_ok st \<Longrightarrow> v < size_of st \<Longrightarrow> cont st (class_of st v) = cont st v"
  by (simp add: cont_def)

lemma class_root: "uf_ok st \<Longrightarrow> v < size_of st \<Longrightarrow> is_root (uf_slots st) (class_of st v)"
  by (simp add: uf_ok_def class_of_def rep_root)

lemma cont_children_less: "uf_ok st \<Longrightarrow> v < size_of st \<Longrightarrow> c \<in> set (content_children (cont st v)) \<Longrightarrow> c < size_of st"
  using class_root unfolding uf_ok_def cont_def by blast

text \<open>\<open>merged st st' A c\<close>: the step from \<open>st\<close> to \<open>st'\<close> made one class with content \<open>c\<close> of the classes \<open>A\<close>
  and changed no other; \<open>view st st'\<close>: it changed none.\<close>

definition keeps_rest :: "uf \<Rightarrow> uf \<Rightarrow> bool" where
  "keeps_rest st st' \<longleftrightarrow> st'\<lparr>uf_slots := uf_slots st\<rparr> = st"

definition view :: "uf \<Rightarrow> uf \<Rightarrow> bool" where
  "view st st' \<longleftrightarrow> keeps_rest st st' \<and> size_of st' = size_of st \<and> uf_ok st' \<and>
     (\<forall>u < size_of st. class_of st' u = class_of st u \<and> cont st' u = cont st u)"

definition merged :: "uf \<Rightarrow> uf \<Rightarrow> nat set \<Rightarrow> content \<Rightarrow> bool" where
  "merged st st' A c \<longleftrightarrow> keeps_rest st st' \<and> size_of st' = size_of st \<and> uf_ok st' \<and>
     (\<exists>root \<in> A. \<forall>u < size_of st.
        class_of st' u = (if class_of st u \<in> A then root else class_of st u) \<and>
        cont st' u = (if class_of st u \<in> A then c else cont st u))"

lemma keeps_rest_refl [simp]: "keeps_rest st st" "keeps_rest st (st\<lparr>uf_slots := ss\<rparr>)"
  by (simp_all add: keeps_rest_def)

lemma keeps_rest_trans [trans]: "keeps_rest a b \<Longrightarrow> keeps_rest b c \<Longrightarrow> keeps_rest a c"
  unfolding keeps_rest_def by (metis uf.surjective uf.update_convs(1))

lemma view_refl [simp]: "uf_ok st \<Longrightarrow> view st st"
  by (simp add: view_def)

lemma view_trans [trans]: "view a b \<Longrightarrow> view b c \<Longrightarrow> view a c"
  unfolding view_def using keeps_rest_trans by auto

lemma view_merged: "view a b \<Longrightarrow> merged b c A x \<Longrightarrow> merged a c A x"
  unfolding view_def merged_def using keeps_rest_trans by auto

lemma uf_find_view:
  assumes "uf_ok st" "v < size_of st"
  obtains st' where "uf_find v st = (class_of st v, st')" "view st st'"
proof -
  obtain r st' where f: "uf_find v st = (r, st')" by force
  from find_spec[OF _ assms(2) f] assms(1)
  obtain ss where ss: "r = class_of st v" "st' = st\<lparr>uf_slots := ss\<rparr>" "length ss = size_of st" "linked ss"
    "\<forall>u. is_root ss u \<longleftrightarrow> is_root (uf_slots st) u" "\<forall>u. is_root ss u \<longrightarrow> ss ! u = uf_slots st ! u"
    "\<forall>u < length ss. rep ss u = rep (uf_slots st) u"
    by (auto simp: uf_ok_def class_of_def)
  have sc: "slot_content st' u = slot_content st u" if "is_root ss u" for u
    using ss(6) that by (simp add: slot_content_def ss(2))
  have "uf_ok st'" using assms(1) ss sc by (simp add: uf_ok_def)
  moreover have "class_of st' u = class_of st u" if "u < size_of st" for u
    using ss(2,3,7) that by (simp add: class_of_def)
  moreover have "cont st' u = cont st u" if "u < size_of st" for u
    using ss sc that class_root[OF assms(1) that] by (simp add: cont_def class_of_def)
  ultimately have "view st st'" using ss by (simp add: view_def)
  with f ss(1) show ?thesis by (auto intro: that)
qed

text \<open>The store with one root overwritten, or one root linked under another.\<close>

lemma uf_ok_set_root:
  assumes "uf_ok st" "is_root (uf_slots st) r" "\<forall>x \<in> set (content_children c). x < size_of st"
    "st' = st\<lparr>uf_slots := (uf_slots st)[r := Root c k]\<rparr>"
  shows "merged st st' {r} c"
proof -
  have ch: "linked (uf_slots st)" using assms(1) by (simp add: uf_ok_def)
  have cls: "class_of st' u = class_of st u" if "u < size_of st" for u
    using rep_set_root[OF ch assms(2) that] by (simp add: class_of_def assms(4))
  have root: "is_root (uf_slots st') u \<longleftrightarrow> is_root (uf_slots st) u" for u
    using assms(2,4) by (cases "u = r") (auto simp: is_root_def)
  have sc: "slot_content st' u = (if u = r then c else slot_content st u)" for u
    using assms(2,4) by (simp add: slot_content_def is_root_def)
  have "uf_ok st'" using assms root sc by (auto simp: uf_ok_def linked_set_root)
  then show ?thesis using cls sc by (simp add: merged_def cont_def assms(4))
qed

lemma merged_link:
  assumes "uf_ok st" "is_root (uf_slots st) root" "is_root (uf_slots st) child" "root \<noteq> child"
    "\<forall>x \<in> set (content_children c). x < size_of st"
    "st' = st\<lparr>uf_slots := (uf_slots st)[child := Link root, root := Root c k]\<rparr>"
  shows "merged st st' {root, child} c"
proof -
  let ?ss = "(uf_slots st)[child := Link root]"
  have ch: "linked (uf_slots st)" using assms(1) by (simp add: uf_ok_def)
  have ch': "linked ?ss" using ch assms(2-4) by (rule linked_link)
  have rt: "is_root ?ss root" using assms(2,4) by (rule is_root_link)
  have cls: "class_of st' u = (if class_of st u = child then root else class_of st u)" if "u < size_of st" for u
    using rep_set_root[OF ch' rt, of u c k] rep_link[OF ch assms(2-4) that] that
    by (simp add: class_of_def assms(6))
  have root: "is_root (uf_slots st') u \<longleftrightarrow> is_root (uf_slots st) u \<and> u \<noteq> child" for u
    using assms(2-4,6) by (cases "u = root"; cases "u = child") (auto simp: is_root_def)
  have sc: "slot_content st' u = (if u = root then c else slot_content st u)" if "u \<noteq> child" for u
    using assms(2,4,6) that by (simp add: slot_content_def is_root_def)
  have "uf_ok st'" using assms(1,5,6) root sc linked_set_root[OF ch' rt] by (auto simp: uf_ok_def)
  then show ?thesis using cls sc assms(4) by (auto simp: merged_def cont_def assms(6))
qed

lemma set_content_merged:
  assumes "uf_ok st" "v < size_of st" "\<forall>x \<in> set (content_children c). x < size_of st"
  shows "merged st (set_content v c st) {class_of st v} c"
proof -
  obtain st1 where f: "uf_find v st = (class_of st v, st1)" "view st st1" using uf_find_view[OF assms(1,2)] .
  have ok: "uf_ok st1" "size_of st1 = size_of st" "class_of st1 v = class_of st v"
    using f(2) assms(2) by (auto simp: view_def)
  have r: "is_root (uf_slots st1) (class_of st v)" using class_root[OF ok(1), of v] ok assms(2) by simp
  then obtain c' k where c': "uf_slots st1 ! class_of st v = Root c' k" by (auto simp: is_root_def)
  have "merged st1 (st1\<lparr>uf_slots := (uf_slots st1)[class_of st v := Root c k]\<rparr>) {class_of st v} c"
    by (rule uf_ok_set_root[OF ok(1) r]) (use assms(3) ok in auto)
  with f c' show ?thesis by (auto simp: set_content_def intro: view_merged)
qed

lemma uf_union_merged:
  assumes "uf_ok st" "a < size_of st" "b < size_of st" "\<forall>x \<in> set (content_children c). x < size_of st"
  shows "merged st (uf_union a b c st) {class_of st a, class_of st b} c"
proof -
  obtain st1 where f1: "uf_find a st = (class_of st a, st1)" "view st st1" using uf_find_view[OF assms(1,2)] .
  have ok1: "uf_ok st1" "size_of st1 = size_of st" "class_of st1 b = class_of st b"
    using f1(2) assms(3) by (auto simp: view_def)
  obtain st2 where f2: "uf_find b st1 = (class_of st b, st2)" "view st1 st2"
    using uf_find_view[OF ok1(1), of b] ok1 assms(3) by metis
  have v: "view st st2" using f1(2) f2(2) by (rule view_trans)
  then have ok2: "uf_ok st2" "size_of st2 = size_of st" "class_of st2 a = class_of st a" "class_of st2 b = class_of st b"
    using assms(2,3) by (auto simp: view_def)
  show ?thesis
  proof (cases "class_of st a = class_of st b")
    case True
    have "merged st2 (set_content (class_of st a) c st2) {class_of st2 (class_of st a)} c"
      by (rule set_content_merged[OF ok2(1)]) (use ok2 assms in auto)
    with True f1 f2 v ok2 show ?thesis using class_class[OF ok2(1), of a] assms(2)
      by (auto simp: uf_union_def intro: view_merged)
  next
    case False
    have r: "is_root (uf_slots st2) (class_of st a)" "is_root (uf_slots st2) (class_of st b)"
      using class_root[OF ok2(1), of a] class_root[OF ok2(1), of b] ok2 assms by auto
    have "merged st2 (st2\<lparr>uf_slots := (uf_slots st2)[class_of st b := Link (class_of st a), class_of st a := Root c k]\<rparr>)
        {class_of st a, class_of st b} c" for k
      by (rule merged_link[OF ok2(1) r]) (use False assms(4) ok2 in auto)
    moreover have "merged st2 (st2\<lparr>uf_slots := (uf_slots st2)[class_of st a := Link (class_of st b), class_of st b := Root c k]\<rparr>)
        {class_of st b, class_of st a} c" for k
      by (rule merged_link[OF ok2(1) r(2,1)]) (use False assms(4) ok2 in auto)
    ultimately show ?thesis using False f1 f2 view_merged[OF v]
      by (auto simp: uf_union_def Let_def insert_commute)
  qed
qed

lemma fresh_view:
  assumes "uf_ok st" "\<forall>x \<in> set (content_children c). x \<le> size_of st" "fresh c st = (v, st')"
  shows "v = size_of st \<and> size_of st' = Suc (size_of st) \<and> uf_ok st' \<and> class_of st' v = v \<and> cont st' v = c \<and>
    (\<forall>u < size_of st. class_of st' u = class_of st u \<and> cont st' u = cont st u)"
proof -
  let ?ss = "uf_slots st @ [Root c 0]"
  have eq: "v = size_of st" "uf_slots st' = ?ss" using assms(3) by (auto simp: fresh_def Let_def)
  have ch: "linked (uf_slots st)" using assms(1) by (simp add: uf_ok_def)
  have up: "links ?ss u k r" if "links (uf_slots st) u k r" for u k r
    using that by (induction rule: links.induct) (auto intro: links.intros simp: nth_append)
  have new: "links ?ss (size_of st) 0 (size_of st)" by (auto intro: links.here)
  have ch': "linked ?ss" unfolding linked_def
  proof (intro allI impI)
    fix u assume "u < length ?ss"
    show "\<exists>k r. links ?ss u k r"
    proof (cases "u = size_of st")
      case False
      with \<open>u < length ?ss\<close> have "u < size_of st" by simp
      with ch obtain k r where "links (uf_slots st) u k r" unfolding linked_def by blast
      then show ?thesis using up by blast
    next
      case True
      show ?thesis unfolding True using new by blast
    qed
  qed
  have cls: "class_of st' u = class_of st u" if "u < size_of st" for u
    using up linked_rep[OF ch that] rep_links by (metis class_of_def eq(2))
  have cls': "class_of st' v = v" using new rep_links by (simp add: class_of_def eq)
  have sc: "slot_content st' u = (if u = size_of st then c else slot_content st u)" if "u \<le> size_of st" for u
    using that by (auto simp: slot_content_def eq nth_append)
  have root: "is_root ?ss u \<longleftrightarrow> is_root (uf_slots st) u \<or> u = size_of st" for u
    by (auto simp: is_root_def nth_append)
  have "x < size_of st'" if r: "is_root ?ss r" and x: "x \<in> set (content_children (slot_content st' r))" for r x
  proof (cases "r = size_of st")
    case True
    then show ?thesis using x sc[of r] assms(2) by (auto simp: eq less_Suc_eq_le)
  next
    case False
    then have "is_root (uf_slots st) r" using root r by simp
    then have "x < size_of st" using x False sc[of r] assms(1) by (auto simp: uf_ok_def is_root_def)
    then show ?thesis by (simp add: eq)
  qed
  then have "uf_ok st'" using ch' by (simp add: uf_ok_def eq)
  moreover have "cont st' u = cont st u" if "u < size_of st" for u
    using cls[OF that] sc[of "class_of st u"] class_less[OF assms(1) that] by (simp add: cont_def)
  ultimately show ?thesis using eq cls cls' sc by (simp add: cont_def)
qed

lemma content_of_view:
  assumes "uf_ok st" "v < size_of st"
  obtains st' where "content_of v st = (cont st v, st')" "view st st'"
proof -
  obtain st' where f: "uf_find v st = (class_of st v, st')" "view st st'" using uf_find_view[OF assms] .
  then have "slot_content st' (class_of st v) = cont st v"
    using assms(2) class_root by (metis cont_def view_def)
  with f show ?thesis by (intro that[of st']) (simp_all add: content_of_def)
qed

section \<open>Balance\<close>

definition members :: "slot list \<Rightarrow> nat \<Rightarrow> nat set" where
  "members ss r = {u. u < length ss \<and> rep ss u = r}"

definition slot_rank :: "slot list \<Rightarrow> nat \<Rightarrow> nat" where
  "slot_rank ss r = (case ss ! r of Root _ k \<Rightarrow> k | Link _ \<Rightarrow> 0)"

text \<open>No links is longer than the rank of its root, and a class of rank \<open>k\<close> has at least \<open>2 ^ k\<close>
  members.\<close>

definition balanced :: "slot list \<Rightarrow> bool" where
  "balanced ss \<longleftrightarrow> (\<forall>v k r. links ss v k r \<longrightarrow> k \<le> slot_rank ss r) \<and>
     (\<forall>r. is_root ss r \<longrightarrow> 2 ^ slot_rank ss r \<le> card (members ss r))"

lemma balanced_short: "balanced ss \<Longrightarrow> links ss v k r \<Longrightarrow> 2 ^ k \<le> length ss"
proof -
  assume b: "balanced ss" and c: "links ss v k r"
  have "(2 :: nat) ^ k \<le> 2 ^ slot_rank ss r" using b c by (auto simp: balanced_def)
  also have "\<dots> \<le> card (members ss r)" using b links_ends[OF c] by (auto simp: balanced_def)
  also have "\<dots> \<le> card {..<length ss}" by (rule card_mono) (auto simp: members_def)
  finally show ?thesis by simp
qed

lemma balanced_find:
  assumes "uf_ok st" "v < size_of st" "balanced (uf_slots st)"
  shows "balanced (uf_slots (snd (uf_find v st)))"
proof -
  have ch: "linked (uf_slots st)" using assms(1) by (simp add: uf_ok_def)
  obtain r st' where f: "uf_find v st = (r, st')" by force
  from find_spec[OF ch assms(2) f] obtain ss where ss: "uf_slots st' = ss" "length ss = size_of st"
    "\<forall>u. is_root ss u \<longleftrightarrow> is_root (uf_slots st) u" "\<forall>u. is_root ss u \<longrightarrow> ss ! u = uf_slots st ! u"
    "\<forall>u < length ss. rep ss u = rep (uf_slots st) u"
    "\<forall>u j q. links (uf_slots st) u j q \<longrightarrow> (\<exists>j' \<le> j. links ss u j' q)" by auto
  have rank: "slot_rank ss q = slot_rank (uf_slots st) q" if "is_root ss q" for q
    using ss(4) that by (simp add: slot_rank_def)
  have mem: "members ss q = members (uf_slots st) q" for q using ss(2,5) by (auto simp: members_def)
  have "k \<le> slot_rank ss q" if c: "links ss u k q" for u k q
  proof -
    have u: "u < size_of st" using links_ends[OF c] ss(2) by simp
    obtain j where j: "links (uf_slots st) u j (rep (uf_slots st) u)" using linked_rep[OF ch u] by blast
    then obtain j' where "j' \<le> j" "links ss u j' (rep (uf_slots st) u)" using ss(6) by blast
    with links_deterministic[OF c this(2)] j assms(3) links_ends[OF c] rank[of q]
    show ?thesis by (fastforce simp: balanced_def)
  qed
  with assms(3) ss(3) rank mem show ?thesis by (simp add: balanced_def f ss(1))
qed

lemma balanced_set_root:
  assumes "linked ss" "is_root ss r" "balanced ss"
  shows "balanced (ss[r := Root c (slot_rank ss r)])"
proof -
  have "slot_rank (ss[r := Root c (slot_rank ss r)]) q = slot_rank ss q" for q
    using assms(2) by (cases "q = r") (auto simp: slot_rank_def is_root_def)
  moreover have "members (ss[r := Root c (slot_rank ss r)]) q = members ss q" for q
    using rep_set_root[OF assms(1,2)] by (auto simp: members_def)
  moreover have "is_root (ss[r := Root c (slot_rank ss r)]) q \<longleftrightarrow> is_root ss q" for q
    using assms(2) by (cases "q = r") (auto simp: is_root_def)
  ultimately show ?thesis using assms(3) by (simp add: balanced_def links_set_root[OF assms(2)])
qed

lemma balanced_link:
  assumes ch: "linked ss" and r: "is_root ss root" "is_root ss child" "root \<noteq> child" and b: "balanced ss"
    and le: "slot_rank ss child \<le> slot_rank ss root"
    and k: "k = (if slot_rank ss child = slot_rank ss root then slot_rank ss root + 1 else slot_rank ss root)"
  shows "balanced (ss[child := Link root, root := Root c k])"
proof -
  let ?l = "ss[child := Link root]" and ?n = "ss[child := Link root, root := Root c k]"
  have rt: "is_root ?l root" using r by (auto intro: is_root_link)
  have rep: "rep ?n u = (if rep ss u = child then root else rep ss u)" if "u < length ss" for u
    using rep_set_root[OF linked_link[OF ch r] rt, of u c k] rep_link[OF ch r that] that by simp
  have rank: "slot_rank ?n q = (if q = root then k else slot_rank ss q)" if "q \<noteq> child" for q
    using r that by (auto simp: slot_rank_def is_root_def)
  have root: "is_root ?n q \<longleftrightarrow> is_root ss q \<and> q \<noteq> child" for q
    using r by (cases "q = root"; cases "q = child") (auto simp: is_root_def)
  have mem: "members ?n q = (if q = root then members ss root \<union> members ss child else members ss q)" if "q \<noteq> child" for q
    using rep that by (auto simp: members_def)
  have disj: "card (members ss root \<union> members ss child) = card (members ss root) + card (members ss child)"
    using r(3) by (intro card_Un_disjoint) (auto simp: members_def)
  have "j \<le> slot_rank ?n q" if c: "links ?n u j q" for u j q
  proof -
    have u: "u < length ss" using links_ends[OF c] by simp
    obtain i p where i: "links ss u i p" using ch u unfolding linked_def by blast
    have "i \<le> slot_rank ss p" using b i by (simp add: balanced_def)
    moreover have "links ?l u (if p = child then Suc i else i) (if p = child then root else p)"
      by (rule links_link[OF r i])
    then have "links ?n u (if p = child then Suc i else i) (if p = child then root else p)"
      by (simp add: links_set_root[OF rt])
    from links_deterministic[OF c this] have "j = (if p = child then Suc i else i)" "q = (if p = child then root else p)" by auto
    ultimately show ?thesis using le k rank[of q] r(3) by (auto split: if_splits)
  qed
  moreover have "2 ^ slot_rank ?n q \<le> card (members ?n q)" if "is_root ?n q" for q
  proof -
    have q: "is_root ss q" "q \<noteq> child" using that root by auto
    have two: "2 ^ slot_rank ss root \<le> card (members ss root)" "2 ^ slot_rank ss child \<le> card (members ss child)"
      "2 ^ slot_rank ss q \<le> card (members ss q)" using b r q by (auto simp: balanced_def)
    show ?thesis using two disj rank[OF q(2)] mem[OF q(2)] k by auto
  qed
  ultimately show ?thesis unfolding balanced_def by blast
qed

lemma balanced_fresh:
  assumes "uf_ok st" "balanced (uf_slots st)"
  shows "balanced (uf_slots (snd (fresh c st)))"
proof -
  let ?ss = "uf_slots st @ [Root c 0]"
  have ch: "linked (uf_slots st)" using assms(1) by (simp add: uf_ok_def)
  have up: "links ?ss u k r" if "links (uf_slots st) u k r" for u k r
    using that by (induction rule: links.induct) (auto intro: links.intros simp: nth_append)
  have new: "links ?ss (size_of st) 0 (size_of st)" by (auto intro: links.here)
  have rep: "rep ?ss u = rep (uf_slots st) u" if "u < size_of st" for u
    using up linked_rep[OF ch that] rep_links by metis
  have rank: "slot_rank ?ss r = slot_rank (uf_slots st) r" if "r < size_of st" for r
    using that by (simp add: slot_rank_def nth_append)
  have rank': "slot_rank ?ss (size_of st) = 0" by (simp add: slot_rank_def nth_append)
  have less: "rep (uf_slots st) u < size_of st" if "u < size_of st" for u using rep_less[OF ch that] .
  have mem: "members ?ss r = members (uf_slots st) r" if "r < size_of st" for r
    using that rep rep_links[OF new] by (auto simp: members_def less_Suc_eq)
  have "k \<le> slot_rank ?ss r" if c: "links ?ss u k r" for u k r
  proof (cases "u < size_of st")
    case True
    then obtain j q where j: "links (uf_slots st) u j q" using ch unfolding linked_def by blast
    from links_deterministic[OF c up[OF j]] j assms(2) rank[of q] links_ends[OF j]
    show ?thesis by (auto simp: balanced_def is_root_def)
  next
    case False
    with links_ends[OF c] have "u = size_of st" by simp
    with links_deterministic[OF c] new show ?thesis by auto
  qed
  moreover have "2 ^ slot_rank ?ss r \<le> card (members ?ss r)" if r: "is_root ?ss r" for r
  proof (cases "r < size_of st")
    case True
    then have "is_root (uf_slots st) r" using r by (simp add: is_root_def nth_append)
    with assms(2) rank[OF True] mem[OF True] show ?thesis by (simp add: balanced_def)
  next
    case False
    then have r': "r = size_of st" using r by (simp add: is_root_def)
    have "{size_of st} \<subseteq> members ?ss r" using rep_links[OF new] r' by (auto simp: members_def)
    then have "card {size_of st} \<le> card (members ?ss r)" by (rule card_mono[rotated]) (auto simp: members_def)
    then show ?thesis using r' rank' by simp
  qed
  ultimately show ?thesis unfolding balanced_def by (simp add: fresh_def Let_def)
qed

lemma uf_rank_slot: "uf_rank st r = slot_rank (uf_slots st) r"
  by (simp add: uf_rank_def slot_rank_def)

lemma balanced_set_content:
  assumes "uf_ok st" "v < size_of st" "balanced (uf_slots st)"
  shows "balanced (uf_slots (set_content v c st))"
proof -
  obtain st1 where f: "uf_find v st = (class_of st v, st1)" "view st st1" using uf_find_view[OF assms(1,2)] .
  have b: "balanced (uf_slots st1)" using balanced_find[OF assms] f(1) by simp
  have ok: "uf_ok st1" "size_of st1 = size_of st" "class_of st1 v = class_of st v"
    using f(2) assms(2) by (auto simp: view_def)
  then have r: "is_root (uf_slots st1) (class_of st v)" using class_root[of st1 v] assms(2) by simp
  then obtain c' k where c': "uf_slots st1 ! class_of st v = Root c' k" by (auto simp: is_root_def)
  have "linked (uf_slots st1)" using ok(1) by (simp add: uf_ok_def)
  from balanced_set_root[OF this r b, of c] show ?thesis using f c' by (simp add: set_content_def slot_rank_def)
qed

lemma balanced_union:
  assumes "uf_ok st" "a < size_of st" "b < size_of st" "balanced (uf_slots st)"
  shows "balanced (uf_slots (uf_union a b c st))"
proof -
  obtain st1 where f1: "uf_find a st = (class_of st a, st1)" "view st st1" using uf_find_view[OF assms(1,2)] .
  have ok1: "uf_ok st1" "size_of st1 = size_of st" "class_of st1 b = class_of st b"
    using f1(2) assms(3) by (auto simp: view_def)
  have b1: "balanced (uf_slots st1)" using balanced_find[OF assms(1,2,4)] f1(1) by simp
  obtain st2 where f2: "uf_find b st1 = (class_of st b, st2)" "view st1 st2"
    using uf_find_view[OF ok1(1), of b] ok1 assms(3) by metis
  have b2: "balanced (uf_slots st2)" using balanced_find[OF ok1(1), of b] b1 ok1 assms(3) f2(1) by simp
  have v: "view st st2" using f1(2) f2(2) by (rule view_trans)
  then have ok2: "uf_ok st2" "size_of st2 = size_of st" "class_of st2 a = class_of st a" "class_of st2 b = class_of st b"
    using assms(2,3) by (auto simp: view_def)
  have ch: "linked (uf_slots st2)" using ok2(1) by (simp add: uf_ok_def)
  have r: "is_root (uf_slots st2) (class_of st a)" "is_root (uf_slots st2) (class_of st b)"
    using class_root[OF ok2(1), of a] class_root[OF ok2(1), of b] ok2 assms by auto
  show ?thesis
  proof (cases "class_of st a = class_of st b")
    case True
    then show ?thesis using f1 f2 balanced_set_content[OF ok2(1) _ b2, of "class_of st a" c] class_less[OF assms(1,2)] ok2(2)
      by (simp add: uf_union_def)
  next
    case False
    with f1 f2 show ?thesis
      by (auto simp: uf_union_def Let_def uf_rank_slot not_le
          intro!: balanced_link[OF ch r _ b2] balanced_link[OF ch r(2,1) _ b2])
  qed
qed

section \<open>Any history of operations\<close>

text \<open>The stores the operations build, with the pairs that were united on the way.\<close>

inductive built :: "(nat \<times> nat) set \<Rightarrow> uf \<Rightarrow> bool" where
  new: "built {} uf_new"
| fresh: "built us st \<Longrightarrow> \<forall>x \<in> set (content_children c). x < size_of st \<Longrightarrow> built us (snd (fresh c st))"
| find: "built us st \<Longrightarrow> v < size_of st \<Longrightarrow> built us (snd (uf_find v st))"
| set_content: "built us st \<Longrightarrow> v < size_of st \<Longrightarrow> \<forall>x \<in> set (content_children c). x < size_of st \<Longrightarrow>
    built us (set_content v c st)"
| union: "built us st \<Longrightarrow> a < size_of st \<Longrightarrow> b < size_of st \<Longrightarrow> \<forall>x \<in> set (content_children c). x < size_of st \<Longrightarrow>
    built (insert (a, b) us) (uf_union a b c st)"

definition united :: "(nat \<times> nat) set \<Rightarrow> nat \<Rightarrow> nat \<Rightarrow> bool" where
  "united us a b \<longleftrightarrow> (a, b) \<in> (us \<union> us\<inverse>)\<^sup>*"

lemma united_refl [simp]: "united us a a"
  by (simp add: united_def)

lemma united_sym: "united us a b \<Longrightarrow> united us b a"
  unfolding united_def by (meson sym_Un_converse sym_rtrancl symD)

lemma united_trans: "united us a b \<Longrightarrow> united us b c \<Longrightarrow> united us a c"
  unfolding united_def by simp

lemma united_mono: "united us a b \<Longrightarrow> united (insert p us) a b"
  unfolding united_def by (rule rtrancl_mono[THEN subsetD, rotated]) auto

text \<open>Uniting \<open>a\<close> and \<open>b\<close> joins their classes and no others.\<close>

lemma united_insert: "united (insert (a, b) us) x y \<longleftrightarrow> united us x y \<or>
    united us x a \<and> united us b y \<or> united us x b \<and> united us a y"
proof
  assume "united (insert (a, b) us) x y"
  then have "(x, y) \<in> (insert (a, b) us \<union> (insert (a, b) us)\<inverse>)\<^sup>*" by (simp add: united_def)
  then show "united us x y \<or> united us x a \<and> united us b y \<or> united us x b \<and> united us a y"
  proof (induction rule: rtrancl_induct)
    case (step y z)
    have "(y, z) = (a, b) \<or> (y, z) = (b, a) \<or> united us y z" using step(2) by (auto simp: united_def)
    with step(3) show ?case by (metis Pair_inject united_refl united_trans united_sym)
  qed simp
next
  have ab: "united (insert (a, b) us) a b" "united (insert (a, b) us) b a" by (auto simp: united_def)
  assume "united us x y \<or> united us x a \<and> united us b y \<or> united us x b \<and> united us a y"
  with ab show "united (insert (a, b) us) x y" by (metis united_mono united_trans)
qed

lemma built_inv:
  "built us st \<Longrightarrow> uf_ok st \<and> balanced (uf_slots st) \<and> us \<subseteq> {..<size_of st} \<times> {..<size_of st} \<and>
    (\<forall>a < size_of st. \<forall>b < size_of st. class_of st a = class_of st b \<longleftrightarrow> united us a b)"
proof (induction rule: built.induct)
  case new
  show ?case by (auto simp: uf_ok_def linked_def balanced_def uf_new_def is_root_def elim: links.cases)
next
  case (fresh us st c)
  obtain v st' where f: "fresh c st = (v, st')" by force
  have "\<forall>x \<in> set (content_children c). x \<le> size_of st" using fresh.hyps(2) by auto
  then have v: "v = size_of st" "size_of st' = Suc (size_of st)" "uf_ok st'" "class_of st' v = v"
    "\<And>u. u < size_of st \<Longrightarrow> class_of st' u = class_of st u"
    using fresh_view[OF _ _ f] fresh.IH by blast+
  have out: "united us v b \<longleftrightarrow> b = v" for b
  proof
    assume "united us v b"
    then have "(v, b) \<in> (us \<union> us\<inverse>)\<^sup>*" by (simp add: united_def)
    then show "b = v" using fresh.IH v(1) by (cases rule: converse_rtranclE) auto
  qed simp
  have less: "u < size_of st \<Longrightarrow> class_of st u < size_of st" for u using fresh.IH by simp
  have "class_of st' a = class_of st' b \<longleftrightarrow> united us a b" if ab: "a < size_of st'" "b < size_of st'" for a b
  proof (cases "a = v \<or> b = v")
    case True
    then have "class_of st' a = class_of st' b \<longleftrightarrow> a = b"
      using ab v less[of a] less[of b] by (auto simp: less_Suc_eq)
    with True out united_sym show ?thesis by metis
  next
    case False
    then have "a < size_of st" "b < size_of st" using ab v by auto
    with fresh.IH v show ?thesis by simp
  qed
  with fresh.IH v f balanced_fresh[of st c] show ?case by (auto simp: less_Suc_eq)
next
  case (find us st v)
  obtain st' where f: "uf_find v st = (class_of st v, st')" "view st st'"
    using uf_find_view[of st v] find by auto
  with find.IH find.hyps(2) balanced_find[of st v] show ?case by (auto simp: view_def)
next
  case (set_content us st v c)
  have m: "merged st (set_content v c st) {class_of st v} c"
    using set_content_merged[of st v c] set_content by blast
  then have "class_of (set_content v c st) u = class_of st u" if "u < size_of st" for u
    using that by (auto simp: merged_def split: if_splits)
  with m set_content balanced_set_content[of st v c] show ?case by (auto simp: merged_def)
next
  case (union us st a b c)
  have m: "merged st (uf_union a b c st) {class_of st a, class_of st b} c"
    using uf_union_merged[of st a b c] union by blast
  then obtain r where r: "\<And>u. u < size_of st \<Longrightarrow> class_of (uf_union a b c st) u =
      (if class_of st u \<in> {class_of st a, class_of st b} then r else class_of st u)"
    "r \<in> {class_of st a, class_of st b}" by (auto simp: merged_def)
  have "class_of (uf_union a b c st) x = class_of (uf_union a b c st) y \<longleftrightarrow> united (insert (a, b) us) x y"
    if xy: "x < size_of st" "y < size_of st" for x y
  proof -
    have "class_of (uf_union a b c st) x = class_of (uf_union a b c st) y \<longleftrightarrow> class_of st x = class_of st y \<or>
        class_of st x = class_of st a \<and> class_of st b = class_of st y \<or>
        class_of st x = class_of st b \<and> class_of st a = class_of st y"
      using r(2) unfolding r(1)[OF xy(1)] r(1)[OF xy(2)] by (auto split: if_split)
    also have "\<dots> \<longleftrightarrow> united (insert (a, b) us) x y"
      using union.IH xy union.hyps(2,3) unfolding united_insert by simp
    finally show ?thesis .
  qed
  with m union balanced_union[of st a b c] show ?case by (auto simp: merged_def)
qed

section \<open>Properties\<close>

text \<open>C20: The store refines an equivalence relation. After any history of operations, \<open>find\<close> gives
  two variables the same representative exactly when the pairs united so far connect them.\<close>

theorem find_iff_united:
  assumes "built us st" "a < size_of st" "b < size_of st"
  shows "fst (uf_find a st) = fst (uf_find b st) \<longleftrightarrow> united us a b"
  using built_inv[OF assms(1)] assms(2,3) by (simp add: uf_find_def Let_def class_of_def rep_def)

definition three_vars :: uf where
  "three_vars = snd (fresh Flex (snd (fresh Flex (snd (fresh Flex uf_new)))))"

lemma built_three: "built {} three_vars" "size_of three_vars = 3"
  unfolding three_vars_def by (intro built.fresh built.new) (simp_all add: content_children_def, code_simp)

theorem find_iff_united_witness:
  "fst (uf_find 2 (uf_union 0 2 Flex three_vars)) = fst (uf_find 0 (uf_union 0 2 Flex three_vars)) \<and>
   fst (uf_find 1 (uf_union 0 2 Flex three_vars)) \<noteq> fst (uf_find 0 (uf_union 0 2 Flex three_vars))"
proof -
  have b: "built {(0, 2)} (uf_union 0 2 Flex three_vars)"
    by (rule built.union[OF built_three(1)]) (simp_all add: built_three(2) content_children_def)
  have n: "size_of (uf_union 0 2 Flex three_vars) = 3" by code_simp
  have "united {(0, 2)} 2 0" "\<not> united {(0, 2 :: nat)} 1 0"
    by (auto simp: united_def elim: converse_rtranclE)
  with find_iff_united[OF b, of 2 0] find_iff_united[OF b, of 1 0] n show ?thesis by simp
qed

text \<open>C21: \<open>find\<close> is fast. After any history of operations, a links of \<open>k\<close> links needs at least \<open>2 ^ k\<close>
  variables, so \<open>find\<close> follows at most the logarithm of the number of variables (32 links for the
  ids the code has), and ranks stay below that too.\<close>

theorem find_walks_log:
  assumes "built us st" "links (uf_slots st) v k r"
  shows "2 ^ k \<le> size_of st \<and> 2 ^ uf_rank st r \<le> size_of st \<and> r = fst (uf_find v st)"
proof -
  have b: "balanced (uf_slots st)" using built_inv[OF assms(1)] by blast
  have "2 ^ slot_rank (uf_slots st) r \<le> card (members (uf_slots st) r)"
    using b links_ends[OF assms(2)] by (simp add: balanced_def)
  also have "\<dots> \<le> card {..<size_of st}" by (rule card_mono) (auto simp: members_def)
  finally show ?thesis
    using balanced_short[OF b assms(2)] rep_links[OF assms(2)]
    by (simp add: uf_rank_slot uf_find_def Let_def rep_def)
qed

theorem find_walks_log_witness:
  "(2 :: nat) ^ 1 \<le> size_of (uf_union 0 2 Flex three_vars) \<and> 0 = fst (uf_find 2 (uf_union 0 2 Flex three_vars))"
proof -
  have b: "built {(0, 2)} (uf_union 0 2 Flex three_vars)"
    by (rule built.union[OF built_three(1)]) (simp_all add: built_three(2) content_children_def)
  have ss: "uf_slots (uf_union 0 2 Flex three_vars) = [Root Flex 1, Root Flex 0, Link 0]" by code_simp
  have "links (uf_slots (uf_union 0 2 Flex three_vars)) 2 (Suc 0) 0"
    unfolding ss by (auto intro!: links.intros)
  from find_walks_log[OF b this] show ?thesis by simp
qed

end
