(* ===== verification/Unify_Text.thy ===== *)
theory Unify_Text
  imports Union_Find Prelude "HOL-Library.List_Lexorder" "HOL-Library.Char_ord"
begin

text \<open>
  What the unifier says (\<open>ty/src/unify.rs\<close>): the texts of its refusals, and the rendering of a variable as a
  type. Texts are the strings of their UTF-8 bytes. Rendering looks variables up, so it returns the
  store as well; its depth is bounded by the code (\<open>depth > 6\<close>, \<open>depth > 8\<close>), here by a number that
  counts down.
\<close>

section \<open>Refusals\<close>

definition ellipsis_utf8 :: string where
  "ellipsis_utf8 = [CHR 0xE2, CHR 0x80, CHR 0xA6]"

definition record_missing_msg :: "row \<Rightarrow> string" where
  "record_missing_msg missing = ''record is missing field(s): '' @ join '', '' (map fst missing)"

definition unknown_fields_phrase :: "row \<Rightarrow> string" where
  "unknown_fields_phrase unknown =
     ''unknown field(s) not in the declared type: '' @ join '', '' (map fst unknown)"

definition record_unknown_msg :: "row \<Rightarrow> string" where
  "record_unknown_msg unknown = ''record has '' @ unknown_fields_phrase unknown"

definition rigid_row_fields_message :: "string \<Rightarrow> string \<Rightarrow> string" where
  "rigid_row_fields_message row_name fs =
     ''the type annotation says `'' @ row_name @ ''` stands for any other fields a record may have, but this '' @
     ''code needs the record to have '' @ fs @ '', which the annotation does not list. A record type '' @
     ''`{ '' @ row_name @ '' | '' @ ellipsis_utf8 @ '' }` promises only the fields it names: a caller may pass a record without '' @
     fs @ ''. Fix: add '' @ fs @ '' to the record type in the type annotation''"

definition rigid_row_closed_message :: "string \<Rightarrow> string \<Rightarrow> string" where
  "rigid_row_closed_message row_name fs =
     ''the type annotation says `'' @ row_name @ ''` stands for any other fields a record may have, but this '' @
     ''code uses a record with exactly the fields '' @ fs @ '' there, so the other fields a caller'' @ [CHR 0x27] @
     ''s record has would be lost. Fix: keep the caller'' @ [CHR 0x27] @ ''s record and change it with an update '' @
     ''(`{ rec | name = '' @ ellipsis_utf8 @ '' }`), or write a closed record type (no `'' @ row_name @ '' |`) in the type '' @
     ''annotation''"

definition rigid_row_pair_message :: "string \<Rightarrow> string \<Rightarrow> string" where
  "rigid_row_pair_message a b =
     ''the type annotation says `'' @ a @ ''` and `'' @ b @ ''` can be different sets of record fields, but this '' @
     ''code makes them the same. Fix: write the same row variable in both record types of the '' @
     ''type annotation (for example `{ '' @ a @ '' | '' @ ellipsis_utf8 @ '' }` twice), or change the code so it does not '' @
     ''pass one record where the other is promised''"

definition COMPARABLE_ANCHOR :: string where
  "COMPARABLE_ANCHOR = ''docs/migration/v0.27.md#comparable-bound''"

definition ENCODABLE_ANCHOR :: string where
  "ENCODABLE_ANCHOR = ''docs/migration/v0.27.md#encodable-bound''"

definition GO_INTERFACE_ANCHOR :: string where
  "GO_INTERFACE_ANCHOR = ''docs/migration/v0.27.md#ffi-go-interface-params''"

definition go_value_failure :: "string \<Rightarrow> string" where
  "go_value_failure shown =
     shown @ '' is given where a Go FFI binding needs a Go value that implements a Go '' @
     ''interface. Since v0.27.0 a Go interface parameter is checked: a Sky value never '' @
     ''implements a Go interface. Fix: pass a Go value that implements it (one a binding '' @
     ''returns). see '' @ GO_INTERFACE_ANCHOR"

definition comparable_failure :: "string \<Rightarrow> string" where
  "comparable_failure shown =
     shown @ '' cannot be ordered, so it cannot be used with `<`, `>`, `<=`, `>=`, '' @
     ''`compare`, `min`, `max`, `List.sort`, `List.sortBy` or a `Set`. Since v0.27.0 an '' @
     ''ordering needs a comparable type: `Int`, `Float`, `String`, `Char`, `Bool`, a `List`, '' @
     ''`Maybe`, `Result` or tuple of comparables, a record whose fields are comparable, or a '' @
     ''custom type whose constructors hold only comparable values. A function, a `Dict`, a '' @
     ''`Set`, a `Secret`, a key, a runtime handle and an opaque stdlib type have no order. '' @
     ''Fix: order by a comparable key instead, for example `List.sortBy .name items`. '' @
     ''See '' @ COMPARABLE_ANCHOR"

definition encodable_failure :: "string \<Rightarrow> string" where
  "encodable_failure shown =
     shown @ '' cannot be encoded, so it cannot be stored by `Codec.auto`, '' @
     ''`App.withDurable`, a `Std.Db.Table`, `Jobs.define`/`enqueue` or `Auth.signToken`. '' @
     ''Since v0.27.0 these need a type that round-trips as data: no function, `Secret`, '' @
     ''crypto key or state, or runtime handle (`Process`, `Watcher`, `Sync.Ref`, `Mutex`, '' @
     ''`Queue`, `WebSocket`, `WebSocketServer`, `StreamId`, `StreamWriter`, `Cache`, `Regex`) anywhere '' @
     ''inside, in either direction (a handle decoded from JSON would be forged). Fix: keep '' @
     ''that value out of the stored type, for example in a separate field of the model that '' @
     ''is not persisted, or store the data it is made from. See '' @ ENCODABLE_ANCHOR"

definition bound_failure :: "super_type \<Rightarrow> string \<Rightarrow> flat_ty \<Rightarrow> string" where
  "bound_failure s0 what ft =
     (let s = closure s0;
          shown = (case ft of
              Fun _ _ \<Rightarrow> ''a function (`'' @ what @ ''`)''
            | Record _ _ \<Rightarrow> ''a record''
            | _ \<Rightarrow> ''`'' @ what @ ''`'') in
      if st_has s Number then shown @ '' is not a number: this needs an `Int` or a `Float`''
      else if st_has s Appendable then shown @ '' cannot be appended with `++`: only a `String` or a `List` can''
      else if st_has s Comparable then comparable_failure shown
      else encodable_failure shown)"

definition rigid_concrete_message :: "string \<Rightarrow> string \<Rightarrow> string" where
  "rigid_concrete_message var shown =
     ''the type annotation says `'' @ var @ ''` can be any type, but this code uses it as `'' @ shown @ ''`. '' @
     ''A type variable in an annotation stands for every type a caller may choose, so the '' @
     ''code must work for all of them. Fix: write `'' @ shown @ ''` instead of `'' @ var @ ''` in the type '' @
     ''annotation, or change the code so it does not depend on the type''"

definition rigid_pair_message :: "string \<Rightarrow> string \<Rightarrow> string" where
  "rigid_pair_message a b =
     ''the type annotation says `'' @ a @ ''` and `'' @ b @ ''` can be two different types, but this code '' @
     ''uses them as one type. A caller could choose two different types, and the value would '' @
     ''not be the type the annotation promises. Fix: write one variable for both (`'' @ a @ ''` in '' @
     ''place of `'' @ b @ ''`), or change the code so the two stay apart''"

definition rigid_bound_message :: "string \<Rightarrow> super_type \<Rightarrow> string" where
  "rigid_bound_message var missing0 =
     (let missing = closure missing0 in
      if st_has missing Comparable \<and> \<not> st_has missing Number then
        ''the type annotation says `'' @ var @ ''` can be any type, but this code orders it '' @
        ''(`<`, `compare`, `min`, `max`, `List.sort`, `List.sortBy` or a `Set`), so it must '' @
        ''be a comparable type. Since v0.27.0 an ordering needs a comparable type, and a '' @
        ''type variable that is ordered must say so. Fix: write `comparable` instead of '' @
        ''`'' @ var @ ''` in the type annotation, for example '' @
        ''`largest : List comparable -> Maybe comparable`. See '' @ COMPARABLE_ANCHOR
      else if st_has missing Number then
        ''the type annotation says `'' @ var @ ''` can be any type, but this code uses it as a '' @
        ''number. Fix: write `number` instead of `'' @ var @ ''` in the type annotation, or a '' @
        ''concrete `Int` or `Float`''
      else
        ''the type annotation says `'' @ var @ ''` can be any type, but this code appends it with '' @
        ''`++`. Fix: write `appendable` instead of `'' @ var @ ''` in the type annotation, or a '' @
        ''concrete `String` or `List`'')"

section \<open>Rendering a variable\<close>

fun map_state :: "('a \<Rightarrow> 's \<Rightarrow> 'b \<times> 's) \<Rightarrow> 'a list \<Rightarrow> 's \<Rightarrow> 'b list \<times> 's" where
  "map_state f [] st = ([], st)"
| "map_state f (x # xs) st = (let (y, st) = f x st; (ys, st) = map_state f xs st in (y # ys, st))"

definition has_space :: "string \<Rightarrow> bool" where
  "has_space s \<longleftrightarrow> CHR '' '' \<in> set s"

definition in_parens :: "string \<Rightarrow> string" where
  "in_parens s = ''('' @ s @ '')''"

definition flat_text :: "(nat \<Rightarrow> uf \<Rightarrow> string \<times> uf) \<Rightarrow> flat_ty \<Rightarrow> uf \<Rightarrow> string \<times> uf" where
  "flat_text sub ft st = (case ft of
     App n args \<Rightarrow>
       (if args = [] then (strip_name n, st)
        else (let (parts, st) = map_state sub args st in
          (strip_name n @ '' '' @ join '' '' (map (\<lambda>s. if has_space s then in_parens s else s) parts), st)))
   | Fun a r \<Rightarrow> (let (sa, st) = sub a st; (sr, st) = sub r st in (sa @ '' -> '' @ sr, st))
   | Tuple xs \<Rightarrow> (let (parts, st) = map_state sub xs st in (''('' @ join '', '' parts @ '')'', st))
   | Record _ _ \<Rightarrow> (''record'', st)
   | UnitTy \<Rightarrow> (''()'', st))"

primrec describe_var :: "nat \<Rightarrow> nat \<Rightarrow> uf \<Rightarrow> string \<times> uf" where
  "describe_var 0 v st = (ellipsis_utf8, st)"
| "describe_var (Suc n) v st =
     (let (c, st) = content_of v st in
      case c of
        Structure ft \<Rightarrow> flat_text (describe_var n) ft st
      | Rigid name \<Rightarrow> (name, st)
      | _ \<Rightarrow> (''_'', st))"

definition describe :: "nat \<Rightarrow> uf \<Rightarrow> string \<times> uf" where
  "describe = describe_var 7"

definition describe_flat :: "flat_ty \<Rightarrow> uf \<Rightarrow> string \<times> uf" where
  "describe_flat = flat_text (describe_var 6)"

definition describe_flat_qualified :: "flat_ty \<Rightarrow> uf \<Rightarrow> string \<times> uf" where
  "describe_flat_qualified ft st = (case ft of
     App n args \<Rightarrow>
       (if args = [] then (n, st)
        else (let (bare, st) = describe_flat ft st; head = strip_name n in
          (if starts_with bare head then n @ drop (length head) bare else bare, st)))
   | _ \<Rightarrow> describe_flat ft st)"

section \<open>Rows\<close>

text \<open>\<open>entry(k).or_insert(v)\<close> of a \<open>BTreeMap\<close>.\<close>

fun or_insert :: "string \<Rightarrow> nat \<Rightarrow> row \<Rightarrow> row" where
  "or_insert k v [] = [(k, v)]"
| "or_insert k v ((k', v') # m) =
     (if k = k' then (k', v') # m
      else if k < k' then (k, v) # (k', v') # m
      else (k', v') # or_insert k v m)"

definition add_fields :: "row \<Rightarrow> row \<Rightarrow> row" where
  "add_fields fs others = foldl (\<lambda>m (k, v). or_insert k v m) fs others"

text \<open>The walk along resolved extensions; a root met twice ends it, so one step per slot is enough.\<close>

primrec row_walk :: "nat \<Rightarrow> row \<Rightarrow> nat option \<Rightarrow> nat set \<Rightarrow> uf \<Rightarrow> (row \<times> nat option) \<times> uf" where
  "row_walk 0 fs cur seen st = ((fs, cur), st)"
| "row_walk (Suc n) fs cur seen st =
     (case cur of
        None \<Rightarrow> ((fs, None), st)
      | Some e \<Rightarrow>
          (let (r, st) = uf_find e st in
           if r \<in> seen then ((fs, Some r), st)
           else (case uf_slots st ! r of
                   Root (Structure (Record inner ext)) _ \<Rightarrow> row_walk n (add_fields fs inner) ext (insert r seen) st
                 | _ \<Rightarrow> ((fs, Some r), st))))"

definition normalize_record :: "row \<Rightarrow> nat option \<Rightarrow> uf \<Rightarrow> (row \<times> nat option) \<times> uf" where
  "normalize_record fs ext st = row_walk (Suc (size_of st)) fs ext {} st"

section \<open>Rendering a type to write\<close>

text \<open>The names given so far, the counter of type variables, the counter of rows.\<close>

type_synonym advice = "((nat \<Rightarrow> string option) \<times> nat \<times> nat) \<times> uf"

definition name_var :: "nat \<Rightarrow> string \<Rightarrow> advice \<Rightarrow> string \<times> advice" where
  "name_var r pre a =
     (let ((names, i, j), st) = a in
      case names r of
        Some s \<Rightarrow> (s, a)
      | None \<Rightarrow> (let s = pre @ show_nat (i + 1) in (s, ((names(r \<mapsto> s), i + 1, j), st))))"

definition name_row :: "nat \<Rightarrow> advice \<Rightarrow> string \<times> advice" where
  "name_row r a =
     (let ((names, i, j), st) = a in
      case names r of
        Some s \<Rightarrow> (s, a)
      | None \<Rightarrow> (let s = ''r'' @ show_nat (j + 1) in (s, ((names(r \<mapsto> s), i, j + 1), st))))"

definition on_store :: "(uf \<Rightarrow> 'a \<times> uf) \<Rightarrow> advice \<Rightarrow> 'a \<times> advice" where
  "on_store f a = (let (x, st) = f (snd a) in (x, (fst a, st)))"

definition advice_paren :: "string \<Rightarrow> string" where
  "advice_paren s =
     (if has_space s \<and> \<not> starts_with s ''{'' \<and> \<not> starts_with s ''('' then in_parens s else s)"

fun has_arrow :: "string \<Rightarrow> bool" where
  "has_arrow (a # b # s) \<longleftrightarrow> a = CHR ''-'' \<and> b = CHR ''>'' \<or> has_arrow (b # s)"
| "has_arrow _ \<longleftrightarrow> False"

definition advice_row :: "nat option \<Rightarrow> advice \<Rightarrow> string option \<times> advice" where
  "advice_row ext a = (case ext of
     None \<Rightarrow> (None, a)
   | Some e \<Rightarrow>
       (let (r, a) = on_store (uf_find e) a; (c, a) = on_store (content_of r) a;
            (s, a) = (case c of Rigid n \<Rightarrow> (n, a) | _ \<Rightarrow> name_row r a) in (Some s, a)))"

primrec advice_var :: "nat \<Rightarrow> nat \<Rightarrow> advice \<Rightarrow> string \<times> advice" where
  "advice_var 0 v a = (''x0'', a)"
| "advice_var (Suc n) v a =
     (let (r, a) = on_store (uf_find v) a; (c, a) = on_store (content_of r) a in
      case c of
        Rigid name \<Rightarrow> (name, a)
      | FlexSuper s \<Rightarrow> (if st_has s IntLit then (''Int'', a) else name_var r (label s) a)
      | Flex \<Rightarrow> name_var r ''x'' a
      | Err \<Rightarrow> name_var r ''x'' a
      | Structure (App m args) \<Rightarrow>
          (let (parts, a) = map_state (advice_var n) args a in
           (strip_name m @ concat (map (\<lambda>s. '' '' @ advice_paren s) parts), a))
      | Structure (Fun x y) \<Rightarrow>
          (let (sx, a) = advice_var n x a; (sy, a) = advice_var n y a in
           ((if has_arrow sx \<and> \<not> starts_with sx ''{'' then in_parens sx else sx) @ '' -> '' @ sy, a))
      | Structure (Tuple xs) \<Rightarrow>
          (let (parts, a) = map_state (advice_var n) xs a in (''( '' @ join '', '' parts @ '' )'', a))
      | Structure UnitTy \<Rightarrow> (''()'', a)
      | Structure (Record fs ext) \<Rightarrow>
          (let ((fs, ext), a) = on_store (normalize_record fs ext) a;
               (parts, a) = map_state (\<lambda>(k, t) a. let (s, a) = advice_var n t a in (k @ '' : '' @ s, a)) fs a;
               (row, a) = advice_row ext a in
           (case row of
              None \<Rightarrow> (if parts = [] then ''{}'' else ''{ '' @ join '', '' parts @ '' }'')
            | Some r \<Rightarrow> (if parts = [] then ''{ '' @ r @ '' | }'' else ''{ '' @ r @ '' | '' @ join '', '' parts @ '' }''), a)))"

definition describe_advice :: "nat \<Rightarrow> uf \<Rightarrow> string \<times> uf" where
  "describe_advice v st =
     (let (s, (_, st)) = advice_var 9 v ((Map.empty, 0, 0), st) in (s, st))"

section \<open>Rendering changes nothing\<close>

lemma map_state_view:
  assumes "\<And>x st. x \<in> set xs \<Longrightarrow> x < size_of st \<Longrightarrow> uf_ok st \<Longrightarrow> view st (snd (f x st))"
  shows "uf_ok st \<Longrightarrow> \<forall>x \<in> set xs. x < size_of st \<Longrightarrow> view st (snd (map_state f xs st))"
  using assms
proof (induction xs arbitrary: st)
  case (Cons x xs)
  have v: "view st (snd (f x st))" using Cons.prems by simp
  then have "view (snd (f x st)) (snd (map_state f xs (snd (f x st))))"
    using Cons by (auto simp: view_def)
  with v show ?case by (auto simp: case_prod_beta Let_def intro: view_trans)
qed simp

lemma flat_text_view:
  assumes "uf_ok st" "\<forall>x \<in> set (flat_children ft). x < size_of st"
    "\<And>x st. x < size_of st \<Longrightarrow> uf_ok st \<Longrightarrow> view st (snd (sub x st))"
  shows "view st (snd (flat_text sub ft st))"
proof (cases ft)
  case (Fun a b)
  have v: "view st (snd (sub a st))" using assms Fun by (simp add: flat_children_def)
  then have "view (snd (sub a st)) (snd (sub b (snd (sub a st))))"
    using assms Fun by (intro assms(3)) (auto simp: flat_children_def view_def)
  with v Fun show ?thesis by (auto simp: flat_text_def case_prod_beta Let_def intro: view_trans)
qed (use assms map_state_view[of _ sub st] in \<open>auto simp: flat_text_def flat_children_def case_prod_beta Let_def\<close>)

lemma describe_var_view: "uf_ok st \<Longrightarrow> v < size_of st \<Longrightarrow> view st (snd (describe_var n v st))"
proof (induction n arbitrary: v st)
  case (Suc n)
  obtain st' where c: "content_of v st = (cont st v, st')" "view st st'"
    using content_of_view[OF Suc.prems] .
  have ok: "uf_ok st'" "size_of st' = size_of st" using c(2) by (auto simp: view_def)
  have kids: "cont st v = Structure ft \<Longrightarrow> \<forall>x \<in> set (flat_children ft). x < size_of st'" for ft
    using cont_children_less[OF Suc.prems] ok by (simp add: content_children_def)
  have "cont st v = Structure ft \<Longrightarrow> view st' (snd (flat_text (describe_var n) ft st'))" for ft
    by (rule flat_text_view[OF ok(1) kids Suc.IH])
  with c show ?case by (auto intro: view_trans split: content.split)
qed simp

lemma describe_flat_view: "uf_ok st \<Longrightarrow> \<forall>x \<in> set (flat_children ft). x < size_of st \<Longrightarrow>
    view st (snd (describe_flat ft st))"
  unfolding describe_flat_def by (rule flat_text_view) (auto intro: describe_var_view)

lemma describe_flat_qualified_view: "uf_ok st \<Longrightarrow> \<forall>x \<in> set (flat_children ft). x < size_of st \<Longrightarrow>
    view st (snd (describe_flat_qualified ft st))"
  using describe_flat_view[of st ft]
  by (auto simp: describe_flat_qualified_def case_prod_beta Let_def split: flat_ty.split)

end
