(* ===== verification/Unify.thy ===== *)
theory Unify
  imports Unify_Text
begin

text \<open>
  Unification (\<open>ty/src/unify.rs\<close>): the occurs check, the bounds a concrete shape must meet, rows, and the
  case analysis of \<open>unify_vars\<close>. A run either has an outcome, an error text or success, and the store it
  leaves (a refusal keeps what was already unified), or no outcome: the recursion through \<open>unify\<close>
  carries fuel, and \<open>None\<close> is fuel that ran out. The operations that call \<open>unify\<close> take it as an
  argument, and \<open>unify_fuel\<close> closes the recursion.
\<close>

section \<open>The occurs check\<close>

text \<open>The stack is a list with its top first: \<open>extend\<close> pushes the children in order, so the last is
  popped first. An index beyond the marks, which the code never meets, ends the walk.\<close>

lemma unmarked_less:
  assumes "r < length mark" "mark ! r \<noteq> epoch"
  shows "card {i. i < length (mark[r := epoch]) \<and> mark[r := epoch] ! i \<noteq> epoch} <
    card {i. i < length mark \<and> mark ! i \<noteq> epoch}"
proof (rule psubset_card_mono)
  have "r \<in> {i. i < length mark \<and> mark ! i \<noteq> epoch}"
    "r \<notin> {i. i < length (mark[r := epoch]) \<and> mark[r := epoch] ! i \<noteq> epoch}" using assms by simp_all
  moreover have "{i. i < length (mark[r := epoch]) \<and> mark[r := epoch] ! i \<noteq> epoch} \<subseteq>
      {i. i < length mark \<and> mark ! i \<noteq> epoch}"
  proof
    fix i assume "i \<in> {i. i < length (mark[r := epoch]) \<and> mark[r := epoch] ! i \<noteq> epoch}"
    with assms(1) show "i \<in> {i. i < length mark \<and> mark ! i \<noteq> epoch}" by (cases "i = r") simp_all
  qed
  ultimately show "{i. i < length (mark[r := epoch]) \<and> mark[r := epoch] ! i \<noteq> epoch} \<subset>
      {i. i < length mark \<and> mark ! i \<noteq> epoch}" by blast
qed simp

function occurs_loop :: "nat \<Rightarrow> 32 word \<Rightarrow> nat list \<Rightarrow> 32 word list \<Rightarrow> uf \<Rightarrow> bool \<times> 32 word list \<times> uf" where
  "occurs_loop target epoch [] mark st = (False, mark, st)"
| "occurs_loop target epoch (x # stack) mark st =
     (let (r, st) = uf_find x st in
      if r = target then (True, mark, st)
      else if length mark \<le> r then (False, mark, st)
      else if mark ! r = epoch then occurs_loop target epoch stack mark st
      else occurs_loop target epoch (rev (content_children (slot_content st r)) @ stack) (mark[r := epoch]) st)"
  by pat_completeness auto
termination
proof (relation "measures [\<lambda>(target, epoch, stack, mark, st). card {i. i < length mark \<and> mark ! i \<noteq> epoch},
    \<lambda>(target, epoch, stack, mark, st). length stack]", goal_cases)
  case (3 target epoch x stack mark st p r st')
  then have "r < length mark" "mark ! r \<noteq> epoch" by simp_all
  from unmarked_less[OF this] show ?case by (simp del: length_list_update)
qed simp_all

definition occurs :: "nat \<Rightarrow> nat \<Rightarrow> uf \<Rightarrow> bool \<times> uf" where
  "occurs v target0 st =
     (let (target, st) = uf_find target0 st;
          epoch = uf_epoch st + 1;
          (mark, epoch) = (if epoch = 0 then (map (\<lambda>_. 0) (uf_mark st), 1) else (uf_mark st, epoch));
          mark = mark @ replicate (size_of st - length mark) 0;
          (found, mark, st) = occurs_loop target epoch [v] mark st in
      (found, st\<lparr>uf_mark := mark, uf_epoch := epoch\<rparr>))"

section \<open>Outcomes\<close>

type_synonym outcome = "((string + unit) \<times> uf) option"
type_synonym unifier = "nat \<Rightarrow> nat \<Rightarrow> uf \<Rightarrow> outcome"

definition mismatch :: "string \<Rightarrow> uf \<Rightarrow> outcome" where
  "mismatch msg st = Some (Inl msg, st)"

definition accept :: "uf \<Rightarrow> outcome" where
  "accept st = Some (Inr (), st)"

text \<open>The \<open>?\<close> operator, and \<open>let _ =\<close>.\<close>

definition and_then :: "outcome \<Rightarrow> (uf \<Rightarrow> outcome) \<Rightarrow> outcome" where
  "and_then out k = (case out of
     None \<Rightarrow> None | Some (Inl msg, st) \<Rightarrow> Some (Inl msg, st) | Some (Inr _, st) \<Rightarrow> k st)"

definition regardless :: "outcome \<Rightarrow> (uf \<Rightarrow> outcome) \<Rightarrow> outcome" where
  "regardless out k = (case out of None \<Rightarrow> None | Some (_, st) \<Rightarrow> k st)"

fun unify_pairs :: "unifier \<Rightarrow> (nat \<times> nat) list \<Rightarrow> uf \<Rightarrow> outcome" where
  "unify_pairs u [] st = accept st"
| "unify_pairs u ((x, y) # ps) st = and_then (u x y st) (unify_pairs u ps)"

definition infinite :: "nat \<Rightarrow> nat \<Rightarrow> uf \<Rightarrow> outcome" where
  "infinite a b st = mismatch ''infinite type (occurs check)'' (uf_union a b Err st)"

section \<open>Bounds and shapes\<close>

definition WEAK_PREFIX :: string where
  "WEAK_PREFIX = ''SkyWeak_''"

definition int_ty :: flat_ty where
  "int_ty = App ''Int'' []"

definition default_int_literal :: "nat \<Rightarrow> uf \<Rightarrow> uf" where
  "default_int_literal v st =
     (let (r, st) = uf_find v st in
      if is_lit (slot_content st r) then set_content r (Structure int_ty) st else st)"

definition generalise_annotated_number_literal :: "nat \<Rightarrow> uf \<Rightarrow> uf" where
  "generalise_annotated_number_literal v st =
     (let (root, st) = uf_find v st; (c, st) = content_of root st in
      case c of
        FlexSuper bound \<Rightarrow>
          (if st_has bound Number \<and> st_has bound IntLit
           then set_content root (FlexSuper (st_minus bound IntLit)) st else st)
      | _ \<Rightarrow> st)"

definition default_all_int_literals :: "uf \<Rightarrow> uf" where
  "default_all_int_literals st =
     foldl (\<lambda>st v. default_int_literal v st) (st\<lparr>uf_int_literals := []\<rparr>) (uf_int_literals st)"

text \<open>Which children must carry the bound, and whether the node itself is left to the checker; \<open>None\<close>
  when the shape fails the bound.\<close>

definition shape_needs :: "super_type \<Rightarrow> flat_ty \<Rightarrow> (nat list \<times> bool) option" where
  "shape_needs s ft =
     (let num = st_has s Number; app = st_has s Appendable in
      case ft of
        Fun _ _ \<Rightarrow> None
      | UnitTy \<Rightarrow> (if num \<or> app then None else Some ([], False))
      | Tuple xs \<Rightarrow> (if num \<or> app then None else Some (xs, False))
      | Record fs _ \<Rightarrow> (if num \<or> app then None else Some (map snd fs, True))
      | App n args \<Rightarrow>
          (if (n = ''Int'' \<or> n = ''Float'') \<and> length args = 0 then (if app then None else Some ([], False))
           else if n = ''String'' \<and> length args = 0 then (if num then None else Some ([], False))
           else if (n = ''Char'' \<or> n = ''Bool'') \<and> length args = 0 then
             (if num \<or> app then None else Some ([], False))
           else if n = ''List'' \<and> length args = 1 then (if num then None else Some (args, False))
           else if n = ''Maybe'' \<and> length args = 1 \<or> n = ''Result'' \<and> length args = 2 then
             (if num \<or> app then None else Some (args, False))
           else if n = ''Dict'' \<and> length args = 2 \<or> n = ''Set'' \<and> length args = 1 then
             (if num \<or> app \<or> st_has s Comparable then None else Some (args, False))
           else if starts_with n WEAK_PREFIX then Some ([], False)
           else (if num \<or> app then None else Some ([], True))))"

text \<open>The loop over the children: each must unify with a fresh variable that has the bound.\<close>

fun need_elements :: "unifier \<Rightarrow> super_type \<Rightarrow> nat list \<Rightarrow> uf \<Rightarrow> outcome" where
  "need_elements u elems [] st = accept st"
| "need_elements u elems (c # cs) st =
     (let (b, st) = fresh (FlexSuper elems) st in and_then (u c b st) (need_elements u elems cs))"

definition satisfy_sky :: "unifier \<Rightarrow> nat \<Rightarrow> nat \<Rightarrow> super_type \<Rightarrow> flat_ty \<Rightarrow> uf \<Rightarrow> outcome" where
  "satisfy_sky u ra rb s ft st =
     (let elems = for_elements s in
      case shape_needs s ft of
        None \<Rightarrow> (let (what, st) = describe_flat ft st in mismatch (bound_failure s what ft) st)
      | Some (children, pend) \<Rightarrow>
          (let st = uf_union ra rb (Structure ft) st;
               (root, st) = uf_find ra st;
               st = (if pend \<and> elems \<noteq> 0 then st\<lparr>uf_pending := uf_pending st @ [(elems, root)]\<rparr> else st) in
           if elems \<noteq> 0 then need_elements u elems children st else accept st))"

text \<open>\<open>satisfy\<close> calls itself once, on a bound without the flag it tests first.\<close>

definition satisfy :: "unifier \<Rightarrow> nat \<Rightarrow> nat \<Rightarrow> super_type \<Rightarrow> flat_ty \<Rightarrow> uf \<Rightarrow> outcome" where
  "satisfy u ra rb s0 ft st =
     (let s = closure s0 in
      if st_has s GoValue then
        (let go = (case ft of App n _ \<Rightarrow> is_go_type n \<or> starts_with n WEAK_PREFIX | _ \<Rightarrow> False) in
         if \<not> go then
           (let (what, st) = describe_flat ft st;
                shown = (case ft of
                    Fun _ _ \<Rightarrow> ''a function (`'' @ what @ ''`)''
                  | Record _ _ \<Rightarrow> ''a record''
                  | _ \<Rightarrow> ''a Sky `'' @ what @ ''`'') in
            mismatch (go_value_failure shown) st)
         else
           (let rest = st_minus s GoValue in
            if rest = 0 then accept (uf_union ra rb (Structure ft) st)
            else satisfy_sky u ra rb (closure rest) ft st))
      else satisfy_sky u ra rb s ft st)"

section \<open>Rows\<close>

definition rigid_name :: "nat \<Rightarrow> uf \<Rightarrow> string option \<times> uf" where
  "rigid_name v st =
     (let (r, st) = uf_find v st in
      (case uf_slots st ! r of Root (Rigid n) _ \<Rightarrow> Some n | _ \<Rightarrow> None, st))"

definition opt_rigid_name :: "nat option \<Rightarrow> uf \<Rightarrow> string option \<times> uf" where
  "opt_rigid_name e st = (case e of Some v \<Rightarrow> rigid_name v st | None \<Rightarrow> (None, st))"

definition quoted_names :: "string list \<Rightarrow> string" where
  "quoted_names ns = join '', '' (map (\<lambda>n. ''`'' @ n @ ''`'') ns)"

text \<open>The refusal of a rigid row; called only when one of the two rows is rigid.\<close>

definition row_refusal :: "row \<Rightarrow> nat option \<Rightarrow> string option \<times> string option \<Rightarrow> string list \<Rightarrow> string" where
  "row_refusal extras ext rigid names =
     (case (rigid, ext) of
        ((Some r, _), None) \<Rightarrow> rigid_row_closed_message r (quoted_names names)
      | ((None, Some r), None) \<Rightarrow> rigid_row_closed_message r (quoted_names names)
      | ((Some r1, Some r2), Some _) \<Rightarrow>
          (if r1 \<noteq> r2 \<and> extras = [] then rigid_row_pair_message r1 r2
           else if extras = [] then rigid_row_pair_message r1 r2
           else rigid_row_fields_message r1 (quoted_names (map fst extras)))
      | ((Some r, None), Some _) \<Rightarrow>
          (if extras = [] then rigid_row_pair_message r r
           else rigid_row_fields_message r (quoted_names (map fst extras)))
      | ((None, Some r), Some _) \<Rightarrow>
          (if extras = [] then rigid_row_pair_message r r
           else rigid_row_fields_message r (quoted_names (map fst extras)))
      | ((None, None), _) \<Rightarrow> [])"

definition link_rigid_row :: "unifier \<Rightarrow> nat option \<Rightarrow> row \<Rightarrow> nat option \<Rightarrow> string option \<times> string option \<Rightarrow>
    string list \<Rightarrow> uf \<Rightarrow> outcome" where
  "link_rigid_row u row extras ext rigid names st =
     (case row of
        None \<Rightarrow> accept st
      | Some row \<Rightarrow>
          (let (target, st) = (case (extras = [], ext) of
                 (True, Some e) \<Rightarrow> (e, st)
               | _ \<Rightarrow> fresh (Structure (Record extras ext)) st) in
           case u row target st of
             None \<Rightarrow> None
           | Some (Inr _, st) \<Rightarrow> accept st
           | Some (Inl _, st) \<Rightarrow> mismatch (row_refusal extras ext rigid names) st))"

text \<open>An open side's row absorbs the other side's extra fields; a refusal there is dropped.\<close>

definition absorb_extras :: "unifier \<Rightarrow> nat option \<Rightarrow> row \<Rightarrow> nat option \<Rightarrow> uf \<Rightarrow> outcome" where
  "absorb_extras u row extras ext st =
     (case row of
        Some row \<Rightarrow>
          (if extras \<noteq> [] then
             (let (rec, st) = fresh (Structure (Record extras ext)) st in regardless (u row rec st) accept)
           else accept st)
      | None \<Rightarrow> accept st)"

definition shared_fields :: "row \<Rightarrow> row \<Rightarrow> (nat \<times> nat) list" where
  "shared_fields fs1 fs2 = List.map_filter (\<lambda>(k, v1). map_option (Pair v1) (map_of fs2 k)) fs1"

definition only_fields :: "row \<Rightarrow> row \<Rightarrow> row" where
  "only_fields fs1 fs2 = filter (\<lambda>(k, _). map_of fs2 k = None) fs1"

text \<open>The refusal of a field one side may not have; \<open>None\<close> when the field sets are compatible.\<close>

definition presence_refusal :: "bool \<Rightarrow> row \<Rightarrow> nat option \<Rightarrow> row \<Rightarrow> nat option \<Rightarrow> string option" where
  "presence_refusal contravariant only1 e1 only2 e2 =
     (let (act_only, act_closed, exp_only, exp_closed) =
            (if contravariant then (only2, e2 = None, only1, e1 = None) else (only1, e1 = None, only2, e2 = None));
          missing = act_closed \<and> exp_only \<noteq> [];
          unknown = exp_closed \<and> act_only \<noteq> [] in
      if missing \<and> unknown then Some (record_missing_msg exp_only @ '', and has '' @ unknown_fields_phrase act_only)
      else if missing then Some (record_missing_msg exp_only)
      else if unknown then Some (record_unknown_msg act_only)
      else None)"

definition unify_records :: "unifier \<Rightarrow> nat \<Rightarrow> nat \<Rightarrow> row \<Rightarrow> nat option \<Rightarrow> row \<Rightarrow> nat option \<Rightarrow> uf \<Rightarrow> outcome" where
  "unify_records u ra rb fs1 e1 fs2 e2 st =
     (let ((fs1, e1), st) = normalize_record fs1 e1 st;
          ((fs2, e2), st) = normalize_record fs2 e2 st;
          shared = shared_fields fs1 fs2;
          only1 = only_fields fs1 fs2;
          only2 = only_fields fs2 fs1 in
      case presence_refusal (uf_contravariant st) only1 e1 only2 e2 of
        Some msg \<Rightarrow> mismatch msg st
      | None \<Rightarrow>
          (let all_fields = add_fields fs1 fs2;
               (ext, st) = (if e1 = None \<or> e2 = None then (None, st) else (let (v, st) = fresh_flex st in (Some v, st)));
               (rigid1, st) = opt_rigid_name e1 st;
               (rigid2, st) = opt_rigid_name e2 st;
               st = uf_union ra rb (Structure (Record all_fields ext)) st in
           and_then (unify_pairs u shared st) (\<lambda>st.
             if rigid1 \<noteq> None \<or> rigid2 \<noteq> None then
               and_then (link_rigid_row u e1 only2 ext (rigid1, rigid2) (map fst all_fields) st)
                 (link_rigid_row u e2 only1 ext (rigid1, rigid2) (map fst all_fields))
             else
               and_then (absorb_extras u e1 only2 ext st) (absorb_extras u e2 only1 ext))))"

section \<open>Two structures\<close>

definition unify_flat :: "unifier \<Rightarrow> nat \<Rightarrow> nat \<Rightarrow> flat_ty \<Rightarrow> flat_ty \<Rightarrow> uf \<Rightarrow> outcome" where
  "unify_flat u ra rb f1 f2 st = (case (f1, f2) of
     (UnitTy, UnitTy) \<Rightarrow> accept (uf_union ra rb (Structure UnitTy) st)
   | (Fun a1 r1, Fun a2 r2) \<Rightarrow>
       (let st = uf_union ra rb (Structure f1) st;
            st = st\<lparr>uf_contravariant := \<not> uf_contravariant st\<rparr> in
        case u a1 a2 st of
          None \<Rightarrow> None
        | Some (params, st) \<Rightarrow>
            (let st = st\<lparr>uf_contravariant := \<not> uf_contravariant st\<rparr> in
             and_then (Some (params, st)) (u r1 r2)))
   | (Tuple xs, Tuple ys) \<Rightarrow>
       (if length xs \<noteq> length ys then
          mismatch (''tuple arity '' @ show_nat (length xs) @ '' vs '' @ show_nat (length ys)) st
        else unify_pairs u (zip xs ys) (uf_union ra rb (Structure f1) st))
   | (App n1 a1, App n2 a2) \<Rightarrow>
       (if same n1 n2 \<and> length a1 = length a2 then
          unify_pairs u (zip a1 a2)
            (uf_union ra rb (Structure (if most_specific n1 n2 = n1 then f1 else f2)) st)
        else
          (let (d1, st) = (if base_name n1 = base_name n2 then describe_flat_qualified f1 st else describe_flat f1 st);
               (d2, st) = (if base_name n1 = base_name n2 then describe_flat_qualified f2 st else describe_flat f2 st) in
           mismatch (''type mismatch: `'' @ d1 @ ''` vs `'' @ d2 @ ''`'') st))
   | (Record fs1 e1, Record fs2 e2) \<Rightarrow> unify_records u ra rb fs1 e1 fs2 e2 st
   | _ \<Rightarrow>
       (let (d1, st) = describe_flat f1 st; (d2, st) = describe_flat f2 st in
        mismatch (''type mismatch: '' @ d1 @ '' vs '' @ d2) st))"

section \<open>Two classes\<close>

definition rigid_super :: "unifier \<Rightarrow> nat \<Rightarrow> nat \<Rightarrow> string \<Rightarrow> super_type \<Rightarrow> uf \<Rightarrow> outcome" where
  "rigid_super u ra rb n s st =
     (let have = (case from_var_name n of Some b \<Rightarrow> b | None \<Rightarrow> 0) in
      if st_has s IntLit \<and> \<not> st_has have Number then
        u ra rb (default_int_literal rb (default_int_literal ra st))
      else
        (let s = st_minus s IntLit;
             missing = st_minus (st_minus (closure s) (closure have)) GoValue in
         if missing = 0 then accept (uf_union ra rb (Rigid n) st)
         else if missing = Encodable then
           accept (uf_union ra rb (Rigid n) (st\<lparr>uf_rigid_needs := uf_rigid_needs st @ [(n, missing)]\<rparr>))
         else
           (let st = (if st_has missing Encodable
                      then st\<lparr>uf_rigid_needs := uf_rigid_needs st @ [(n, Encodable)]\<rparr> else st);
                st = st\<lparr>uf_rigid_missing := uf_rigid_missing st @ [(n, st_minus missing Encodable)]\<rparr> in
            accept (uf_union ra rb (Rigid n) st))))"

definition rigid_concrete :: "nat \<Rightarrow> nat \<Rightarrow> string \<Rightarrow> uf \<Rightarrow> outcome" where
  "rigid_concrete ra rb n st =
     (let (c, st) = content_of ra st;
          other = (case c of Rigid _ \<Rightarrow> rb | _ \<Rightarrow> ra);
          (shown, st) = describe_advice other st in
      mismatch (rigid_concrete_message n shown) st)"

definition two_bounds :: "unifier \<Rightarrow> nat \<Rightarrow> nat \<Rightarrow> super_type \<Rightarrow> super_type \<Rightarrow> uf \<Rightarrow> outcome" where
  "two_bounds u ra rb s1 s2 st =
     (let s = closure (st_union s1 s2) in
      if is_satisfiable s then accept (uf_union ra rb (FlexSuper s) st)
      else if st_has s IntLit then u ra rb (default_int_literal rb (default_int_literal ra st))
      else if st_has s GoValue then
        mismatch (go_value_failure ''a value that must be a number, appendable or comparable'') st
      else
        mismatch (''no type is both a number and appendable (`++` needs a `String` or a `List`, '' @
          ''arithmetic needs an `Int` or a `Float`)'') st)"

definition bound_structure :: "unifier \<Rightarrow> nat \<Rightarrow> nat \<Rightarrow> super_type \<Rightarrow> flat_ty \<Rightarrow> uf \<Rightarrow> outcome" where
  "bound_structure u ra rb s ft st =
     (if st_has s NumVar then
        accept (uf_union ra rb (if ft = int_ty then FlexSuper s else Structure ft) st)
      else if st_has s IntLit then u ra rb (default_int_literal rb (default_int_literal ra st))
      else satisfy u ra rb s ft st)"

text \<open>Neither side is \<open>Error\<close> or \<open>Flex\<close>: the last case is the code's \<open>unreachable!\<close>.\<close>

definition unify_contents :: "unifier \<Rightarrow> nat \<Rightarrow> nat \<Rightarrow> uf \<Rightarrow> outcome" where
  "unify_contents u ra rb st =
     (let (ca, st) = content_of ra st; (cb, st) = content_of rb st in
      case (ca, cb) of
        (Rigid n1, Rigid n2) \<Rightarrow>
          (if n1 = n2 then accept (uf_union ra rb (Rigid n1) st) else mismatch (rigid_pair_message n1 n2) st)
      | (Rigid n, FlexSuper s) \<Rightarrow> rigid_super u ra rb n s st
      | (FlexSuper s, Rigid n) \<Rightarrow> rigid_super u ra rb n s st
      | (Rigid n, Structure _) \<Rightarrow> rigid_concrete ra rb n st
      | (Structure _, Rigid n) \<Rightarrow> rigid_concrete ra rb n st
      | (FlexSuper s1, FlexSuper s2) \<Rightarrow> two_bounds u ra rb s1 s2 st
      | (FlexSuper s, Structure ft) \<Rightarrow> bound_structure u ra rb s ft st
      | (Structure ft, FlexSuper s) \<Rightarrow> bound_structure u ra rb s ft st
      | (Structure f1, Structure f2) \<Rightarrow> unify_flat u ra rb f1 f2 st
      | _ \<Rightarrow> mismatch ''internal error: entered unreachable code'' st)"

definition unify_vars :: "unifier \<Rightarrow> nat \<Rightarrow> nat \<Rightarrow> uf \<Rightarrow> outcome" where
  "unify_vars u a b st =
     (let (ra, st) = uf_find a st; (rb, st) = uf_find b st in
      if ra = rb then accept st
      else (case (kind_of st ra, kind_of st rb) of
          (KError, _) \<Rightarrow> accept (uf_union ra rb Err st)
        | (_, KError) \<Rightarrow> accept (uf_union ra rb Err st)
        | (KFlex, KFlex) \<Rightarrow> accept (uf_union ra rb Flex st)
        | (KFlex, KOther) \<Rightarrow>
            (let (cyclic, st) = occurs rb ra st in
             if cyclic then infinite ra rb st
             else (let (other, st) = take_content rb st in accept (uf_union ra rb other st)))
        | (KOther, KFlex) \<Rightarrow>
            (let (cyclic, st) = occurs ra rb st in
             if cyclic then infinite ra rb st
             else (let (other, st) = take_content ra st in accept (uf_union ra rb other st)))
        | (KOther, KOther) \<Rightarrow> unify_contents u ra rb st))"

primrec unify_fuel :: "nat \<Rightarrow> unifier" where
  "unify_fuel 0 = (\<lambda>a b st. None)"
| "unify_fuel (Suc n) = unify_vars (unify_fuel n)"

section \<open>Fresh constraint nodes\<close>

text \<open>The fast form of unifying a closed record with a fresh \<open>{ fields | row }\<close>: the outer \<open>None\<close> is
  the case where it does not apply, and the caller runs \<open>unify\<close>.\<close>

fun link_values :: "unifier \<Rightarrow> bool \<Rightarrow> (nat \<times> nat) list \<Rightarrow> uf \<Rightarrow> outcome" where
  "link_values u fresh_values [] st = accept st"
| "link_values u fresh_values ((fv, v) # ps) st =
     (if fresh_values then
        (let (r, st) = uf_find fv st in link_values u fresh_values ps (link_fresh r v st))
      else and_then (u fv v st) (link_values u fresh_values ps))"

definition field_vars :: "row \<Rightarrow> row \<Rightarrow> nat list option" where
  "field_vars fs wanted =
     foldr (\<lambda>(k, _) acc. case (map_of fs k, acc) of (Some v, Some vs) \<Rightarrow> Some (v # vs) | _ \<Rightarrow> None) wanted (Some [])"

definition unify_closed_record_fresh_row :: "unifier \<Rightarrow> nat \<Rightarrow> nat \<Rightarrow> nat \<Rightarrow> row \<Rightarrow> bool \<Rightarrow> uf \<Rightarrow> outcome option \<times> uf" where
  "unify_closed_record_fresh_row u base rec row wanted fresh_values st =
     (let (ra, st) = uf_find base st; (rb, st) = uf_find rec st in
      if ra = rb then (None, st)
      else (case uf_slots st ! ra of
          Root (Structure (Record fs None)) _ \<Rightarrow>
            (case field_vars fs wanted of
               None \<Rightarrow> (None, st)
             | Some vs \<Rightarrow>
                 (let out = and_then (link_values u fresh_values (zip vs (map snd wanted)) (link_fresh ra rb st)) (\<lambda>st.
                        if length wanted < length fs then
                          (let (rest, st) = fresh (Structure (Record [] None)) st in
                           accept (set_content row (Structure (Record [] None)) (link_fresh row rest st)))
                        else accept st) in
                  (Some out, st)))
        | _ \<Rightarrow> (None, st)))"

definition reserve_unreachable :: "nat \<Rightarrow> uf \<Rightarrow> uf" where
  "reserve_unreachable n st = (((\<lambda>st. snd (fresh_flex st)) ^^ n) st)"

end
