(* ===== verification/Unify_Fuel.thy ===== *)
theory Unify_Fuel
  imports Unify
begin

text \<open>
  More fuel never changes an outcome of \<open>unify\<close>: the operations that call \<open>unify\<close> are monotone in it, in
  the order where a run without an outcome is below every outcome. So the outcome of a run that ends is a fact about the code, not
  about the fuel chosen.
\<close>

definition upto :: "outcome \<Rightarrow> outcome \<Rightarrow> bool" where
  "upto out out' \<longleftrightarrow> out = None \<or> out = out'"

lemma upto_refl [simp, intro!]: "upto out out" and upto_None [simp, intro!]: "upto None out"
  by (simp_all add: upto_def)

lemma upto_and_then: "upto out out' \<Longrightarrow> (\<And>st. upto (k st) (k' st)) \<Longrightarrow> upto (and_then out k) (and_then out' k')"
  by (auto simp: upto_def and_then_def split: option.splits sum.splits prod.splits)

lemma upto_regardless: "upto out out' \<Longrightarrow> (\<And>st. upto (k st) (k' st)) \<Longrightarrow> upto (regardless out k) (regardless out' k')"
  by (auto simp: upto_def regardless_def split: option.splits prod.splits)

lemma upto_case: "upto out out' \<Longrightarrow> (\<And>r st. upto (k r st) (k' r st)) \<Longrightarrow>
    upto (case out of None \<Rightarrow> None | Some (r, st) \<Rightarrow> k r st) (case out' of None \<Rightarrow> None | Some (r, st) \<Rightarrow> k' r st)"
  by (auto simp: upto_def split: option.splits)

locale more_fuel =
  fixes u u' :: unifier
  assumes more: "\<And>a b st. upto (u a b st) (u' a b st)"
begin

lemma pairs: "upto (unify_pairs u ps st) (unify_pairs u' ps st)"
  by (induction ps arbitrary: st) (auto intro!: upto_and_then more)

lemma elements: "upto (need_elements u e cs st) (need_elements u' e cs st)"
  by (induction cs arbitrary: st) (auto simp: Let_def split: prod.split intro!: upto_and_then more)

lemma bound: "upto (satisfy u ra rb s ft st) (satisfy u' ra rb s ft st)"
  by (simp add: satisfy_def satisfy_sky_def Let_def case_prod_beta elements split: option.split)

lemma rigid_row: "upto (link_rigid_row u row extras ext rigid names st) (link_rigid_row u' row extras ext rigid names st)"
proof (cases row)
  case (Some e)
  obtain t st' where t: "(case (extras = [], ext) of (True, Some e) \<Rightarrow> (e, st)
      | _ \<Rightarrow> fresh (Structure (Record extras ext)) st) = (t, st')" by force
  have "upto (case u e t st' of None \<Rightarrow> None | Some (r, st) \<Rightarrow>
        (case r of Inr _ \<Rightarrow> accept st | Inl _ \<Rightarrow> mismatch (row_refusal extras ext rigid names) st))
      (case u' e t st' of None \<Rightarrow> None | Some (r, st) \<Rightarrow>
        (case r of Inr _ \<Rightarrow> accept st | Inl _ \<Rightarrow> mismatch (row_refusal extras ext rigid names) st))"
    by (rule upto_case[OF more]) simp
  with Some t show ?thesis unfolding link_rigid_row_def by (simp add: Let_def) 
qed (simp add: link_rigid_row_def)

lemma absorb: "upto (absorb_extras u row extras ext st) (absorb_extras u' row extras ext st)"
  by (auto simp: absorb_extras_def Let_def case_prod_beta split: option.split intro!: upto_regardless more)

lemma records: "upto (unify_records u ra rb fs1 e1 fs2 e2 st) (unify_records u' ra rb fs1 e1 fs2 e2 st)"
  unfolding unify_records_def Let_def
  by (auto simp: case_prod_beta split: option.split intro!: upto_and_then pairs rigid_row absorb)

lemma flat: "upto (unify_flat u ra rb f1 f2 st) (unify_flat u' ra rb f1 f2 st)"
proof (cases "\<exists>a1 r1 a2 r2. f1 = Fun a1 r1 \<and> f2 = Fun a2 r2")
  case True
  then show ?thesis
    by (auto simp: unify_flat_def Let_def intro!: upto_case upto_and_then more)
next
  case False
  then show ?thesis
    by (cases f1; cases f2) (auto simp: unify_flat_def Let_def case_prod_beta intro!: pairs records)
qed

lemma contents: "upto (unify_contents u ra rb st) (unify_contents u' ra rb st)"
proof -
  have "upto (rigid_super u ra rb n s st) (rigid_super u' ra rb n s st)"
    "upto (two_bounds u ra rb s t st) (two_bounds u' ra rb s t st)"
    "upto (bound_structure u ra rb s ft st) (bound_structure u' ra rb s ft st)" for n s t ft st
    by (simp_all add: rigid_super_def two_bounds_def bound_structure_def Let_def more bound)
  with flat show ?thesis
    by (auto simp: unify_contents_def Let_def case_prod_beta split: content.split)
qed

lemma vars: "upto (unify_vars u a b st) (unify_vars u' a b st)"
  by (simp add: unify_vars_def Let_def case_prod_beta contents split: kind.split)

end

lemma more_fuel_le: "n \<le> m \<Longrightarrow> more_fuel (unify_fuel n) (unify_fuel m)"
proof (induction n arbitrary: m)
  case (Suc n)
  then obtain k where m: "m = Suc k" "n \<le> k" by (cases m) auto
  from more_fuel.vars[OF Suc.IH[OF m(2)]] show ?case unfolding m(1) by (intro more_fuel.intro) simp
qed (simp add: more_fuel_def)

interpretation fuel: more_fuel "unify_fuel n" "unify_fuel (n + k)" for n k
  by (rule more_fuel_le) simp

text \<open>a run of \<open>unify\<close> that ends has one outcome and one final store, whatever larger fuel it is given,
  so an outcome found with some fuel is the outcome of the code.\<close>

theorem unify_outcome_unique:
  assumes "unify_fuel n a b st = Some out" "unify_fuel m a b st = Some out'"
  shows "out = out'"
proof -
  have "unify_fuel (n + m) a b st = Some out" "unify_fuel (n + m) a b st = Some out'"
    using fuel.more[of n a b st m] fuel.more[of m a b st n] assms by (simp_all add: upto_def add.commute)
  then show ?thesis by simp
qed

end
