(* ===== verification/Unify_Ok.thy ===== *)
theory Unify_Ok
  imports Unify
begin

text \<open>
  What unification keeps, whatever it is given (\<open>ty/src/unify.rs\<close>): the occurs check decides
  reachability, the store stays well formed, classes only ever merge, and a success leaves both
  variables in one class. The lemmas of the operations that call \<open>unify\<close> are proved against the contract
  of the locale \<open>unifier_contract\<close>, which \<open>unify_fuel\<close> meets for every fuel.
\<close>

section \<open>The occurs check\<close>

definition child :: "uf \<Rightarrow> (nat \<times> nat) set" where
  "child st = {(class_of st v, class_of st c) | v c. v < size_of st \<and> c \<in> set (content_children (cont st v))}"

text \<open>Marks of earlier calls are at most the epoch, so the next epoch marks nothing yet.\<close>

definition marks_ok :: "uf \<Rightarrow> bool" where
  "marks_ok st \<longleftrightarrow> (\<forall>m \<in> set (uf_mark st). m \<le> uf_epoch st) \<and> length (uf_mark st) \<le> size_of st"

lemma child_view: "view st st' \<Longrightarrow> uf_ok st \<Longrightarrow> child st' = child st"
proof -
  assume v: "view st st'" and ok: "uf_ok st"
  have eq: "size_of st' = size_of st" "\<And>u. u < size_of st \<Longrightarrow> class_of st' u = class_of st u"
    "\<And>u. u < size_of st \<Longrightarrow> cont st' u = cont st u" using v by (simp_all add: view_def)
  have less: "v < size_of st \<Longrightarrow> c \<in> set (content_children (cont st v)) \<Longrightarrow> c < size_of st" for v c
    using cont_children_less[OF ok] .
  show ?thesis unfolding child_def
    by (rule Collect_cong, rule iff_exI, rule iff_exI) (use eq less in auto)
qed

lemma childI: "uf_ok st \<Longrightarrow> v < size_of st \<Longrightarrow> c \<in> set (content_children (cont st v)) \<Longrightarrow>
    (class_of st v, class_of st c) \<in> child st"
  by (auto simp: child_def)

lemma childD: "uf_ok st \<Longrightarrow> v < size_of st \<Longrightarrow> (class_of st v, y) \<in> child st \<Longrightarrow>
    \<exists>c \<in> set (content_children (cont st v)). y = class_of st c"
  unfolding child_def by (clarsimp, metis cont_class)

abbreviation marked :: "32 word list \<Rightarrow> 32 word \<Rightarrow> nat set" where
  "marked mark epoch \<equiv> {r. r < length mark \<and> mark ! r = epoch}"

text \<open>From a closed set of visited classes the target is only reached through the stack.\<close>

lemma reach_through_stack:
  assumes "(r, t) \<in> E\<^sup>*" "r \<in> V" "t \<notin> V" "\<forall>r \<in> V. \<forall>c. (r, c) \<in> E \<longrightarrow> c \<in> V \<or> c \<in> S"
  shows "\<exists>s \<in> S. (s, t) \<in> E\<^sup>*"
  using assms by (induction rule: converse_rtrancl_induct) auto

lemma occurs_loop_reach:
  assumes "uf_ok st0"
  shows "view st0 st \<Longrightarrow> size_of st0 \<le> length mark \<Longrightarrow> \<forall>x \<in> set stack. x < size_of st0 \<Longrightarrow>
    target \<notin> marked mark epoch \<Longrightarrow>
    \<forall>r \<in> marked mark epoch. \<forall>c. (r, c) \<in> child st0 \<longrightarrow> c \<in> marked mark epoch \<or> c \<in> class_of st0 ` set stack \<Longrightarrow>
    occurs_loop target epoch stack mark st = (found, mark', st') \<Longrightarrow>
    (found \<longleftrightarrow> (\<exists>x \<in> set stack. (class_of st0 x, target) \<in> (child st0)\<^sup>*)) \<and> view st0 st' \<and>
    length mark' = length mark \<and> set mark' \<subseteq> insert epoch (set mark)"
proof (induction target epoch stack mark st rule: occurs_loop.induct)
  case (1 target epoch mark st)
  from 1(6) have "found = False" "mark' = mark" "st' = st" by simp_all
  with 1(1) show ?case by auto
next
  case (2 target epoch x stack mark st)
  have ok: "uf_ok st" "size_of st = size_of st0" "class_of st x = class_of st0 x" "cont st x = cont st0 x"
    using 2(3,5) by (auto simp: view_def)
  have x: "x < size_of st" "x < size_of st0" using 2(5) ok by auto
  obtain st1 where f: "uf_find x st = (class_of st0 x, st1)" "view st st1"
    using uf_find_view[OF ok(1) x(1)] ok(3) by metis
  have v1: "view st0 st1" using 2(3) f(2) by (rule view_trans)
  let ?r = "class_of st0 x"
  have r: "?r < length mark" using class_less[OF assms x(2)] 2(4) by simp
  have c: "slot_content st1 ?r = cont st0 x"
  proof -
    have "cont st1 x = cont st0 x" "class_of st1 x = ?r" using v1 x(2) by (simp_all add: view_def)
    with cont_def[of st1 x] show ?thesis by simp
  qed
  show ?case
  proof (cases "?r = target")
    case True
    with 2(8) f v1 show ?thesis by auto
  next
    case nt: False
    show ?thesis
    proof (cases "mark ! ?r = epoch")
      case True
      have loop: "occurs_loop target epoch stack mark st1 = (found, mark', st')"
        using 2(8) f nt r True by simp
      have inv: "\<forall>q \<in> marked mark epoch. \<forall>c. (q, c) \<in> child st0 \<longrightarrow> c \<in> marked mark epoch \<or> c \<in> class_of st0 ` set stack"
        using 2(7) r True by auto
      have IH: "(found \<longleftrightarrow> (\<exists>x \<in> set stack. (class_of st0 x, target) \<in> (child st0)\<^sup>*)) \<and> view st0 st' \<and>
          length mark' = length mark \<and> set mark' \<subseteq> insert epoch (set mark)"
        by (rule 2(1)[OF f(1)[symmetric] refl nt _ True v1 2(4) _ 2(6) inv loop]) (use r 2(5) in auto)
      have "(?r, target) \<in> (child st0)\<^sup>* \<Longrightarrow> \<exists>x \<in> set stack. (class_of st0 x, target) \<in> (child st0)\<^sup>*"
        using reach_through_stack[OF _ _ 2(6) inv] r True by blast
      with IH show ?thesis by auto
    next
      case False
      let ?st = "rev (content_children (cont st0 x)) @ stack" and ?m = "mark[?r := epoch]"
      have loop: "occurs_loop target epoch ?st ?m st1 = (found, mark', st')"
        using 2(8) f nt r False c by simp
      have mk: "marked ?m epoch = insert ?r (marked mark epoch)" using r by (auto simp: nth_list_update)
      have kids: "(?r, y) \<in> child st0 \<longleftrightarrow> y \<in> class_of st0 ` set (content_children (cont st0 x))" for y
        using childD[OF assms x(2)] childI[OF assms x(2)] by blast
      have inv: "\<forall>q \<in> marked ?m epoch. \<forall>c. (q, c) \<in> child st0 \<longrightarrow> c \<in> marked ?m epoch \<or> c \<in> class_of st0 ` set ?st"
        unfolding mk using 2(7) kids by auto
      have IH: "(found \<longleftrightarrow> (\<exists>x \<in> set ?st. (class_of st0 x, target) \<in> (child st0)\<^sup>*)) \<and> view st0 st' \<and>
          length mark' = length ?m \<and> set mark' \<subseteq> insert epoch (set ?m)"
        by (rule 2(2)[OF f(1)[symmetric] refl nt _ False v1, unfolded c, OF _ _ _ _ inv loop])
          (use r 2(4-6) nt mk cont_children_less[OF assms x(2)] in auto)
      have "(?r, target) \<in> (child st0)\<^sup>* \<longleftrightarrow> (\<exists>y \<in> set (content_children (cont st0 x)). (class_of st0 y, target) \<in> (child st0)\<^sup>*)"
      proof
        assume "(?r, target) \<in> (child st0)\<^sup>*"
        then obtain y where "(?r, y) \<in> child st0" "(y, target) \<in> (child st0)\<^sup>*"
          using nt by (cases rule: converse_rtranclE) auto
        then show "\<exists>y \<in> set (content_children (cont st0 x)). (class_of st0 y, target) \<in> (child st0)\<^sup>*"
          unfolding kids by auto
      qed (use kids in \<open>auto intro: converse_rtrancl_into_rtrancl\<close>)
      with IH set_update_subset_insert[of mark ?r epoch] show ?thesis by auto
    qed
  qed
qed

text \<open>A store with the same classes and contents; only the scratch of the occurs check may differ.\<close>

definition same_store :: "uf \<Rightarrow> uf \<Rightarrow> bool" where
  "same_store st st' \<longleftrightarrow> uf_ok st' \<and> marks_ok st' \<and> size_of st' = size_of st \<and>
     (\<forall>u < size_of st. class_of st' u = class_of st u \<and> cont st' u = cont st u) \<and>
     uf_contravariant st' = uf_contravariant st \<and> uf_pending st' = uf_pending st \<and>
     uf_rigid_needs st' = uf_rigid_needs st \<and> uf_rigid_missing st' = uf_rigid_missing st \<and>
     uf_int_literals st' = uf_int_literals st"

lemma view_same: "view st st' \<Longrightarrow> marks_ok st \<Longrightarrow> same_store st st'"
  unfolding view_def same_store_def keeps_rest_def marks_ok_def
  by (metis uf.select_convs uf.surjective uf.update_convs(1))

lemma occurs_reach:
  assumes "uf_ok st" "marks_ok st" "v < size_of st" "t < size_of st" "occurs v t st = (found, st')"
  shows "(found \<longleftrightarrow> (class_of st v, class_of st t) \<in> (child st)\<^sup>*) \<and> same_store st st'"
proof -
  obtain st1 where f: "uf_find t st = (class_of st t, st1)" "view st st1" using uf_find_view[OF assms(1,4)] .
  have s1: "same_store st st1" using f(2) assms(2) by (rule view_same)
  then have ok1: "uf_ok st1" "marks_ok st1" "size_of st1 = size_of st" by (simp_all add: same_store_def)
  define e where "e = (if uf_epoch st1 + 1 = 0 then 1 else uf_epoch st1 + 1)"
  define m where "m = (if uf_epoch st1 + 1 = 0 then map (\<lambda>_. 0) (uf_mark st1) else uf_mark st1) @
    replicate (size_of st1 - length (uf_mark st1)) 0"
  have len: "length m = size_of st" using ok1 by (auto simp: m_def marks_ok_def)
  have small: "\<forall>x \<in> set m. x < e"
  proof (cases "uf_epoch st1 + 1 = 0")
    case False
    then have up: "uf_epoch st1 < uf_epoch st1 + 1" using unatSuc[of "uf_epoch st1"] by (simp add: word_less_nat_alt add.commute)
    then have "(0 :: 32 word) < uf_epoch st1 + 1" by (metis word_gt_0 False)
    with False up ok1(2) show ?thesis by (auto simp: m_def e_def marks_ok_def)
  qed (auto simp: m_def e_def)
  then have none: "marked m e = {}" by (auto dest: nth_mem)
  obtain b m' st2 where l: "occurs_loop (class_of st t) e [v] m st1 = (b, m', st2)" by (cases "occurs_loop (class_of st t) e [v] m st1")
  have r: "(b \<longleftrightarrow> (\<exists>x \<in> set [v]. (class_of st x, class_of st t) \<in> (child st)\<^sup>*)) \<and> view st st2 \<and>
      length m' = length m \<and> set m' \<subseteq> insert e (set m)"
    by (rule occurs_loop_reach[OF assms(1) f(2) _ _ _ _ l]) (use len assms(3) none in auto)
  have out: "found = b" "st' = st2\<lparr>uf_mark := m', uf_epoch := e\<rparr>"
    using assms(5) f(1) l by (auto simp: occurs_def Let_def m_def e_def simp del: occurs_loop.simps split: if_splits)
  have s2: "same_store st st2" using r assms(2) by (intro view_same) auto
  have fields: "uf_slots st' = uf_slots st2" by (simp add: out(2))
  then have same: "class_of st' = class_of st2" "cont st' = cont st2" "uf_ok st' = uf_ok st2"
    by (simp_all add: class_of_def cont_def slot_content_def uf_ok_def fun_eq_iff)
  have "\<forall>x \<in> set m'. x \<le> e" using r small by fastforce
  then have "marks_ok st'" using r len s2 by (auto simp: marks_ok_def out(2) same_store_def)
  with s2 same r out show ?thesis by (simp add: same_store_def)
qed

section \<open>Rows and advice\<close>

abbreviation row_vars :: "row \<Rightarrow> nat set" where
  "row_vars fs \<equiv> snd ` set fs"

lemma row_vars_or_insert: "row_vars (or_insert k v m) \<subseteq> insert v (row_vars m)"
  by (induction k v m rule: or_insert.induct) auto

lemma row_vars_add_fields: "row_vars (add_fields fs more_fs) \<subseteq> row_vars fs \<union> row_vars more_fs"
proof (induction more_fs arbitrary: fs)
  case (Cons kv kvs)
  obtain k v where kv: "kv = (k, v)" by force
  with Cons.IH[of "or_insert k v fs"] row_vars_or_insert[of k v fs] show ?case by (auto simp: add_fields_def)
qed (simp add: add_fields_def)

lemma row_walk_view:
  assumes "uf_ok st0"
  shows "view st0 st \<Longrightarrow> \<forall>v \<in> row_vars fs. v < size_of st0 \<Longrightarrow> (case cur of Some e \<Rightarrow> e < size_of st0 | None \<Rightarrow> True) \<Longrightarrow>
    row_walk n fs cur seen st = ((fs', e'), st') \<Longrightarrow>
    view st0 st' \<and> (\<forall>v \<in> row_vars fs'. v < size_of st0) \<and> (case e' of Some e \<Rightarrow> e < size_of st0 | None \<Rightarrow> True)"
proof (induction n arbitrary: fs cur seen st)
  case (Suc n)
  show ?case
  proof (cases cur)
    case None
    with Suc.prems show ?thesis by simp
  next
    case (Some e)
    have ok: "uf_ok st" "size_of st = size_of st0" "e < size_of st" using Suc.prems Some by (auto simp: view_def)
    obtain st1 where f: "uf_find e st = (class_of st e, st1)" "view st st1" using uf_find_view[OF ok(1,3)] .
    have v: "view st0 st1" using Suc.prems(1) f(2) by (rule view_trans)
    have ok1: "uf_ok st1" "size_of st1 = size_of st0" using v by (auto simp: view_def)
    let ?r = "class_of st e"
    have r: "?r < size_of st0" using class_less[OF ok(1,3)] ok(2) by simp
    show ?thesis
    proof (cases "?r \<notin> seen \<and> (\<exists>inner ext k. uf_slots st1 ! ?r = Root (Structure (Record inner ext)) k)")
      case False
      then have "((fs', e'), st') = ((fs, Some ?r), st1)"
        using Suc.prems(4) Some f by (auto split: if_splits slot.splits content.splits flat_ty.splits)
      with v r Suc.prems(2) show ?thesis by simp
    next
      case True
      then obtain inner ext k where slot: "?r \<notin> seen" "uf_slots st1 ! ?r = Root (Structure (Record inner ext)) k" by blast
      have walk: "row_walk n (add_fields fs inner) ext (insert ?r seen) st1 = ((fs', e'), st')"
        using Suc.prems(4) Some f slot by simp
      have "is_root (uf_slots st1) ?r" using slot(2) r ok1(2) by (auto simp: is_root_def)
      then have "class_of st1 ?r = ?r" using rep_of_root by (simp add: class_of_def)
      then have "cont st1 ?r = Structure (Record inner ext)" using slot(2) by (simp add: cont_def slot_content_def)
      then have kids: "\<forall>x \<in> set (flat_children (Record inner ext)). x < size_of st0"
        using cont_children_less[OF ok1(1), of ?r] r ok1(2) by (simp add: content_children_def)
      show ?thesis
        by (rule Suc.IH[OF v _ _ walk])
          (use kids Suc.prems(2) row_vars_add_fields[of fs inner] in \<open>force simp: flat_children_def split: option.splits\<close>)+
    qed
  qed
qed simp

lemma normalize_record_view:
  assumes "uf_ok st" "\<forall>x \<in> set (flat_children (Record fs ext)). x < size_of st"
    "normalize_record fs ext st = ((fs', e'), st')"
  shows "view st st' \<and> (\<forall>x \<in> set (flat_children (Record fs' e')). x < size_of st)"
proof -
  have "view st st' \<and> (\<forall>v \<in> row_vars fs'. v < size_of st) \<and> (case e' of Some e \<Rightarrow> e < size_of st | None \<Rightarrow> True)"
    by (rule row_walk_view[OF assms(1) view_refl[OF assms(1)] _ _ assms(3)[unfolded normalize_record_def]])
      (use assms(2) in \<open>auto simp: flat_children_def split: option.splits\<close>)
  then show ?thesis by (auto simp: flat_children_def split: option.splits)
qed

lemma on_store_view: "view st0 (snd a) \<Longrightarrow> view (snd a) (snd (f (snd a))) \<Longrightarrow> view st0 (snd (snd (on_store f a)))"
  by (auto simp: on_store_def case_prod_beta Let_def intro: view_trans)

lemma name_store: "snd (snd (name_var r pre a)) = snd a" "snd (snd (name_row r a)) = snd a"
  by (auto simp: name_var_def name_row_def Let_def split: option.split prod.splits)

lemma map_state_keeps:
  assumes "\<And>x a. x \<in> set xs \<Longrightarrow> P a \<Longrightarrow> P (snd (f x a))"
  shows "P a \<Longrightarrow> P (snd (map_state f xs a))"
  using assms by (induction xs arbitrary: a) (auto simp: case_prod_beta Let_def)

text \<open>Rendering keeps the view, so a loop over children may use the children's bounds throughout.\<close>

lemma find_on_store:
  assumes "uf_ok st0" "view st0 (snd a)" "v < size_of st0"
  shows "view st0 (snd (snd (on_store (uf_find v) a))) \<and> fst (on_store (uf_find v) a) = class_of st0 v"
proof -
  have ok: "uf_ok (snd a)" "v < size_of (snd a)" "class_of (snd a) v = class_of st0 v"
    using assms by (auto simp: view_def)
  obtain st1 where "uf_find v (snd a) = (class_of (snd a) v, st1)" "view (snd a) st1" using uf_find_view[OF ok(1,2)] .
  with assms(2) ok(3) show ?thesis by (auto simp: on_store_def intro: view_trans)
qed

lemma content_on_store:
  assumes "uf_ok st0" "view st0 (snd a)" "v < size_of st0"
  shows "view st0 (snd (snd (on_store (content_of v) a))) \<and> fst (on_store (content_of v) a) = cont st0 v"
proof -
  have ok: "uf_ok (snd a)" "v < size_of (snd a)" "cont (snd a) v = cont st0 v"
    using assms by (auto simp: view_def)
  obtain st1 where "content_of v (snd a) = (cont (snd a) v, st1)" "view (snd a) st1" using content_of_view[OF ok(1,2)] .
  with assms(2) ok(3) show ?thesis by (auto simp: on_store_def intro: view_trans)
qed

lemma advice_row_view:
  assumes "uf_ok st0" "view st0 (snd a)" "case ext of Some e \<Rightarrow> e < size_of st0 | None \<Rightarrow> True"
  shows "view st0 (snd (snd (advice_row ext a)))"
proof (cases ext)
  case (Some e)
  have e: "e < size_of st0" using assms(3) Some by simp
  note f = find_on_store[OF assms(1,2) e]
  note c = content_on_store[OF assms(1) conjunct1[OF f] class_less[OF assms(1) e]]
  show ?thesis using f c Some name_store
    by (auto simp: advice_row_def case_prod_beta Let_def split: content.splits)
qed (use assms in \<open>simp add: advice_row_def\<close>)

lemma advice_var_view:
  assumes "uf_ok st0"
  shows "view st0 (snd a) \<Longrightarrow> v < size_of st0 \<Longrightarrow> view st0 (snd (snd (advice_var n v a)))"
proof (induction n arbitrary: v a)
  case (Suc n)
  note f = find_on_store[OF assms Suc.prems]
  then obtain a1 where a1: "on_store (uf_find v) a = (class_of st0 v, a1)" "view st0 (snd a1)"
    by (metis prod.collapse)
  note c = content_on_store[OF assms a1(2) class_less[OF assms Suc.prems(2)]]
  then obtain a2 where a2: "on_store (content_of (class_of st0 v)) a1 = (cont st0 v, a2)" and v2: "view st0 (snd a2)"
    using cont_class[OF assms Suc.prems(2)] by (metis prod.collapse)
  have kids: "cont st0 v = Structure ft \<Longrightarrow> \<forall>x \<in> set (flat_children ft). x < size_of st0" for ft
    using cont_children_less[OF assms Suc.prems(2)] by (simp add: content_children_def)
  have many: "\<forall>x \<in> set xs. x < size_of st0 \<Longrightarrow> view st0 (snd a) \<Longrightarrow> view st0 (snd (snd (map_state (advice_var n) xs a)))" for xs a
    by (rule map_state_keeps[where P = "\<lambda>a. view st0 (snd a)"]) (auto intro: Suc.IH)
  have row: "view st0 (snd (snd (map_state (\<lambda>(k, t) a. let (s, a) = advice_var n t a in (k @ '' : '' @ s, a)) fs a)))"
    if "\<forall>x \<in> row_vars fs. x < size_of st0" "view st0 (snd a)" for fs :: row and a
    by (rule map_state_keeps[where P = "\<lambda>a. view st0 (snd a)"])
      (use that in \<open>auto simp: case_prod_beta Let_def intro: Suc.IH\<close>)
  show ?case
  proof (cases "cont st0 v")
    case (Structure ft)
    note k = kids[OF Structure]
    show ?thesis
    proof (cases ft)
      case (Record fs ext)
      obtain fs' e' st' where n: "normalize_record fs ext (snd a2) = ((fs', e'), st')"
        by (metis prod.collapse)
      have "view (snd a2) st' \<and> (\<forall>x \<in> set (flat_children (Record fs' e')). x < size_of (snd a2))"
        by (rule normalize_record_view[OF _ _ n]) (use v2 k Record in \<open>auto simp: view_def\<close>)
      then have nv: "view st0 st'" "\<forall>x \<in> row_vars fs'. x < size_of st0"
        "case e' of Some e \<Rightarrow> e < size_of st0 | None \<Rightarrow> True"
        using v2 view_trans[OF v2] by (auto simp: view_def flat_children_def split: option.splits)
      have on: "on_store (normalize_record fs ext) a2 = ((fs', e'), (fst a2, st'))"
        using n by (simp add: on_store_def)
      show ?thesis
        using a1 a2 Structure Record on row[OF nv(2)] advice_row_view[OF assms _ nv(3)] nv(1)
        by (simp add: case_prod_beta Let_def)
    qed (use a1 a2 Structure k many[OF _ v2] Suc.IH[OF v2] Suc.IH v2 in
        \<open>simp_all add: case_prod_beta Let_def flat_children_def\<close>)
  qed (use a1 a2 v2 name_store in \<open>simp_all add: Let_def\<close>)
qed simp

lemma describe_advice_view:
  assumes "uf_ok st" "v < size_of st"
  shows "view st (snd (describe_advice v st))"
proof -
  have "view st (snd (let (s, (_, st)) = advice_var n v ((Map.empty, 0, 0), st) in (s, st)))" for n
    using advice_var_view[OF assms(1), of "((Map.empty, 0, 0), st)" v n] assms
    by (cases "advice_var n v ((Map.empty, 0, 0), st)") (simp add: Let_def case_prod_beta)
  then show ?thesis unfolding describe_advice_def .
qed

section \<open>Classes only merge\<close>

definition grows :: "uf \<Rightarrow> uf \<Rightarrow> bool" where
  "grows st st' \<longleftrightarrow> uf_ok st' \<and> marks_ok st' \<and> size_of st \<le> size_of st' \<and>
     (\<forall>u < size_of st. \<forall>v < size_of st. class_of st u = class_of st v \<longrightarrow> class_of st' u = class_of st' v) \<and>
     uf_contravariant st' = uf_contravariant st"

lemma grows_refl [simp]: "uf_ok st \<Longrightarrow> marks_ok st \<Longrightarrow> grows st st"
  by (simp add: grows_def)

lemma grows_trans [trans]: "grows a b \<Longrightarrow> grows b c \<Longrightarrow> grows a c"
  unfolding grows_def by (meson le_trans order.strict_trans2)

lemma growsD: "grows st st' \<Longrightarrow> uf_ok st' \<and> marks_ok st' \<and> size_of st \<le> size_of st'"
  by (simp add: grows_def)

lemma grows_less: "grows st st' \<Longrightarrow> v < size_of st \<Longrightarrow> v < size_of st'"
  using growsD by fastforce

lemma grows_class: "grows st st' \<Longrightarrow> u < size_of st \<Longrightarrow> v < size_of st \<Longrightarrow> class_of st u = class_of st v \<Longrightarrow>
    class_of st' u = class_of st' v"
  unfolding grows_def by blast

lemma same_grows: "same_store st st' \<Longrightarrow> grows st st'"
  by (simp add: same_store_def grows_def)

lemma view_grows: "view st st' \<Longrightarrow> marks_ok st \<Longrightarrow> grows st st'"
  by (intro same_grows view_same)

lemma keeps_rest_marks: "keeps_rest st st' \<Longrightarrow> uf_mark st' = uf_mark st \<and> uf_epoch st' = uf_epoch st \<and>
    uf_contravariant st' = uf_contravariant st"
  unfolding keeps_rest_def by (metis uf.select_convs uf.surjective uf.update_convs(1))

lemma merged_grows: "merged st st' A c \<Longrightarrow> marks_ok st \<Longrightarrow> grows st st'"
  unfolding merged_def grows_def marks_ok_def using keeps_rest_marks[of st st'] by auto

lemma fresh_grows:
  assumes "uf_ok st" "marks_ok st" "\<forall>x \<in> set (content_children c). x \<le> size_of st" "fresh c st = (v, st')"
  shows "grows st st' \<and> v = size_of st \<and> v < size_of st' \<and> cont st' v = c"
proof -
  have "uf_mark st' = uf_mark st" "uf_epoch st' = uf_epoch st" "uf_contravariant st' = uf_contravariant st"
    using assms(4) by (auto simp: fresh_def Let_def)
  with fresh_view[OF assms(1,3,4)] assms(2) show ?thesis by (auto simp: grows_def marks_ok_def)
qed

text \<open>Fields the classes do not depend on.\<close>

lemma same_slots: "uf_slots st' = uf_slots st \<Longrightarrow> class_of st' = class_of st \<and> cont st' = cont st \<and> uf_ok st' = uf_ok st"
  by (simp add: class_of_def cont_def slot_content_def uf_ok_def fun_eq_iff)

lemma grows_update:
  assumes "uf_ok st" "marks_ok st" "uf_slots st' = uf_slots st" "uf_mark st' = uf_mark st" "uf_epoch st' = uf_epoch st"
    "uf_contravariant st' = uf_contravariant st"
  shows "grows st st'"
  using same_slots[OF assms(3)] assms by (simp add: grows_def marks_ok_def)

text \<open>What a run under the flipped flag leaves, flipped back.\<close>

lemma grows_flip:
  assumes "uf_ok st" "marks_ok st" "grows (st\<lparr>uf_contravariant := \<not> uf_contravariant st\<rparr>) st'"
  shows "grows st (st'\<lparr>uf_contravariant := \<not> uf_contravariant st'\<rparr>)"
proof -
  let ?s = "st\<lparr>uf_contravariant := \<not> uf_contravariant st\<rparr>" and ?t = "st'\<lparr>uf_contravariant := \<not> uf_contravariant st'\<rparr>"
  have s: "class_of ?s = class_of st" "size_of ?s = size_of st" by (simp_all add: same_slots[of ?s st])
  have t: "class_of ?t = class_of st'" "uf_ok ?t = uf_ok st'" "marks_ok ?t = marks_ok st'" "size_of ?t = size_of st'"
    by (simp_all add: same_slots[of ?t st'] marks_ok_def)
  have f: "uf_contravariant ?t = uf_contravariant st" using assms(3) unfolding grows_def by simp
  show ?thesis using assms(3) f unfolding grows_def s t by blast
qed

section \<open>Outcomes\<close>

definition good :: "uf \<Rightarrow> outcome \<Rightarrow> bool" where
  "good st out \<longleftrightarrow> (case out of None \<Rightarrow> True | Some (_, st') \<Rightarrow> grows st st')"

definition joins :: "uf \<Rightarrow> nat \<Rightarrow> nat \<Rightarrow> outcome \<Rightarrow> bool" where
  "joins st a b out \<longleftrightarrow> good st out \<and>
     (\<forall>st'. out = Some (Inr (), st') \<longrightarrow> class_of st' a = class_of st' b)"

lemma good_accept [simp]: "good st (accept st') \<longleftrightarrow> grows st st'"
  by (simp add: good_def accept_def)

lemma good_mismatch [simp]: "good st (mismatch msg st') \<longleftrightarrow> grows st st'"
  by (simp add: good_def mismatch_def)

lemma joins_mismatch [simp]: "joins st a b (mismatch msg st') \<longleftrightarrow> grows st st'"
  by (simp add: joins_def) (simp add: mismatch_def)

lemma joins_good: "joins st a b out \<Longrightarrow> good st out"
  by (simp add: joins_def)

lemma good_trans: "grows st st' \<Longrightarrow> good st' out \<Longrightarrow> good st out"
  by (auto simp: good_def split: option.splits prod.splits intro: grows_trans)

lemma joins_trans: "grows st st' \<Longrightarrow> joins st' a b out \<Longrightarrow> joins st a b out"
  by (auto simp: joins_def intro: good_trans)

lemma joins_after: "grows st st' \<Longrightarrow> class_of st' a = class_of st' b \<Longrightarrow> a < size_of st \<Longrightarrow> b < size_of st \<Longrightarrow>
    good st' out \<Longrightarrow> joins st a b out"
proof -
  assume g: "grows st st'" and eq: "class_of st' a = class_of st' b" and ab: "a < size_of st" "b < size_of st"
    and out: "good st' out"
  have "class_of st'' a = class_of st'' b" if "out = Some (Inr (), st'')" for st''
  proof -
    have "grows st' st''" using out that by (simp add: good_def)
    from grows_class[OF this grows_less[OF g ab(1)] grows_less[OF g ab(2)] eq] show ?thesis .
  qed
  with good_trans[OF g out] show ?thesis by (simp add: joins_def)
qed

lemma good_and_then: "good st out \<Longrightarrow> (\<And>st'. out = Some (Inr (), st') \<Longrightarrow> grows st st' \<Longrightarrow> good st' (k st')) \<Longrightarrow>
    good st (and_then out k)"
  unfolding and_then_def by (cases out) (auto simp: good_def split: sum.splits option.splits intro: grows_trans)

lemma good_regardless: "good st out \<Longrightarrow> (\<And>x st'. out = Some (x, st') \<Longrightarrow> grows st st' \<Longrightarrow> good st' (k st')) \<Longrightarrow>
    good st (regardless out k)"
  unfolding regardless_def by (cases out) (auto simp: good_def split: option.splits intro: grows_trans)

lemma union_grows:
  assumes "uf_ok st" "marks_ok st" "a < size_of st" "b < size_of st" "\<forall>x \<in> set (content_children c). x < size_of st"
  shows "grows st (uf_union a b c st) \<and> class_of (uf_union a b c st) a = class_of (uf_union a b c st) b \<and>
    size_of (uf_union a b c st) = size_of st"
proof -
  have m: "merged st (uf_union a b c st) {class_of st a, class_of st b} c"
    by (rule uf_union_merged[OF assms(1,3,4,5)])
  with merged_grows[OF this assms(2)] assms(3,4) show ?thesis by (auto simp: merged_def)
qed

text \<open>The step most cases end with: unite the classes, then run something that only grows.\<close>

lemma union_joins:
  assumes "uf_ok st" "marks_ok st" "a < size_of st" "b < size_of st" "\<forall>x \<in> set (content_children c). x < size_of st"
    "good (uf_union a b c st) out"
  shows "joins st a b out"
  using union_grows[OF assms(1-5)] assms(3,4,6) by (auto intro: joins_after)

lemma set_content_grows:
  assumes "uf_ok st" "marks_ok st" "v < size_of st" "\<forall>x \<in> set (content_children c). x < size_of st"
  shows "grows st (set_content v c st)"
  by (rule merged_grows[OF set_content_merged[OF assms(1,3,4)] assms(2)])

lemma default_int_literal_grows:
  assumes "uf_ok st" "marks_ok st" "v < size_of st"
  shows "grows st (default_int_literal v st)"
proof -
  obtain st1 where f: "uf_find v st = (class_of st v, st1)" "view st st1" using uf_find_view[OF assms(1,3)] .
  note g = view_grows[OF f(2) assms(2)]
  have "grows st1 (set_content (class_of st v) (Structure int_ty) st1)"
    by (rule set_content_grows)
      (use growsD[OF g] class_less[OF assms(1,3)] in \<open>auto simp: content_children_def flat_children_def int_ty_def\<close>)
  with f g show ?thesis by (auto simp: default_int_literal_def intro: grows_trans)
qed

section \<open>The contract of a unifier\<close>

locale unifier_contract =
  fixes u :: unifier
  assumes u_joins: "\<And>st a b. uf_ok st \<Longrightarrow> marks_ok st \<Longrightarrow> a < size_of st \<Longrightarrow> b < size_of st \<Longrightarrow> joins st a b (u a b st)"
begin

lemma u_good: "uf_ok st \<Longrightarrow> marks_ok st \<Longrightarrow> a < size_of st \<Longrightarrow> b < size_of st \<Longrightarrow> good st (u a b st)"
  using u_joins by (rule joins_good)

lemma unify_pairs_good:
  "uf_ok st \<Longrightarrow> marks_ok st \<Longrightarrow> \<forall>(x, y) \<in> set ps. x < size_of st \<and> y < size_of st \<Longrightarrow> good st (unify_pairs u ps st)"
proof (induction ps arbitrary: st)
  case (Cons p ps)
  obtain x y where p: "p = (x, y)" by force
  have "good st (u x y st)" using Cons.prems p by (intro u_good) auto
  then show ?case unfolding p unify_pairs.simps
  proof (rule good_and_then)
    fix st' assume "grows st st'"
    then show "good st' (unify_pairs u ps st')"
      using Cons.prems p by (intro Cons.IH) (auto dest: growsD intro: grows_less)
  qed
qed simp

lemma need_elements_good:
  "uf_ok st \<Longrightarrow> marks_ok st \<Longrightarrow> \<forall>x \<in> set cs. x < size_of st \<Longrightarrow> good st (need_elements u elems cs st)"
proof (induction cs arbitrary: st)
  case (Cons c cs)
  obtain b st1 where b: "fresh (FlexSuper elems) st = (b, st1)" by force
  have g: "grows st st1" "b < size_of st1"
    using fresh_grows[OF Cons.prems(1,2) _ b] by (auto simp: content_children_def)
  have "good st1 (and_then (u c b st1) (need_elements u elems cs))"
  proof (rule good_and_then)
    show "good st1 (u c b st1)" using Cons.prems g growsD[OF g(1)] by (intro u_good) (auto intro: grows_less)
  next
    fix st' assume "grows st1 st'"
    with g(1) have "grows st st'" by (rule grows_trans)
    then show "good st' (need_elements u elems cs st')"
      using Cons.prems by (intro Cons.IH) (auto dest: growsD intro: grows_less)
  qed
  with g(1) b show ?case by (auto intro: good_trans)
qed simp

lemma shape_needs_children: "shape_needs s ft = Some (cs, pend) \<Longrightarrow> set cs \<subseteq> set (flat_children ft)"
  by (auto simp: shape_needs_def Let_def flat_children_def split: flat_ty.splits if_splits)

lemma satisfy_sky_joins:
  assumes "uf_ok st" "marks_ok st" "a < size_of st" "b < size_of st" "\<forall>x \<in> set (flat_children ft). x < size_of st"
  shows "joins st a b (satisfy_sky u a b s ft st)"
proof (cases "shape_needs s ft")
  case None
  have "grows st (snd (describe_flat ft st))"
    by (rule view_grows[OF describe_flat_view[OF assms(1,5)] assms(2)])
  with None show ?thesis by (simp add: satisfy_sky_def case_prod_beta Let_def)
next
  case (Some cp)
  obtain cs pend where cp: "cp = (cs, pend)" by force
  let ?st1 = "uf_union a b (Structure ft) st"
  have kids: "\<forall>x \<in> set (content_children (Structure ft)). x < size_of st" using assms(5) by (simp add: content_children_def)
  note un = union_grows[OF assms(1-4) kids]
  obtain st2 where f: "uf_find a ?st1 = (class_of ?st1 a, st2)" "view ?st1 st2"
    using uf_find_view[of ?st1 a] un growsD assms(3) by metis
  have g2: "grows ?st1 st2" using view_grows[OF f(2)] un growsD by blast
  define st3 where "st3 = (if pend \<and> for_elements s \<noteq> 0
    then st2\<lparr>uf_pending := uf_pending st2 @ [(for_elements s, class_of ?st1 a)]\<rparr> else st2)"
  have "grows st2 st3" using growsD[OF g2] by (auto simp: st3_def intro: grows_update)
  with g2 have g: "grows ?st1 st3" by (rule grows_trans)
  note ok3 = growsD[OF g]
  have cs: "\<forall>x \<in> set cs. x < size_of st3"
    using shape_needs_children[of s ft cs pend] Some cp assms(5) un grows_less[OF g] by auto
  have "good st3 (if for_elements s \<noteq> 0 then need_elements u (for_elements s) cs st3 else accept st3)"
    using need_elements_good[OF _ _ cs] ok3 by (simp split: if_split)
  then have "joins st a b (if for_elements s \<noteq> 0 then need_elements u (for_elements s) cs st3 else accept st3)"
    by (intro union_joins[OF assms(1-4) kids] good_trans[OF g])
  then show ?thesis using Some cp f(1) unfolding satisfy_sky_def Let_def st3_def by simp
qed

lemma satisfy_joins:
  assumes "uf_ok st" "marks_ok st" "a < size_of st" "b < size_of st" "\<forall>x \<in> set (flat_children ft). x < size_of st"
  shows "joins st a b (satisfy u a b s ft st)"
proof -
  have "grows st (snd (describe_flat ft st))"
    by (rule view_grows[OF describe_flat_view[OF assms(1,5)] assms(2)])
  moreover have "joins st a b (accept (uf_union a b (Structure ft) st))"
    using assms union_grows[OF assms(1-4), of "Structure ft"]
    by (intro union_joins[OF assms(1-4), of "Structure ft"]) (auto simp: content_children_def dest: growsD)
  ultimately show ?thesis
    using satisfy_sky_joins[OF assms] by (simp add: satisfy_def case_prod_beta Let_def)
qed

lemma link_rigid_row_good:
  assumes "uf_ok st" "marks_ok st" "case row of Some e \<Rightarrow> e < size_of st | None \<Rightarrow> True"
    "\<forall>x \<in> row_vars extras. x < size_of st" "case ext of Some e \<Rightarrow> e < size_of st | None \<Rightarrow> True"
  shows "good st (link_rigid_row u row extras ext rigid names st)"
proof (cases row)
  case (Some e)
  obtain t st1 where t: "(case (extras = [], ext) of (True, Some e) \<Rightarrow> (e, st)
      | _ \<Rightarrow> fresh (Structure (Record extras ext)) st) = (t, st1)" by force
  have g: "grows st st1 \<and> t < size_of st1"
  proof (cases "extras = [] \<and> ext \<noteq> None")
    case True
    then show ?thesis using t assms by auto
  next
    case False
    then have "fresh (Structure (Record extras ext)) st = (t, st1)" using t by (cases "extras = []"; cases ext) auto
    from fresh_grows[OF assms(1,2) _ this] assms(4,5) show ?thesis
      by (force simp: content_children_def flat_children_def split: option.splits)
  qed
  have "good st1 (u e t st1)"
    using g assms(3) Some growsD by (intro u_good) (auto intro: grows_less)
  then have "good st1 (case u e t st1 of None \<Rightarrow> None | Some (Inr _, st) \<Rightarrow> accept st
      | Some (Inl _, st) \<Rightarrow> mismatch (row_refusal extras ext rigid names) st)"
    by (auto simp: good_def accept_def mismatch_def split: option.splits sum.splits)
  then have "good st (case u e t st1 of None \<Rightarrow> None | Some (Inr _, st) \<Rightarrow> accept st
      | Some (Inl _, st) \<Rightarrow> mismatch (row_refusal extras ext rigid names) st)"
    by (rule good_trans[OF conjunct1[OF g]])
  then show ?thesis using Some t by (simp add: link_rigid_row_def)
qed (use assms in \<open>simp add: link_rigid_row_def\<close>)

lemma absorb_extras_good:
  assumes "uf_ok st" "marks_ok st" "case row of Some e \<Rightarrow> e < size_of st | None \<Rightarrow> True"
    "\<forall>x \<in> row_vars extras. x < size_of st" "case ext of Some e \<Rightarrow> e < size_of st | None \<Rightarrow> True"
  shows "good st (absorb_extras u row extras ext st)"
proof (cases "row = None \<or> extras = []")
  case False
  then obtain e where e: "row = Some e" by auto
  obtain t st1 where t: "fresh (Structure (Record extras ext)) st = (t, st1)" by force
  have g: "grows st st1 \<and> t < size_of st1"
    using fresh_grows[OF assms(1,2) _ t] assms(4,5)
    by (force simp: content_children_def flat_children_def split: option.splits)
  have "good st1 (u e t st1)" using g assms(3) e growsD by (intro u_good) (auto intro: grows_less)
  then have "good st1 (regardless (u e t st1) accept)" by (rule good_regardless) (auto dest: growsD)
  then have "good st (regardless (u e t st1) accept)" by (rule good_trans[OF conjunct1[OF g]])
  then show ?thesis using False e t by (simp add: absorb_extras_def)
qed (use assms in \<open>auto simp: absorb_extras_def split: option.split\<close>)

end

lemma rigid_name_view: "uf_ok st \<Longrightarrow> v < size_of st \<Longrightarrow> view st (snd (rigid_name v st))"
  by (rule uf_find_view[of st v]) (auto simp: rigid_name_def)

lemma opt_rigid_name_view: "uf_ok st \<Longrightarrow> case e of Some v \<Rightarrow> v < size_of st | None \<Rightarrow> True \<Longrightarrow>
    view st (snd (opt_rigid_name e st))"
  by (auto simp: opt_rigid_name_def rigid_name_view split: option.splits)

lemma shared_fields_vars: "(x, y) \<in> set (shared_fields fs1 fs2) \<Longrightarrow> x \<in> row_vars fs1 \<and> y \<in> row_vars fs2"
proof -
  assume "(x, y) \<in> set (shared_fields fs1 fs2)"
  then obtain k where "(k, x) \<in> set fs1" "map_of fs2 k = Some y"
    by (auto simp: shared_fields_def List.map_filter_def split: if_splits prod.splits)
  then show ?thesis by (force dest: map_of_SomeD)
qed

lemma only_fields_vars: "row_vars (only_fields fs1 fs2) \<subseteq> row_vars fs1"
  by (auto simp: only_fields_def)

lemma less_opt: "grows st st' \<Longrightarrow> case e of Some v \<Rightarrow> v < size_of st | None \<Rightarrow> True \<Longrightarrow>
    case e of Some v \<Rightarrow> v < size_of st' | None \<Rightarrow> True"
  by (auto split: option.splits intro: grows_less)

lemma less_all: "grows st st' \<Longrightarrow> \<forall>x \<in> A. x < size_of st \<Longrightarrow> \<forall>x \<in> A. x < size_of st'"
  by (auto intro: grows_less)

lemma record_kids: "set (content_children (Structure (Record fs ext))) = row_vars fs \<union> set_option ext"
  by (auto simp: content_children_def flat_children_def split: option.split)

lemma take_content_merged:
  assumes "uf_ok st" "r < size_of st" "class_of st r = r"
  shows "fst (take_content r st) = cont st r \<and> merged st (snd (take_content r st)) {r} Flex"
proof -
  have r: "is_root (uf_slots st) r" using class_root[OF assms(1,2)] assms(3) by simp
  then obtain c k where s: "uf_slots st ! r = Root c k" by (auto simp: is_root_def)
  have "merged st (st\<lparr>uf_slots := (uf_slots st)[r := Root Flex k]\<rparr>) {r} Flex"
    by (rule uf_ok_set_root[OF assms(1) r _ refl]) (simp add: content_children_def)
  with s assms(3) show ?thesis by (simp add: take_content_def cont_def slot_content_def)
qed

lemma merged_after:
  assumes "merged st st1 {r} c1" "merged st1 st2 {ra, rb} c" "r \<in> {ra, rb}"
    "uf_ok st" "ra < size_of st" "rb < size_of st" "class_of st ra = ra" "class_of st rb = rb"
  shows "merged st st2 {ra, rb} c"
proof -
  have r: "class_of st1 u = class_of st u" if "u < size_of st" for u
    using assms(1) that by (auto simp: merged_def)
  have c: "cont st1 u = cont st u" if "u < size_of st" "class_of st u \<notin> {ra, rb}" for u
    using assms(1,3) that by (auto simp: merged_def)
  show ?thesis using assms(1,2) r c unfolding merged_def
    by (auto intro: keeps_rest_trans)
qed

lemma kind_of_cont: "uf_ok st \<Longrightarrow> r < size_of st \<Longrightarrow> class_of st r = r \<Longrightarrow>
    kind_of st r = (case cont st r of Err \<Rightarrow> KError | Flex \<Rightarrow> KFlex | _ \<Rightarrow> KOther)"
  using class_root[of st r]
  by (auto simp: kind_of_def cont_def slot_content_def is_root_def split: content.splits)

text \<open>A flexible class takes over the other's content.\<close>

lemma take_union_merged:
  assumes "uf_ok st" "ra < size_of st" "rb < size_of st" "class_of st ra = ra" "class_of st rb = rb" "r \<in> {ra, rb}"
    "take_content r st = (c, st')"
  shows "c = cont st r \<and> merged st (uf_union ra rb c st') {ra, rb} c"
proof -
  have r: "r < size_of st" "class_of st r = r" using assms by auto
  note t = take_content_merged[OF assms(1) r, unfolded assms(7) fst_conv snd_conv]
  then have m: "c = cont st r" "merged st st' {r} Flex" by simp_all
  have ok: "uf_ok st'" "size_of st' = size_of st" "class_of st' ra = ra" "class_of st' rb = rb"
    using m(2) assms(2-5) by (auto simp: merged_def)
  have "merged st' (uf_union ra rb c st') {class_of st' ra, class_of st' rb} c"
    by (rule uf_union_merged[OF ok(1)]) (use ok assms(1-3) r m(1) cont_children_less[OF assms(1) r(1)] in auto)
  then have "merged st' (uf_union ra rb c st') {ra, rb} c" using ok by simp
  from merged_after[OF m(2) this assms(6,1-5)] m(1) show ?thesis by simp
qed

context unifier_contract begin

lemma unify_records_joins:
  assumes ok: "uf_ok st" "marks_ok st" and ab: "a < size_of st" "b < size_of st"
    and kids: "\<forall>x \<in> set (flat_children (Record fs1 e1)). x < size_of st" "\<forall>x \<in> set (flat_children (Record fs2 e2)). x < size_of st"
  shows "joins st a b (unify_records u a b fs1 e1 fs2 e2 st)"
proof -
  obtain f1 x1 st1 where n1: "normalize_record fs1 e1 st = ((f1, x1), st1)" by (metis prod.collapse)
  note v1 = normalize_record_view[OF ok(1) kids(1) n1]
  then have g1: "grows st st1" using ok(2) by (intro view_grows) auto
  have k2: "\<forall>x \<in> set (flat_children (Record fs2 e2)). x < size_of st1" using v1 kids(2) by (simp add: view_def)
  obtain f2 x2 st2 where n2: "normalize_record fs2 e2 st1 = ((f2, x2), st2)" by (metis prod.collapse)
  note v2 = normalize_record_view[OF _ k2 n2]
  have g2: "grows st1 st2" using v2 growsD[OF g1] by (intro view_grows) auto
  have g12: "grows st st2" using g1 g2 by (rule grows_trans)
  have f: "\<forall>x \<in> row_vars f1. x < size_of st2" "\<forall>x \<in> row_vars f2. x < size_of st2"
    "case x1 of Some e \<Rightarrow> e < size_of st2 | None \<Rightarrow> True" "case x2 of Some e \<Rightarrow> e < size_of st2 | None \<Rightarrow> True"
    using v1 v2 growsD[OF g1] by (auto simp: flat_children_def view_def split: option.splits)
  show ?thesis
  proof (cases "presence_refusal (uf_contravariant st2) (only_fields f1 f2) x1 (only_fields f2 f1) x2")
    case (Some msg)
    then show ?thesis using n1 n2 g12 by (simp add: unify_records_def Let_def)
  next
    case None
    obtain ext st3 where x: "(if x1 = None \<or> x2 = None then (None, st2)
        else (let (v, st) = fresh_flex st2 in (Some v, st))) = (ext, st3)" by (metis prod.collapse)
    have g3: "grows st2 st3 \<and> (case ext of Some e \<Rightarrow> e < size_of st3 | None \<Rightarrow> True)"
    proof (cases "x1 = None \<or> x2 = None")
      case True
      then show ?thesis using x growsD[OF g12] by auto
    next
      case False
      then obtain v where "fresh Flex st2 = (v, st3)" "ext = Some v" using x by (auto simp: fresh_flex_def split: prod.splits)
      with fresh_grows[OF _ _ _ this(1)] growsD[OF g12] show ?thesis by (auto simp: content_children_def)
    qed
    obtain r1 st4 where r1: "opt_rigid_name x1 st3 = (r1, st4)" by force
    have g4: "grows st3 st4"
      using view_grows[OF opt_rigid_name_view[of st3 x1]] growsD g3 less_opt[OF conjunct1[OF g3] f(3)] r1 by (metis snd_conv)
    obtain r2 st5 where r2: "opt_rigid_name x2 st4 = (r2, st5)" by force
    have g34: "grows st2 st4" using conjunct1[OF g3] g4 by (rule grows_trans)
    have g5: "grows st4 st5"
      using view_grows[OF opt_rigid_name_view[of st4 x2]] growsD[OF g4] less_opt[OF g34 f(4)] r2 by (metis snd_conv)
    have g35: "grows st3 st5" using g4 g5 by (rule grows_trans)
    have g25: "grows st2 st5" using g34 g5 by (rule grows_trans)
    have g05: "grows st st5" using g12 g25 by (rule grows_trans)
    note ok5 = growsD[OF g05]
    let ?all = "add_fields f1 f2"
    have kids5: "\<forall>x \<in> set (content_children (Structure (Record ?all ext))). x < size_of st5"
    proof
      fix x assume "x \<in> set (content_children (Structure (Record ?all ext)))"
      then have "x \<in> row_vars f1 \<or> x \<in> row_vars f2 \<or> ext = Some x"
        using row_vars_add_fields[of f1 f2] unfolding record_kids by auto
      then show "x < size_of st5"
        using less_all[OF g25 f(1)] less_all[OF g25 f(2)] less_opt[OF g35 conjunct2[OF g3]] by auto
    qed
    have ab5: "a < size_of st5" "b < size_of st5" using ab g05 by (auto intro: grows_less)
    define st6 where "st6 = uf_union a b (Structure (Record ?all ext)) st5"
    have g6: "grows st5 st6" using union_grows[OF _ _ ab5 kids5] ok5 by (simp add: st6_def)
    have g26: "grows st2 st6" using g25 g6 by (rule grows_trans)
    have g36: "grows st3 st6" using g35 g6 by (rule grows_trans)
    have only: "\<forall>x \<in> row_vars (only_fields f1 f2). x < size_of st2" "\<forall>x \<in> row_vars (only_fields f2 f1). x < size_of st2"
      using only_fields_vars f(1,2) by (meson subsetD)+
    have "good st6 (and_then (unify_pairs u (shared_fields f1 f2) st6) (\<lambda>st.
        if r1 \<noteq> None \<or> r2 \<noteq> None then
          and_then (link_rigid_row u x1 (only_fields f2 f1) ext (r1, r2) (map fst ?all) st)
            (link_rigid_row u x2 (only_fields f1 f2) ext (r1, r2) (map fst ?all))
        else and_then (absorb_extras u x1 (only_fields f2 f1) ext st) (absorb_extras u x2 (only_fields f1 f2) ext)))"
    proof (rule good_and_then)
      show "good st6 (unify_pairs u (shared_fields f1 f2) st6)"
        using growsD[OF g6] less_all[OF g26 f(1)] less_all[OF g26 f(2)]
        by (intro unify_pairs_good) (auto dest!: shared_fields_vars)
    next
      fix st7 assume g7: "grows st6 st7"
      have g27: "grows st2 st7" using g26 g7 by (rule grows_trans)
      have g37: "grows st3 st7" using g36 g7 by (rule grows_trans)
      note row7 = less_opt[OF g27 f(3)] less_opt[OF g27 f(4)] less_all[OF g27 only(1)] less_all[OF g27 only(2)]
        less_opt[OF g37 conjunct2[OF g3]] growsD[OF g7]
      have step: "case x2 of Some e \<Rightarrow> e < size_of st8 | None \<Rightarrow> True" "\<forall>x \<in> row_vars (only_fields f1 f2). x < size_of st8"
        "case ext of Some e \<Rightarrow> e < size_of st8 | None \<Rightarrow> True" "uf_ok st8" "marks_ok st8" if "grows st7 st8" for st8
        using less_opt[OF that row7(2)] less_all[OF that row7(3)] less_opt[OF that row7(5)] growsD[OF that] by auto
      note ok7 = conjunct1[OF row7(6)] conjunct1[OF conjunct2[OF row7(6)]]
      have "good st7 (and_then (link_rigid_row u x1 (only_fields f2 f1) ext (r1, r2) (map fst ?all) st7)
          (link_rigid_row u x2 (only_fields f1 f2) ext (r1, r2) (map fst ?all)))"
        by (rule good_and_then[OF link_rigid_row_good[OF ok7 row7(1,4,5)]])
          (rule link_rigid_row_good[OF step(4,5,1,2,3)])
      moreover have "good st7 (and_then (absorb_extras u x1 (only_fields f2 f1) ext st7) (absorb_extras u x2 (only_fields f1 f2) ext))"
        by (rule good_and_then[OF absorb_extras_good[OF ok7 row7(1,4,5)]])
          (rule absorb_extras_good[OF step(4,5,1,2,3)])
      ultimately show "good st7 (if r1 \<noteq> None \<or> r2 \<noteq> None then
          and_then (link_rigid_row u x1 (only_fields f2 f1) ext (r1, r2) (map fst ?all) st7)
            (link_rigid_row u x2 (only_fields f1 f2) ext (r1, r2) (map fst ?all))
        else and_then (absorb_extras u x1 (only_fields f2 f1) ext st7) (absorb_extras u x2 (only_fields f1 f2) ext))"
        by simp
    qed
    from joins_trans[OF g05 union_joins[OF _ _ ab5 kids5 this[unfolded st6_def]]] ok5
    show ?thesis using None n1 n2 x r1 r2 by (simp add: unify_records_def Let_def)
  qed
qed

lemma unify_flat_joins:
  assumes ok: "uf_ok st" "marks_ok st" and ab: "a < size_of st" "b < size_of st"
    and kids: "\<forall>x \<in> set (flat_children f1). x < size_of st" "\<forall>x \<in> set (flat_children f2). x < size_of st"
  shows "joins st a b (unify_flat u a b f1 f2 st)"
proof -
  have c: "\<forall>x \<in> set (content_children (Structure f1)). x < size_of st" "\<forall>x \<in> set (content_children (Structure f2)). x < size_of st"
    using kids by (simp_all add: content_children_def)
  note un1 = union_grows[OF ok ab c(1)] and un2 = union_grows[OF ok ab c(2)]
  have d1: "grows st (snd (describe_flat f1 st))" and q1: "grows st (snd (describe_flat_qualified f1 st))"
    using view_grows[OF describe_flat_view[OF ok(1) kids(1)] ok(2)]
      view_grows[OF describe_flat_qualified_view[OF ok(1) kids(1)] ok(2)] by auto
  have d2: "grows st (snd (describe_flat f2 st1))" and q2: "grows st (snd (describe_flat_qualified f2 st1))"
    if "grows st st1" for st1
    using view_grows[OF describe_flat_view[of st1 f2]] view_grows[OF describe_flat_qualified_view[of st1 f2]]
      less_all[OF that kids(2)] growsD[OF that] grows_trans[OF that] by auto
  have pairs: "joins st a b (unify_pairs u ps (uf_union a b (Structure f) st))"
    if "f = f1 \<or> f = f2" "\<forall>(x, y) \<in> set ps. x < size_of st \<and> y < size_of st" for f ps
    using that un1 un2 c growsD
    by (intro union_joins[OF ok ab, of "Structure f"] unify_pairs_good) auto
  consider (fn) a1 r1 a2 r2 where "f1 = Fun a1 r1" "f2 = Fun a2 r2" | (tup) xs ys where "f1 = Tuple xs" "f2 = Tuple ys"
    | (app) n1 a1 n2 a2 where "f1 = App n1 a1" "f2 = App n2 a2"
    | (rec) fs1 e1 fs2 e2 where "f1 = Record fs1 e1" "f2 = Record fs2 e2" | (unit) "f1 = UnitTy" "f2 = UnitTy"
    | (other) "unify_flat u a b f1 f2 st = (let (d1, st) = describe_flat f1 st; (d2, st) = describe_flat f2 st in
        mismatch (''type mismatch: '' @ d1 @ '' vs '' @ d2) st)"
    by (cases f1; cases f2) (simp_all add: unify_flat_def)
  then show ?thesis
  proof cases
    case fn
    let ?st1 = "uf_union a b (Structure f1) st"
    define st2 where "st2 = ?st1\<lparr>uf_contravariant := \<not> uf_contravariant ?st1\<rparr>"
    have sl2: "uf_slots st2 = uf_slots ?st1" "uf_mark st2 = uf_mark ?st1" "uf_epoch st2 = uf_epoch ?st1" by (simp_all add: st2_def)
    have ok1: "uf_ok ?st1" "marks_ok ?st1" using un1 growsD by blast+
    note same2 = same_slots[OF sl2(1)]
    have ok2: "uf_ok st2" "marks_ok st2" using ok1 same2 sl2 by (simp_all add: marks_ok_def)
    have lt: "a1 < size_of st2" "a2 < size_of st2" "r1 < size_of st2" "r2 < size_of st2"
      using fn kids un1 sl2 by (auto simp: flat_children_def)
    have g: "good st2 (u a1 a2 st2)" by (rule u_good[OF ok2 lt(1,2)])
    have "good ?st1 (case u a1 a2 st2 of None \<Rightarrow> None | Some (params, st) \<Rightarrow>
        (let st = st\<lparr>uf_contravariant := \<not> uf_contravariant st\<rparr> in and_then (Some (params, st)) (u r1 r2)))"
    proof (cases "u a1 a2 st2")
      case (Some p)
      obtain params st3 where p: "p = (params, st3)" by force
      define st4 where "st4 = st3\<lparr>uf_contravariant := \<not> uf_contravariant st3\<rparr>"
      have g3: "grows st2 st3" using g Some p by (simp add: good_def)
      have sl4: "uf_slots st4 = uf_slots st3" "uf_mark st4 = uf_mark st3" "uf_epoch st4 = uf_epoch st3" by (simp_all add: st4_def)
      have g4: "grows ?st1 st4" by (rule grows_flip[OF ok1 g3[unfolded st2_def], folded st4_def])
      have lt4: "r1 < size_of st4" "r2 < size_of st4" using lt(3,4) sl2(1) grows_less[OF g4] by auto
      have "good ?st1 (Some (params, st4))" using g4 by (simp add: good_def)
      then have "good ?st1 (and_then (Some (params, st4)) (u r1 r2))"
      proof (rule good_and_then)
        fix st' assume "Some (params, st4) = Some (Inr (), st')"
        then have "st' = st4" by simp
        then show "good st' (u r1 r2 st')" using growsD[OF g4] lt4 by (simp add: u_good)
      qed
      then show ?thesis using Some p by (simp add: st4_def)
    qed (simp add: good_def)
    then show ?thesis using fn union_joins[OF ok ab c(1)] by (simp add: unify_flat_def st2_def Let_def)
  next
    case tup
    have "joins st a b (unify_pairs u (zip xs ys) (uf_union a b (Structure f1) st))"
      using tup kids by (intro pairs) (auto simp: flat_children_def dest: set_zip_leftD set_zip_rightD)
    with tup ok show ?thesis by (simp add: unify_flat_def)
  next
    case app
    have "joins st a b (unify_pairs u (zip a1 a2) (uf_union a b (Structure (if most_specific n1 n2 = n1 then f1 else f2)) st))"
      using app kids by (intro pairs) (auto simp: flat_children_def dest: set_zip_leftD set_zip_rightD)
    with app d1 q1 d2[OF d1] q2[OF q1] show ?thesis
      by (simp add: unify_flat_def case_prod_beta Let_def split: if_splits)
  next
    case rec
    with unify_records_joins[OF ok ab, of fs1 e1 fs2 e2] kids show ?thesis by (simp add: unify_flat_def)
  next
    case unit
    with union_joins[OF ok ab c(1), of "accept (uf_union a b (Structure f1) st)"] un1 show ?thesis
      by (auto simp: unify_flat_def dest: growsD)
  next
    case other
    with d2[OF d1] show ?thesis by (simp add: case_prod_beta Let_def)
  qed
qed

text \<open>A union that ends the step.\<close>

lemma accept_union:
  assumes "uf_ok st" "marks_ok st" "a < size_of st" "b < size_of st" "\<forall>x \<in> set (content_children c). x < size_of st"
  shows "joins st a b (accept (uf_union a b c st))"
  using union_grows[OF assms] growsD by (intro union_joins[OF assms]) auto

lemma default_then_joins:
  assumes "uf_ok st" "marks_ok st" "a < size_of st" "b < size_of st"
  shows "joins st a b (u a b (default_int_literal b (default_int_literal a st)))"
proof -
  note g1 = default_int_literal_grows[OF assms(1,2,3)]
  have g2: "grows (default_int_literal a st) (default_int_literal b (default_int_literal a st))"
    using growsD[OF g1] grows_less[OF g1 assms(4)] by (intro default_int_literal_grows) auto
  have g: "grows st (default_int_literal b (default_int_literal a st))" using g1 g2 by (rule grows_trans)
  show ?thesis
    using growsD[OF g] grows_less[OF g assms(3)] grows_less[OF g assms(4)]
    by (intro joins_trans[OF g] u_joins) auto
qed

lemma rigid_super_joins:
  assumes "uf_ok st" "marks_ok st" "a < size_of st" "b < size_of st"
  shows "joins st a b (rigid_super u a b n s st)"
proof -
  have "joins st a b (accept (uf_union a b (Rigid n) st'))"
    if "uf_slots st' = uf_slots st" "uf_mark st' = uf_mark st" "uf_epoch st' = uf_epoch st"
      "uf_contravariant st' = uf_contravariant st" for st'
  proof -
    have g: "grows st st'" using grows_update[OF assms(1,2) that] .
    show ?thesis using growsD[OF g] assms that
      by (intro joins_trans[OF g] accept_union) (auto simp: content_children_def)
  qed
  with default_then_joins[OF assms] show ?thesis by (simp add: rigid_super_def Let_def)
qed

lemma unify_contents_joins:
  assumes "uf_ok st" "marks_ok st" "a < size_of st" "b < size_of st"
  shows "joins st a b (unify_contents u a b st)"
proof -
  obtain st1 where c1: "content_of a st = (cont st a, st1)" "view st st1" using content_of_view[OF assms(1,3)] .
  have b1: "uf_ok st1" "b < size_of st1" "cont st1 b = cont st b" using c1(2) assms(4) by (auto simp: view_def)
  obtain st2 where c2: "content_of b st1 = (cont st b, st2)" "view st1 st2" using content_of_view[OF b1(1,2)] b1(3) by metis
  have v: "view st st2" using c1(2) c2(2) by (rule view_trans)
  have g: "grows st st2" using view_grows[OF v assms(2)] .
  have ok: "uf_ok st2" "marks_ok st2" "a < size_of st2" "b < size_of st2" "cont st2 a = cont st a" "cont st2 b = cont st b"
    using v growsD[OF g] assms(3,4) by (auto simp: view_def)
  have kids: "x < size_of st2" if "x \<in> set (content_children (cont st2 a)) \<or> x \<in> set (content_children (cont st2 b))" for x
    using that cont_children_less[OF ok(1,3)] cont_children_less[OF ok(1,4)] by blast
  have ft: "\<forall>x \<in> set (flat_children ft). x < size_of st2" if "cont st2 a = Structure ft \<or> cont st2 b = Structure ft" for ft
    using that kids by (auto simp: content_children_def)
  have acc: "joins st2 a b (accept (uf_union a b c st2))" if "\<forall>x \<in> set (content_children c). x < size_of st2" for c
    by (rule accept_union[OF ok(1-4) that])
  have conc: "joins st2 a b (rigid_concrete a b n st2)" for n
  proof -
    obtain st3 where c3: "content_of a st2 = (cont st2 a, st3)" "view st2 st3" using content_of_view[OF ok(1,3)] .
    have "v < size_of st2 \<Longrightarrow> view st2 (snd (describe_advice v st3))" for v
      using c3(2) view_trans[OF c3(2) describe_advice_view[of st3 v]] by (auto simp: view_def)
    then have "grows st2 (snd (describe_advice (case cont st2 a of Rigid _ \<Rightarrow> b | _ \<Rightarrow> a) st3))"
      using ok by (intro view_grows) (auto split: content.split)
    then show ?thesis using c3(1) by (simp add: rigid_concrete_def case_prod_beta Let_def)
  qed
  have two: "joins st2 a b (two_bounds u a b s1 s2 st2)" for s1 s2
    using acc[of "FlexSuper _"] default_then_joins[OF ok(1-4)] ok(1,2)
    by (simp add: two_bounds_def Let_def content_children_def)
  have bs: "joins st2 a b (bound_structure u a b s ft st2)" if "cont st2 a = Structure ft \<or> cont st2 b = Structure ft" for s ft
  proof -
    have "joins st2 a b (accept (uf_union a b (if ft = int_ty then FlexSuper s else Structure ft) st2))"
      using ft[OF that] by (intro acc) (auto simp: content_children_def)
    with satisfy_joins[OF ok(1-4) ft[OF that]] default_then_joins[OF ok(1-4)] show ?thesis
      by (simp add: bound_structure_def)
  qed
  have fl: "joins st2 a b (unify_flat u a b f1 f2 st2)" if "cont st2 a = Structure f1" "cont st2 b = Structure f2" for f1 f2
    using that ft by (intro unify_flat_joins ok) auto
  have rp: "joins st2 a b (accept (uf_union a b (Rigid n) st2))" for n by (rule acc) (simp add: content_children_def)
  have "joins st2 a b (case (cont st2 a, cont st2 b) of
        (Rigid n1, Rigid n2) \<Rightarrow>
          (if n1 = n2 then accept (uf_union a b (Rigid n1) st2) else mismatch (rigid_pair_message n1 n2) st2)
      | (Rigid n, FlexSuper s) \<Rightarrow> rigid_super u a b n s st2
      | (FlexSuper s, Rigid n) \<Rightarrow> rigid_super u a b n s st2
      | (Rigid n, Structure _) \<Rightarrow> rigid_concrete a b n st2
      | (Structure _, Rigid n) \<Rightarrow> rigid_concrete a b n st2
      | (FlexSuper s1, FlexSuper s2) \<Rightarrow> two_bounds u a b s1 s2 st2
      | (FlexSuper s, Structure ft) \<Rightarrow> bound_structure u a b s ft st2
      | (Structure ft, FlexSuper s) \<Rightarrow> bound_structure u a b s ft st2
      | (Structure f1, Structure f2) \<Rightarrow> unify_flat u a b f1 f2 st2
      | _ \<Rightarrow> mismatch ''internal error: entered unreachable code'' st2)"
    using conc two bs fl rp rigid_super_joins[OF ok(1-4)] ok(1,2)
    by (cases "cont st2 a"; cases "cont st2 b") simp_all
  then have "joins st2 a b (unify_contents u a b st)"
    using c1(1) c2(1) ok(5,6) by (simp add: unify_contents_def Let_def)
  then show ?thesis by (rule joins_trans[OF g])
qed

lemma unify_vars_joins:
  assumes "uf_ok st" "marks_ok st" "a < size_of st" "b < size_of st"
  shows "joins st a b (unify_vars u a b st)"
proof -
  obtain st1 where f1: "uf_find a st = (class_of st a, st1)" "view st st1" using uf_find_view[OF assms(1,3)] .
  have b1: "uf_ok st1" "b < size_of st1" "class_of st1 b = class_of st b" using f1(2) assms(4) by (auto simp: view_def)
  obtain st2 where f2: "uf_find b st1 = (class_of st b, st2)" "view st1 st2" using uf_find_view[OF b1(1,2)] b1(3) by metis
  have v: "view st st2" using f1(2) f2(2) by (rule view_trans)
  have g: "grows st st2" using view_grows[OF v assms(2)] .
  let ?ra = "class_of st a" and ?rb = "class_of st b"
  have ok: "uf_ok st2" "marks_ok st2" "?ra < size_of st2" "?rb < size_of st2"
    "class_of st2 a = ?ra" "class_of st2 b = ?rb" "class_of st2 ?ra = ?ra" "class_of st2 ?rb = ?rb"
    using v growsD[OF g] assms by (auto simp: view_def)
  have roots: "joins st a b out" if "joins st2 ?ra ?rb out" for out
  proof -
    have "class_of st' a = class_of st' b" if out: "out = Some (Inr (), st')" for st'
    proof -
      have e: "class_of st' ?ra = class_of st' ?rb" and g': "grows st2 st'"
        using \<open>joins st2 ?ra ?rb out\<close> out by (auto simp: joins_def good_def)
      have "class_of st' a = class_of st' ?ra" "class_of st' b = class_of st' ?rb"
        using ok grows_less[OF g] assms(3,4) by (auto intro: grows_class[OF g'])
      with e show ?thesis by simp
    qed
    with good_trans[OF g joins_good[OF that]] show ?thesis by (simp add: joins_def)
  qed
  have un: "joins st2 ?ra ?rb (accept (uf_union ?ra ?rb c st2))" if "c = Err \<or> c = Flex" for c
    using that by (intro accept_union ok) (auto simp: content_children_def)
  have take: "joins st2 ?ra ?rb (let (cyclic, st) = occurs x y st2 in
        if cyclic then infinite ?ra ?rb st else (let (other, st) = take_content x st in accept (uf_union ?ra ?rb other st)))"
    if "x = ?ra \<and> y = ?rb \<or> x = ?rb \<and> y = ?ra" for x y
  proof -
    have xy: "x < size_of st2" "y < size_of st2" "x \<in> {?ra, ?rb}" using that ok by auto
    obtain found st3 where o: "occurs x y st2 = (found, st3)" by force
    have s: "same_store st2 st3" using occurs_reach[OF ok(1,2) xy(1,2) o] by simp
    have g3: "grows st2 st3" using same_grows[OF s] .
    have ok3: "uf_ok st3" "marks_ok st3" "?ra < size_of st3" "?rb < size_of st3" "class_of st3 ?ra = ?ra" "class_of st3 ?rb = ?rb"
      using s ok by (auto simp: same_store_def)
    obtain c st4 where t: "take_content x st3 = (c, st4)" by force
    have m: "merged st3 (uf_union ?ra ?rb c st4) {?ra, ?rb} c"
      by (rule conjunct2[OF take_union_merged[OF ok3(1,3,4,5,6) xy(3) t]])
    have "grows st3 (uf_union ?ra ?rb c st4)" by (rule merged_grows[OF m ok3(2)])
    moreover have "class_of (uf_union ?ra ?rb c st4) ?ra = class_of (uf_union ?ra ?rb c st4) ?rb"
      using m ok3(3-6) by (auto simp: merged_def)
    ultimately have "joins st3 ?ra ?rb (accept (uf_union ?ra ?rb c st4))"
      using ok3(3,4) by (simp add: joins_def accept_def good_def)
    moreover have "joins st3 ?ra ?rb (infinite ?ra ?rb st3)"
      using union_grows[OF ok3(1-4), of Err] by (simp add: infinite_def content_children_def)
    ultimately have "joins st3 ?ra ?rb (if found then infinite ?ra ?rb st3 else accept (uf_union ?ra ?rb c st4))" by simp
    from joins_trans[OF g3 this] show ?thesis by (simp add: o t split: if_splits)
  qed
  have "joins st a b (unify_vars u a b st)" if "?ra = ?rb"
    using that f1 f2 g ok by (auto simp: unify_vars_def joins_def good_def accept_def)
  moreover have "joins st2 ?ra ?rb (unify_contents u ?ra ?rb st2)" by (rule unify_contents_joins[OF ok(1-4)])
  ultimately show ?thesis
    using f1(1) f2(1) un take[of ?rb ?ra] take[of ?ra ?rb] roots
    by (auto simp: unify_vars_def Let_def case_prod_beta split: kind.splits)
qed

end

lemma unify_fuel_contract: "unifier_contract (unify_fuel n)"
proof (induction n)
  case (Suc n)
  show ?case
    by (rule unifier_contract.intro) (use unifier_contract.unify_vars_joins[OF Suc] in simp)
qed (simp add: unifier_contract_def joins_def good_def)

interpretation unify: unifier_contract "unify_fuel n" for n
  by (rule unify_fuel_contract)

section \<open>Properties\<close>

text \<open>C17: the occurs check says exactly whether the class of \<open>target\<close> is reachable from the class of
  \<open>v\<close> through the children of the contents, whatever marks earlier calls left behind and also when the
  32-bit epoch wraps around; it leaves every class and every content as they were.\<close>

theorem occurs_reachable:
  assumes "uf_ok st" "marks_ok st" "v < size_of st" "t < size_of st"
  shows "(fst (occurs v t st) \<longleftrightarrow> (class_of st v, class_of st t) \<in> (child st)\<^sup>*) \<and> same_store st (snd (occurs v t st))"
  using occurs_reach[OF assms, of "fst (occurs v t st)" "snd (occurs v t st)"] by simp

text \<open>A store the code can build, \<open>t\<close>, \<open>List t\<close> and \<open>Int\<close>, with the epoch about to wrap.\<close>

definition grown :: "content list \<Rightarrow> uf" where
  "grown cs = foldl (\<lambda>st c. snd (fresh c st)) uf_new cs"

definition list_store :: uf where
  "list_store = (grown [Flex, Structure (App ''List'' [0]), Structure int_ty])\<lparr>uf_mark := [-1, 3], uf_epoch := -1\<rparr>"

lemma uf_new_ok [simp]: "uf_ok uf_new" "marks_ok uf_new" "size_of uf_new = 0"
  by (simp_all add: uf_new_def uf_ok_def linked_def marks_ok_def is_root_def)

lemma fresh_ok: "uf_ok st \<and> marks_ok st \<Longrightarrow> \<forall>x \<in> set (content_children c). x \<le> size_of st \<Longrightarrow>
    uf_ok (snd (fresh c st)) \<and> marks_ok (snd (fresh c st)) \<and> size_of (snd (fresh c st)) = Suc (size_of st)"
  using fresh_grows[of st c "fst (fresh c st)" "snd (fresh c st)"] growsD[of st "snd (fresh c st)"]
    fresh_view[of st c "fst (fresh c st)" "snd (fresh c st)"]
  by simp

lemma grown_ok: "\<forall>i < length cs. \<forall>x \<in> set (content_children (cs ! i)). x \<le> i \<Longrightarrow>
    uf_ok (grown cs) \<and> marks_ok (grown cs) \<and> size_of (grown cs) = length cs"
proof (induction cs rule: rev_induct)
  case (snoc c cs)
  have "uf_ok (grown cs) \<and> marks_ok (grown cs) \<and> size_of (grown cs) = length cs"
    by (rule snoc.IH) (use snoc.prems in \<open>auto simp: nth_append dest: less_SucI\<close>)
  with fresh_ok[of "grown cs" c] snoc.prems[rule_format, of "length cs"] show ?case by (auto simp: grown_def)
qed (simp add: grown_def)

lemma list_store_ok: "uf_ok list_store" "marks_ok list_store" "size_of list_store = 3"
proof -
  let ?cs = "[Flex, Structure (App ''List'' [0]), Structure int_ty]"
  have "uf_ok (grown ?cs) \<and> marks_ok (grown ?cs) \<and> size_of (grown ?cs) = length ?cs"
    by (rule grown_ok) (auto simp: content_children_def flat_children_def int_ty_def less_Suc_eq nth_Cons')
  then show "uf_ok list_store" "size_of list_store = 3"
    using same_slots[of list_store "grown ?cs"] by (simp_all add: list_store_def)
  then show "marks_ok list_store" by (simp add: marks_ok_def list_store_def)
qed

theorem occurs_reachable_witness:
  "fst (occurs 1 0 list_store) \<and> (class_of list_store 1, class_of list_store 0) \<in> (child list_store)\<^sup>*"
proof -
  have "fst (occurs 1 0 list_store)" by code_simp
  with occurs_reachable[OF list_store_ok(1,2), of 1 0] list_store_ok(3) show ?thesis by simp
qed

text \<open>C18: whatever \<open>unify\<close> is given and however it ends, the store stays well formed, two variables
  that were in one class stay in one class, and the direction flag that the parameter of a function type flips
  is restored, on the error paths too; and a success leaves the two variables in one class.\<close>

theorem unify_keeps_store:
  assumes "uf_ok st" "marks_ok st" "a < size_of st" "b < size_of st" "unify_fuel n a b st = Some (r, st')"
  shows "grows st st' \<and> (r = Inr () \<longrightarrow> class_of st' a = class_of st' b)"
  using unify.u_joins[OF assms(1-4), of n] assms(5) by (auto simp: joins_def good_def)

theorem unify_keeps_store_witness:
  "\<exists>st'. unify_fuel 3 0 2 list_store = Some (Inr (), st') \<and> grows list_store st' \<and> class_of st' 0 = class_of st' 2"
proof -
  have "(case unify_fuel 3 0 2 list_store of Some (Inr _, _) \<Rightarrow> True | _ \<Rightarrow> False)" by code_simp
  then obtain st' where u: "unify_fuel 3 0 2 list_store = Some (Inr (), st')"
    by (auto split: option.splits sum.splits prod.splits)
  with unify_keeps_store[OF list_store_ok(1,2) _ _ u] list_store_ok(3) show ?thesis by simp
qed

text \<open>A bound met against a list that contains the bounded variable: the two classes are the bound and the
  list, in either order, and the element is in one of them.\<close>

definition bounded_cycle :: "uf \<Rightarrow> nat \<Rightarrow> nat \<Rightarrow> bool" where
  "bounded_cycle st a b \<longleftrightarrow> uf_ok st \<and> marks_ok st \<and> a < size_of st \<and> b < size_of st \<and>
     class_of st a \<noteq> class_of st b \<and>
     (\<exists>c < size_of st. class_of st c \<in> {class_of st a, class_of st b} \<and>
        (\<exists>s \<in> {Comparable, closure Comparable}. {cont st a, cont st b} = {FlexSuper s, Structure (App ''List'' [c])}))"

lemma satisfy_list:
  assumes "s \<in> {Comparable, closure Comparable}"
  shows "satisfy u ra rb s (App ''List'' [c]) st =
     (let st = uf_union ra rb (Structure (App ''List'' [c])) st; (root, st) = uf_find ra st;
          (w, st) = fresh (FlexSuper (closure Comparable)) st in
      and_then (u c w st) accept)"
proof -
  define k where "k = closure Comparable"
  have "closure Comparable = k" "closure k = k" "\<not> st_has k GoValue" "for_elements k = k" "k \<noteq> 0" "\<not> st_has k Number"
    unfolding k_def by code_simp+
  moreover from this(6) have "shape_needs k (App ''List'' [c]) = Some ([c], False)" by (simp only: shape_needs_def) simp
  moreover have "need_elements u k [] = accept" by (rule ext) simp
  moreover have "closure s = k" using assms calculation(1,2) by auto
  ultimately show ?thesis
    by (simp only: satisfy_def satisfy_sky_def Let_def) (simp add: case_prod_beta)
qed

lemma bounded_cycle_satisfy:
  assumes ok: "uf_ok st" "marks_ok st" and ab: "a < size_of st" "b < size_of st"
    and c: "c < size_of st" "class_of st c \<in> {class_of st a, class_of st b}" and s: "s \<in> {Comparable, closure Comparable}"
  shows "\<exists>w st'. bounded_cycle st' c w \<and> (\<forall>u. satisfy u a b s (App ''List'' [c]) st = and_then (u c w st') accept)"
proof -
  let ?l = "Structure (App ''List'' [c])"
  let ?st1 = "uf_union a b ?l st"
  have kids: "\<forall>x \<in> set (content_children ?l). x < size_of st" using c by (simp add: content_children_def flat_children_def)
  have m: "merged st ?st1 {class_of st a, class_of st b} ?l" by (rule uf_union_merged[OF ok(1) ab kids])
  have ok1: "uf_ok ?st1" "marks_ok ?st1" "size_of ?st1 = size_of st" "cont ?st1 c = ?l"
    using m merged_grows[OF m ok(2)] c growsD by (auto simp: merged_def)
  obtain st2 where f: "uf_find a ?st1 = (class_of ?st1 a, st2)" "view ?st1 st2" using uf_find_view[OF ok1(1)] ab(1) ok1(3) by metis
  have ok2: "uf_ok st2" "marks_ok st2" "size_of st2 = size_of st" "cont st2 c = ?l"
    using f(2) view_grows[OF f(2) ok1(2)] ok1 c growsD by (auto simp: view_def)
  obtain w st3 where w: "fresh (FlexSuper (closure Comparable)) st2 = (w, st3)" by force
  have leaf: "\<forall>x \<in> set (content_children (FlexSuper (closure Comparable))). x \<le> size_of st2" by (simp add: content_children_def)
  note v = fresh_view[OF ok2(1) leaf w] and g = fresh_grows[OF ok2(1,2) leaf w]
  have "class_of st3 c \<noteq> w" using v class_less[OF ok2(1), of c] c(1) ok2(3) by simp
  moreover have "class_of st3 w = w" "w < size_of st3" "c < size_of st3" "cont st3 w = FlexSuper (closure Comparable)"
    "cont st3 c = ?l" "uf_ok st3" "marks_ok st3"
    using v g c(1) ok2 growsD[OF conjunct1[OF g]] by simp_all
  ultimately have "bounded_cycle st3 c w" unfolding bounded_cycle_def by (auto intro: exI[of _ c])
  with w f(1) show ?thesis by (auto simp: satisfy_list[OF s] Let_def)
qed

lemma bounded_cycle_step:
  assumes "bounded_cycle st a b"
  shows "\<exists>c w st'. bounded_cycle st' c w \<and> (\<forall>u. unify_vars u a b st = and_then (u c w st') accept)"
proof -
  from assms obtain c s where cyc: "uf_ok st" "marks_ok st" "a < size_of st" "b < size_of st" "class_of st a \<noteq> class_of st b"
    "c < size_of st" "class_of st c \<in> {class_of st a, class_of st b}"
    "{cont st a, cont st b} = {FlexSuper s, Structure (App ''List'' [c])}" "s \<in> {Comparable, closure Comparable}" unfolding bounded_cycle_def by blast
  have which: "cont st a = FlexSuper s \<and> cont st b = Structure (App ''List'' [c]) \<or>
      cont st b = FlexSuper s \<and> cont st a = Structure (App ''List'' [c])"
    using cyc(8) by (auto simp: doubleton_eq_iff)
  let ?ra = "class_of st a" and ?rb = "class_of st b"
  have finds: "\<exists>st2. view st1 st2 \<and> uf_find v st1 = (class_of st1 v, st2)" if "uf_ok st1" "v < size_of st1" for v st1
    using uf_find_view[OF that] by metis
  have conts: "\<exists>st2. view st1 st2 \<and> content_of v st1 = (cont st1 v, st2)" if "uf_ok st1" "v < size_of st1" for v st1
    using content_of_view[OF that] by metis
  obtain st1 where f1: "view st st1" "uf_find a st = (?ra, st1)" using finds[OF cyc(1,3)] by blast
  have ok1: "uf_ok st1" "b < size_of st1" "class_of st1 b = ?rb" using f1(1) cyc(4) by (auto simp: view_def)
  obtain st2 where f2: "view st1 st2" "uf_find b st1 = (?rb, st2)" using finds[OF ok1(1,2)] ok1(3) by metis
  have v2: "view st st2" using f1(1) f2(1) by (rule view_trans)
  have r2: "uf_ok st2" "?ra < size_of st2" "?rb < size_of st2" "cont st2 ?ra = cont st a" "cont st2 ?rb = cont st b"
    "class_of st2 ?ra = ?ra" "class_of st2 ?rb = ?rb"
    using v2 cyc(1-4) by (auto simp: view_def)
  obtain st3 where c3: "view st2 st3" "content_of ?ra st2 = (cont st a, st3)" using conts[OF r2(1,2)] r2(4) by metis
  have r3: "uf_ok st3" "?rb < size_of st3" "cont st3 ?rb = cont st b" using c3(1) r2 by (auto simp: view_def)
  obtain st4 where c4: "view st3 st4" "content_of ?rb st3 = (cont st b, st4)" using conts[OF r3(1,2)] r3(3) by metis
  have v: "view st st4" using v2 view_trans[OF c3(1) c4(1)] by (rule view_trans)
  have r4: "uf_ok st4" "marks_ok st4" "?ra < size_of st4" "?rb < size_of st4" "c < size_of st4"
      "class_of st4 c \<in> {class_of st4 ?ra, class_of st4 ?rb}"
    using v view_grows[OF v cyc(2)] growsD cyc(1,3,4,6,7) by (auto simp: view_def)
  have kinds: "kind_of st2 ?ra = KOther" "kind_of st2 ?rb = KOther"
    using kind_of_cont[OF r2(1,2,6)] kind_of_cont[OF r2(1,3,7)] r2(4,5) which by auto
  have "unify_vars u a b st = unify_contents u ?ra ?rb st2" for u
    using f1(2) f2(2) cyc(5) kinds by (simp add: unify_vars_def)
  moreover have "\<not> st_has Comparable NumVar" "\<not> st_has Comparable IntLit"
    "\<not> st_has (closure Comparable) NumVar" "\<not> st_has (closure Comparable) IntLit" by code_simp+
  with cyc(9) have "\<not> st_has s NumVar \<and> \<not> st_has s IntLit" by auto
  then have "unify_contents u ?ra ?rb st2 = satisfy u ?ra ?rb s (App ''List'' [c]) st4" for u
    using c3(2) c4(2) which by (auto simp: unify_contents_def bound_structure_def)
  ultimately show ?thesis using bounded_cycle_satisfy[OF r4 cyc(9)] by metis
qed

lemma bounded_cycle_runs: "bounded_cycle st a b \<Longrightarrow> unify_fuel n a b st = None"
proof (induction n arbitrary: st a b)
  case (Suc n)
  from bounded_cycle_step[OF Suc.prems] obtain c w st' where
    "bounded_cycle st' c w" "unify_vars (unify_fuel n) a b st = and_then (unify_fuel n c w st') accept"
    by blast
  with Suc.IH show ?case by (simp add: and_then_def)
qed simp

definition self_list :: uf where
  "self_list = grown [FlexSuper Comparable, Structure (App ''List'' [0])]"

text \<open>C19: unifying a variable bound by \<open>comparable\<close> with a list of that same variable, which is what the
  definition \<open>f x = x < [x]\<close> asks for, never returns: the arm for a bound and a concrete shape has no occurs
  check, so the element is again bound to be comparable, without end.\<close>

theorem comparable_self_list_diverges: "unify_fuel n 0 1 self_list = None"
proof -
  let ?cs = "[FlexSuper Comparable, Structure (App ''List'' [0])]"
  have ok: "uf_ok (grown ?cs) \<and> marks_ok (grown ?cs) \<and> size_of (grown ?cs) = length ?cs"
    by (rule grown_ok) (auto simp: content_children_def flat_children_def less_Suc_eq nth_Cons')
  have c: "class_of self_list 0 = 0" "class_of self_list 1 = 1" "cont self_list 0 = FlexSuper Comparable"
    "cont self_list 1 = Structure (App ''List'' [0])"
    by code_simp+
  have "bounded_cycle self_list 0 1" unfolding bounded_cycle_def
    using ok c by (auto simp: self_list_def[symmetric])
  then show ?thesis by (rule bounded_cycle_runs)
qed

end
