(* ===== verification/Ty.thy ===== *)
theory Ty
  imports Super_Type Nominal Prelude
begin

text \<open>
  Canonical types (\<open>ty/src/lib.rs\<close>): substitution with row variables, free variables, rendering, the
  renaming of inference variables for display, and schemes. Names are the strings of their bytes.
\<close>

datatype ty =
    TyVar string
  | TyFun ty ty
  | TyApp string "ty list"
  | TyRecord "(string \<times> ty) list" "string option"
  | TyTuple "ty list"
  | TyUnit
  | TyError

definition into_fun :: "ty \<Rightarrow> ty + ty \<times> ty" where
  "into_fun t = (case t of TyFun a b \<Rightarrow> Inr (a, b) | _ \<Rightarrow> Inl t)"

definition into_tuple :: "ty \<Rightarrow> ty + ty list" where
  "into_tuple t = (case t of TyTuple xs \<Rightarrow> Inr xs | _ \<Rightarrow> Inl t)"

section \<open>Substitution\<close>

text \<open>The loop that appends the fields of the record a row variable is bound to.\<close>

fun append_missing :: "(string \<times> ty) list \<Rightarrow> (string \<times> ty) list \<Rightarrow> (string \<times> ty) list" where
  "append_missing fs [] = fs"
| "append_missing fs ((n, t) # rest) =
     append_missing (if n \<in> fst ` set fs then fs else fs @ [(n, t)]) rest"

definition subst_row :: "(string \<times> ty) list \<Rightarrow> string option \<Rightarrow> (string \<Rightarrow> ty option) \<Rightarrow> ty" where
  "subst_row fs ext sub = (case ext of
     None \<Rightarrow> TyRecord fs None
   | Some e \<Rightarrow> (case sub e of
       None \<Rightarrow> TyRecord fs (Some e)
     | Some (TyVar v) \<Rightarrow> TyRecord fs (Some v)
     | Some (TyRecord rest rest_ext) \<Rightarrow> TyRecord (append_missing fs rest) rest_ext
     | Some _ \<Rightarrow> TyRecord fs (Some e)))"

primrec subst_vars :: "(string \<Rightarrow> ty option) \<Rightarrow> ty \<Rightarrow> ty" where
  "subst_vars sub (TyVar n) = (case sub n of Some t \<Rightarrow> t | None \<Rightarrow> TyVar n)"
| "subst_vars sub (TyFun a b) = TyFun (subst_vars sub a) (subst_vars sub b)"
| "subst_vars sub (TyApp n xs) = TyApp n (map (subst_vars sub) xs)"
| "subst_vars sub (TyRecord fs ext) = subst_row (map (map_prod id (subst_vars sub)) fs) ext sub"
| "subst_vars sub (TyTuple xs) = TyTuple (map (subst_vars sub) xs)"
| "subst_vars sub TyUnit = TyUnit"
| "subst_vars sub TyError = TyError"

section \<open>Variables\<close>

definition push_new :: "string \<Rightarrow> string list \<Rightarrow> string list" where
  "push_new n out = (if n \<in> set out then out else out @ [n])"

definition push_ext :: "string option \<Rightarrow> string list \<Rightarrow> string list" where
  "push_ext ext out = (case ext of Some e \<Rightarrow> push_new e out | None \<Rightarrow> out)"

primrec free_vars_into :: "ty \<Rightarrow> string list \<Rightarrow> string list" where
  "free_vars_into (TyVar n) = push_new n"
| "free_vars_into (TyFun a b) = free_vars_into b \<circ> free_vars_into a"
| "free_vars_into (TyApp n xs) = fold id (map free_vars_into xs)"
| "free_vars_into (TyRecord fs ext) = push_ext ext \<circ> fold id (map snd (map (map_prod id free_vars_into) fs))"
| "free_vars_into (TyTuple xs) = fold id (map free_vars_into xs)"
| "free_vars_into TyUnit = id"
| "free_vars_into TyError = id"

definition free_vars :: "ty \<Rightarrow> string list" where
  "free_vars t = free_vars_into t []"

text \<open>\<open>for_each_var\<close>, as the list of the names it visits; a record's row variable comes first.\<close>

primrec each_var :: "ty \<Rightarrow> string list" where
  "each_var (TyVar n) = [n]"
| "each_var (TyFun a b) = each_var a @ each_var b"
| "each_var (TyApp n xs) = concat (map each_var xs)"
| "each_var (TyRecord fs ext) = (case ext of Some e \<Rightarrow> [e] | None \<Rightarrow> []) @ concat (map snd (map (map_prod id each_var) fs))"
| "each_var (TyTuple xs) = concat (map each_var xs)"
| "each_var TyUnit = []"
| "each_var TyError = []"

section \<open>Rendering\<close>

definition is_fun :: "ty \<Rightarrow> bool" where
  "is_fun t \<longleftrightarrow> (case t of TyFun _ _ \<Rightarrow> True | _ \<Rightarrow> False)"

definition takes_args :: "ty \<Rightarrow> bool" where
  "takes_args t \<longleftrightarrow> (case t of TyApp _ xs \<Rightarrow> xs \<noteq> [] | _ \<Rightarrow> False)"

definition parenthesised :: "string \<Rightarrow> string" where
  "parenthesised s = ''('' @ s @ '')''"

definition shown_var :: "(string \<Rightarrow> string option) \<Rightarrow> string \<Rightarrow> string" where
  "shown_var m n = (case m n of Some s \<Rightarrow> s | None \<Rightarrow> n)"

primrec render_mapped :: "(string \<Rightarrow> string option) \<Rightarrow> ty \<Rightarrow> string" where
  "render_mapped m (TyVar n) = shown_var m n"
| "render_mapped m TyUnit = ''()''"
| "render_mapped m TyError = ''?''"
| "render_mapped m (TyFun a b) =
     (if is_fun a then parenthesised (render_mapped m a) else render_mapped m a) @ '' -> '' @ render_mapped m b"
| "render_mapped m (TyApp n xs) =
     (if xs = [] then strip_name n
      else strip_name n @ '' '' @ join '' '' (map (\<lambda>(t, s). if takes_args t \<or> is_fun t then parenthesised s else s)
        (zip xs (map (render_mapped m) xs))))"
| "render_mapped m (TyTuple xs) = ''( '' @ join '', '' (map (render_mapped m) xs) @ '' )''"
| "render_mapped m (TyRecord fs ext) =
     (let parts = join '', '' (map (\<lambda>(n, s). n @ '' : '' @ s) (map (map_prod id (render_mapped m)) fs)) in
      case ext of
        Some e \<Rightarrow> ''{ '' @ shown_var m e @ '' | '' @ parts @ '' }''
      | None \<Rightarrow> ''{ '' @ parts @ '' }'')"

definition render :: "ty \<Rightarrow> string" where
  "render = render_mapped Map.empty"

definition is_internal_var :: "string \<Rightarrow> bool" where
  "is_internal_var n \<longleftrightarrow>
     (case n of
        c # ds \<Rightarrow> (c = CHR ''t'' \<or> c = CHR ''r'') \<and> ds \<noteq> [] \<and> list_all ascii_digit ds
      | [] \<Rightarrow> False) \<or> minted_label n \<noteq> None"

definition display_var_name :: "nat \<Rightarrow> string" where
  "display_var_name i =
     (let letter = char_of (97 + i mod 26) :: char; suffix = i div 26 in
      if suffix = 0 then [letter] else letter # show_nat suffix)"

text \<open>The search for the first candidate no name uses, from candidate \<open>i\<close> on: one more try than there are
  used names is enough, because candidates differ.\<close>

primrec first_unused :: "nat \<Rightarrow> (nat \<Rightarrow> string) \<Rightarrow> string list \<Rightarrow> nat \<Rightarrow> nat option" where
  "first_unused 0 cand used i = None"
| "first_unused (Suc n) cand used i = (if cand i \<in> set used then first_unused n cand used (Suc i) else Some i)"

definition label_name :: "string \<Rightarrow> nat \<Rightarrow> string" where
  "label_name lbl i = (if i = 0 then lbl else lbl @ show_nat i)"

text \<open>The state of the renaming: the map, the counter of plain names, and the names in use.\<close>

type_synonym renaming = "(string \<Rightarrow> string option) \<times> nat \<times> string list"

definition rename_step :: "string \<Rightarrow> renaming \<Rightarrow> renaming option" where
  "rename_step n st =
     (let (m, counter, used) = st in
      if is_internal_var n \<and> m n = None then
        (case minted_label n of
           Some lbl \<Rightarrow>
             (case first_unused (Suc (length used)) (label_name lbl) used 0 of
                Some i \<Rightarrow> (let clean = label_name lbl i in Some (m(n \<mapsto> clean), counter, clean # used))
              | None \<Rightarrow> None)
         | None \<Rightarrow>
             (case first_unused (Suc (length used)) display_var_name used counter of
                Some i \<Rightarrow> (let clean = display_var_name i in Some (m(n \<mapsto> clean), Suc i, clean # used))
              | None \<Rightarrow> None))
      else Some st)"

fun rename_all :: "string list \<Rightarrow> renaming \<Rightarrow> renaming option" where
  "rename_all [] st = Some st"
| "rename_all (n # ns) st = (case rename_step n st of Some st \<Rightarrow> rename_all ns st | None \<Rightarrow> None)"

definition display_names :: "ty \<Rightarrow> (string \<Rightarrow> string option) option" where
  "display_names t =
     (let kept = filter (\<lambda>n. \<not> is_internal_var n) (each_var t) in
      map_option fst (rename_all (each_var t) (Map.empty, 0, kept)))"

definition render_pretty :: "ty \<Rightarrow> string option" where
  "render_pretty t = map_option (\<lambda>m. render_mapped m t) (display_names t)"

section \<open>Schemes\<close>

record scheme =
  sc_vars :: "string list"
  sc_ty :: ty

definition scheme_mono :: "ty \<Rightarrow> scheme" where
  "scheme_mono t = \<lparr>sc_vars = [], sc_ty = t\<rparr>"

definition generalize :: "ty \<Rightarrow> scheme" where
  "generalize t = \<lparr>sc_vars = filter (\<lambda>v. v \<noteq> ''any'') (free_vars t), sc_ty = t\<rparr>"

definition is_polymorphic :: "string list \<Rightarrow> bool" where
  "is_polymorphic free \<longleftrightarrow> list_ex (\<lambda>n. n \<noteq> ''any'') free"

section \<open>Lemmas\<close>

text \<open>The variables of a type, row variables included, and the row variables alone.\<close>

primrec vars :: "ty \<Rightarrow> string set" where
  "vars (TyVar n) = {n}"
| "vars (TyFun a b) = vars a \<union> vars b"
| "vars (TyApp n xs) = \<Union> (set (map vars xs))"
| "vars (TyRecord fs ext) = set_option ext \<union> \<Union> (set (map snd (map (map_prod id vars) fs)))"
| "vars (TyTuple xs) = \<Union> (set (map vars xs))"
| "vars TyUnit = {}"
| "vars TyError = {}"

lemma set_each_var: "set (each_var t) = vars t"
  by (induction t) (auto split: option.splits)

lemma fold_grows:
  assumes "\<And>x out. x \<in> set xs \<Longrightarrow> set (f x out) = set out \<union> V x \<and> (distinct out \<longrightarrow> distinct (f x out))"
  shows "set (fold id (map f xs) out) = set out \<union> \<Union> (V ` set xs) \<and> (distinct out \<longrightarrow> distinct (fold id (map f xs) out))"
  using assms by (induction xs arbitrary: out) auto

lemma free_vars_into_vars:
  "set (free_vars_into t out) = set out \<union> vars t \<and> (distinct out \<longrightarrow> distinct (free_vars_into t out))"
proof (induction t arbitrary: out)
  case (TyApp n xs)
  from fold_grows[of xs free_vars_into vars out, OF TyApp.IH] show ?case by auto
next
  case (TyTuple xs)
  from fold_grows[of xs free_vars_into vars out, OF TyTuple.IH] show ?case by auto
next
  case (TyRecord fs ext)
  have "set ((free_vars_into \<circ> snd) p out) = set out \<union> (vars \<circ> snd) p \<and>
      (distinct out \<longrightarrow> distinct ((free_vars_into \<circ> snd) p out))" if "p \<in> set fs" for p out
    using TyRecord.IH[of p "snd p" out] that by (cases p) auto
  from fold_grows[of fs "free_vars_into \<circ> snd" "vars \<circ> snd" out, OF this]
  show ?case by (auto simp: push_ext_def push_new_def comp_def split: option.split)
qed (auto simp: push_new_def)

lemma free_vars_exact: "set (free_vars t) = vars t \<and> distinct (free_vars t)"
  using free_vars_into_vars[of t "[]"] by (simp add: free_vars_def)

section \<open>Substitutions compose\<close>

lemma append_missing_snoc: "append_missing fs (rest @ [(n, t)]) =
    (let out = append_missing fs rest in if n \<in> fst ` set out then out else out @ [(n, t)])"
  by (induction fs rest rule: append_missing.induct) (simp_all add: Let_def)

lemma fst_append_missing: "fst ` set (append_missing fs rest) = fst ` set fs \<union> fst ` set rest"
  by (induction fs rest rule: append_missing.induct) auto

lemma append_missing_assoc: "append_missing fs (append_missing rest xs) = append_missing (append_missing fs rest) xs"
  by (induction rest xs rule: append_missing.induct)
    (auto simp: fst_append_missing append_missing_snoc Let_def)

lemma map_append_missing: "map (map_prod id f) (append_missing fs rest) =
    append_missing (map (map_prod id f) fs) (map (map_prod id f) rest)"
  by (induction fs rest rule: append_missing.induct) (auto simp: image_image comp_def)

primrec rows :: "ty \<Rightarrow> string set" where
  "rows (TyVar n) = {}"
| "rows (TyFun a b) = rows a \<union> rows b"
| "rows (TyApp n xs) = \<Union> (set (map rows xs))"
| "rows (TyRecord fs ext) = set_option ext \<union> \<Union> (set (map snd (map (map_prod id rows) fs)))"
| "rows (TyTuple xs) = \<Union> (set (map rows xs))"
| "rows TyUnit = {}"
| "rows TyError = {}"

text \<open>Row variables stand for rows: what binds one is a record or another variable.\<close>

definition binds_row :: "(string \<Rightarrow> ty option) \<Rightarrow> string \<Rightarrow> bool" where
  "binds_row sub e \<longleftrightarrow> (case sub e of None \<Rightarrow> True | Some (TyVar _) \<Rightarrow> True | Some (TyRecord _ _) \<Rightarrow> True | _ \<Rightarrow> False)"

definition then_subst :: "(string \<Rightarrow> ty option) \<Rightarrow> (string \<Rightarrow> ty option) \<Rightarrow> string \<Rightarrow> ty option" where
  "then_subst s1 s2 n = (case s1 n of Some t \<Rightarrow> Some (subst_vars s2 t) | None \<Rightarrow> s2 n)"

lemma subst_row_compose:
  assumes "\<And>e. ext = Some e \<Longrightarrow> binds_row s1 e" "\<And>v. v \<in> rows (subst_row fs ext s1) \<Longrightarrow> binds_row s2 v"
  shows "subst_vars s2 (subst_row fs ext s1) = subst_row (map (map_prod id (subst_vars s2)) fs) ext (then_subst s1 s2)"
proof (cases ext)
  case (Some e)
  show ?thesis
  proof (cases "s1 e")
    case None
    then show ?thesis using Some by (simp add: subst_row_def then_subst_def)
  next
    case bound: (Some b)
    with assms(1)[OF Some] consider v where "b = TyVar v" | rest rx where "b = TyRecord rest rx"
      by (auto simp: binds_row_def split: ty.splits)
    then show ?thesis
    proof cases
      case 1
      have "binds_row s2 v" using assms(2)[of v] Some bound 1 by (simp add: subst_row_def)
      then show ?thesis using Some bound 1
        by (auto simp: subst_row_def then_subst_def binds_row_def split: option.split ty.splits)
    next
      case 2
      then show ?thesis using Some bound
        by (auto simp: subst_row_def then_subst_def map_append_missing append_missing_assoc
            split: option.split ty.split)
    qed
  qed
qed (simp add: subst_row_def)

lemma set_append_missing: "set fs \<subseteq> set (append_missing fs rest)"
proof (induction fs rest rule: append_missing.induct)
  case (2 fs n t rest)
  have "set fs \<subseteq> set (if n \<in> fst ` set fs then fs else fs @ [(n, t)])" by auto
  from subset_trans[OF this 2] show ?case by (simp only: append_missing.simps)
qed simp

lemma rows_subst_row: "(n, t) \<in> set fs \<Longrightarrow> rows t \<subseteq> rows (subst_row fs ext s)"
  using set_append_missing[of fs]
  by (cases ext) (force simp: subst_row_def split: option.split ty.split)+

lemma subst_compose:
  assumes "\<And>e. e \<in> rows t \<Longrightarrow> binds_row s1 e" "\<And>e. e \<in> rows (subst_vars s1 t) \<Longrightarrow> binds_row s2 e"
  shows "subst_vars s2 (subst_vars s1 t) = subst_vars (then_subst s1 s2) t"
  using assms
proof (induction t)
  case (TyVar n)
  then show ?case by (simp add: then_subst_def split: option.split)
next
  case (TyRecord fs ext)
  let ?fs = "map (map_prod id (subst_vars s1)) fs"
  have sub: "subst_vars s1 (TyRecord fs ext) = subst_row ?fs ext s1" by simp
  have "map_prod id (subst_vars s2) (map_prod id (subst_vars s1) p) = map_prod id (subst_vars (then_subst s1 s2)) p"
    if p: "p \<in> set fs" for p
  proof -
    have mem: "(fst p, subst_vars s1 (snd p)) \<in> set ?fs" using p by (force simp: map_prod_def)
    have "subst_vars s2 (subst_vars s1 (snd p)) = subst_vars (then_subst s1 s2) (snd p)"
      by (rule TyRecord.IH[OF p])
        (use p TyRecord.prems rows_subst_row[OF mem, of ext s1] in \<open>force simp: snds.simps\<close>)+
    then show ?thesis by (cases p) simp
  qed
  then have fs: "map (map_prod id (subst_vars s2)) ?fs = map (map_prod id (subst_vars (then_subst s1 s2))) fs"
    by simp
  have "subst_vars s2 (subst_row ?fs ext s1) = subst_row (map (map_prod id (subst_vars s2)) ?fs) ext (then_subst s1 s2)"
    by (rule subst_row_compose) (use TyRecord.prems in auto)
  then show ?case unfolding sub fs by simp
next
  case (TyApp n xs)
  have "subst_vars s2 (subst_vars s1 x) = subst_vars (then_subst s1 s2) x" if "x \<in> set xs" for x
    by (rule TyApp.IH[OF that]) (use TyApp.prems that in auto)
  then show ?case by simp
next
  case (TyTuple xs)
  have "subst_vars s2 (subst_vars s1 x) = subst_vars (then_subst s1 s2) x" if "x \<in> set xs" for x
    by (rule TyTuple.IH[OF that]) (use TyTuple.prems that in auto)
  then show ?case by simp
qed auto

section \<open>Display names\<close>

lemma show_nat_digits: "d \<in> set (show_nat n) \<Longrightarrow> ascii_digit d"
proof (induction n rule: show_nat.induct)
  case (1 n)
  then show ?case by (subst (asm) show_nat.simps) (auto split: if_splits simp: ascii_digit_def)
qed

primrec read_nat :: "string \<Rightarrow> nat" where
  "read_nat [] = 0"
| "read_nat (c # cs) = (of_char c - 48) * 10 ^ length cs + read_nat cs"

lemma read_nat_append: "read_nat (xs @ ys) = read_nat xs * 10 ^ length ys + read_nat ys"
  by (induction xs) (auto simp: power_add algebra_simps)

lemma read_show [simp]: "read_nat (show_nat n) = n"
proof (induction n rule: show_nat.induct)
  case (1 n)
  then show ?case by (subst show_nat.simps) (simp add: read_nat_append)
qed

lemma show_nat_inject [simp]: "show_nat m = show_nat n \<longleftrightarrow> m = n"
  by (metis read_show)

lemma show_nat_nonempty [simp]: "show_nat n \<noteq> []"
  by (subst show_nat.simps) simp

lemma inj_label_name: "inj (label_name lbl)"
  by (rule injI) (simp add: label_name_def split: if_splits)

lemma inj_display_var_name: "inj display_var_name"
proof (rule injI)
  fix i j assume eq: "display_var_name i = display_var_name j"
  have l: "hd (display_var_name k) = char_of (97 + k mod 26)" for k
    by (simp add: display_var_name_def Let_def)
  have s: "tl (display_var_name k) = (if k div 26 = 0 then [] else show_nat (k div 26))" for k
    by (simp add: display_var_name_def Let_def)
  have "of_char (char_of (97 + i mod 26) :: char) = (of_char (char_of (97 + j mod 26) :: char) :: nat)"
    using eq l by metis
  then have m: "i mod 26 = j mod 26" by simp
  have "i div 26 = j div 26" using arg_cong[OF eq, of tl] unfolding s by (simp split: if_splits del: div_eq_0_iff) (metis show_nat_nonempty)
  with m show "i = j" by (metis div_mult_mod_eq)
qed

lemma first_unused_Some: "first_unused n cand used i = Some j \<Longrightarrow> i \<le> j \<and> cand j \<notin> set used"
  by (induction n arbitrary: i) (fastforce split: if_splits)+

lemma first_unused_None: "first_unused n cand used i = None \<Longrightarrow> cand ` {i..<i + n} \<subseteq> set used"
proof (induction n arbitrary: i)
  case (Suc n)
  from Suc.prems have "cand i \<in> set used" "first_unused n cand used (Suc i) = None" by (simp_all split: if_splits)
  moreover have "{i..<i + Suc n} = insert i {Suc i..<Suc i + n}" by auto
  ultimately show ?case using Suc.IH[of "Suc i"] by simp
qed simp

lemma first_unused_found: "inj cand \<Longrightarrow> \<exists>j. first_unused (Suc (length used)) cand used i = Some j"
proof (rule ccontr)
  assume inj: "inj cand" and "\<nexists>j. first_unused (Suc (length used)) cand used i = Some j"
  then have "cand ` {i..<i + Suc (length used)} \<subseteq> set used" by (intro first_unused_None) simp
  then have "card (cand ` {i..<i + Suc (length used)}) \<le> length used" by (meson card_mono card_length finite_set le_trans)
  moreover have "card (cand ` {i..<i + Suc (length used)}) = Suc (length used)"
    using inj by (subst card_image) (auto intro: inj_on_subset)
  ultimately show False by simp
qed

text \<open>Clean names are used names, different for different variables, and none is a kept name.\<close>

definition renaming_ok :: "string list \<Rightarrow> renaming \<Rightarrow> bool" where
  "renaming_ok kept st \<longleftrightarrow> (let (m, _, used) = st in
     set kept \<subseteq> set used \<and> ran m \<subseteq> set used - set kept \<and> inj_on m (dom m) \<and> (\<forall>n \<in> dom m. is_internal_var n))"

lemma rename_step_ok:
  assumes "renaming_ok kept st"
  shows "\<exists>st'. rename_step n st = Some st' \<and> renaming_ok kept st' \<and>
    dom (fst st') = dom (fst st) \<union> ({n} \<inter> Collect is_internal_var)"
proof -
  obtain m counter used where st: "st = (m, counter, used)" by (cases st)
  show ?thesis
  proof (cases "is_internal_var n \<and> m n = None")
    case False
    with assms show ?thesis unfolding st rename_step_def by auto
  next
    case True
    have "renaming_ok kept (m(n \<mapsto> c), k, c # used)" if "c \<notin> set used" for c k
    proof -
      have "ran (m(n \<mapsto> c)) = insert c (ran m)" using True by simp
      moreover have "inj_on (m(n \<mapsto> c)) (insert n (dom m))"
        using assms that True unfolding st renaming_ok_def
        by (auto simp: inj_on_def ran_def split: if_splits)
      ultimately show ?thesis using assms that True unfolding st renaming_ok_def by auto
    qed
    then have ok: "renaming_ok kept (m(n \<mapsto> c), k, c # used) \<and>
        dom (fst (m(n \<mapsto> c), k, c # used)) = dom (fst st) \<union> ({n} \<inter> Collect is_internal_var)" if "c \<notin> set used" for c k
      using that True by (auto simp: st)
    show ?thesis
    proof (cases "minted_label n")
      case None
      obtain i where i: "first_unused (Suc (length used)) display_var_name used counter = Some i"
        using first_unused_found[OF inj_display_var_name] by blast
      have "rename_step n st = Some (m(n \<mapsto> display_var_name i), Suc i, display_var_name i # used)"
        using True None i by (simp add: rename_step_def st Let_def del: first_unused.simps)
      with ok first_unused_Some[OF i] show ?thesis by blast
    next
      case (Some lbl)
      obtain i where i: "first_unused (Suc (length used)) (label_name lbl) used 0 = Some i"
        using first_unused_found[OF inj_label_name] by blast
      have "rename_step n st = Some (m(n \<mapsto> label_name lbl i), counter, label_name lbl i # used)"
        using True Some i by (simp add: rename_step_def st Let_def del: first_unused.simps)
      with ok first_unused_Some[OF i] show ?thesis by blast
    qed
  qed
qed

lemma rename_all_ok:
  "renaming_ok kept st \<Longrightarrow> \<exists>st'. rename_all ns st = Some st' \<and> renaming_ok kept st' \<and>
    dom (fst st') = dom (fst st) \<union> (set ns \<inter> Collect is_internal_var)"
proof (induction ns arbitrary: st)
  case (Cons n ns)
  obtain st1 where st1: "rename_step n st = Some st1" "renaming_ok kept st1"
    "dom (fst st1) = dom (fst st) \<union> ({n} \<inter> Collect is_internal_var)" using rename_step_ok[OF Cons.prems] by blast
  from Cons.IH[OF st1(2)] st1(1,3) show ?case by auto
qed simp

text \<open>C23: pretty-printed types never confuse two variables. The renaming for display always finds
  its names (the search for an unused one ends), renames exactly the variables inference minted, and
  gives different variables of the type, row variables included, different names, so no minted variable is shown
  under a name the user wrote.\<close>

theorem display_names_distinct:
  "\<exists>m. display_names t = Some m \<and> dom m = {n \<in> vars t. is_internal_var n} \<and> inj_on (shown_var m) (vars t)"
proof -
  let ?kept = "filter (\<lambda>n. \<not> is_internal_var n) (each_var t)"
  have "renaming_ok ?kept (Map.empty, 0, ?kept)" by (simp add: renaming_ok_def)
  from rename_all_ok[OF this, of "each_var t"] obtain m k used where
    m: "rename_all (each_var t) (Map.empty, 0, ?kept) = Some (m, k, used)" "renaming_ok ?kept (m, k, used)"
    "dom m = vars t \<inter> Collect is_internal_var" by (auto simp: set_each_var)
  have kept: "set ?kept = {n \<in> vars t. \<not> is_internal_var n}" by (auto simp: set_each_var)
  have "x = y" if "x \<in> vars t" "y \<in> vars t" "shown_var m x = shown_var m y" for x y
  proof -
    have r: "ran m \<inter> set ?kept = {}" and i: "inj_on m (dom m)" using m(2) by (auto simp: renaming_ok_def)
    have "m n = None \<Longrightarrow> n \<in> vars t \<Longrightarrow> n \<in> set ?kept" for n using m(3) kept by auto
    moreover have "m x = m y \<Longrightarrow> m x \<noteq> None \<Longrightarrow> x = y" using i by (auto simp: inj_on_def dom_def)
    ultimately show ?thesis using that r unfolding shown_var_def
      by (auto split: option.splits simp: ran_def disjoint_iff simp del: set_filter)
  qed
  then have "inj_on (shown_var m) (vars t)" by (rule inj_onI)
  with m show ?thesis by (auto simp: display_names_def Let_def)
qed

text \<open>instantiating an alias with arguments that are instantiated later gives the same type as
  instantiating it with the instantiated arguments: substitutions compose, through row variables bound to
  records or other variables, whose fields are appended and whose own row variable takes over.\<close>

theorem substitution_composes:
  assumes "\<forall>e \<in> rows t. binds_row s1 e" "\<forall>e \<in> rows (subst_vars s1 t). binds_row s2 e"
  shows "subst_vars s2 (subst_vars s1 t) = subst_vars (then_subst s1 s2) t"
  using assms by (intro subst_compose) auto

end
