(* ===== verification/Ty_Table.thy ===== *)
theory Ty_Table
  imports Ty
begin

text \<open>
  The hash-consed store of types, \<open>ty/src/tytable.rs\<close>. A reference is an index into the nodes; the
  builder panics at the \<open>2 ^ 32\<close>-th distinct node, which is \<open>None\<close> here, as is an index out of range.
  Rebuilding follows references to earlier nodes only, so the index of a node bounds the depth: \<open>ty_get\<close>
  runs with fuel \<open>Suc r\<close>.
\<close>

datatype ty_node =
    NVar string
  | NFun nat nat
  | NApp string "nat list"
  | NRecord "(string \<times> nat) list" "string option"
  | NTuple "nat list"
  | NUnit
  | NError

record builder =
  bd_nodes :: "ty_node list"
  bd_index :: "ty_node \<Rightarrow> nat option"

definition builder_new :: builder where
  "builder_new = \<lparr>bd_nodes = [], bd_index = Map.empty\<rparr>"

type_synonym 'a building = "builder \<Rightarrow> ('a \<times> builder) option"

definition intern_node :: "ty_node \<Rightarrow> nat building" where
  "intern_node node b = (case bd_index b node of
     Some r \<Rightarrow> Some (r, b)
   | None \<Rightarrow>
       (let r = length (bd_nodes b) in
        if 2 ^ 32 \<le> r then None
        else Some (r, \<lparr>bd_nodes = bd_nodes b @ [node], bd_index = (bd_index b)(node \<mapsto> r)\<rparr>)))"

definition and_build :: "'a building \<Rightarrow> ('a \<Rightarrow> 'b building) \<Rightarrow> 'b building" where
  "and_build m k b = (case m b of None \<Rightarrow> None | Some (x, b) \<Rightarrow> k x b)"

text \<open>\<open>iter().map(..).collect()\<close> of steps that build.\<close>

fun in_order :: "'a building list \<Rightarrow> 'a list building" where
  "in_order [] = (\<lambda>b. Some ([], b))"
| "in_order (m # ms) = and_build m (\<lambda>x. and_build (in_order ms) (\<lambda>xs b. Some (x # xs, b)))"

primrec ty_intern :: "ty \<Rightarrow> nat building" where
  "ty_intern (TyVar n) = intern_node (NVar n)"
| "ty_intern (TyFun a b) = and_build (ty_intern a) (\<lambda>a. and_build (ty_intern b) (\<lambda>b. intern_node (NFun a b)))"
| "ty_intern (TyApp n xs) = and_build (in_order (map ty_intern xs)) (\<lambda>rs. intern_node (NApp n rs))"
| "ty_intern (TyRecord fs ext) =
     and_build (in_order (map snd (map (map_prod id ty_intern) fs))) (\<lambda>rs. intern_node (NRecord (zip (map fst fs) rs) ext))"
| "ty_intern (TyTuple xs) = and_build (in_order (map ty_intern xs)) (\<lambda>rs. intern_node (NTuple rs))"
| "ty_intern TyUnit = intern_node NUnit"
| "ty_intern TyError = intern_node NError"

definition bd_finish :: "builder \<Rightarrow> ty_node list" where
  "bd_finish b = bd_nodes b"

fun all_some :: "'a option list \<Rightarrow> 'a list option" where
  "all_some [] = Some []"
| "all_some (x # xs) = (case (x, all_some xs) of (Some y, Some ys) \<Rightarrow> Some (y # ys) | _ \<Rightarrow> None)"

primrec rebuild :: "nat \<Rightarrow> ty_node list \<Rightarrow> nat \<Rightarrow> ty option" where
  "rebuild 0 nodes r = None"
| "rebuild (Suc n) nodes r =
     (if length nodes \<le> r then None
      else (case nodes ! r of
          NVar x \<Rightarrow> Some (TyVar x)
        | NFun a b \<Rightarrow> (case (rebuild n nodes a, rebuild n nodes b) of (Some ta, Some tb) \<Rightarrow> Some (TyFun ta tb) | _ \<Rightarrow> None)
        | NApp c xs \<Rightarrow> map_option (TyApp c) (all_some (map (rebuild n nodes) xs))
        | NRecord fs ext \<Rightarrow>
            map_option (\<lambda>ts. TyRecord (zip (map fst fs) ts) ext) (all_some (map (rebuild n nodes \<circ> snd) fs))
        | NTuple xs \<Rightarrow> map_option TyTuple (all_some (map (rebuild n nodes) xs))
        | NUnit \<Rightarrow> Some TyUnit
        | NError \<Rightarrow> Some TyError))"

definition ty_get :: "ty_node list \<Rightarrow> nat \<Rightarrow> ty option" where
  "ty_get nodes r = rebuild (Suc r) nodes r"

definition node_count :: "ty_node list \<Rightarrow> nat" where
  "node_count nodes = length nodes"

definition app_name :: "ty_node list \<Rightarrow> nat \<Rightarrow> string option" where
  "app_name nodes r = (case nodes ! r of NApp n _ \<Rightarrow> Some n | _ \<Rightarrow> None)"

section \<open>Reading back\<close>

fun node_children :: "ty_node \<Rightarrow> nat list" where
  "node_children (NFun a b) = [a, b]"
| "node_children (NApp n xs) = xs"
| "node_children (NRecord fs ext) = map snd fs"
| "node_children (NTuple xs) = xs"
| "node_children _ = []"

definition ordered :: "ty_node list \<Rightarrow> bool" where
  "ordered nodes \<longleftrightarrow> (\<forall>r < length nodes. \<forall>c \<in> set (node_children (nodes ! r)). c < r)"

lemma orderedD: "ordered nodes \<Longrightarrow> r < length nodes \<Longrightarrow> c \<in> set (node_children (nodes ! r)) \<Longrightarrow> c < r"
  by (simp add: ordered_def)

text \<open>The type a node makes of its children's types.\<close>

definition node_ty :: "ty_node \<Rightarrow> ty list \<Rightarrow> ty" where
  "node_ty node ts = (case node of
     NVar x \<Rightarrow> TyVar x | NFun _ _ \<Rightarrow> TyFun (ts ! 0) (ts ! 1) | NApp c _ \<Rightarrow> TyApp c ts
   | NRecord fs ext \<Rightarrow> TyRecord (zip (map fst fs) ts) ext | NTuple _ \<Rightarrow> TyTuple ts | NUnit \<Rightarrow> TyUnit | NError \<Rightarrow> TyError)"

lemma all_some_map: "(\<And>x. x \<in> set xs \<Longrightarrow> f x = Some (g x)) \<Longrightarrow> all_some (map f xs) = Some (map g xs)"
  by (induction xs) simp_all

lemma rebuild_children:
  assumes "r < length nodes" "\<And>c. c \<in> set (node_children (nodes ! r)) \<Longrightarrow> rebuild n nodes c = Some (g c)"
  shows "rebuild (Suc n) nodes r = Some (node_ty (nodes ! r) (map g (node_children (nodes ! r))))"
  using assms by (cases "nodes ! r") (simp_all add: node_ty_def all_some_map comp_def)

lemma rebuild_enough:
  assumes "ordered nodes"
  shows "r < length nodes \<Longrightarrow> r < n \<Longrightarrow> rebuild n nodes r \<noteq> None \<and> rebuild n nodes r = ty_get nodes r"
proof (induction r arbitrary: n rule: less_induct)
  case (less r)
  have kids: "c < r \<and> c < length nodes" if "c \<in> set (node_children (nodes ! r))" for c
    using orderedD[OF assms less.prems(1) that] less.prems(1) by simp
  have ih: "rebuild m nodes c = Some (the (ty_get nodes c))" if "c \<in> set (node_children (nodes ! r))" "r \<le> m" for c m
    using less.IH[of c m] kids[OF that(1)] that(2) by (metis option.collapse order_less_le_trans)
  obtain k where "n = Suc k" "r \<le> k" using less.prems(2) by (cases n) auto
  with rebuild_children[OF less.prems(1), of k] rebuild_children[OF less.prems(1), of r] ih show ?case
    by (simp add: ty_get_def)
qed

lemma ty_get_unfold:
  assumes "ordered nodes" "r < length nodes"
  shows "ty_get nodes r = Some (node_ty (nodes ! r) (map (\<lambda>c. the (ty_get nodes c)) (node_children (nodes ! r))))"
proof -
  have "rebuild r nodes c = Some (the (ty_get nodes c))" if "c \<in> set (node_children (nodes ! r))" for c
    using rebuild_enough[OF assms(1), of c r] orderedD[OF assms that] assms(2) by (metis option.collapse less_trans)
  from rebuild_children[OF assms(2) this] show ?thesis by (simp add: ty_get_def)
qed

lemma ordered_append: "ordered (nodes @ xs) \<Longrightarrow> ordered nodes"
  unfolding ordered_def by (metis length_append nth_append trans_less_add1)

lemma ty_get_append:
  assumes "ordered (nodes @ xs)"
  shows "r < length nodes \<Longrightarrow> ty_get (nodes @ xs) r = ty_get nodes r"
proof (induction r rule: less_induct)
  case (less r)
  have kids: "c < r" if "c \<in> set (node_children (nodes ! r))" for c
    using orderedD[OF ordered_append[OF assms] less.prems that] .
  have "map (\<lambda>c. the (ty_get (nodes @ xs) c)) (node_children (nodes ! r)) =
      map (\<lambda>c. the (ty_get nodes c)) (node_children (nodes ! r))"
    using less kids by auto
  with ty_get_unfold[OF assms, of r] ty_get_unfold[OF ordered_append[OF assms] less.prems] less.prems show ?case
    by (simp add: nth_append)
qed

lemma node_ty_inject:
  assumes "node_ty x (map f (node_children x)) = node_ty y (map f (node_children y))"
    "\<And>c d. c \<in> set (node_children x) \<Longrightarrow> d \<in> set (node_children y) \<Longrightarrow> f c = f d \<Longrightarrow> c = d"
  shows "x = y"
proof -
  have lists: "map f xs = map f ys \<Longrightarrow> (\<And>c d. c \<in> set xs \<Longrightarrow> d \<in> set ys \<Longrightarrow> f c = f d \<Longrightarrow> c = d) \<Longrightarrow> xs = ys" for xs ys
    by (rule nth_equalityI) (metis length_map, metis length_map nth_map nth_mem)
  show ?thesis
  proof (cases "\<exists>fs e gs e'. x = NRecord fs e \<and> y = NRecord gs e'")
    case True
    then obtain fs e gs e' where xy: "x = NRecord fs e" "y = NRecord gs e'" by blast
    have "zip (map fst fs) (map f (map snd fs)) = zip (map fst gs) (map f (map snd gs))" and e: "e = e'"
      using assms(1) by (simp_all add: xy node_ty_def)
    then have "map fst fs = map fst gs" "map f (map snd fs) = map f (map snd gs)"
      by (metis length_map map_fst_zip, metis length_map map_snd_zip)
    moreover have "map snd fs = map snd gs"
      by (rule lists[OF calculation(2)], rule assms(2)) (simp_all add: xy)
    ultimately show ?thesis using e unfolding xy by (metis zip_map_fst_snd)
  next
    case False
    consider (fn) a b c d where "x = NFun a b" "y = NFun c d"
      | (app) n xs m ys where "x = NApp n xs" "y = NApp m ys" | (tup) xs ys where "x = NTuple xs" "y = NTuple ys"
      | (other) "x = y" using assms(1) False by (cases x; cases y) (simp_all add: node_ty_def)
    then show ?thesis
    proof cases
      case fn
      with assms(1) have "f a = f c" "f b = f d" by (simp_all add: node_ty_def)
      with assms(2)[of a c] assms(2)[of b d] fn show ?thesis by simp
    next
      case app
      with assms(1) have eq: "n = m" "map f xs = map f ys" by (simp_all add: node_ty_def)
      have "xs = ys" by (rule lists[OF eq(2)], rule assms(2)) (simp_all add: app)
      with eq app show ?thesis by simp
    next
      case tup
      with assms(1) have "map f xs = map f ys" by (simp add: node_ty_def)
      with lists[of xs ys] assms(2) tup show ?thesis by simp
    qed
  qed
qed

lemma ty_get_inject:
  assumes "ordered nodes" "distinct nodes"
  shows "r < length nodes \<Longrightarrow> r' < length nodes \<Longrightarrow> ty_get nodes r = ty_get nodes r' \<Longrightarrow> r = r'"
proof (induction r arbitrary: r' rule: less_induct)
  case (less r)
  let ?f = "\<lambda>c. the (ty_get nodes c)"
  have "nodes ! r = nodes ! r'"
  proof (rule node_ty_inject[of _ ?f])
    show "node_ty (nodes ! r) (map ?f (node_children (nodes ! r))) = node_ty (nodes ! r') (map ?f (node_children (nodes ! r')))"
      using ty_get_unfold[OF assms(1) less.prems(1)] ty_get_unfold[OF assms(1) less.prems(2)] less.prems(3) by simp
  next
    fix c d assume c: "c \<in> set (node_children (nodes ! r))" and d: "d \<in> set (node_children (nodes ! r'))" and eq: "?f c = ?f d"
    have lt: "c < r" "c < length nodes" "d < length nodes"
      using orderedD[OF assms(1) less.prems(1) c] orderedD[OF assms(1) less.prems(2) d] less.prems by auto
    have "ty_get nodes c = ty_get nodes d"
      using ty_get_unfold[OF assms(1) lt(2)] ty_get_unfold[OF assms(1) lt(3)] eq by simp
    then show "c = d" by (rule less.IH[OF lt])
  qed
  with less.prems(1,2) assms(2) show ?case by (simp add: nth_eq_iff_index_eq)
qed

section \<open>Interning\<close>

definition builder_ok :: "builder \<Rightarrow> bool" where
  "builder_ok b \<longleftrightarrow> ordered (bd_nodes b) \<and> distinct (bd_nodes b) \<and>
     (\<forall>node r. bd_index b node = Some r \<longleftrightarrow> r < length (bd_nodes b) \<and> bd_nodes b ! r = node)"

text \<open>The types a builder stores, all subtypes of a type, and the number of its tree nodes.\<close>

definition types :: "ty_node list \<Rightarrow> ty set" where
  "types nodes = (\<lambda>r. the (ty_get nodes r)) ` {..<length nodes}"

primrec subtypes :: "ty \<Rightarrow> ty set" where
  "subtypes (TyVar n) = {TyVar n}"
| "subtypes (TyFun a b) = insert (TyFun a b) (subtypes a \<union> subtypes b)"
| "subtypes (TyApp n xs) = insert (TyApp n xs) (\<Union> (set (map subtypes xs)))"
| "subtypes (TyRecord fs ext) = insert (TyRecord fs ext) (\<Union> (set (map snd (map (map_prod id subtypes) fs))))"
| "subtypes (TyTuple xs) = insert (TyTuple xs) (\<Union> (set (map subtypes xs)))"
| "subtypes TyUnit = {TyUnit}"
| "subtypes TyError = {TyError}"

primrec tree_size :: "ty \<Rightarrow> nat" where
  "tree_size (TyVar n) = 1"
| "tree_size (TyFun a b) = Suc (tree_size a + tree_size b)"
| "tree_size (TyApp n xs) = Suc (sum_list (map tree_size xs))"
| "tree_size (TyRecord fs ext) = Suc (sum_list (map snd (map (map_prod id tree_size) fs)))"
| "tree_size (TyTuple xs) = Suc (sum_list (map tree_size xs))"
| "tree_size TyUnit = 1"
| "tree_size TyError = 1"

text \<open>\<open>adds\<close>: a step that stores types of \<open>k\<close> tree nodes in all, and panics only when they may not fit.\<close>

definition adds :: "nat \<Rightarrow> ty set \<Rightarrow> (ty_node list \<Rightarrow> 'a \<Rightarrow> bool) \<Rightarrow> 'a building \<Rightarrow> bool" where
  "adds k ts stored m \<longleftrightarrow> (\<forall>b. builder_ok b \<longrightarrow> (case m b of
     None \<Rightarrow> 2 ^ 32 < length (bd_nodes b) + k
   | Some (x, b') \<Rightarrow> builder_ok b' \<and> (\<exists>xs. bd_nodes b' = bd_nodes b @ xs \<and> length xs \<le> k) \<and>
       types (bd_nodes b') = types (bd_nodes b) \<union> ts \<and> stored (bd_nodes b') x))"

definition holds :: "ty \<Rightarrow> ty_node list \<Rightarrow> nat \<Rightarrow> bool" where
  "holds t nodes r \<longleftrightarrow> r < length nodes \<and> ty_get nodes r = Some t"

definition holds_all :: "ty list \<Rightarrow> ty_node list \<Rightarrow> nat list \<Rightarrow> bool" where
  "holds_all ts nodes rs \<longleftrightarrow> list_all2 (\<lambda>t. holds t nodes) ts rs"

lemma holds_append: "ordered (nodes @ xs) \<Longrightarrow> holds t nodes r \<Longrightarrow> holds t (nodes @ xs) r"
  by (auto simp: holds_def ty_get_append)

lemma addsD:
  assumes "adds k ts stored m" "builder_ok b" "m b = Some (x, b')"
  shows "builder_ok b'" "\<exists>xs. bd_nodes b' = bd_nodes b @ xs \<and> length xs \<le> k"
    "types (bd_nodes b') = types (bd_nodes b) \<union> ts" "stored (bd_nodes b') x"
  using assms unfolding adds_def by fastforce+

lemma adds_None: "adds k ts stored m \<Longrightarrow> builder_ok b \<Longrightarrow> m b = None \<Longrightarrow> 2 ^ 32 < length (bd_nodes b) + k"
  unfolding adds_def by fastforce

lemma types_snoc:
  assumes "ordered (nodes @ [node])"
  shows "types (nodes @ [node]) = insert (the (ty_get (nodes @ [node]) (length nodes))) (types nodes)"
proof -
  have "(\<lambda>r. the (ty_get (nodes @ [node]) r)) ` {..<length nodes} = (\<lambda>r. the (ty_get nodes r)) ` {..<length nodes}"
    using ty_get_append[OF assms] by (intro image_cong) auto
  then show ?thesis by (simp add: types_def lessThan_Suc)
qed

lemma intern_node_adds:
  assumes "builder_ok b" "holds_all ts (bd_nodes b) (node_children node)"
  shows "case intern_node node b of
      None \<Rightarrow> 2 ^ 32 \<le> length (bd_nodes b)
    | Some (r, b') \<Rightarrow> builder_ok b' \<and> (\<exists>xs. bd_nodes b' = bd_nodes b @ xs \<and> length xs \<le> 1) \<and>
        types (bd_nodes b') = insert (node_ty node ts) (types (bd_nodes b)) \<and> holds (node_ty node ts) (bd_nodes b') r"
proof -
  have ord: "ordered (bd_nodes b)" "distinct (bd_nodes b)" using assms(1) by (simp_all add: builder_ok_def)
  have ix: "bd_index b node = Some r \<longleftrightarrow> r < length (bd_nodes b) \<and> bd_nodes b ! r = node" for r node
    using assms(1) unfolding builder_ok_def by blast
  have kids: "c < length (bd_nodes b)" if "c \<in> set (node_children node)" for c
    using assms(2) that by (auto simp: holds_all_def holds_def list_all2_conv_all_nth in_set_conv_nth)
  have ts: "map (\<lambda>c. the (ty_get (bd_nodes b) c)) (node_children node) = ts"
    using assms(2) by (auto simp: holds_all_def holds_def list_all2_conv_all_nth intro!: nth_equalityI)
  show ?thesis
  proof (cases "bd_index b node")
    case (Some r)
    then have r: "r < length (bd_nodes b)" "bd_nodes b ! r = node" using ix by auto
    have g: "ty_get (bd_nodes b) r = Some (node_ty node ts)"
      using ty_get_unfold[OF ord(1) r(1)] r(2) ts by simp
    then have "node_ty node ts \<in> types (bd_nodes b)" unfolding types_def using r(1)
      by (intro image_eqI[of _ _ r]) simp_all
    then show ?thesis using Some assms(1) r(1) g by (auto simp: intern_node_def holds_def)
  next
    case None
    have new: "node \<notin> set (bd_nodes b)" using ix[of node] None by (auto simp: in_set_conv_nth)
    let ?ns = "bd_nodes b @ [node]" and ?r = "length (bd_nodes b)"
    have o: "ordered ?ns" using ord(1) kids unfolding ordered_def by (auto simp: nth_append less_Suc_eq)
    have g: "ty_get ?ns ?r = Some (node_ty node ts)"
    proof -
      have "map (\<lambda>c. the (ty_get ?ns c)) (node_children node) = ts"
        using ts kids ty_get_append[OF o] by (metis (no_types, lifting) map_eq_conv)
      then show ?thesis using ty_get_unfold[OF o, of ?r] by simp
    qed
    have "builder_ok \<lparr>bd_nodes = ?ns, bd_index = (bd_index b)(node \<mapsto> ?r)\<rparr>"
      unfolding builder_ok_def using o ord(2) new ix
      by (auto simp: nth_append less_Suc_eq)
    then show ?thesis using None g types_snoc[OF o] by (simp add: intern_node_def Let_def holds_def)
  qed
qed

lemma in_order_adds:
  "list_all2 (\<lambda>t m. adds (tree_size t) (subtypes t) (holds t) m) ts ms \<Longrightarrow>
   adds (sum_list (map tree_size ts)) (\<Union> (set (map subtypes ts))) (holds_all ts) (in_order ms)"
proof (induction ts ms rule: list_all2_induct)
  case Nil
  show ?case by (simp add: adds_def holds_all_def)
next
  case (Cons t ts m ms)
  show ?case unfolding adds_def
  proof (intro allI impI)
    fix b assume b: "builder_ok b"
    show "case in_order (m # ms) b of
        None \<Rightarrow> 2 ^ 32 < length (bd_nodes b) + sum_list (map tree_size (t # ts))
      | Some (x, b') \<Rightarrow> builder_ok b' \<and>
          (\<exists>xs. bd_nodes b' = bd_nodes b @ xs \<and> length xs \<le> sum_list (map tree_size (t # ts))) \<and>
          types (bd_nodes b') = types (bd_nodes b) \<union> \<Union> (set (map subtypes (t # ts))) \<and> holds_all (t # ts) (bd_nodes b') x"
    proof (cases "m b")
      case None
      with adds_None[OF Cons(1) b] show ?thesis by (simp add: and_build_def)
    next
      case (Some p)
      obtain r b1 where p: "m b = Some (r, b1)" using Some by (cases p) auto
      note one = addsD[OF Cons(1) b p]
      obtain xs1 where xs1: "bd_nodes b1 = bd_nodes b @ xs1" "length xs1 \<le> tree_size t" using one(2) by blast
      show ?thesis
      proof (cases "in_order ms b1")
        case None
        with adds_None[OF Cons(3) one(1)] p xs1 show ?thesis by (simp add: and_build_def)
      next
        case (Some q)
        obtain rs b2 where q: "in_order ms b1 = Some (rs, b2)" using Some by (cases q) auto
        note two = addsD[OF Cons(3) one(1) q]
        obtain xs2 where xs2: "bd_nodes b2 = bd_nodes b1 @ xs2" "length xs2 \<le> sum_list (map tree_size ts)" using two(2) by blast
        have "holds t (bd_nodes b2) r"
          using holds_append[of "bd_nodes b1" xs2] one(4) two(1) xs2(1) by (simp add: builder_ok_def)
        with p q one(3) two xs1 xs2 show ?thesis by (auto simp: and_build_def holds_all_def)
      qed
    qed
  qed
qed

lemma node_step_adds:
  assumes m: "adds k T (holds_all ts) m"
    and n: "\<And>rs. length rs = length ts \<Longrightarrow> node_children (node rs) = rs \<and> node_ty (node rs) ts = t"
  shows "adds (Suc k) (insert t T) (holds t) (and_build m (\<lambda>rs. intern_node (node rs)))"
  unfolding adds_def
proof (intro allI impI)
  fix b assume b: "builder_ok b"
  show "case and_build m (\<lambda>rs. intern_node (node rs)) b of
      None \<Rightarrow> 2 ^ 32 < length (bd_nodes b) + Suc k
    | Some (x, b') \<Rightarrow> builder_ok b' \<and> (\<exists>xs. bd_nodes b' = bd_nodes b @ xs \<and> length xs \<le> Suc k) \<and>
        types (bd_nodes b') = types (bd_nodes b) \<union> insert t T \<and> holds t (bd_nodes b') x"
  proof (cases "m b")
    case None
    with adds_None[OF m b] show ?thesis by (simp add: and_build_def)
  next
    case (Some p)
    obtain rs b1 where p: "m b = Some (rs, b1)" using Some by (cases p) auto
    note one = addsD[OF m b p]
    obtain xs where xs: "bd_nodes b1 = bd_nodes b @ xs" "length xs \<le> k" using one(2) by blast
    have "length rs = length ts" using one(4) by (simp add: holds_all_def list_all2_lengthD)
    note nd = n[OF this]
    have "holds_all ts (bd_nodes b1) (node_children (node rs))" using one(4) nd by simp
    from intern_node_adds[OF one(1) this] show ?thesis
      using p xs one(3) nd by (cases "intern_node (node rs) b1") (force simp: and_build_def split: prod.splits)+
  qed
qed

lemma in_order_map_adds:
  "(\<And>t. t \<in> set ts \<Longrightarrow> adds (tree_size t) (subtypes t) (holds t) (ty_intern t)) \<Longrightarrow>
   adds (sum_list (map tree_size ts)) (\<Union> (set (map subtypes ts))) (holds_all ts) (in_order (map ty_intern ts))"
  by (rule in_order_adds) (simp add: list_all2_conv_all_nth)

lemma leaf_adds: "node_children node = [] \<Longrightarrow> adds 1 {node_ty node []} (holds (node_ty node [])) (intern_node node)"
  using intern_node_adds[of _ "[]" node] unfolding adds_def
  by (fastforce simp: holds_all_def split: option.splits prod.splits)

lemma ty_intern_adds: "adds (tree_size t) (subtypes t) (holds t) (ty_intern t)"
proof (induction t)
  case (TyVar n)
  with leaf_adds[of "NVar n"] show ?case by (simp add: node_ty_def)
next
  case TyUnit
  with leaf_adds[of NUnit] show ?case by (simp add: node_ty_def)
next
  case TyError
  with leaf_adds[of NError] show ?case by (simp add: node_ty_def)
next
  case (TyFun a b)
  have "adds (tree_size a + tree_size b) (subtypes a \<union> subtypes b) (holds_all [a, b]) (in_order [ty_intern a, ty_intern b])"
    using in_order_map_adds[of "[a, b]"] TyFun.IH by auto
  then have "adds (Suc (tree_size a + tree_size b)) (insert (TyFun a b) (subtypes a \<union> subtypes b)) (holds (TyFun a b))
      (and_build (in_order [ty_intern a, ty_intern b]) (\<lambda>rs. intern_node (NFun (rs ! 0) (rs ! 1))))"
    by (rule node_step_adds) (auto simp: node_ty_def length_Suc_conv)
  moreover have "and_build (in_order [ty_intern a, ty_intern b]) (\<lambda>rs. intern_node (NFun (rs ! 0) (rs ! 1))) = ty_intern (TyFun a b)"
    by (rule ext) (simp add: and_build_def split: option.split)
  ultimately show ?case by (metis subtypes.simps(2) tree_size.simps(2))
next
  case (TyApp n xs)
  from in_order_map_adds[OF TyApp.IH] have "adds (Suc (sum_list (map tree_size xs)))
      (insert (TyApp n xs) (\<Union> (set (map subtypes xs)))) (holds (TyApp n xs)) (ty_intern (TyApp n xs))"
    unfolding ty_intern.simps by (rule node_step_adds) (simp_all add: node_ty_def)
  then show ?case by simp
next
  case (TyTuple xs)
  from in_order_map_adds[OF TyTuple.IH] have "adds (Suc (sum_list (map tree_size xs)))
      (insert (TyTuple xs) (\<Union> (set (map subtypes xs)))) (holds (TyTuple xs)) (ty_intern (TyTuple xs))"
    unfolding ty_intern.simps by (rule node_step_adds) (simp_all add: node_ty_def)
  then show ?case by simp
next
  case (TyRecord fs ext)
  have "adds (tree_size t) (subtypes t) (holds t) (ty_intern t)" if "t \<in> set (map snd fs)" for t
    using TyRecord.IH that by fastforce
  from in_order_map_adds[OF this] have "adds (Suc (sum_list (map tree_size (map snd fs))))
      (insert (TyRecord fs ext) (\<Union> (set (map subtypes (map snd fs))))) (holds (TyRecord fs ext))
      (and_build (in_order (map ty_intern (map snd fs))) (\<lambda>rs. intern_node (NRecord (zip (map fst fs) rs) ext)))"
    by (rule node_step_adds) (simp_all add: node_ty_def zip_map_fst_snd)
  then show ?case by (simp add: comp_def)
qed

section \<open>Properties of the table\<close>

lemma builder_new_ok: "builder_ok builder_new" "types (bd_nodes builder_new) = {}"
  by (simp_all add: builder_ok_def builder_new_def ordered_def types_def)

lemma card_types: "builder_ok b \<Longrightarrow> card (types (bd_nodes b)) = length (bd_nodes b)"
proof -
  assume b: "builder_ok b"
  have o: "ordered (bd_nodes b)" "distinct (bd_nodes b)" using b by (simp_all add: builder_ok_def)
  have "inj_on (\<lambda>r. the (ty_get (bd_nodes b) r)) {..<length (bd_nodes b)}"
  proof (rule inj_onI)
    fix r r' assume r: "r \<in> {..<length (bd_nodes b)}" "r' \<in> {..<length (bd_nodes b)}"
      "the (ty_get (bd_nodes b) r) = the (ty_get (bd_nodes b) r')"
    then have "ty_get (bd_nodes b) r = ty_get (bd_nodes b) r'" using ty_get_unfold[OF o(1)] by simp
    with r show "r = r'" using ty_get_inject[OF o] by simp
  qed
  then show ?thesis by (simp add: types_def card_image)
qed

text \<open>C24: the table gives back every type it was given, whatever was interned before and after, stores
  equal types at one reference and different types at different ones, and keeps exactly one node for each
  distinct subtree of the types interned. It never panics while the types have at most \<open>2 ^ 32\<close> tree
  nodes in all.\<close>

theorem table_shares:
  assumes "sum_list (map tree_size ts) \<le> 2 ^ 32"
  shows "\<exists>rs b. in_order (map ty_intern ts) builder_new = Some (rs, b) \<and>
    map (ty_get (bd_finish b)) rs = map Some ts \<and>
    (\<forall>i < length ts. \<forall>j < length ts. rs ! i = rs ! j \<longleftrightarrow> ts ! i = ts ! j) \<and>
    node_count (bd_finish b) = card (\<Union> (set (map subtypes ts)))"
proof -
  note a = in_order_map_adds[of ts, OF ty_intern_adds]
  have "in_order (map ty_intern ts) builder_new \<noteq> None"
  proof
    assume "in_order (map ty_intern ts) builder_new = None"
    from adds_None[OF a builder_new_ok(1) this] assms show False by (simp add: builder_new_def)
  qed
  then obtain rs b where run: "in_order (map ty_intern ts) builder_new = Some (rs, b)" by auto
  note out = addsD[OF a builder_new_ok(1) run]
  have o: "ordered (bd_nodes b)" "distinct (bd_nodes b)" using out(1) by (simp_all add: builder_ok_def)
  have len: "length rs = length ts" and get: "\<And>i. i < length ts \<Longrightarrow> rs ! i < length (bd_nodes b) \<and> ty_get (bd_nodes b) (rs ! i) = Some (ts ! i)"
    using out(4) by (auto simp: holds_all_def holds_def list_all2_conv_all_nth)
  have "rs ! i = rs ! j \<longleftrightarrow> ts ! i = ts ! j" if "i < length ts" "j < length ts" for i j
    using get[OF that(1)] get[OF that(2)] ty_get_inject[OF o, of "rs ! i" "rs ! j"] by auto
  moreover have "map (ty_get (bd_nodes b)) rs = map Some ts"
    using len get by (intro nth_equalityI) simp_all
  moreover have "length (bd_nodes b) = card (\<Union> (set (map subtypes ts)))"
    using card_types[OF out(1)] out(3) builder_new_ok(2) by simp
  ultimately show ?thesis using run by (auto simp: bd_finish_def node_count_def)
qed

theorem table_shares_witness:
  "\<exists>rs b. in_order (map ty_intern [TyTuple [TyUnit, TyVar ''a''], TyUnit]) builder_new = Some (rs, b) \<and>
    map (ty_get (bd_finish b)) rs = [Some (TyTuple [TyUnit, TyVar ''a'']), Some TyUnit] \<and> node_count (bd_finish b) = 3"
proof -
  let ?ts = "[TyTuple [TyUnit, TyVar ''a''], TyUnit]"
  have "\<Union> (set (map subtypes ?ts)) = {TyTuple [TyUnit, TyVar ''a''], TyUnit, TyVar ''a''}" by auto
  then have "card (\<Union> (set (map subtypes ?ts))) = 3" by simp
  with table_shares[of ?ts] show ?thesis by auto
qed

end
