(* ===== verification/Unify_Ground.thy ===== *)
theory Unify_Ground
  imports Unify_Ok Ty_Table
begin

text \<open>
  \<open>ground_instance_nodes\<close> of \<open>ty/src/unify.rs\<close>: does the graph of a variable, unfolded along a type, spell
  exactly that type? The stack is a list with its top first.
\<close>

text \<open>A repeated name; the sort is skipped when the names already ascend strictly.\<close>

definition repeats_name :: "(string \<times> ty) list \<Rightarrow> bool" where
  "repeats_name tfs \<longleftrightarrow> \<not> sorted_wrt (<) (map fst tfs) \<and> \<not> distinct_adj (sort (map fst tfs))"

text \<open>The pairs a node pushes, in the order they are pushed; \<open>None\<close> when the shapes differ.\<close>

definition field_pairs :: "row \<Rightarrow> (string \<times> ty) list \<Rightarrow> (nat \<times> ty) list option" where
  "field_pairs fs tfs = all_some (map (\<lambda>(k, t). map_option (\<lambda>x. (x, t)) (map_of fs k)) tfs)"

definition ground_pairs :: "flat_ty \<Rightarrow> ty \<Rightarrow> (nat \<times> ty) list option" where
  "ground_pairs ft t = (case (ft, t) of
     (App n args, TyApp m targs) \<Rightarrow> (if n = m \<and> length args = length targs then Some (zip args targs) else None)
   | (Fun a b, TyFun ta tb) \<Rightarrow> Some [(a, ta), (b, tb)]
   | (Tuple xs, TyTuple ts) \<Rightarrow> (if length xs = length ts then Some (zip xs ts) else None)
   | (UnitTy, TyUnit) \<Rightarrow> Some []
   | (Record fs None, TyRecord tfs None) \<Rightarrow>
       (if length fs \<noteq> length tfs \<or> repeats_name tfs then None else field_pairs fs tfs)
   | _ \<Rightarrow> None)"

lemma field_pairs_types: "field_pairs fs tfs = Some ps \<Longrightarrow> map snd ps = map snd tfs"
  unfolding field_pairs_def
  by (induction tfs arbitrary: ps) (auto split: option.splits prod.splits)

lemma ground_pairs_size:
  assumes "ground_pairs ft t = Some ps"
  shows "tree_size t = Suc (sum_list (map (tree_size \<circ> snd) ps))"
proof -
  have "sum_list (map (tree_size \<circ> snd) (zip xs ts)) = sum_list (map tree_size ts)" if "length xs = length ts" for xs :: "nat list" and ts
    using that by (metis map_map map_snd_zip)
  moreover have "sum_list (map (tree_size \<circ> snd) ps) = sum_list (map (tree_size \<circ> snd) tfs)"
    if "field_pairs fs tfs = Some ps" for fs tfs using field_pairs_types[OF that] by (metis map_map)
  ultimately show ?thesis using assms
    by (auto simp: ground_pairs_def comp_def split: flat_ty.splits ty.splits option.splits if_splits)
qed

function ground_loop :: "(nat \<times> ty) list \<Rightarrow> nat \<Rightarrow> uf \<Rightarrow> nat option \<times> uf" where
  "ground_loop [] nodes st = (Some nodes, st)"
| "ground_loop ((x, t) # stack) nodes st =
     (let (r, st) = uf_find x st in
      case uf_slots st ! r of
        Root (Structure ft) _ \<Rightarrow>
          (case ground_pairs ft t of None \<Rightarrow> (None, st) | Some ps \<Rightarrow> ground_loop (rev ps @ stack) (Suc nodes) st)
      | _ \<Rightarrow> (None, st))"
  by pat_completeness auto
termination
  by (relation "measure (\<lambda>(stack, _). sum_list (map (tree_size \<circ> snd) stack))")
    (auto dest!: ground_pairs_size simp: rev_map[symmetric])

definition ground_instance_nodes :: "nat \<Rightarrow> ty \<Rightarrow> uf \<Rightarrow> nat option \<times> uf" where
  "ground_instance_nodes v t st = ground_loop [(v, t)] 0 st"

section \<open>Unfolding\<close>

primrec unfolds :: "uf \<Rightarrow> ty \<Rightarrow> nat \<Rightarrow> bool" where
  "unfolds st (TyVar n) = (\<lambda>v. False)"
| "unfolds st (TyFun a b) = (\<lambda>v. \<exists>x y. cont st v = Structure (Fun x y) \<and> unfolds st a x \<and> unfolds st b y)"
| "unfolds st (TyApp n ts) = (\<lambda>v. \<exists>xs. cont st v = Structure (App n xs) \<and> list_all2 (\<lambda>f x. f x) (map (unfolds st) ts) xs)"
| "unfolds st (TyRecord tfs ext) = (\<lambda>v. ext = None \<and> distinct (map fst tfs) \<and>
     (\<exists>fs. cont st v = Structure (Record fs None) \<and> length fs = length tfs \<and>
       list_all (\<lambda>(k, f). case map_of fs k of Some x \<Rightarrow> f x | None \<Rightarrow> False) (map (map_prod id (unfolds st)) tfs)))"
| "unfolds st (TyTuple ts) = (\<lambda>v. \<exists>xs. cont st v = Structure (Tuple xs) \<and> list_all2 (\<lambda>f x. f x) (map (unfolds st) ts) xs)"
| "unfolds st TyUnit = (\<lambda>v. cont st v = Structure UnitTy)"
| "unfolds st TyError = (\<lambda>v. False)"

lemma repeats_iff: "repeats_name tfs \<longleftrightarrow> \<not> distinct (map fst tfs)"
proof -
  have "sorted_wrt (<) (map fst tfs) \<Longrightarrow> distinct (map fst tfs)" by (simp add: strict_sorted_iff)
  moreover have "distinct_adj ns \<longleftrightarrow> distinct ns" if "sorted ns" for ns :: "string list"
    using that by (induction ns rule: induct_list012) auto
  from this[of "sort (map fst tfs)"] have "distinct_adj (sort (map fst tfs)) \<longleftrightarrow> distinct (map fst tfs)" by simp
  ultimately show ?thesis by (auto simp: repeats_name_def)
qed

lemma field_pairs_unfold:
  "(\<exists>ps. field_pairs fs tfs = Some ps \<and> (\<forall>(x, t) \<in> set ps. unfolds st t x)) \<longleftrightarrow>
   list_all (\<lambda>(k, f). case map_of fs k of Some x \<Rightarrow> f x | None \<Rightarrow> False) (map (map_prod id (unfolds st)) tfs)"
proof (induction tfs)
  case (Cons kt tfs)
  obtain k t where kt: "kt = (k, t)" by force
  show ?case
  proof (cases "map_of fs k")
    case (Some x)
    have "field_pairs fs (kt # tfs) = map_option (\<lambda>ps. (x, t) # ps) (field_pairs fs tfs)"
      by (simp add: field_pairs_def kt Some split: option.split)
    then show ?thesis using Cons by (auto simp: kt Some)
  qed (simp add: field_pairs_def kt)
qed (simp add: field_pairs_def)

lemma zip_unfold: "length xs = length ts \<Longrightarrow>
    (\<forall>(x, t) \<in> set (zip xs ts). unfolds st t x) \<longleftrightarrow> list_all2 (\<lambda>f x. f x) (map (unfolds st) ts) xs"
  by (induction xs ts rule: list_induct2) auto

lemma unfolds_node: "unfolds st t v \<longleftrightarrow>
    (\<exists>ft ps. cont st v = Structure ft \<and> ground_pairs ft t = Some ps \<and> (\<forall>(x, t) \<in> set ps. unfolds st t x))"
proof (cases "cont st v")
  case (Structure ft)
  have len: "list_all2 (\<lambda>f x. f x) (map (unfolds st) ts) xs \<Longrightarrow> length xs = length ts" for xs ts
    by (auto dest: list_all2_lengthD)
  show ?thesis
  proof (cases "\<exists>fs tfs. ft = Record fs None \<and> t = TyRecord tfs None")
    case True
    then obtain fs tfs where "ft = Record fs None" "t = TyRecord tfs None" by blast
    then show ?thesis using Structure field_pairs_unfold[of fs tfs st]
      by (auto simp: ground_pairs_def repeats_iff)
  next
    case False
    then show ?thesis using Structure zip_unfold len
      by (cases t; cases ft) (auto simp: ground_pairs_def split: option.splits)
  qed
qed (cases t; simp)+

lemma field_pairs_kids: "field_pairs fs tfs = Some ps \<Longrightarrow> (x, t) \<in> set ps \<Longrightarrow> x \<in> snd ` set fs"
proof (induction tfs arbitrary: ps)
  case (Cons kt tfs)
  then show ?case
    by (cases kt) (fastforce simp: field_pairs_def split: option.splits dest: map_of_SomeD intro: rev_image_eqI)
qed (simp add: field_pairs_def)

lemma ground_pairs_kids: "ground_pairs ft t = Some ps \<Longrightarrow> (x, t') \<in> set ps \<Longrightarrow> x \<in> set (flat_children ft)"
  using field_pairs_kids
  by (auto simp: ground_pairs_def flat_children_def split: flat_ty.splits ty.splits option.splits if_splits dest: set_zip_leftD)

lemma ground_loop_spec:
  assumes "uf_ok st0"
  shows "view st0 st \<Longrightarrow> \<forall>(x, t) \<in> set stack. x < size_of st0 \<Longrightarrow> ground_loop stack nodes st = (res, st') \<Longrightarrow>
    view st0 st' \<and> res = (if \<forall>(x, t) \<in> set stack. unfolds st0 t x
      then Some (nodes + sum_list (map (tree_size \<circ> snd) stack)) else None)"
proof (induction stack nodes st rule: ground_loop.induct)
  case (2 x t stack nodes st)
  have x: "x < size_of st0" "uf_ok st" "x < size_of st" "class_of st x = class_of st0 x"
    using 2(2,3) by (auto simp: view_def)
  obtain st1 where f: "uf_find x st = (class_of st0 x, st1)" "view st st1" using uf_find_view[OF x(2,3)] x(4) by metis
  have v: "view st0 st1" using 2(2) f(2) by (rule view_trans)
  let ?r = "class_of st0 x"
  have "is_root (uf_slots st1) ?r" "cont st1 x = cont st0 x" "class_of st1 x = ?r"
    using v x(1) class_root[of st1 x] by (auto simp: view_def)
  then obtain k where slot: "uf_slots st1 ! ?r = Root (cont st0 x) k"
    by (auto simp: is_root_def cont_def slot_content_def)
  show ?case
  proof (cases "\<exists>ft ps. cont st0 x = Structure ft \<and> ground_pairs ft t = Some ps")
    case False
    then have "(res, st') = (None, st1)" using 2(4) f(1) slot by (auto split: content.splits option.splits)
    then show ?thesis using v False unfolds_node[of st0 t x] by auto
  next
    case True
    then obtain ft ps where ft: "cont st0 x = Structure ft" "ground_pairs ft t = Some ps" by blast
    have loop: "ground_loop (rev ps @ stack) (Suc nodes) st1 = (res, st')" using 2(4) f(1) slot ft by simp
    have less: "\<forall>(y, u) \<in> set (rev ps @ stack). y < size_of st0"
      using 2(3) ground_pairs_kids[OF ft(2)] cont_children_less[OF assms x(1)] ft(1) by (fastforce simp: content_children_def)
    have "view st0 st' \<and> res = (if \<forall>(x, t) \<in> set (rev ps @ stack). unfolds st0 t x
        then Some (Suc nodes + sum_list (map (tree_size \<circ> snd) (rev ps @ stack))) else None)"
      by (rule 2(1)[OF f(1)[symmetric] refl slot ft(1)[THEN arg_cong[of _ _ id], simplified] ft(2) v less loop])
    moreover have "unfolds st0 t x \<longleftrightarrow> (\<forall>(y, u) \<in> set ps. unfolds st0 u y)"
      using unfolds_node[of st0 t x] ft by auto
    moreover have "sum_list (map (tree_size \<circ> snd) (rev ps)) = sum_list (map (tree_size \<circ> snd) ps)"
      by (induction ps) auto
    ultimately show ?thesis using ground_pairs_size[OF ft(2)] by (auto simp: comp_def)
  qed
qed simp

text \<open>C30: the fast path for a ground instance is exact: the walk returns a count exactly when the graph of
  the variable, followed along the type, spells the type (the same nominal names, field sets, widths and no open
  row), the count is the number of nodes of the type, and the store keeps its classes and contents. A cyclic graph never matches, since the
  type is finite.\<close>

theorem ground_instance_exact:
  assumes "uf_ok st" "v < size_of st"
  shows "fst (ground_instance_nodes v t st) = (if unfolds st t v then Some (tree_size t) else None) \<and>
    view st (snd (ground_instance_nodes v t st))"
proof -
  obtain res st' where g: "ground_loop [(v, t)] 0 st = (res, st')" by force
  from ground_loop_spec[OF assms(1) view_refl[OF assms(1)] _ this] assms show ?thesis
    by (simp add: ground_instance_nodes_def g del: ground_loop.simps)
qed

theorem ground_instance_exact_witness:
  "fst (ground_instance_nodes 2 (TyApp ''Int'' []) list_store) = Some 1 \<and>
   fst (ground_instance_nodes 1 (TyApp ''List'' [TyApp ''Int'' []]) list_store) = None"
proof -
  have "cont list_store 0 = Flex" "cont list_store 1 = Structure (App ''List'' [0])" "cont list_store 2 = Structure (App ''Int'' [])"
    by code_simp+
  then have "unfolds list_store (TyApp ''Int'' []) 2" "\<not> unfolds list_store (TyApp ''List'' [TyApp ''Int'' []]) 1"
    by auto
  with ground_instance_exact[OF list_store_ok(1), of 2 "TyApp ''Int'' []"]
    ground_instance_exact[OF list_store_ok(1), of 1 "TyApp ''List'' [TyApp ''Int'' []]"] list_store_ok(3)
  show ?thesis by simp
qed

end
