(* ===== verification/Dict_Key.thy ===== *)
theory Dict_Key
  imports Ty_Table
begin

text \<open>
  The check of \<open>Dict\<close> key types [E2008], \<open>ty/src/dictkey.rs\<close>: the three-way verdict on one key type, the
  walk that collects the unsupported ones of a type, and its memoised form over the hash-consed table.
  Rust's \<open>char::is_lowercase\<close> is the parameter \<open>low\<close>, on the first character of a name.
\<close>

definition SUPPORTED_DICT_KEYS :: "string list" where
  "SUPPORTED_DICT_KEYS = [''String'', ''Int'', ''Float'', ''Char'', ''Bool'']"

definition supported_list :: string where
  "supported_list =
     (let quoted = map (\<lambda>k. ''`'' @ k @ ''`'') SUPPORTED_DICT_KEYS in
      join '', '' (butlast quoted) @ '' or '' @ last quoted)"

datatype key_verdict = Supported | Unknown | Unsupported

definition classify_key :: "(string \<Rightarrow> bool) \<Rightarrow> ty \<Rightarrow> key_verdict" where
  "classify_key low key = (case key of
     TyVar _ \<Rightarrow> Unknown
   | TyError \<Rightarrow> Unknown
   | TyApp n args \<Rightarrow>
       (if n \<noteq> [] \<and> low (hd (chars n)) then Unknown
        else if args = [] \<and> n \<in> set SUPPORTED_DICT_KEYS then Supported
        else Unsupported)
   | _ \<Rightarrow> Unsupported)"

definition DICT :: string where
  "DICT = ''Dict''"

definition push_key :: "ty \<Rightarrow> ty list \<Rightarrow> ty list" where
  "push_key key out = (if list_ex (\<lambda>k. render k = render key) out then out else out @ [key])"

definition push_own :: "(string \<Rightarrow> bool) \<Rightarrow> string \<Rightarrow> ty list \<Rightarrow> ty list \<Rightarrow> ty list" where
  "push_own low n args out =
     (if n = DICT \<and> length args = 2 \<and> classify_key low (args ! 0) = Unsupported then push_key (args ! 0) out else out)"

primrec walk_keys :: "(string \<Rightarrow> bool) \<Rightarrow> ty \<Rightarrow> ty list \<Rightarrow> ty list" where
  "walk_keys low (TyVar n) = id"
| "walk_keys low (TyFun a b) = walk_keys low b \<circ> walk_keys low a"
| "walk_keys low (TyApp n args) = fold id (map (walk_keys low) args) \<circ> push_own low n args"
| "walk_keys low (TyRecord fs ext) = fold id (map snd (map (map_prod id (walk_keys low)) fs))"
| "walk_keys low (TyTuple xs) = fold id (map (walk_keys low) xs)"
| "walk_keys low TyUnit = id"
| "walk_keys low TyError = id"

definition unsupported_keys :: "(string \<Rightarrow> bool) \<Rightarrow> ty \<Rightarrow> ty list" where
  "unsupported_keys low t = walk_keys low t []"

section \<open>Over the table\<close>

type_synonym key_memo = "nat \<Rightarrow> ty list option"

definition own_keys_ref :: "(string \<Rightarrow> bool) \<Rightarrow> ty_node list \<Rightarrow> nat \<Rightarrow> ty list option" where
  "own_keys_ref low nodes r = (case nodes ! r of
     NApp n args \<Rightarrow>
       (if n = DICT \<and> length args = 2 then
          map_option (\<lambda>key. if classify_key low key = Unsupported then push_key key [] else []) (ty_get nodes (args ! 0))
        else Some [])
   | _ \<Rightarrow> Some [])"

fun keys_of_kids :: "(nat \<Rightarrow> key_memo \<Rightarrow> (ty list \<times> key_memo) option) \<Rightarrow> nat list \<Rightarrow> ty list \<Rightarrow> key_memo \<Rightarrow>
    (ty list \<times> key_memo) option" where
  "keys_of_kids f [] out memo = Some (out, memo)"
| "keys_of_kids f (k # ks) out memo = (case f k memo of
     None \<Rightarrow> None
   | Some (sub, memo) \<Rightarrow> keys_of_kids f ks (fold push_key sub out) memo)"

primrec unsupported_keys_fuel :: "nat \<Rightarrow> (string \<Rightarrow> bool) \<Rightarrow> ty_node list \<Rightarrow> nat \<Rightarrow> key_memo \<Rightarrow> (ty list \<times> key_memo) option" where
  "unsupported_keys_fuel 0 low nodes r memo = None"
| "unsupported_keys_fuel (Suc n) low nodes r memo = (case memo r of
     Some v \<Rightarrow> Some (v, memo)
   | None \<Rightarrow>
       (if length nodes \<le> r then None
        else case own_keys_ref low nodes r of
          None \<Rightarrow> None
        | Some out \<Rightarrow>
            (case keys_of_kids (unsupported_keys_fuel n low nodes) (node_children (nodes ! r)) out memo of
               None \<Rightarrow> None
             | Some (v, memo) \<Rightarrow> Some (v, memo(r \<mapsto> v)))))"

definition unsupported_keys_ref :: "(string \<Rightarrow> bool) \<Rightarrow> ty_node list \<Rightarrow> nat \<Rightarrow> key_memo \<Rightarrow> (ty list \<times> key_memo) option" where
  "unsupported_keys_ref low nodes r memo = unsupported_keys_fuel (Suc r) low nodes r memo"

section \<open>The diagnostic\<close>

definition key_message :: "ty \<Rightarrow> string option" where
  "key_message key = map_option (\<lambda>shown.
     ''`'' @ shown @ ''` cannot be used as a `Dict` key. A Sky `Dict k v` is a Go '' @
     ''`map[string]v`: the key is stringified on the way in, and only '' @ supported_list @ '' '' @
     ''decode back to the key you declared. A composite key does not '' @
     ''stringify injectively '' @ [CHR 0xE2, CHR 0x80, CHR 0x94] @ '' the tuples ( \"a b\", \"c\" ) and '' @
     ''( \"a\", \"b c\" ) both render as `{a b c}`, so two distinct keys '' @
     ''collide in the map and no decoder can recover the original.'') (render_pretty key)"

definition key_suggestion :: string where
  "key_suggestion =
     ''encode the key as a `String` yourself (e.g. `String.fromInt x ++ \":\" ++ '' @
     ''String.fromInt y`) and keep the structured form in the VALUE, or hold the '' @
     ''entries as a `List ( k, v )` of pairs if you need composite keys and do '' @
     ''not need dictionary lookup.''"

section \<open>The list of all unsupported keys\<close>

text \<open>Every unsupported key in the order of the walk, repetitions included.\<close>

primrec bad_keys :: "(string \<Rightarrow> bool) \<Rightarrow> ty \<Rightarrow> ty list" where
  "bad_keys low (TyVar n) = []"
| "bad_keys low (TyFun a b) = bad_keys low a @ bad_keys low b"
| "bad_keys low (TyApp n args) = push_own low n args [] @ concat (map (bad_keys low) args)"
| "bad_keys low (TyRecord fs ext) = concat (map snd (map (map_prod id (bad_keys low)) fs))"
| "bad_keys low (TyTuple xs) = concat (map (bad_keys low) xs)"
| "bad_keys low TyUnit = []"
| "bad_keys low TyError = []"

lemma fold_push_concat:
  "(\<And>x out. x \<in> set xs \<Longrightarrow> f x out = fold push_key (g x) out) \<Longrightarrow>
   fold id (map f xs) out = fold push_key (concat (map g xs)) out"
  by (induction xs arbitrary: out) simp_all

lemma walk_keys_bad: "walk_keys low t out = fold push_key (bad_keys low t) out"
proof (induction t arbitrary: out)
  case (TyRecord fs ext)
  have "(walk_keys low \<circ> snd) p out = fold push_key ((bad_keys low \<circ> snd) p) out" if "p \<in> set fs" for p out
    using TyRecord.IH[of p "snd p" out] that by (cases p) auto
  from fold_push_concat[of fs "walk_keys low \<circ> snd" "bad_keys low \<circ> snd" out, OF this] show ?case
    by (simp add: comp_def)
next
  case (TyApp n args)
  have "push_own low n args out = fold push_key (push_own low n args []) out"
    by (simp add: push_own_def push_key_def)
  then show ?case using fold_push_concat[of args "walk_keys low" "bad_keys low"] TyApp.IH by simp
next
  case (TyTuple xs)
  then show ?case using fold_push_concat[of xs "walk_keys low" "bad_keys low"] by simp
qed simp_all

definition seen_as :: "ty \<Rightarrow> ty list \<Rightarrow> bool" where
  "seen_as key out \<longleftrightarrow> (\<exists>k \<in> set out. render k = render key)"

lemma seen_simps [simp]: "\<not> seen_as k []" "seen_as k (x # xs) \<longleftrightarrow> render x = render k \<or> seen_as k xs"
  by (auto simp: seen_as_def)

lemma push_key_seen: "push_key key out = (if seen_as key out then out else out @ [key])"
  by (simp add: push_key_def seen_as_def list_ex_iff)

lemma seen_push [simp]: "seen_as k (push_key key out) \<longleftrightarrow> seen_as k out \<or> render key = render k"
  by (auto simp: push_key_seen seen_as_def)

lemma seen_fold [simp]: "seen_as k (fold push_key xs out) \<longleftrightarrow> seen_as k xs \<or> seen_as k out"
  by (induction xs arbitrary: out) auto

text \<open>Removing repetitions of a part first changes nothing.\<close>

lemma fold_push_push: "fold push_key (push_key x ys) out = push_key x (fold push_key ys out)"
  by (simp add: push_key_seen)

lemma fold_push_fold: "fold push_key (fold push_key xs ys) out = fold push_key xs (fold push_key ys out)"
  by (induction xs arbitrary: ys) (simp_all add: fold_push_push)

lemma fold_unsupported: "fold push_key (unsupported_keys low t) out = fold push_key (bad_keys low t) out"
  using fold_push_fold[of "bad_keys low t" "[]" out] by (simp add: unsupported_keys_def walk_keys_bad)

section \<open>The memoised walk\<close>

definition memo_ok :: "(string \<Rightarrow> bool) \<Rightarrow> ty_node list \<Rightarrow> key_memo \<Rightarrow> bool" where
  "memo_ok low nodes memo \<longleftrightarrow>
     (\<forall>r v. memo r = Some v \<longrightarrow> r < length nodes \<and> v = unsupported_keys low (the (ty_get nodes r)))"

lemma bad_keys_node:
  assumes "length ts = length (node_children node)"
  shows "bad_keys low (node_ty node ts) =
    (case node of NApp n _ \<Rightarrow> push_own low n ts [] | _ \<Rightarrow> []) @ concat (map (bad_keys low) ts)"
proof (cases node)
  case (NFun a b)
  then obtain x y where "ts = [x, y]" using assms by (auto simp: length_Suc_conv)
  with NFun show ?thesis by (simp add: node_ty_def)
next
  case (NRecord fs ext)
  have "map snd (zip (map fst fs) (map (bad_keys low) ts)) = map (bad_keys low) ts"
    using assms NRecord by (intro map_snd_zip) simp
  then show ?thesis using NRecord by (simp add: node_ty_def zip_map2 comp_def split_def)
qed (use assms in \<open>auto simp: node_ty_def\<close>)

lemma own_keys_node:
  assumes "ordered nodes" "r < length nodes"
  shows "own_keys_ref low nodes r = Some (case nodes ! r of
    NApp n _ \<Rightarrow> push_own low n (map (\<lambda>c. the (ty_get nodes c)) (node_children (nodes ! r))) [] | _ \<Rightarrow> [])"
proof (cases "nodes ! r")
  case (NApp n args)
  show ?thesis
  proof (cases "n = DICT \<and> length args = 2")
    case True
    then have "args ! 0 \<in> set (node_children (nodes ! r))" using NApp by simp
    then have "args ! 0 < length nodes" using orderedD[OF assms] assms(2) by (meson less_trans)
    then obtain key where "ty_get nodes (args ! 0) = Some key" using ty_get_unfold[OF assms(1)] by blast
    with True NApp show ?thesis by (simp add: own_keys_ref_def push_own_def)
  next
    case False
    with NApp show ?thesis by (auto simp: own_keys_ref_def push_own_def)
  qed
qed (simp_all add: own_keys_ref_def)

lemma keys_of_kids_spec:
  assumes "\<And>k memo. k \<in> set ks \<Longrightarrow> memo_ok low nodes memo \<Longrightarrow>
    \<exists>memo'. f k memo = Some (unsupported_keys low (the (ty_get nodes k)), memo') \<and> memo_ok low nodes memo'"
  shows "memo_ok low nodes memo \<Longrightarrow>
    \<exists>memo'. keys_of_kids f ks out memo =
      Some (fold push_key (concat (map (\<lambda>k. bad_keys low (the (ty_get nodes k))) ks)) out, memo') \<and> memo_ok low nodes memo'"
  using assms
proof (induction ks arbitrary: out memo)
  case (Cons k ks)
  obtain m1 where m1: "f k memo = Some (unsupported_keys low (the (ty_get nodes k)), m1)" "memo_ok low nodes m1"
    using Cons.prems(2)[of k memo] Cons.prems(1) by auto
  have "\<exists>memo'. keys_of_kids f ks (fold push_key (bad_keys low (the (ty_get nodes k))) out) m1 =
      Some (fold push_key (concat (map (\<lambda>k. bad_keys low (the (ty_get nodes k))) ks))
        (fold push_key (bad_keys low (the (ty_get nodes k))) out), memo') \<and> memo_ok low nodes memo'"
    by (rule Cons.IH[OF m1(2)]) (use Cons.prems(2) in auto)
  with m1 show ?case by (simp add: fold_unsupported)
qed simp

lemma unsupported_keys_fuel_spec:
  assumes "ordered nodes"
  shows "r < length nodes \<Longrightarrow> r < n \<Longrightarrow> memo_ok low nodes memo \<Longrightarrow>
    \<exists>memo'. unsupported_keys_fuel n low nodes r memo = Some (unsupported_keys low (the (ty_get nodes r)), memo') \<and>
      memo_ok low nodes memo'"
proof (induction n arbitrary: r memo)
  case (Suc n)
  show ?case
  proof (cases "memo r")
    case (Some v)
    with Suc.prems show ?thesis by (auto simp: memo_ok_def)
  next
    case None
    let ?kids = "node_children (nodes ! r)" and ?ts = "map (\<lambda>c. the (ty_get nodes c)) (node_children (nodes ! r))"
    let ?own = "case nodes ! r of NApp n _ \<Rightarrow> push_own low n ?ts [] | _ \<Rightarrow> []"
    have t: "the (ty_get nodes r) = node_ty (nodes ! r) ?ts" using ty_get_unfold[OF assms Suc.prems(1)] by simp
    have sub: "\<exists>memo'. unsupported_keys_fuel n low nodes k memo = Some (unsupported_keys low (the (ty_get nodes k)), memo') \<and>
        memo_ok low nodes memo'" if "k \<in> set ?kids" "memo_ok low nodes memo" for k memo
      using Suc.IH[of k memo] orderedD[OF assms Suc.prems(1) that(1)] Suc.prems(1,2) that(2) by simp
    have "\<exists>m1. keys_of_kids (unsupported_keys_fuel n low nodes) ?kids ?own memo =
        Some (fold push_key (concat (map (\<lambda>k. bad_keys low (the (ty_get nodes k))) ?kids)) ?own, m1) \<and> memo_ok low nodes m1"
      by (rule keys_of_kids_spec[OF _ Suc.prems(3)]) (rule sub)
    then obtain m1 where
      m1: "keys_of_kids (unsupported_keys_fuel n low nodes) ?kids ?own memo =
        Some (fold push_key (concat (map (\<lambda>k. bad_keys low (the (ty_get nodes k))) ?kids)) ?own, m1)" "memo_ok low nodes m1"
      by blast
    have own: "fold push_key ?own [] = ?own" by (simp add: push_own_def push_key_def split: ty_node.split)
    have "unsupported_keys low (the (ty_get nodes r)) =
        fold push_key (concat (map (\<lambda>k. bad_keys low (the (ty_get nodes k))) ?kids)) ?own"
      unfolding t unsupported_keys_def walk_keys_bad by (simp add: bad_keys_node own comp_def)
    with m1 None Suc.prems(1) own_keys_node[OF assms Suc.prems(1)] show ?thesis
      by (auto simp: memo_ok_def)
  qed
qed simp

section \<open>Properties\<close>

text \<open>C25: the memoised check over a table gives, for every reference and every memo filled by earlier
  calls, exactly the list the walk over the rebuilt type gives, and leaves such a memo; it ends on every
  table the builder makes.\<close>

theorem memoised_keys_exact:
  assumes "builder_ok b" "r < node_count (bd_finish b)" "memo_ok low (bd_finish b) memo"
  shows "\<exists>memo' t. ty_get (bd_finish b) r = Some t \<and>
    unsupported_keys_ref low (bd_finish b) r memo = Some (unsupported_keys low t, memo') \<and> memo_ok low (bd_finish b) memo'"
proof -
  have o: "ordered (bd_finish b)" using assms(1) by (simp add: builder_ok_def bd_finish_def)
  have r: "r < length (bd_finish b)" using assms(2) by (simp add: node_count_def)
  from unsupported_keys_fuel_spec[OF o r lessI assms(3)] ty_get_unfold[OF o r] show ?thesis
    unfolding unsupported_keys_ref_def by (metis option.sel)
qed

theorem memoised_keys_exact_witness:
  "\<exists>memo'. unsupported_keys_ref (\<lambda>_. False) [NUnit, NApp ''Dict'' [0, 0]] 1 Map.empty = Some ([TyUnit], memo')"
proof -
  let ?b = "\<lparr>bd_nodes = [NUnit, NApp ''Dict'' [0, 0]], bd_index = [NUnit \<mapsto> 0, NApp ''Dict'' [0, 0] \<mapsto> 1]\<rparr>"
  have b: "builder_ok ?b" by (auto simp: builder_ok_def ordered_def less_Suc_eq nth_Cons')
  have "\<exists>memo' t. ty_get (bd_finish ?b) 1 = Some t \<and>
      unsupported_keys_ref (\<lambda>_. False) (bd_finish ?b) 1 Map.empty = Some (unsupported_keys (\<lambda>_. False) t, memo') \<and>
      memo_ok (\<lambda>_. False) (bd_finish ?b) memo'"
    by (rule memoised_keys_exact[OF b]) (simp_all add: node_count_def bd_finish_def memo_ok_def)
  moreover have "ty_get (bd_finish ?b) 1 = Some (TyApp ''Dict'' [TyUnit, TyUnit])" by code_simp
  moreover have "unsupported_keys (\<lambda>_. False) (TyApp ''Dict'' [TyUnit, TyUnit]) = [TyUnit]" by code_simp
  ultimately show ?thesis by (auto simp: bd_finish_def)
qed

lemma set_bad_keys: "set (bad_keys low t) =
    {k. \<exists>v. TyApp DICT [k, v] \<in> subtypes t \<and> classify_key low k = Unsupported}"
proof (induction t)
  case (TyApp n args)
  have "set (push_own low n args []) = {k. \<exists>v. TyApp DICT [k, v] = TyApp n args \<and> classify_key low k = Unsupported}"
    by (auto simp: push_own_def push_key_def length_Suc_conv numeral_2_eq_2)
  with TyApp.IH show ?case by auto
next
  case (TyRecord fs ext)
  have "set (bad_keys low (snd p)) = {k. \<exists>v. TyApp DICT [k, v] \<in> subtypes (snd p) \<and> classify_key low k = Unsupported}"
    if "p \<in> set fs" for p using TyRecord.IH[of p "snd p"] that by (cases p) auto
  then show ?case by auto
qed auto

text \<open>C26: the check of a type reports, up to rendering and without repetitions, exactly the key types of the \<open>Dict\<close>
  applications anywhere inside it, keys of keys included, whose verdict is unsupported; variables, error types and
  names that start in lower case are never reported.\<close>

theorem unsupported_keys_exact:
  "set (unsupported_keys low t) \<subseteq> {k. \<exists>v. TyApp DICT [k, v] \<in> subtypes t \<and> classify_key low k = Unsupported} \<and>
   render ` set (unsupported_keys low t) =
     render ` {k. \<exists>v. TyApp DICT [k, v] \<in> subtypes t \<and> classify_key low k = Unsupported} \<and>
   distinct (map render (unsupported_keys low t))"
proof -
  have sub: "set (fold push_key xs out) \<subseteq> set xs \<union> set out" for xs out
  proof (induction xs arbitrary: out)
    case (Cons x xs)
    have "set (push_key x out) \<subseteq> insert x (set out)" by (auto simp: push_key_seen)
    with Cons[of "push_key x out"] show ?case by auto
  qed simp
  have img: "render ` set (fold push_key xs out) = render ` (set xs \<union> set out)" for xs out
  proof (induction xs arbitrary: out)
    case (Cons x xs)
    have "seen_as x out \<Longrightarrow> render x \<in> render ` set out" by (auto simp: seen_as_def intro: rev_image_eqI[OF _ sym])
    then have "render ` set (push_key x out) = render ` insert x (set out)" by (auto simp: push_key_seen)
    with Cons show ?case by (simp add: image_Un)
  qed simp
  have dist: "distinct (map render out) \<Longrightarrow> distinct (map render (fold push_key xs out))" for xs out
  proof (induction xs arbitrary: out)
    case (Cons x xs)
    have "distinct (map render (push_key x out))" using Cons.prems by (auto simp: push_key_seen seen_as_def)
    from Cons.IH[OF this] show ?case by simp
  qed simp
  show ?thesis
    using sub[of "bad_keys low t" "[]"] img[of "bad_keys low t" "[]"] dist[of "[]" "bad_keys low t"]
    by (simp add: unsupported_keys_def walk_keys_bad set_bad_keys)
qed

end
