(* ===== verification/Variance.thy ===== *)
theory Variance
  imports Ty "HOL-Library.AList" "HOL-Library.List_Lexorder" "HOL-Library.Char_ord"
begin

text \<open>
  Variance of type constructors for the relaxed value restriction, \<open>ty/src/variance.rs\<close>, with the list of
  kernel modules of \<open>hir/src/kernel.rs\<close>. The world's constructors are a list of definition ids with their
  schemes, and \<open>module_of\<close> is the database's answer for a definition. The fixpoint loop over the user unions
  carries fuel: two passes per parameter, and one to see that nothing changes, are enough.
\<close>

datatype variance = Bi | Co | Contra | Inv

definition vjoin :: "variance \<Rightarrow> variance \<Rightarrow> variance" where
  "vjoin a b = (if a = Bi then b else if b = Bi then a else if a = b then a else Inv)"

definition vflip :: "variance \<Rightarrow> variance" where
  "vflip v = (case v of Co \<Rightarrow> Contra | Contra \<Rightarrow> Co | v \<Rightarrow> v)"

definition vcompose :: "variance \<Rightarrow> variance \<Rightarrow> variance" where
  "vcompose outer inner = (case inner of Bi \<Rightarrow> Bi | Inv \<Rightarrow> Inv | Co \<Rightarrow> outer | Contra \<Rightarrow> vflip outer)"

definition generalisable :: "variance \<Rightarrow> bool" where
  "generalisable v \<longleftrightarrow> v = Bi \<or> v = Co"

definition COVARIANT_STDLIB :: "string list" where
  "COVARIANT_STDLIB = [''List'', ''Maybe'', ''Result'', ''Dict'', ''Set'', ''Sky.Core.Array.Array'', ''Task'', ''Cmd'',
     ''Sub'', ''Decoder'', ''Std.Config.Decoder'', ''Std.Html.Html'', ''Std.Html.Attributes.Attribute'',
     ''Std.Html.Attributes.Event'', ''Std.Ui.Element'', ''Std.Ui.Attribute'', ''Std.Ui.Canvas.Shape'',
     ''Std.Ui.Canvas.Attr'', ''Std.App.Route'', ''Route'', ''Attribute'']"

definition KERNEL_MODULES :: "(string \<times> string) list" where
  "KERNEL_MODULES = [
     (''Sky.Core.Basics'', ''Basics''), (''Sky.Core.String'', ''String''), (''Sky.Core.List'', ''List''),
     (''Sky.Core.Dict'', ''Dict''), (''Sky.Core.Set'', ''Set''), (''Sky.Core.Maybe'', ''Maybe''),
     (''Sky.Core.Result'', ''Result''), (''Sky.Core.Task'', ''Task''), (''Sky.Core.Math'', ''Math''),
     (''Sky.Core.Regex'', ''Regex''), (''Sky.Core.Crypto'', ''Crypto''),
     (''Sky.Core.Encoding'', ''Encoding''), (''Sky.Core.Char'', ''Char''), (''Sky.Core.Path'', ''Path''),
     (''Std.Log'', ''Log''), (''Std.Cmd'', ''Cmd''), (''Std.Sub'', ''Sub''), (''Std.Db'', ''Db''),
     (''Std.Auth'', ''Auth''), (''Sky.Core.Io'', ''Io''), (''Io'', ''Io''), (''Sky.Core.File'', ''File''),
     (''Sky.Core.Process'', ''Process''), (''Sky.Core.Time'', ''Time''), (''Std.Time'', ''Time''),
     (''Sky.Core.Random'', ''Random''), (''Sky.Core.Http'', ''Http''), (''Sky.Http.Server'', ''Server''),
     (''Std.Live'', ''Live''), (''Std.Jobs'', ''Jobs''), (''Sky.Cli'', ''Cli''), (''Std.Cli'', ''Cli''),
     (''Sky.Tui'', ''Tui''), (''Std.Tui'', ''Tui''), (''Sky.Webview'', ''Webview''),
     (''Std.Webview'', ''Webview''), (''Sky.Core.Json.Encode'', ''JsonEnc''),
     (''Sky.Core.Json.Decode'', ''JsonDec''), (''Sky.Core.Json.Decode.Pipeline'', ''JsonDecP''),
     (''Sky.Core.Uuid'', ''Uuid''), (''Sky.Core.System'', ''System''), (''Std.System'', ''System''),
     (''System'', ''System''), (''Context'', ''Context''), (''Fmt'', ''Fmt''), (''Time'', ''Time''),
     (''Crypto'', ''Crypto''), (''Encoding'', ''Encoding''), (''Sky.Http.RateLimit'', ''RateLimit''),
     (''Sky.Http.Middleware'', ''Middleware''), (''Sky.Ffi'', ''Ffi''), (''Sky.Core.Prelude'', ''Basics''),
     (''Log'', ''Log''), (''Cmd'', ''Cmd''), (''Sub'', ''Sub''), (''Db'', ''Db''), (''Auth'', ''Auth''),
     (''File'', ''File''), (''Process'', ''Process''), (''Random'', ''Random''), (''Http'', ''Http''),
     (''Server'', ''Server''), (''Live'', ''Live''), (''Jobs'', ''Jobs''), (''Cli'', ''Cli''),
     (''Tui'', ''Tui''), (''Webview'', ''Webview''), (''JsonEnc'', ''JsonEnc''), (''JsonDec'', ''JsonDec''),
     (''JsonDecP'', ''JsonDecP''), (''Uuid'', ''Uuid''), (''RateLimit'', ''RateLimit''),
     (''Middleware'', ''Middleware''), (''Ffi'', ''Ffi''), (''Basics'', ''Basics''),
     (''String'', ''String''), (''List'', ''List''), (''Dict'', ''Dict''), (''Set'', ''Set''),
     (''Maybe'', ''Maybe''), (''Result'', ''Result''), (''Task'', ''Task''), (''Math'', ''Math''),
     (''Regex'', ''Regex''), (''Char'', ''Char''), (''Path'', ''Path'')]"

definition is_stdlib_module :: "string \<Rightarrow> bool" where
  "is_stdlib_module m \<longleftrightarrow> starts_with m ''Sky.'' \<or> starts_with m ''Std.'' \<or>
     list_ex (\<lambda>(path, pseudo). path = m \<or> pseudo = m) KERNEL_MODULES"

primrec rename_vars :: "(string \<Rightarrow> string option) \<Rightarrow> ty \<Rightarrow> ty" where
  "rename_vars m (TyVar n) = TyVar (shown_var m n)"
| "rename_vars m (TyFun a b) = TyFun (rename_vars m a) (rename_vars m b)"
| "rename_vars m (TyApp n xs) = TyApp n (map (rename_vars m) xs)"
| "rename_vars m (TyRecord fs ext) = TyRecord (map (map_prod id (rename_vars m)) fs) (map_option (shown_var m) ext)"
| "rename_vars m (TyTuple xs) = TyTuple (map (rename_vars m) xs)"
| "rename_vars m TyUnit = TyUnit"
| "rename_vars m TyError = TyError"

section \<open>Occurrences\<close>

type_synonym variance_table = "string \<Rightarrow> variance list option"

definition param_variance :: "variance_table \<Rightarrow> string \<Rightarrow> nat \<Rightarrow> nat \<Rightarrow> variance" where
  "param_variance T name i arity =
     (if name \<in> set COVARIANT_STDLIB then Co
      else (case T name of Some vs \<Rightarrow> if length vs = arity then vs ! i else Inv | None \<Rightarrow> Inv))"

text \<open>One argument of an application: \<open>occ\<close> is its occurrence at polarity \<open>Co\<close>.\<close>

definition arg_occurrence :: "variance \<Rightarrow> variance \<Rightarrow> variance \<Rightarrow> variance" where
  "arg_occurrence pol inner occ =
     (let pos = vcompose pol inner in if pos = Bi \<or> occ = Bi then Bi else vcompose pos occ)"

primrec occurrence :: "variance_table \<Rightarrow> string \<Rightarrow> ty \<Rightarrow> variance \<Rightarrow> variance" where
  "occurrence T v (TyVar n) = (\<lambda>pol. if n = v then pol else Bi)"
| "occurrence T v (TyFun a b) = (\<lambda>pol. vjoin (occurrence T v a (vflip pol)) (occurrence T v b pol))"
| "occurrence T v (TyApp name args) = (\<lambda>pol.
     foldl (\<lambda>out (i, occ). vjoin out (arg_occurrence pol (param_variance T name i (length args)) (occ Co)))
       Bi (enumerate 0 (map (occurrence T v) args)))"
| "occurrence T v (TyRecord fs ext) = (\<lambda>pol.
     foldl (\<lambda>out occ. vjoin out (occ pol)) (if ext = Some v then pol else Bi)
       (map snd (map (map_prod id (occurrence T v)) fs)))"
| "occurrence T v (TyTuple xs) = (\<lambda>pol. foldl (\<lambda>out occ. vjoin out (occ pol)) Bi (map (occurrence T v) xs))"
| "occurrence T v TyUnit = (\<lambda>pol. Bi)"
| "occurrence T v TyError = (\<lambda>pol. Bi)"

fun first_some :: "'a option list \<Rightarrow> 'a option" where
  "first_some [] = None"
| "first_some (Some x # _) = Some x"
| "first_some (None # xs) = first_some xs"

definition or_text :: "string option \<Rightarrow> string \<Rightarrow> string" where
  "or_text r dflt = (case r of Some s \<Rightarrow> s | None \<Rightarrow> dflt)"

text \<open>The reason for one argument; \<open>None\<close> goes on to the next one.\<close>

definition arg_reason :: "string \<Rightarrow> variance \<Rightarrow> variance \<Rightarrow> variance \<Rightarrow> (variance \<Rightarrow> string option) \<Rightarrow> string option" where
  "arg_reason name pol inner occ sub =
     (let pos = vcompose pol inner; shown = strip_name name in
      if pos = Bi \<or> occ = Bi \<or> generalisable (vcompose pos occ) then None
      else if inner = Inv then Some (''inside `'' @ shown @ ''`'')
      else Some (or_text (sub pos) (''inside `'' @ shown @ ''`'')))"

primrec variance_reason :: "variance_table \<Rightarrow> string \<Rightarrow> ty \<Rightarrow> variance \<Rightarrow> string option" where
  "variance_reason T v (TyVar n) = (\<lambda>pol. None)"
| "variance_reason T v (TyFun a b) = (\<lambda>pol.
     (let occ = occurrence T v a (vflip pol) in
      if occ \<noteq> Bi \<and> \<not> generalisable occ
      then Some (or_text (variance_reason T v a (vflip pol)) ''in a function argument'')
      else variance_reason T v b pol))"
| "variance_reason T v (TyApp name args) = (\<lambda>pol.
     first_some (map (\<lambda>(i, a, sub). arg_reason name pol (param_variance T name i (length args)) (occurrence T v a Co) sub)
       (enumerate 0 (zip args (map (variance_reason T v) args)))))"
| "variance_reason T v (TyRecord fs ext) = (\<lambda>pol.
     first_some (map (\<lambda>r. r pol) (map snd (map (map_prod id (variance_reason T v)) fs))))"
| "variance_reason T v (TyTuple xs) = (\<lambda>pol. first_some (map (\<lambda>r. r pol) (map (variance_reason T v) xs)))"
| "variance_reason T v TyUnit = (\<lambda>pol. None)"
| "variance_reason T v TyError = (\<lambda>pol. None)"

section \<open>The table\<close>

record union_info =
  un_params :: "string list"
  un_args :: "ty list"
  un_stdlib :: bool

primrec peel_args :: "ty \<Rightarrow> ty list \<times> ty" where
  "peel_args (TyFun a b) = (let (args, r) = peel_args b in (a # args, r))"
| "peel_args (TyVar n) = ([], TyVar n)"
| "peel_args (TyApp n xs) = ([], TyApp n xs)"
| "peel_args (TyRecord fs ext) = ([], TyRecord fs ext)"
| "peel_args (TyTuple xs) = ([], TyTuple xs)"
| "peel_args TyUnit = ([], TyUnit)"
| "peel_args TyError = ([], TyError)"

definition var_names :: "ty list \<Rightarrow> string list" where
  "var_names ts = List.map_filter (\<lambda>t. case t of TyVar n \<Rightarrow> Some n | _ \<Rightarrow> None) ts"

text \<open>One constructor scheme; \<open>unions\<close> is keyed by name, and a later pair of the renaming wins.\<close>

definition add_ctor :: "bool \<Rightarrow> ty \<Rightarrow> (string \<times> union_info) list \<Rightarrow> (string \<times> union_info) list" where
  "add_ctor stdlib scheme_ty unions = (case peel_args scheme_ty of
     (args, TyApp name targs) \<Rightarrow>
       (let params = var_names targs in
        if length params \<noteq> length targs then unions
        else
          (let entry = (case map_of unions name of
                 Some u \<Rightarrow> u | None \<Rightarrow> \<lparr>un_params = params, un_args = [], un_stdlib = stdlib\<rparr>);
               rename = map_of (rev (zip params (un_params entry))) in
           AList.update name (entry\<lparr>un_stdlib := un_stdlib entry \<or> stdlib,
             un_args := un_args entry @ map (rename_vars rename) args\<rparr>) unions))
   | _ \<Rightarrow> unions)"

definition ctor_stdlib :: "(nat \<Rightarrow> string option) \<Rightarrow> nat \<Rightarrow> bool" where
  "ctor_stdlib module_of d = (case module_of d of Some m \<Rightarrow> is_stdlib_module m | None \<Rightarrow> True)"

definition collect_unions :: "(nat \<Rightarrow> string option) \<Rightarrow> (nat \<times> scheme) list \<Rightarrow> (string \<times> union_info) list" where
  "collect_unions module_of ctors =
     foldl (\<lambda>unions (d, s). add_ctor (ctor_stdlib module_of d) (sc_ty s) unions) [] (sort_key fst ctors)"

definition seed_variance :: "string \<Rightarrow> union_info \<Rightarrow> variance" where
  "seed_variance name u = (if name \<in> set COVARIANT_STDLIB then Co else if un_stdlib u then Inv else Bi)"

definition is_user_union :: "string \<Rightarrow> union_info \<Rightarrow> bool" where
  "is_user_union name u \<longleftrightarrow> name \<notin> set COVARIANT_STDLIB \<and> \<not> un_stdlib u"

definition seed_table :: "(string \<times> union_info) list \<Rightarrow> variance_table" where
  "seed_table unions = map_of (map (\<lambda>(name, u). (name, replicate (length (un_params u)) (seed_variance name u))) unions)"

definition union_variances :: "variance_table \<Rightarrow> union_info \<Rightarrow> variance list" where
  "union_variances T u =
     map (\<lambda>p. foldl (\<lambda>v a. vjoin v (occurrence T p a Co)) Bi (un_args u)) (un_params u)"

text \<open>One pass over the user unions, updating the table in place, and the loop.\<close>

fun variance_pass :: "(string \<times> union_info) list \<Rightarrow> variance_table \<times> bool \<Rightarrow> variance_table \<times> bool" where
  "variance_pass [] st = st"
| "variance_pass ((name, u) # us) (T, changed) =
     (let next = union_variances T u in
      variance_pass us (if T name \<noteq> Some next then (T(name \<mapsto> next), True) else (T, changed)))"

primrec variance_loop :: "nat \<Rightarrow> (string \<times> union_info) list \<Rightarrow> variance_table \<Rightarrow> variance_table option" where
  "variance_loop 0 user T = None"
| "variance_loop (Suc n) user T =
     (let (T', changed) = variance_pass user (T, False) in if changed then variance_loop n user T' else Some T')"

definition user_unions :: "(string \<times> union_info) list \<Rightarrow> (string \<times> union_info) list" where
  "user_unions unions = sort_key fst (filter (\<lambda>(name, u). is_user_union name u) unions)"

definition variance_fuel :: "(string \<times> union_info) list \<Rightarrow> nat" where
  "variance_fuel user = Suc (2 * sum_list (map (\<lambda>(name, u). length (un_params u)) user))"

definition build_variances :: "(nat \<Rightarrow> string option) \<Rightarrow> (nat \<times> scheme) list \<Rightarrow> variance_table option" where
  "build_variances module_of ctors =
     (let unions = collect_unions module_of ctors; user = user_unions unions in
      variance_loop (variance_fuel user) user (seed_table unions))"

section \<open>Violations\<close>

record violation =
  vi_var :: string
  vi_reason :: string
  vi_from_inference :: bool
  vi_raw :: string

text \<open>The display names of \<open>prettify\<close>: the counter only moves on, and the search is over kept names.\<close>

fun pretty_names :: "string list \<Rightarrow> string list \<Rightarrow> nat \<Rightarrow> (string \<Rightarrow> string option) \<Rightarrow> (string \<Rightarrow> string option) option" where
  "pretty_names kept [] counter m = Some m"
| "pretty_names kept (n # ns) counter m =
     (if \<not> is_internal_var n then pretty_names kept ns counter m
      else (case first_unused (Suc (length kept)) display_var_name kept counter of
          None \<Rightarrow> None
        | Some i \<Rightarrow> pretty_names kept ns (Suc i) (m(n \<mapsto> display_var_name i))))"

definition prettify :: "ty \<Rightarrow> (ty \<times> (string \<Rightarrow> string option)) option" where
  "prettify t =
     (let free = free_vars t in
      map_option (\<lambda>m. (rename_vars m t, m)) (pretty_names (filter (\<lambda>n. \<not> is_internal_var n) free) free 0 Map.empty))"

definition violation_of :: "variance_table \<Rightarrow> (string \<Rightarrow> string option) \<Rightarrow> ty \<Rightarrow> string \<Rightarrow> violation" where
  "violation_of T names t v = \<lparr>vi_var = shown_var names v,
     vi_reason = or_text (variance_reason T v t Co) ''in a position that is not covariant'',
     vi_from_inference = is_internal_var v, vi_raw = v\<rparr>"

definition violations :: "(nat \<Rightarrow> string option) \<Rightarrow> (nat \<times> scheme) list \<Rightarrow> ty \<Rightarrow> string set option \<Rightarrow>
    (ty \<times> violation list) option" where
  "violations module_of ctors t reached =
     (let free = free_vars t in
      if list_all (\<lambda>n. n = ''any'') free then Some (t, [])
      else (case (build_variances module_of ctors, prettify t) of
          (Some T, Some (shown, names)) \<Rightarrow>
            Some (shown, map (violation_of T names t) (filter (\<lambda>v. v \<noteq> ''any'' \<and>
              (case reached of Some r \<Rightarrow> v \<in> r | None \<Rightarrow> True) \<and> \<not> generalisable (occurrence T v t Co)) free))
        | _ \<Rightarrow> None))"

primrec concretise :: "string list \<Rightarrow> ty \<Rightarrow> ty \<Rightarrow> ty" where
  "concretise hit new (TyVar n) = (if n \<in> set hit then new else TyVar n)"
| "concretise hit new (TyFun a b) = TyFun (concretise hit new a) (concretise hit new b)"
| "concretise hit new (TyApp n xs) = TyApp n (map (concretise hit new) xs)"
| "concretise hit new (TyRecord fs ext) = TyRecord (map (map_prod id (concretise hit new)) fs)
     (case ext of Some e \<Rightarrow> if e \<in> set hit then None else Some e | None \<Rightarrow> None)"
| "concretise hit new (TyTuple xs) = TyTuple (map (concretise hit new) xs)"
| "concretise hit new TyUnit = TyUnit"
| "concretise hit new TyError = TyError"

end
