(* ===== verification/Variance_Ok.thy ===== *)
theory Variance_Ok
  imports Variance
begin

text \<open>
  What the variances of \<open>ty/src/variance.rs\<close> mean: the fixpoint over the user unions is reached within its
  fuel, the table agrees with every constructor of every user union, and an occurrence that is
  generalisable is one a subtype relation with those variances carries through.
\<close>

section \<open>The lattice\<close>

definition vle :: "variance \<Rightarrow> variance \<Rightarrow> bool" where
  "vle a b \<longleftrightarrow> a = b \<or> a = Bi \<or> b = Inv"

definition height :: "variance \<Rightarrow> nat" where
  "height v = (case v of Bi \<Rightarrow> 0 | Co \<Rightarrow> 1 | Contra \<Rightarrow> 1 | Inv \<Rightarrow> 2)"

lemmas variance_defs = vle_def vjoin_def vflip_def vcompose_def arg_occurrence_def Let_def

lemma vle_refl [simp]: "vle a a" and vle_Bi [simp]: "vle Bi a"
  by (simp_all add: vle_def)

lemma vle_trans [trans]: "vle a b \<Longrightarrow> vle b c \<Longrightarrow> vle a c"
  by (auto simp: vle_def)

lemma vjoin_simps [simp]: "vjoin Bi a = a" "vjoin a Bi = a" "vjoin a a = a"
  by (simp_all add: vjoin_def)

lemma vjoin_mono: "vle a a' \<Longrightarrow> vle b b' \<Longrightarrow> vle (vjoin a b) (vjoin a' b')"
  by (cases a; cases a'; cases b; cases b'; simp add: variance_defs)

lemma vjoin_upper: "vle a (vjoin a b)" "vle b (vjoin a b)"
  by (auto simp: variance_defs)

lemma height_less: "vle a b \<Longrightarrow> a \<noteq> b \<Longrightarrow> height a < height b"
  by (cases a; cases b; simp add: vle_def height_def)

lemma height_le: "vle a b \<Longrightarrow> height a \<le> height b"
  by (cases a; cases b; simp add: vle_def height_def)

lemma height_bound: "height a \<le> 2"
  by (cases a) (simp_all add: height_def)

lemma arg_occurrence_mono: "vle p p' \<Longrightarrow> vle occ occ' \<Longrightarrow> vle (arg_occurrence pol p occ) (arg_occurrence pol p' occ')"
  by (cases pol; cases p; cases p'; cases occ; cases occ'; simp add: variance_defs)

lemma vcompose_join: "pol \<noteq> Bi \<Longrightarrow> vcompose pol (vjoin a b) = vjoin (vcompose pol a) (vcompose pol b)"
  by (cases pol; cases a; cases b; simp add: variance_defs)

lemma vcompose_arg: "pol \<noteq> Bi \<Longrightarrow> vcompose pol (arg_occurrence Co p occ) = arg_occurrence pol p occ"
  by (cases pol; cases p; cases occ; simp add: variance_defs)

lemma vcompose_flip: "pol \<noteq> Bi \<Longrightarrow> vcompose pol (vcompose Contra occ) = vcompose (vflip pol) occ"
  by (cases pol; cases occ; simp add: variance_defs)

lemma vflip_simps [simp]: "vflip (vflip v) = v" "vflip v = Bi \<longleftrightarrow> v = Bi" "vflip Co = Contra" "vflip Contra = Co"
  by (cases v; simp add: vflip_def)+

lemma vcompose_simps [simp]: "vcompose Co v = v" "vcompose p Bi = Bi" "vcompose p Co = p"
  by (cases v; simp add: vcompose_def)+

text \<open>Joins over a list.\<close>

abbreviation joins_of :: "('a \<Rightarrow> variance) \<Rightarrow> variance \<Rightarrow> 'a list \<Rightarrow> variance" where
  "joins_of f z xs \<equiv> foldl (\<lambda>out x. vjoin out (f x)) z xs"

lemma joins_upper: "vle z (joins_of f z xs) \<and> (\<forall>x \<in> set xs. vle (f x) (joins_of f z xs))"
proof (induction xs arbitrary: z)
  case (Cons x xs)
  have "vle z (vjoin z (f x))" "vle (f x) (vjoin z (f x))" by (rule vjoin_upper)+
  with Cons[of "vjoin z (f x)"] show ?case by (auto intro: vle_trans)
qed simp

lemma joins_compose: "pol \<noteq> Bi \<Longrightarrow> vcompose pol (joins_of f z xs) = joins_of (\<lambda>x. vcompose pol (f x)) (vcompose pol z) xs"
  by (induction xs arbitrary: z) (simp_all add: vcompose_join)

lemma joins_mono: "vle z z' \<Longrightarrow> list_all2 (\<lambda>x y. vle (f x) (g y)) xs ys \<Longrightarrow> vle (joins_of f z xs) (joins_of g z' ys)"
proof (induction xs arbitrary: z z' ys)
  case (Cons x xs)
  then obtain y ys' where "ys = y # ys'" "vle (f x) (g y)" "list_all2 (\<lambda>x y. vle (f x) (g y)) xs ys'"
    by (auto simp: list_all2_Cons1)
  with Cons.IH[of "vjoin z (f x)" "vjoin z' (g y)" ys'] Cons.prems(1) show ?case by (simp add: vjoin_mono)
qed simp

text \<open>The occurrence equations as joins.\<close>

lemma joins_map: "foldl (\<lambda>out y. vjoin out (f y)) z (map g xs) = joins_of (\<lambda>x. f (g x)) z xs"
  by (simp add: foldl_map)

lemma occurrence_App: "occurrence T v (TyApp name args) pol =
    joins_of (\<lambda>i. arg_occurrence pol (param_variance T name i (length args)) (occurrence T v (args ! i) Co)) Bi [0..<length args]"
proof -
  have "enumerate 0 (map (occurrence T v) args) = map (\<lambda>i. (i, occurrence T v (args ! i))) [0..<length args]"
    by (rule nth_equalityI) (simp_all add: nth_enumerate_eq)
  then show ?thesis by (simp add: foldl_map)
qed

lemma occurrence_Record: "occurrence T v (TyRecord fs ext) pol =
    joins_of (\<lambda>p. occurrence T v (snd p) pol) (if ext = Some v then pol else Bi) fs"
  by (simp add: foldl_map)

lemma occurrence_Tuple: "occurrence T v (TyTuple xs) pol = joins_of (\<lambda>x. occurrence T v x pol) Bi xs"
  by (simp add: foldl_map)

lemma foldl_cong_set: "(\<And>x. x \<in> set xs \<Longrightarrow> f x = g x) \<Longrightarrow> joins_of f z xs = joins_of g z xs"
  by (intro foldl_cong) simp_all

lemma occurrence_pol: "pol \<noteq> Bi \<Longrightarrow> occurrence T v t pol = vcompose pol (occurrence T v t Co)"
proof (induction t arbitrary: pol)
  case (TyFun a b)
  have a: "occurrence T v a (vflip pol) = vcompose (vflip pol) (occurrence T v a Co)"
    "occurrence T v a Contra = vcompose Contra (occurrence T v a Co)"
    by (rule TyFun.IH(1); use TyFun.prems in simp)+
  have b: "occurrence T v b pol = vcompose pol (occurrence T v b Co)" by (rule TyFun.IH(2)[OF TyFun.prems])
  show ?case
    by (simp only: occurrence.simps(2) a b vflip_simps vcompose_join[OF TyFun.prems] vcompose_flip[OF TyFun.prems])
next
  case (TyApp name args)
  show ?case unfolding occurrence_App joins_compose[OF TyApp.prems] vcompose_arg[OF TyApp.prems] by simp
next
  case (TyRecord fs ext)
  have "occurrence T v (snd p) pol = vcompose pol (occurrence T v (snd p) Co)" if "p \<in> set fs" for p
    using TyRecord.IH[of p "snd p" pol] TyRecord.prems that by (cases p) auto
  then have "joins_of (\<lambda>p. occurrence T v (snd p) pol) z fs = joins_of (\<lambda>p. vcompose pol (occurrence T v (snd p) Co)) z fs" for z
    by (rule foldl_cong_set)
  then show ?case unfolding occurrence_Record joins_compose[OF TyRecord.prems] by simp
next
  case (TyTuple xs)
  have "joins_of (\<lambda>x. occurrence T v x pol) Bi xs = joins_of (\<lambda>x. vcompose pol (occurrence T v x Co)) Bi xs"
    by (rule foldl_cong_set) (rule TyTuple.IH[OF _ TyTuple.prems])
  then show ?case unfolding occurrence_Tuple joins_compose[OF TyTuple.prems] by simp
qed simp_all

section \<open>The fixpoint\<close>

definition table_le :: "variance_table \<Rightarrow> variance_table \<Rightarrow> bool" where
  "table_le T T' \<longleftrightarrow> (\<forall>name. rel_option (list_all2 vle) (T name) (T' name))"

lemma table_le_refl [simp]: "table_le T T"
  by (auto simp: table_le_def list_all2_refl rel_option_iff split: option.split)

lemma vles_trans: "list_all2 vle xs ys \<Longrightarrow> list_all2 vle ys zs \<Longrightarrow> list_all2 vle xs zs"
  by (rule list_all2_trans[of vle vle vle]) (rule vle_trans)

lemma table_le_trans [trans]: "table_le a b \<Longrightarrow> table_le b c \<Longrightarrow> table_le a c"
  unfolding table_le_def
proof (intro allI)
  fix name assume "\<forall>name. rel_option (list_all2 vle) (a name) (b name)" "\<forall>name. rel_option (list_all2 vle) (b name) (c name)"
  then have "rel_option (list_all2 vle) (a name) (b name)" "rel_option (list_all2 vle) (b name) (c name)" by blast+
  then show "rel_option (list_all2 vle) (a name) (c name)"
    by (cases "a name"; cases "b name"; cases "c name") (auto intro: vles_trans)
qed

lemma param_mono:
  assumes "table_le T T'" "i < arity"
  shows "vle (param_variance T name i arity) (param_variance T' name i arity)"
proof -
  have "rel_option (list_all2 vle) (T name) (T' name)" using assms(1) by (simp add: table_le_def)
  then show ?thesis using assms(2)
    by (cases "T name"; cases "T' name") (auto simp: param_variance_def list_all2_conv_all_nth)
qed

lemma occurrence_mono: "table_le T T' \<Longrightarrow> vle (occurrence T v t pol) (occurrence T' v t pol)"
proof (induction t arbitrary: pol)
  case (TyFun a b)
  then show ?case by (simp add: vjoin_mono)
next
  case (TyApp name args)
  then show ?case unfolding occurrence_App
    by (intro joins_mono) (auto simp: list_all2_same intro!: arg_occurrence_mono param_mono)
next
  case (TyRecord fs ext)
  have "vle (occurrence T v (snd p) pol) (occurrence T' v (snd p) pol)" if "p \<in> set fs" for p
    using TyRecord.IH[of p "snd p" pol] TyRecord.prems that by (cases p) auto
  then show ?case unfolding occurrence_Record by (intro joins_mono) (auto simp: list_all2_same)
next
  case (TyTuple xs)
  then show ?case unfolding occurrence_Tuple by (intro joins_mono) (auto simp: list_all2_same)
qed simp_all

lemma union_variances_mono: "table_le T T' \<Longrightarrow> list_all2 vle (union_variances T u) (union_variances T' u)"
  by (auto simp: union_variances_def list_all2_conv_all_nth list_all2_same intro!: joins_mono occurrence_mono)

text \<open>Every entry is at most what its constructors ask for: updating one keeps this, and only moves up.\<close>

definition ascending :: "(string \<times> union_info) list \<Rightarrow> variance_table \<Rightarrow> bool" where
  "ascending user T \<longleftrightarrow> (\<forall>(name, u) \<in> set user. \<exists>vs. T name = Some vs \<and> list_all2 vle vs (union_variances T u))"

lemma ascendingD: "ascending user T \<Longrightarrow> (name, u) \<in> set user \<Longrightarrow>
    \<exists>vs. T name = Some vs \<and> list_all2 vle vs (union_variances T u)"
  unfolding ascending_def by blast

definition weight :: "(string \<times> union_info) list \<Rightarrow> variance_table \<Rightarrow> nat" where
  "weight user T = sum_list (map (\<lambda>(name, u). sum_list (map height (the (T name)))) user)"

lemma heights_le: "list_all2 vle xs ys \<Longrightarrow> sum_list (map height xs) \<le> sum_list (map height ys)"
  by (induction rule: list_all2_induct) (auto dest: height_le)

lemma heights_less: "list_all2 vle xs ys \<Longrightarrow> xs \<noteq> ys \<Longrightarrow> sum_list (map height xs) < sum_list (map height ys)"
proof (induction rule: list_all2_induct)
  case (Cons x xs y ys)
  then show ?case using heights_le[of xs ys] height_le[of x y] height_less[of x y] by fastforce
qed simp

lemma update_ascends:
  assumes "ascending user T" "(name, u) \<in> set user" "distinct (map fst user)"
  shows "table_le T (T(name \<mapsto> union_variances T u)) \<and> ascending user (T(name \<mapsto> union_variances T u))"
proof -
  let ?T = "T(name \<mapsto> union_variances T u)"
  obtain vs where vs: "T name = Some vs" "list_all2 vle vs (union_variances T u)"
    using ascendingD[OF assms(1,2)] by blast
  have le: "table_le T ?T" using vs by (auto simp: table_le_def rel_option_iff list_all2_refl split: option.split)
  have "\<exists>vs. ?T n = Some vs \<and> list_all2 vle vs (union_variances ?T w)" if mem: "(n, w) \<in> set user" for n w
  proof -
    obtain ws where ws: "T n = Some ws" "list_all2 vle ws (union_variances T w)"
      using ascendingD[OF assms(1) mem] by blast
    have "n = name \<Longrightarrow> w = u" using mem assms(2,3) by (metis eq_key_imp_eq_value)
    then show ?thesis using ws union_variances_mono[OF le, of w] by (auto intro: vles_trans)
  qed
  then show ?thesis using le by (auto simp: ascending_def)
qed

lemma sum_list_strict: "(\<And>x. x \<in> set xs \<Longrightarrow> f x \<le> (g x :: nat)) \<Longrightarrow> y \<in> set xs \<Longrightarrow> f y < g y \<Longrightarrow>
    sum_list (map f xs) < sum_list (map g xs)"
proof (induction xs)
  case (Cons x xs)
  have "sum_list (map f xs) \<le> sum_list (map g xs)" using Cons.prems(1) by (intro sum_list_mono) simp
  moreover have "y \<in> set xs \<Longrightarrow> sum_list (map f xs) < sum_list (map g xs)"
    using Cons.IH Cons.prems(1,3) by simp
  ultimately show ?case using Cons.prems(1)[of x] Cons.prems(2,3) by auto
qed simp

lemma weight_mono:
  assumes "table_le T T'"
  shows "weight user T \<le> weight user T'"
  unfolding weight_def
proof (rule sum_list_mono, clarify)
  fix name u
  have "rel_option (list_all2 vle) (T name) (T' name)" using assms by (simp add: table_le_def)
  then show "sum_list (map height (the (T name))) \<le> sum_list (map height (the (T' name)))"
    by (cases "T name"; cases "T' name") (auto dest: heights_le)
qed

lemma weight_less:
  assumes "table_le T T'" "(name, u) \<in> set user" "T name = Some vs" "T' name \<noteq> Some vs"
  shows "weight user T < weight user T'"
proof -
  have le: "rel_option (list_all2 vle) (T n) (T' n)" for n using assms(1) by (simp add: table_le_def)
  have each: "sum_list (map height (the (T n))) \<le> sum_list (map height (the (T' n)))" for n
    using le[of n] by (cases "T n"; cases "T' n") (auto dest: heights_le)
  obtain ws where "T' name = Some ws" "list_all2 vle vs ws" using le[of name] assms(3) by (cases "T' name") auto
  with assms(3,4) have "sum_list (map height (the (T name))) < sum_list (map height (the (T' name)))"
    using heights_less by auto
  then show ?thesis unfolding weight_def using each assms(2) by (intro sum_list_strict[of user _ _ "(name, u)"]) auto
qed

lemma pass_ascends:
  assumes "distinct (map fst user)"
  shows "set us \<subseteq> set user \<Longrightarrow> ascending user T \<Longrightarrow> variance_pass us (T, ch) = (T', ch') \<Longrightarrow>
    ascending user T' \<and> table_le T T' \<and> (ch' \<longrightarrow> ch \<or> weight user T < weight user T') \<and>
    (\<not> ch' \<longrightarrow> \<not> ch \<and> T' = T \<and> (\<forall>(name, u) \<in> set us. T name = Some (union_variances T u)))"
proof (induction us arbitrary: T ch)
  case (Cons nu us)
  obtain name u where nu: "nu = (name, u)" by force
  have mem: "(name, u) \<in> set user" using Cons.prems(1) nu by simp
  show ?case
  proof (cases "T name = Some (union_variances T u)")
    case True
    then have "variance_pass us (T, ch) = (T', ch')" using Cons.prems(3) nu by (simp add: Let_def)
    from Cons.IH[OF _ Cons.prems(2) this] Cons.prems(1) True nu show ?thesis by auto
  next
    case False
    let ?T = "T(name \<mapsto> union_variances T u)"
    note up = update_ascends[OF Cons.prems(2) mem assms]
    have pass: "variance_pass us (?T, True) = (T', ch')" using Cons.prems(3) False nu by (simp add: Let_def)
    have rest: "ascending user T' \<and> table_le ?T T' \<and> (ch' \<longrightarrow> True \<or> weight user ?T < weight user T') \<and>
        (\<not> ch' \<longrightarrow> \<not> True \<and> T' = ?T \<and> (\<forall>(name, u) \<in> set us. ?T name = Some (union_variances ?T u)))"
      by (rule Cons.IH[OF _ conjunct2[OF up] pass]) (use Cons.prems(1) in simp)
    obtain vs where vs: "T name = Some vs" using ascendingD[OF Cons.prems(2) mem] by blast
    have "weight user T < weight user ?T" by (rule weight_less[OF conjunct1[OF up] mem vs]) (use False vs in simp)
    then have "weight user T < weight user T'" using weight_mono rest by (meson order_less_le_trans)
    with rest up show ?thesis by (auto intro: table_le_trans)
  qed
qed simp

lemma weight_bound:
  assumes "ascending user T"
  shows "weight user T < variance_fuel user"
proof -
  have "sum_list (map height (the (T name))) \<le> 2 * length (un_params u)" if mem: "(name, u) \<in> set user" for name u
  proof -
    obtain vs where vs: "T name = Some vs" "list_all2 vle vs (union_variances T u)"
      using ascendingD[OF assms mem] by blast
    have "length vs = length (un_params u)" using list_all2_lengthD[OF vs(2)] by (simp add: union_variances_def)
    moreover have "sum_list (map height vs) \<le> 2 * length vs"
      by (induction vs) (use height_bound in \<open>auto intro: add_le_mono order_trans\<close>)
    ultimately show ?thesis using vs(1) by simp
  qed
  then have "weight user T \<le> sum_list (map (\<lambda>(name, u). 2 * length (un_params u)) user)"
    unfolding weight_def by (intro sum_list_mono) auto
  also have "\<dots> = 2 * sum_list (map (\<lambda>(name, u). length (un_params u)) user)"
    by (induction user) auto
  finally show ?thesis by (simp add: variance_fuel_def)
qed

lemma loop_stable:
  assumes "distinct (map fst user)"
  shows "ascending user T \<Longrightarrow> variance_fuel user \<le> weight user T + n \<Longrightarrow>
    \<exists>T'. variance_loop n user T = Some T' \<and> table_le T T' \<and>
      (\<forall>(name, u) \<in> set user. T' name = Some (union_variances T' u))"
proof (induction n arbitrary: T)
  case 0
  with weight_bound[OF 0(1)] show ?case by simp
next
  case (Suc n)
  obtain T1 ch where pass: "variance_pass user (T, False) = (T1, ch)" by force
  note p = pass_ascends[OF assms subset_refl Suc.prems(1) pass]
  show ?case
  proof (cases ch)
    case True
    then have "\<exists>T'. variance_loop n user T1 = Some T' \<and> table_le T1 T' \<and>
        (\<forall>(name, u) \<in> set user. T' name = Some (union_variances T' u))"
      using p Suc.prems(2) by (intro Suc.IH) auto
    then show ?thesis using True pass p by (auto intro: table_le_trans)
  next
    case False
    then show ?thesis using pass p by auto
  qed
qed

section \<open>Subtypes\<close>

text \<open>The subtype relation a table of variances generates from a relation between types.\<close>

inductive vsub :: "variance_table \<Rightarrow> (ty \<Rightarrow> ty \<Rightarrow> bool) \<Rightarrow> ty \<Rightarrow> ty \<Rightarrow> bool" for T R where
  base: "R s t \<Longrightarrow> vsub T R s t"
| same: "vsub T R t t"
| fn: "vsub T R a' a \<Longrightarrow> vsub T R b b' \<Longrightarrow> vsub T R (TyFun a b) (TyFun a' b')"
| app: "length xs = length ys \<Longrightarrow>
    (\<And>i. i < length xs \<Longrightarrow> param_variance T n i (length xs) \<in> {Co, Inv} \<Longrightarrow> vsub T R (xs ! i) (ys ! i)) \<Longrightarrow>
    (\<And>i. i < length xs \<Longrightarrow> param_variance T n i (length xs) \<in> {Contra, Inv} \<Longrightarrow> vsub T R (ys ! i) (xs ! i)) \<Longrightarrow>
    vsub T R (TyApp n xs) (TyApp n ys)"
| rec: "map fst fs = map fst gs \<Longrightarrow> (\<And>i. i < length fs \<Longrightarrow> vsub T R (snd (fs ! i)) (snd (gs ! i))) \<Longrightarrow>
    vsub T R (TyRecord fs ext) (TyRecord gs ext)"
| tup: "length xs = length ys \<Longrightarrow> (\<And>i. i < length xs \<Longrightarrow> vsub T R (xs ! i) (ys ! i)) \<Longrightarrow>
    vsub T R (TyTuple xs) (TyTuple ys)"

text \<open>Related at a variance.\<close>

definition at :: "variance_table \<Rightarrow> (ty \<Rightarrow> ty \<Rightarrow> bool) \<Rightarrow> variance \<Rightarrow> ty \<Rightarrow> ty \<Rightarrow> bool" where
  "at T R o' s t \<longleftrightarrow> (o' \<in> {Co, Inv} \<longrightarrow> vsub T R s t) \<and> (o' \<in> {Contra, Inv} \<longrightarrow> vsub T R t s)"

lemma at_mono: "vle a b \<Longrightarrow> at T R b s t \<Longrightarrow> at T R a s t"
  by (auto simp: at_def vle_def)

lemma at_flip: "at T R (vflip p) s t \<longleftrightarrow> at T R p t s"
  by (cases p) (auto simp: at_def vflip_def)

lemma at_joins: "at T R (joins_of f z xs) s t \<Longrightarrow> at T R z s t \<and> (\<forall>x \<in> set xs. at T R (f x) s t)"
  using joins_upper[of z f xs] by (auto intro: at_mono)

lemma at_arg: "at T R (arg_occurrence pol p occ) s t \<Longrightarrow> pol \<noteq> Bi \<Longrightarrow> p \<noteq> Bi \<Longrightarrow> at T R (vcompose (vcompose pol p) occ) s t"
  by (cases pol; cases p; cases occ) (auto simp: at_def variance_defs)

lemma at_Fun: "at T R (vflip pol) a a' \<Longrightarrow> at T R pol b b' \<Longrightarrow> at T R pol (TyFun a b) (TyFun a' b')"
  by (cases pol) (auto simp: at_def vflip_def intro: vsub.fn)

lemma at_App:
  assumes "length xs = length ys"
    "\<And>i. i < length xs \<Longrightarrow> at T R (vcompose pol (param_variance T n i (length xs))) (xs ! i) (ys ! i)"
  shows "at T R pol (TyApp n xs) (TyApp n ys)"
proof -
  have "vsub T R (TyApp n xs) (TyApp n ys)" if "pol \<in> {Co, Inv}"
  proof (rule vsub.app[OF assms(1)])
    fix i assume i: "i < length xs"
    show "param_variance T n i (length xs) \<in> {Co, Inv} \<Longrightarrow> vsub T R (xs ! i) (ys ! i)"
      "param_variance T n i (length xs) \<in> {Contra, Inv} \<Longrightarrow> vsub T R (ys ! i) (xs ! i)"
      using assms(2)[OF i] that by (auto simp: at_def vcompose_def vflip_def)
  qed
  moreover have "vsub T R (TyApp n ys) (TyApp n xs)" if "pol \<in> {Contra, Inv}"
  proof (rule vsub.app[OF assms(1)[symmetric]])
    fix i assume i: "i < length ys"
    show "param_variance T n i (length ys) \<in> {Co, Inv} \<Longrightarrow> vsub T R (ys ! i) (xs ! i)"
      "param_variance T n i (length ys) \<in> {Contra, Inv} \<Longrightarrow> vsub T R (xs ! i) (ys ! i)"
      using assms(2)[of i] assms(1) i that by (auto simp: at_def vcompose_def vflip_def)
  qed
  ultimately show ?thesis by (simp add: at_def)
qed

lemma subst_at:
  assumes "\<forall>e \<in> rows t. s1 e = None \<and> s2 e = None"
    "\<forall>v \<in> vars t. at T R (occurrence T v t pol) (subst_vars s1 (TyVar v)) (subst_vars s2 (TyVar v))"
  shows "at T R pol (subst_vars s1 t) (subst_vars s2 t)"
  using assms
proof (induction t arbitrary: pol)
  case (TyVar n)
  then show ?case by simp
next
  case (TyFun a b)
  have j: "at T R (occurrence T v a (vflip pol)) (subst_vars s1 (TyVar v)) (subst_vars s2 (TyVar v))"
    "at T R (occurrence T v b pol) (subst_vars s1 (TyVar v)) (subst_vars s2 (TyVar v))" if "v \<in> vars a \<union> vars b" for v
  proof -
    have "at T R (vjoin (occurrence T v a (vflip pol)) (occurrence T v b pol)) (subst_vars s1 (TyVar v)) (subst_vars s2 (TyVar v))"
      using TyFun.prems(2) that by (simp del: subst_vars.simps)
    then show "at T R (occurrence T v a (vflip pol)) (subst_vars s1 (TyVar v)) (subst_vars s2 (TyVar v))"
      "at T R (occurrence T v b pol) (subst_vars s1 (TyVar v)) (subst_vars s2 (TyVar v))"
      by (rule at_mono[OF vjoin_upper(1)], rule at_mono[OF vjoin_upper(2)])
  qed
  show ?case unfolding subst_vars.simps(2)
    by (rule at_Fun) (rule TyFun.IH; use TyFun.prems(1) j in \<open>simp del: subst_vars.simps\<close>)+
next
  case (TyApp n args)
  show ?case
  proof (cases "pol = Bi")
    case False
    let ?p = "\<lambda>i. param_variance T n i (length args)"
    have "at T R (vcompose pol (?p i)) (subst_vars s1 (args ! i)) (subst_vars s2 (args ! i))" if i: "i < length args" for i
    proof (cases "?p i = Bi")
      case True
      then show ?thesis by (simp add: at_def)
    next
      case p: False
      have pos: "vcompose pol (?p i) \<noteq> Bi" using False p by (cases pol; cases "?p i") (simp_all add: variance_defs)
      have mem: "args ! i \<in> set args" using i by simp
      show ?thesis
      proof (rule TyApp.IH[OF mem])
        show "\<forall>e \<in> rows (args ! i). s1 e = None \<and> s2 e = None" using TyApp.prems(1) mem by auto
        show "\<forall>v \<in> vars (args ! i). at T R (occurrence T v (args ! i) (vcompose pol (?p i)))
            (subst_vars s1 (TyVar v)) (subst_vars s2 (TyVar v))"
        proof
          fix v assume "v \<in> vars (args ! i)"
          then have "v \<in> vars (TyApp n args)" using mem by auto
          with TyApp.prems(2) have "at T R (occurrence T v (TyApp n args) pol) (subst_vars s1 (TyVar v)) (subst_vars s2 (TyVar v))"
            by blast
          from at_joins[OF this[unfolded occurrence_App]] i
          have "at T R (arg_occurrence pol (?p i) (occurrence T v (args ! i) Co)) (subst_vars s1 (TyVar v)) (subst_vars s2 (TyVar v))"
            by simp
          from at_arg[OF this False p] show "at T R (occurrence T v (args ! i) (vcompose pol (?p i)))
              (subst_vars s1 (TyVar v)) (subst_vars s2 (TyVar v))"
            unfolding occurrence_pol[OF pos] .
        qed
      qed
    qed
    then have "at T R pol (TyApp n (map (subst_vars s1) args)) (TyApp n (map (subst_vars s2) args))"
      by (intro at_App) simp_all
    then show ?thesis by simp
  qed (simp add: at_def)
next
  case (TyRecord fs ext)
  have f: "at T R pol (subst_vars s1 (snd p)) (subst_vars s2 (snd p))" if p: "p \<in> set fs" for p
  proof (rule TyRecord.IH[OF p])
    show "snd p \<in> Basic_BNFs.snds p" by (simp add: snds.simps)
    show "\<forall>e \<in> rows (snd p). s1 e = None \<and> s2 e = None" using TyRecord.prems(1) p by auto
    show "\<forall>v \<in> vars (snd p). at T R (occurrence T v (snd p) pol) (subst_vars s1 (TyVar v)) (subst_vars s2 (TyVar v))"
    proof
      fix v assume "v \<in> vars (snd p)"
      then have "v \<in> vars (TyRecord fs ext)" using p by auto
      with TyRecord.prems(2) have "at T R (occurrence T v (TyRecord fs ext) pol) (subst_vars s1 (TyVar v)) (subst_vars s2 (TyVar v))"
        by blast
      from at_joins[OF this[unfolded occurrence_Record]] p
      show "at T R (occurrence T v (snd p) pol) (subst_vars s1 (TyVar v)) (subst_vars s2 (TyVar v))" by blast
    qed
  qed
  have ext: "subst_row gs ext s = TyRecord gs ext" if "s = s1 \<or> s = s2" for gs s
    using TyRecord.prems(1) that by (auto simp: subst_row_def split: option.split)
  have "vsub T R (TyRecord (map (map_prod id (subst_vars s)) fs) ext) (TyRecord (map (map_prod id (subst_vars s')) fs) ext)"
    if "\<And>p. p \<in> set fs \<Longrightarrow> vsub T R (subst_vars s (snd p)) (subst_vars s' (snd p))" for s s'
    by (rule vsub.rec) (use that in \<open>simp_all add: comp_def\<close>)
  with f show ?case by (simp add: ext at_def)
next
  case (TyTuple xs)
  have f: "at T R pol (subst_vars s1 x) (subst_vars s2 x)" if x: "x \<in> set xs" for x
  proof (rule TyTuple.IH[OF x])
    show "\<forall>e \<in> rows x. s1 e = None \<and> s2 e = None" using TyTuple.prems(1) x by auto
    show "\<forall>v \<in> vars x. at T R (occurrence T v x pol) (subst_vars s1 (TyVar v)) (subst_vars s2 (TyVar v))"
    proof
      fix v assume "v \<in> vars x"
      then have "v \<in> vars (TyTuple xs)" using x by auto
      with TyTuple.prems(2) have "at T R (occurrence T v (TyTuple xs) pol) (subst_vars s1 (TyVar v)) (subst_vars s2 (TyVar v))"
        by blast
      from at_joins[OF this[unfolded occurrence_Tuple]] x
      show "at T R (occurrence T v x pol) (subst_vars s1 (TyVar v)) (subst_vars s2 (TyVar v))" by blast
    qed
  qed
  have "vsub T R (TyTuple (map (subst_vars s) xs)) (TyTuple (map (subst_vars s') xs))"
    if "\<And>x. x \<in> set xs \<Longrightarrow> vsub T R (subst_vars s x) (subst_vars s' x)" for s s'
    by (rule vsub.tup) (use that in simp_all)
  with f show ?case by (simp add: at_def)
qed (auto simp: at_def intro: vsub.same)

section \<open>Properties\<close>

lemma keys_add_ctor: "distinct (map fst unions) \<Longrightarrow> distinct (map fst (add_ctor b t unions))"
  by (auto simp: add_ctor_def Let_def distinct_update split: prod.splits ty.splits)

lemma keys_collect: "distinct (map fst (collect_unions module_of ctors))"
proof -
  have "distinct (map fst us) \<Longrightarrow> distinct (map fst (foldl (\<lambda>unions (d, s). add_ctor (ctor_stdlib module_of d) (sc_ty s) unions) us cs))"
    for us cs by (induction cs arbitrary: us) (auto simp: keys_add_ctor)
  from this[of "[]"] show ?thesis by (simp add: collect_unions_def)
qed

lemma users: "distinct (map fst (user_unions (collect_unions module_of ctors)))"
  "(name, u) \<in> set (user_unions unions) \<longleftrightarrow> (name, u) \<in> set unions \<and> is_user_union name u"
proof -
  have "distinct (map fst (filter P (collect_unions module_of ctors)))" for P
    using keys_collect by (rule distinct_map_filter)
  then show "distinct (map fst (user_unions (collect_unions module_of ctors)))"
    unfolding user_unions_def by (simp add: distinct_map)
qed (auto simp: user_unions_def)

lemma seed_ascending: "ascending (user_unions (collect_unions module_of ctors)) (seed_table (collect_unions module_of ctors))"
proof -
  let ?us = "collect_unions module_of ctors"
  have "\<exists>vs. seed_table ?us name = Some vs \<and> list_all2 vle vs (union_variances (seed_table ?us) u)"
    if "(name, u) \<in> set (user_unions ?us)" for name u
  proof -
    have mem: "(name, u) \<in> set ?us" "is_user_union name u" using that users(2) by blast+
    have keys: "map fst (map (\<lambda>(name, u). (name, replicate (length (un_params u)) (seed_variance name u))) ?us) = map fst ?us"
      by (simp add: comp_def case_prod_beta)
    have "seed_table ?us name = Some (replicate (length (un_params u)) (seed_variance name u))"
      unfolding seed_table_def
    proof (rule map_of_is_SomeI)
      show "distinct (map fst (map (\<lambda>(name, u). (name, replicate (length (un_params u)) (seed_variance name u))) ?us))"
        unfolding keys by (rule keys_collect)
    qed (use mem(1) in force)
    moreover have "seed_variance name u = Bi" using mem(2) by (simp add: seed_variance_def is_user_union_def)
    ultimately show ?thesis by (simp add: union_variances_def list_all2_conv_all_nth)
  qed
  then show ?thesis unfolding ascending_def by blast
qed

lemma pretty_names_total: "\<exists>m. pretty_names kept ns counter m0 = Some m"
proof (induction kept ns counter m0 rule: pretty_names.induct)
  case (2 kept n ns counter m)
  obtain i where "first_unused (Suc (length kept)) display_var_name kept counter = Some i"
    using first_unused_found[OF inj_display_var_name] by blast
  then show ?case using 2(1) 2(2)[OF _ \<open>first_unused _ _ _ _ = _\<close>] by (cases "is_internal_var n") (simp_all only: pretty_names.simps if_True if_False not_True_eq_False not_False_eq_True option.case)
qed simp

lemma build_stable: "\<exists>T. build_variances module_of ctors = Some T \<and>
    (\<forall>(name, u) \<in> set (user_unions (collect_unions module_of ctors)). T name = Some (union_variances T u))"
proof -
  let ?us = "user_unions (collect_unions module_of ctors)"
  have "\<exists>T. variance_loop (variance_fuel ?us) ?us (seed_table (collect_unions module_of ctors)) = Some T \<and>
      table_le (seed_table (collect_unions module_of ctors)) T \<and> (\<forall>(name, u) \<in> set ?us. T name = Some (union_variances T u))"
    by (rule loop_stable[OF users(1) seed_ascending]) simp
  then show ?thesis by (auto simp: build_variances_def Let_def)
qed

lemma violations_total: "\<exists>shown vs. violations module_of ctors t reached = Some (shown, vs)"
proof -
  obtain T where "build_variances module_of ctors = Some T" using build_stable by blast
  moreover obtain shown names where "prettify t = Some (shown, names)"
  proof -
    from pretty_names_total[of "filter (\<lambda>n. \<not> is_internal_var n) (free_vars t)" "free_vars t" 0 Map.empty]
    show ?thesis by (auto simp: prettify_def Let_def intro: that)
  qed
  ultimately show ?thesis by (simp add: violations_def Let_def)
qed

text \<open>C27: the variances of user unions are computed to the end: the loop stops within two passes per
  parameter, and in the table it returns every user union, mutually recursive ones included, has for each parameter
  exactly the join of its occurrences in the union's constructor arguments under that same table.\<close>

theorem variance_fixpoint:
  "\<exists>T. build_variances module_of ctors = Some T \<and>
    list_all (\<lambda>(name, u). T name = Some (union_variances T u)) (user_unions (collect_unions module_of ctors))"
  using build_stable[of module_of ctors] by (simp add: list_all_iff)

text \<open>C28: generalising is safe: a variable that passes the relaxed value restriction in a type only moves
  the type up when it moves up, in every subtype relation with the variances of the table, so a shared value can be
  read at every instance and never written at one.\<close>

theorem generalisable_sound:
  assumes "generalisable (occurrence T v t Co)" "v \<notin> rows t" "R a b"
  shows "vsub T R (subst_vars [v \<mapsto> a] t) (subst_vars [v \<mapsto> b] t)"
proof -
  have "at T R Co (subst_vars [v \<mapsto> a] t) (subst_vars [v \<mapsto> b] t)"
  proof (rule subst_at)
    show "\<forall>w \<in> vars t. at T R (occurrence T w t Co) (subst_vars [v \<mapsto> a] (TyVar w)) (subst_vars [v \<mapsto> b] (TyVar w))"
      using assms(1,3) by (auto simp: at_def generalisable_def intro: vsub.same vsub.base)
  qed (use assms(2) in auto)
  then show ?thesis by (simp add: at_def)
qed

theorem generalisable_sound_witness:
  "vsub Map.empty (\<lambda>_ _. True) (TyFun (TyFun TyUnit TyUnit) (TyApp ''List'' [TyUnit]))
     (TyFun (TyFun TyError TyUnit) (TyApp ''List'' [TyError]))"
proof -
  let ?t = "TyFun (TyFun (TyVar ''a'') TyUnit) (TyApp ''List'' [TyVar ''a''])"
  have "vsub Map.empty (\<lambda>_ _. True) (subst_vars [''a'' \<mapsto> TyUnit] ?t) (subst_vars [''a'' \<mapsto> TyError] ?t)"
    by (rule generalisable_sound)
      (simp_all add: generalisable_def variance_defs param_variance_def COVARIANT_STDLIB_def)
  then show ?thesis by simp
qed

text \<open>C29: opening a user union is safe: when two instances of the union are related by the variances the table
  gives its parameters, so are the corresponding instances of each constructor argument, so that a union
  hides no position its variances do not show.\<close>

theorem union_arguments_follow:
  assumes "build_variances module_of ctors = Some T" "(name, u) \<in> set (user_unions (collect_unions module_of ctors))"
    "t \<in> set (un_args u)" "distinct (un_params u)" "rows t \<inter> set (un_params u) = {}"
    "length xs = length (un_params u)" "length ys = length (un_params u)"
    "\<forall>i < length xs. at T R (param_variance T name i (length xs)) (xs ! i) (ys ! i)"
  shows "vsub T R (subst_vars (map_of (zip (un_params u) xs)) t) (subst_vars (map_of (zip (un_params u) ys)) t)"
proof -
  obtain T' where "build_variances module_of ctors = Some T'"
    "list_all (\<lambda>(name, u). T' name = Some (union_variances T' u)) (user_unions (collect_unions module_of ctors))"
    using build_stable[of module_of ctors] by (auto simp: list_all_iff)
  with assms(1,2) have T: "T name = Some (union_variances T u)" by (auto simp: list_all_iff)
  have user: "name \<notin> set COVARIANT_STDLIB" using users(2) assms(2) by (auto simp: is_user_union_def)
  let ?ps = "un_params u"
  have "at T R (occurrence T v t Co) (subst_vars (map_of (zip ?ps xs)) (TyVar v)) (subst_vars (map_of (zip ?ps ys)) (TyVar v))" for v
  proof (cases "v \<in> set ?ps")
    case True
    then obtain i where i: "i < length ?ps" "?ps ! i = v" by (metis in_set_conv_nth)
    have s: "map_of (zip ?ps zs) v = Some (zs ! i)" if "length zs = length ?ps" for zs
      using map_of_zip_nth[of ?ps zs i] that assms(4) i by simp
    have "vle (occurrence T v t Co) (joins_of (\<lambda>a. occurrence T v a Co) Bi (un_args u))"
      using joins_upper[of Bi "\<lambda>a. occurrence T v a Co" "un_args u"] assms(3) by blast
    moreover have "param_variance T name i (length xs) = joins_of (\<lambda>a. occurrence T v a Co) Bi (un_args u)"
      using T user i assms(6) by (simp add: param_variance_def union_variances_def)
    ultimately have "at T R (occurrence T v t Co) (xs ! i) (ys ! i)"
      using at_mono assms(8) i(1) assms(6) by metis
    then show ?thesis using s[OF assms(6)] s[OF assms(7)] by simp
  next
    case False
    then have "map_of (zip ?ps zs) v = None" for zs :: "ty list" by (auto simp: map_of_eq_None_iff dest: set_zip_leftD)
    then show ?thesis by (simp add: at_def vsub.same)
  qed
  moreover have "map_of (zip ?ps zs) e = None" if "e \<in> rows t" for e zs
    using that assms(5) by (auto simp: map_of_eq_None_iff dest: set_zip_leftD)
  ultimately have "at T R Co (subst_vars (map_of (zip ?ps xs)) t) (subst_vars (map_of (zip ?ps ys)) t)"
    by (intro subst_at) auto
  then show ?thesis by (simp add: at_def)
qed

theorem union_arguments_follow_witness:
  "\<exists>T. build_variances (\<lambda>_. Some ''Main'') [(0, \<lparr>sc_vars = [''a''],
      sc_ty = TyFun (TyFun (TyVar ''a'') TyUnit) (TyApp ''Handler'' [TyVar ''a''])\<rparr>)] = Some T \<and>
    vsub T (\<lambda>s t. s = TyError \<and> t = TyUnit) (TyFun TyUnit TyUnit) (TyFun TyError TyUnit)"
proof -
  let ?m = "\<lambda>_ :: nat. Some ''Main''" and ?R = "\<lambda>s t. s = TyError \<and> t = TyUnit"
  let ?ctors = "[(0, \<lparr>sc_vars = [''a''], sc_ty = TyFun (TyFun (TyVar ''a'') TyUnit) (TyApp ''Handler'' [TyVar ''a''])\<rparr>)] :: (nat \<times> scheme) list"
  let ?u = "\<lparr>un_params = [''a''], un_args = [TyFun (TyVar ''a'') TyUnit], un_stdlib = False\<rparr>"
  obtain T where T: "build_variances ?m ?ctors = Some T"
    "list_all (\<lambda>(name, u). T name = Some (union_variances T u)) (user_unions (collect_unions ?m ?ctors))"
    using variance_fixpoint by blast
  have us: "user_unions (collect_unions ?m ?ctors) = [(''Handler'', ?u)]" by code_simp
  have "param_variance T ''Handler'' 0 1 = Contra"
    using T(2) unfolding us by (simp add: param_variance_def COVARIANT_STDLIB_def union_variances_def variance_defs)
  then have "vsub T ?R (subst_vars (map_of (zip (un_params ?u) [TyUnit])) (TyFun (TyVar ''a'') TyUnit))
      (subst_vars (map_of (zip (un_params ?u) [TyError])) (TyFun (TyVar ''a'') TyUnit))"
    by (intro union_arguments_follow[OF T(1), of "''Handler''"]) (simp_all add: us at_def vsub.base)
  with T(1) show ?thesis by auto
qed

end
