(* ===== verification/Spec2Isabelle.thy ===== *)
theory Spec2Isabelle
  imports Go_Shape Go_Emit_Ok Plist_Ok Pool_Sizing Build_Plan Parse Kind_Class Sha256 Value_Cycle Exhaustive Re2_Syntax Nominal Unify_Fuel Unify_Ground Dict_Key Variance_Ok
begin

text \<open>
  A verification library for the Sky compiler (\<open>src/rust/crates\<close>). The compiler is a pipeline. The
  crate \<open>syntax\<close> lexes a file, drops its trivia in the layout pass, runs a hand-written recursive
  descent parser with error recovery over the tokens and replays the parser's events into a lossless
  tree. The crate \<open>hir\<close> resolves the tree to bodies, \<open>ty\<close> infers and checks types, \<open>lower\<close> and
  \<open>codegen\<close> emit Go, and \<open>project\<close> and \<open>sky\<close> drive the build. Modelled here are the front end from
  bytes to tree, and of the later phases the self-contained algorithms whose failure would accept or
  reject the wrong program. All file names below are relative to \<open>src/rust/crates\<close>.

  \<^bold>\<open>The front end\<close> (\<open>syntax\<close>). \<open>Syntax_Kind\<close> is \<open>kind.rs\<close> (the kinds, their codes and classes) and
  \<open>Kind_Class\<close> is \<open>kind_class.rs\<close> with its totality gate. \<open>Lexer\<close> is \<open>lexer.rs\<close>: the callbacks,
  the splitting of words and the token loop; the generated scanner is a parameter with the contract
  \<open>logos_engine\<close>. \<open>Layout\<close> is \<open>layout.rs\<close>. \<open>Parser_Core\<close> is the parser state of \<open>parser.rs\<close> and every
  operation on it, as functions in the state monad \<open>pm\<close>; \<open>Units\<close> is \<open>lexical_units\<close>. \<open>Parser_Rules\<close> is a calculus
  of judgements: what a production keeps of the state, one rule per operation. \<open>Grammar_Types\<close>,
  \<open>Grammar_Expr\<close>, \<open>Grammar_Decl\<close> and \<open>Source_File\<close> are the productions of \<open>grammar.rs\<close>, in its
  order; \<open>Interp\<close> is \<open>interp.rs\<close> (interpolation inside multiline strings, which runs the lexer and
  the expression parser again on a slice). \<open>Event\<close> is \<open>event.rs\<close>: the events and the sink \<open>build_tree\<close>, over the
  tree builder \<open>green_builder\<close>. \<open>Explain\<close> is the part of \<open>lib.rs\<close> that rewrites a unit's one error,
  \<open>Diagnostics\<close> the values of \<open>diagnostics/src/lib.rs\<close>, and \<open>Parse\<close> is \<open>parse\<close> and \<open>Parse::reprint\<close>.

  \<^bold>\<open>Names and bodies\<close>. \<open>Base\<close> is the interner and the Go string literals of \<open>base/src/lib.rs\<close>; \<open>Hir\<close> is
  the arena of a body (\<open>hir/src/hir.rs\<close>, \<open>ids.rs\<close>); \<open>Scc\<close> and \<open>Value_Cycle\<close> are Tarjan's algorithm, the shortest
  cycle and the check E1018 of \<open>hir/src/value_cycle.rs\<close>. \<open>Sha256\<close> is \<open>project/src/sha256.rs\<close>.

  \<^bold>\<open>Types\<close> (\<open>ty\<close>). \<open>Ty\<close> is the canonical types of \<open>lib.rs\<close> (substitution, free variables, rendering), \<open>Nominal\<close>
  is \<open>nominal.rs\<close>, \<open>Super_Type\<close> is the bounds of \<open>unify.rs\<close>, \<open>Union_Find\<close> its store, \<open>Unify_Text\<close> its
  messages and \<open>Unify\<close> the occurs check, the bounds check, rows and unification; \<open>Unify_Ground\<close> is
  its fast path for ground types. \<open>Ty_Table\<close> is \<open>tytable.rs\<close>, \<open>Dict_Key\<close> is \<open>dictkey.rs\<close>, \<open>Variance\<close> is
  \<open>variance.rs\<close>, \<open>Exhaustive\<close> is \<open>exhaustive.rs\<close> and \<open>Re2_Syntax\<close> is \<open>re2_syntax.rs\<close>.

  \<^bold>\<open>Conventions\<close>. A Rust \<open>str\<close> is the list of its bytes. A \<open>u16\<close>, \<open>u32\<close> or \<open>u64\<close> whose wrap-around matters
  (the raw kinds, the token masks, the epochs of the occurs check, SHA-256) is a word; an index is a
  natural number, and where the code converts it to 32 bits the model fails. The columns of the layout pass wrap at 32 bits as
  in a release build, and do not below 1 GiB (\<open>layout_no_overflow\<close>). A panic, an index out of range and a failed \<open>expect\<close> are \<open>None\<close>
  or a fault in the state, so that a theorem that says \<open>Some\<close> also says that the code does not panic. \<open>&mut\<close> parameters are passed and
  returned. The \<open>ensure_stack\<close> guards, counters of work and debug assertions are left out.

  \<^bold>\<open>What the lemmas show\<close>. \<open>Parser_Rules\<close> and the lemmas \<open>*_ok\<close> of the grammar carry one invariant through
  every production; the properties of the front end (a parse returns, loses nothing, reports at most one error
  per unit, a clean parse has no error node) are its consequences. \<open>Event\<close> relates the chain of start
  events with forward parents to balanced builder calls. \<open>Union_Find\<close> and \<open>Unify_Ok\<close> keep one invariant (links
  end, ranks grow, contents point into the store) through every operation and every run of unification, whatever the fuel;
  \<open>Unify_Fuel\<close> shows that an outcome does not depend on the fuel. \<open>Scc\<close> proves Tarjan's algorithm against reachability;
  \<open>Exhaustive\<close>, \<open>Dict_Key\<close>, \<open>Unify_Ground\<close> and \<open>Value_Cycle\<close> compare a scan with the
  specification it computes; \<open>Variance_Ok\<close> gives variances their meaning as a subtype relation.

  \<^bold>\<open>Fuel\<close>. The parser's loops and recursions run on the number of tokens (\<open>loop_fuel\<close>, \<open>token_fuel\<close>) and the recursive
  productions on the depth limit of the code as well; \<open>parse_lossless\<close> and \<open>source_file_ends\<close> say that it never runs
  out. The variance fixpoint gets two passes per parameter and one more (\<open>variance_fixpoint\<close>). A walk over a body gets the index of its root, because children precede
  parents in the arena (\<open>walk_complete\<close>). The memoised key scan gets the index of its reference.
  Unification is different: its recursion need not end on cyclic graphs, and \<open>comparable_self_list_diverges\<close>
  is a call that never returns, so its theorems hold for every fuel and every outcome.

  \<^bold>\<open>Native shells and planning\<close> (\<open>sky\<close>, \<open>project\<close>). \<open>Rust_Text\<close> holds the operations of the standard library on texts of scalar
  values. \<open>Xml_Mini\<close> is \<open>sky/src/xmlmini.rs\<close> (reader and writer; the reader's fuel is the length of the source and one, which
  \<open>parse_nodes_total\<close> shows is enough), \<open>Plist\<close> is \<open>sky/src/plist.rs\<close> and \<open>Plist_Ok\<close> specifies its merge of layers: precedence,
  refused conflicts and agreement. \<open>Pool_Sizing\<close> is \<open>sky/src/db_pool_sizing.rs\<close> on 32-bit words. \<open>Build_Plan\<close> is the memory
  plan of a build: \<open>project/src/memory.rs\<close>, \<open>project/src/go_jobs.rs\<close>, \<open>sky/src/leg_plan.rs\<close> and the levels of
  \<open>sky/src/precompress.rs\<close>, with \<open>u64\<close> values as naturals that saturate or wrap where the code does.

  \<^bold>\<open>The back end\<close> (\<open>lower\<close>, \<open>codegen\<close>). \<open>Go_Ir\<close> is the IR of \<open>lower/src/ir.rs\<close>, \<open>Go_Shape\<close> the pass of
  \<open>lower/src/shape.rs\<close> that splices closures called on the spot, and \<open>Go_Emit\<close> the writer of \<open>codegen/src/lib.rs\<close>.
  \<open>Go_Semantics\<close> is not code of the repository: it gives the IR a meaning, over the parameters \<open>go_ops\<close> for the values, operators, calls
  and conversions of Go, so that the pass can be shown to keep it; its loops that never end have the outcome that says so. \<open>Go_Emit_Ok\<close> scans the
  emitted text for matching brackets and closed literals.
  \<^bold>\<open>Not modelled\<close>. Inference, signatures and the driver of the checks (\<open>ty/src/infer.rs\<close>, \<open>sig.rs\<close>, \<open>check.rs\<close>), name resolution
  (\<open>hir/src/resolve.rs\<close>) and lowering (\<open>lower/src/lower.rs\<close>): they work on the whole query database and are left to later work. The
  crates \<open>project\<close>, \<open>sky\<close>, \<open>ffi\<close>, \<open>testrunner\<close>, \<open>sky-lsp\<close> and \<open>xtask\<close> are mostly processes, files, sockets and
  external tools (Go, PostgreSQL), or test harnesses. The scanner generated by \<open>logos\<close> and the tree library \<open>rowan\<close> are not in the
  repository: they are parameters, with reference instances that show that their contracts can be met.
\<close>

section \<open>The whole front end\<close>



text \<open>C2: A parse without diagnostics has no error nodes: if \<open>parse\<close> reports nothing, the grammar
  structured every construct, also inside interpolations, and the tree has no \<open>Error\<close> node that a
  later phase could meet unreported. The explanation step cannot hide an error: the list is empty
  only if the grammar recorded none.\<close>

theorem parse_clean_tree:
  assumes "logos_engine u scan" "green_builder rowan" "length src < 2 ^ 32"
    and "parse u scan rowan src fid = Some r" "pr_errors r = []"
  shows "error_node_count r = 0"
proof -
  have env: "parser_env u scan rowan" by (rule parser_env.intro[OF assms(1,2)])
  let ?ex = "Interp.expr u scan rowan"
  obtain raw r' where r': "tiles 0 raw (length src)" "parse u scan rowan src fid = Some r'"
    "let toks = layout src raw; fin = run_grammar ?ex src toks fid in
       explain_errors ?ex src toks fid (fin_diags fin) (fin_sites fin) (fin_units fin) = Some (pr_errors r')"
    "fin_sites (run_grammar ?ex src (layout src raw) fid) = [] \<longrightarrow> Error \<notin> set (green_kinds (pr_green r'))"
    by (rule parser_env.parse_total[OF env assms(3), of fid])
  note sites = parser_env.run_sites[OF env toks_in_layout[OF r'(1)] assms(3), of fid]
  have "fin_sites (run_grammar ?ex src (layout src raw) fid) = []"
    using r'(2,3) assms(4,5) explain_errors_empty(1)[OF sites(1,2)] by (simp add: Let_def)
  with r'(2,4) assms(4) have "Error \<notin> set (green_kinds (pr_green r))" by simp
  then show ?thesis by (auto simp: error_node_count_def filter_empty_conv)
qed

lemma empty_parse:
  "\<exists>r. parse ascii_unicode (ref_scan ascii_unicode) ref_rowan [] 0 = Some r \<and> pr_errors r = []"
proof -
  let ?ex = "Interp.expr ascii_unicode (ref_scan ascii_unicode) ref_rowan"
  have l: "length ([] :: string) < 2 ^ 32" by simp
  obtain raw r where raw: "lex ascii_unicode (ref_scan ascii_unicode) [] = Some raw"
    "parse ascii_unicode (ref_scan ascii_unicode) ref_rowan [] 0 = Some r"
    "let toks = layout [] raw; fin = run_grammar ?ex [] toks 0 in
       explain_errors ?ex [] toks 0 (fin_diags fin) (fin_sites fin) (fin_units fin) = Some (pr_errors r)"
    by (rule ref_env.parse_total[OF l, of 0])
  from raw(1) have "raw = []" by (simp add: lex_def)
  then have "fin_sites (run_grammar ?ex [] (layout [] raw) 0) = []"
    by (simp add: layout_def run_grammar_def new_file_def trial_faults_def Parser_Core.finish_def empty_run with_units_def
        nth_opt_def lexical_units_def)
  moreover have t: "toks_in [] (layout [] raw)" using \<open>raw = []\<close> by (simp add: toks_in_def layout_def)
  note explain_errors_empty(1)[OF ref_env.run_sites(1,2)[OF t l, of 0]]
  ultimately show ?thesis using raw(2,3) by (simp add: Let_def)
qed

theorem parse_clean_tree_witness:
  "\<exists>r. parse ascii_unicode (ref_scan ascii_unicode) ref_rowan [] 0 = Some r \<and> error_node_count r = 0"
proof -
  obtain r where r: "parse ascii_unicode (ref_scan ascii_unicode) ref_rowan [] 0 = Some r" "pr_errors r = []"
    using empty_parse by blast
  have l: "length ([] :: string) < 2 ^ 32" by simp
  from parse_clean_tree[OF ref_logos_engine ref_builder.green_builder_axioms l r] r(1) show ?thesis by blast
qed



text \<open>C4: The diagnostic budget. A run over any tokens reports at most one error per lexical unit, in
  increasing order of the units, each at a token of its own unit (or at the unit's end), with the
  diagnostics numbered in that order. An error in one declaration never hides an error in another.\<close>

theorem one_error_per_unit:
  fixes fid :: nat
  assumes "logos_engine u scan" "green_builder rowan" "toks_in src toks" "length src < 2 ^ 32"
  defines "fin \<equiv> run_grammar (Interp.expr u scan rowan) src toks fid"
  shows "sorted_wrt (<) (map es_unit (fin_sites fin)) \<and>
    length (fin_sites fin) \<le> length (fin_units fin) \<and>
    list_all (site_ok (fin_units fin) (length toks)) (fin_sites fin) \<and>
    map es_diag (fin_sites fin) = [0..<length (fin_diags fin)]"
proof -
  have env: "parser_env u scan rowan" by (rule parser_env.intro[OF assms(1,2)])
  note r = parser_env.run_sites[OF env assms(3,4), of fid]
  from r parser_env.run_sites_units[OF env assms(3,4), of fid] show ?thesis
    by (simp add: fin_def list_all_iff)
qed

theorem one_error_per_unit_witness:
  "length (fin_sites (run_grammar (Interp.expr ascii_unicode (ref_scan ascii_unicode) ref_rowan)
     ''}}'' [\<lparr>pt_kind = RBrace, pt_start = 0, pt_end = 1, pt_newline_before = False, pt_col = 1,
       pt_ws_before = False\<rparr>, \<lparr>pt_kind = RBrace, pt_start = 1, pt_end = 2, pt_newline_before = False,
       pt_col = 2, pt_ws_before = False\<rparr>] 0)) \<le> 1"
proof -
  let ?toks = "[\<lparr>pt_kind = RBrace, pt_start = 0, pt_end = 1, pt_newline_before = False, pt_col = 1,
       pt_ws_before = False\<rparr>, \<lparr>pt_kind = RBrace, pt_start = 1, pt_end = 2, pt_newline_before = False,
       pt_col = 2, pt_ws_before = False\<rparr>]"
  let ?ex = "Interp.expr ascii_unicode (ref_scan ascii_unicode) ref_rowan"
  have t: "toks_in ''}}'' ?toks" by (simp add: toks_in_def)
  have "fin_units (run_grammar ?ex ''}}'' ?toks 0) = lexical_units ?ex ''}}'' ?toks 0"
    using ref_env.run_sites(4)[OF t, of 0] by simp
  also have "\<dots> = [0]" by (simp add: lexical_units_def unit_step_def last_opt_def upt_rec)
  finally show ?thesis
    using one_error_per_unit[OF ref_logos_engine ref_builder.green_builder_axioms t, of 0] by simp
qed

text \<open>C5: What \<open>parse\<close> reports. It reports at least one error exactly when the grammar recorded one, and
  never more errors than there are lexical units: naming a misused reserved word and joining a
  line at column 1 to the definition above rewrite or merge errors, and never invent or lose the
  fact that there is one.\<close>

theorem parse_reports_errors:
  fixes fid :: nat
  assumes "logos_engine u scan" "green_builder rowan" "length src < 2 ^ 32"
    and "parse u scan rowan src fid = Some r" "lex u scan src = Some raw"
  defines "fin \<equiv> run_grammar (Interp.expr u scan rowan) src (layout src raw) fid"
  shows "(pr_errors r = [] \<longleftrightarrow> fin_sites fin = []) \<and> length (pr_errors r) \<le> length (fin_units fin)"
proof -
  have env: "parser_env u scan rowan" by (rule parser_env.intro[OF assms(1,2)])
  let ?ex = "Interp.expr u scan rowan"
  obtain r' raw' where r': "lex u scan src = Some raw'" "tiles 0 raw' (length src)"
    "parse u scan rowan src fid = Some r'"
    "let toks = layout src raw'; fin = run_grammar ?ex src toks fid in
       explain_errors ?ex src toks fid (fin_diags fin) (fin_sites fin) (fin_units fin) = Some (pr_errors r')"
    by (rule parser_env.parse_total[OF env assms(3), of fid])
  have toks: "toks_in src (layout src raw)" using r'(1,2) assms(5) toks_in_layout by simp
  note sites = parser_env.run_sites[OF env toks assms(3), of fid]
  have errs: "explain_errors ?ex src (layout src raw) fid (fin_diags fin) (fin_sites fin) (fin_units fin) = Some (pr_errors r)"
    using r' assms(4,5) by (simp add: fin_def Let_def)
  note explained = explain_errors_empty[OF sites(1,2), folded fin_def, OF errs]
  have "length (fin_diags fin) = length (fin_sites fin)"
    using arg_cong[OF sites(1), of length] by (simp add: fin_def)
  moreover have "length (pr_errors r) \<le> length (fin_diags fin)"
    by (rule explained(2))
  moreover have "length (fin_sites fin) \<le> length (fin_units fin)"
    using parser_env.run_sites_units[OF env toks assms(3), of fid] sites(4) by (simp add: fin_def)
  moreover have "pr_errors r = [] \<longleftrightarrow> fin_sites fin = []"
    by (rule explained(1))
  ultimately show ?thesis by simp
qed

theorem parse_reports_errors_witness:
  "\<exists>r. parse ascii_unicode (ref_scan ascii_unicode) ref_rowan [] 0 = Some r \<and> length (pr_errors r) \<le> 0"
proof -
  obtain r where r: "parse ascii_unicode (ref_scan ascii_unicode) ref_rowan [] 0 = Some r" "pr_errors r = []"
    using empty_parse by blast
  have l: "length ([] :: string) < 2 ^ 32" by simp
  have lx: "lex ascii_unicode (ref_scan ascii_unicode) [] = Some []" by (simp add: lex_def)
  have "fin_units (run_grammar (Interp.expr ascii_unicode (ref_scan ascii_unicode) ref_rowan) [] (layout [] []) 0) = []"
    using ref_env.run_sites(4)[of "[]" "layout [] []" 0] l
    by (simp add: toks_in_def layout_def lexical_units_def)
  with parse_reports_errors[OF ref_logos_engine ref_builder.green_builder_axioms l r(1) lx] r(1)
  show ?thesis by auto
qed

end
